(* ===== verification/Prelude.thy ===== *)
theory Prelude
  imports Main "HOL-Library.Word"
begin

text \<open>
  The vocabulary every component of the development shares.

  \<^item> Bytes are \<open>8 word\<close>; a \<open>std::string\<close>, a \<open>std::deque<char>\<close> or a \<open>Buffer\<close> is a list of
    them.
  \<^item> \<open>size_t\<close> and \<open>uint64_t\<close> values are \<open>nat\<close>s below \<open>two64\<close>; the wrap-around of \<open>+\<close> and \<open>-\<close>
    is written out by \<open>add64\<close> and \<open>sub64\<close>. Sizes of containers are lengths. \<open>uint32_t\<close>,
    \<open>uint16_t\<close> and \<open>uint8_t\<close> values that the code treats bitwise are words of their width.
  \<^item> Operations that can run into undefined behaviour or throw return \<open>cpp_fault + 'a\<close>.
  \<^item> The locale \<open>guarded_system\<close> lifts a one-step invariant of a fallible component to every
    finite run; each stateful component interprets it.
\<close>

unbundle bit_operations_syntax

named_theorems arith64 "rules that remove the wrap-around of 64-bit arithmetic under bounds"
named_theorems fault_simps "rules that evaluate the fault monad"

type_synonym byte = "8 word"
type_synonym bytes = "byte list"
type_synonym size_t = nat
type_synonym uint64 = nat

section \<open>64-bit unsigned arithmetic\<close>

definition two64 :: nat where
  "two64 = 2 ^ 64"

definition add64 :: "nat \<Rightarrow> nat \<Rightarrow> nat" where
  "add64 a b = (a + b) mod two64"

definition sub64 :: "nat \<Rightarrow> nat \<Rightarrow> nat" where
  "sub64 a b = (a + (two64 - b mod two64)) mod two64"

lemma two64_pos [simp]: "0 < two64"
  by (simp add: two64_def)

lemma two64_gt_1 [simp]: "Suc 0 < two64"
  by (simp add: two64_def)

lemma two64_neq_0 [simp]: "two64 \<noteq> 0"
  by (simp add: two64_def)

lemma add64_small [arith64]: "a + b < two64 \<Longrightarrow> add64 a b = a + b"
  by (simp add: add64_def)

lemma add64_less [simp]: "add64 a b < two64"
  by (simp add: add64_def)

lemma sub64_less [simp]: "sub64 a b < two64"
  by (simp add: sub64_def)

lemma sub64_small [arith64]:
  assumes "b \<le> a" "a < two64"
  shows "sub64 a b = a - b"
proof -
  from assms have "a + (two64 - b mod two64) = (a - b) + two64" by simp
  then have "sub64 a b = (a - b) mod two64" unfolding sub64_def by (simp only: mod_add_self2)
  also have "\<dots> = a - b" using assms by simp
  finally show ?thesis .
qed

text \<open>Where the subtrahend is larger, the difference wraps to a value near \<open>2 ^ 64\<close>.\<close>

lemma sub64_wraps [arith64]:
  assumes "a < b" "b < two64"
  shows "sub64 a b = two64 - (b - a)"
proof -
  from assms have "a + (two64 - b mod two64) = two64 - (b - a)" by simp
  moreover from assms have "two64 - (b - a) < two64" by simp
  ultimately show ?thesis by (simp add: sub64_def)
qed

lemma add64_0 [simp]: "a < two64 \<Longrightarrow> add64 a 0 = a"
  by (simp add: add64_def)

lemma add64_assoc: "add64 (add64 a b) c = add64 a (b + c)"
  by (simp add: add64_def mod_add_left_eq add.assoc)

lemma add64_sub64:
  assumes "b \<le> two64" "c \<le> b"
  shows "add64 (add64 a c) (b - c) = add64 a b"
  using assms by (simp add: add64_assoc)

section \<open>Words read as natural numbers\<close>

lemma unat_ucast_mod: "unat (ucast w :: 'c::len word) = unat w mod 2 ^ LENGTH('c)"
  by (simp add: unsigned_ucast_eq take_bit_eq_mod)

lemma unat_drop_bit_div: "unat (drop_bit n w) = unat w div 2 ^ n" for w :: "'a::len word"
proof -
  have "unat w < 2 ^ LENGTH('a)" by (rule unsigned_less)
  then show ?thesis
    unfolding unsigned_drop_bit_eq by (simp add: drop_bit_eq_div take_bit_eq_mod)
qed

lemma unat_push_bit_mod: "unat (push_bit n w) = unat w * 2 ^ n mod 2 ^ LENGTH('a)" for w :: "'a::len word"
  unfolding unsigned_push_bit_eq by (simp add: push_bit_eq_mult take_bit_eq_mod)

lemma unat_and_mask_mod: "unat (take_bit n w) = unat w mod 2 ^ n" for w :: "'a::len word"
  unfolding unsigned_take_bit_eq by (simp add: take_bit_eq_mod)

lemma unat_compl: "unat (NOT w) = 2 ^ LENGTH('a) - 1 - unat w" for w :: "'a::len word"
proof -
  have "NOT w = - 1 - w" by (simp add: not_eq_complement)
  moreover have "w \<le> - 1" by (simp add: word_order.extremum)
  ultimately show ?thesis by (simp add: unat_sub unsigned_minus_1_eq_mask mask_eq_exp_minus_1)
qed

section \<open>Faults: exceptions and undefined behaviour as values\<close>

text \<open>
  The first three constructors are undefined behaviour of C++ (the program has no defined
  continuation), the others are exceptions: those the code throws, \<open>unix_error\<close> with the name of
  the failed system call and its \<open>errno\<close> and the errors of name resolution among them, and those of
  the standard library.
\<close>

datatype cpp_fault =
    UseAfterFree
  | PastEndAccess
  | EmptyFront
  | RuntimeError string
  | OutOfRangeError string
  | LengthError string
  | UnixError string int
  | InvalidArgument string
  | GaiError string int

type_synonym 'a result = "cpp_fault + 'a"

definition bind_result :: "'a result \<Rightarrow> ('a \<Rightarrow> 'b result) \<Rightarrow> 'b result" where
  "bind_result r f = (case r of Inl e \<Rightarrow> Inl e | Inr x \<Rightarrow> f x)"

lemma bind_result_simps [simp, fault_simps]:
  "bind_result (Inl e) f = Inl e"
  "bind_result (Inr x) f = f x"
  by (simp_all add: bind_result_def)

lemma bind_result_eq_Inr:
  "bind_result r f = Inr y \<longleftrightarrow> (\<exists>x. r = Inr x \<and> f x = Inr y)"
  by (cases r) auto

lemma bind_result_InrE:
  assumes "bind_result r f = Inr y"
  obtains x where "r = Inr x" "f x = Inr y"
  using assms by (auto simp: bind_result_eq_Inr)

lemma bind_result_assoc:
  "bind_result (bind_result r f) g = bind_result r (\<lambda>x. bind_result (f x) g)"
  by (cases r) auto

section \<open>Runs of a fallible step function\<close>

fun run :: "('s \<Rightarrow> 'e \<Rightarrow> 's result) \<Rightarrow> 's \<Rightarrow> 'e list \<Rightarrow> 's result" where
  "run step s [] = Inr s"
| "run step s (e # es) = bind_result (step s e) (\<lambda>s'. run step s' es)"

text \<open>
  \<open>allowed step ok s es\<close>: along the run, the environment keeps its side \<open>ok\<close> of the contract in
  each state it calls the component in.
\<close>

fun allowed :: "('s \<Rightarrow> 'e \<Rightarrow> 's result) \<Rightarrow> ('s \<Rightarrow> 'e \<Rightarrow> bool) \<Rightarrow> 's \<Rightarrow> 'e list \<Rightarrow> bool" where
  "allowed step ok s [] = True"
| "allowed step ok s (e # es) =
     (ok s e \<and> (case step s e of Inl _ \<Rightarrow> True | Inr s' \<Rightarrow> allowed step ok s' es))"

lemma run_append: "run step s (es @ fs) = bind_result (run step s es) (\<lambda>t. run step t fs)"
  by (induction es arbitrary: s) (auto simp: bind_result_assoc)

text \<open>
  A component with an invariant that speaks about its state and a ghost value (what the
  environment has done so far). The one-step law says that an allowed call neither faults nor
  breaks the invariant; the run law lifts it to every finite run.
\<close>

locale guarded_system =
  fixes step :: "'s \<Rightarrow> 'e \<Rightarrow> 's result"
    and invar :: "'g \<Rightarrow> 's \<Rightarrow> bool"
    and ghost :: "'g \<Rightarrow> 'e \<Rightarrow> 'g"
    and ok :: "'s \<Rightarrow> 'e \<Rightarrow> bool"
  assumes step_law: "invar g s \<Longrightarrow> ok s e \<Longrightarrow> \<exists>t. step s e = Inr t \<and> invar (ghost g e) t"
begin

lemma run_law:
  "invar g s \<Longrightarrow> allowed step ok s es \<Longrightarrow>
     \<exists>t. run step s es = Inr t \<and> invar (foldl ghost g es) t"
proof (induction es arbitrary: g s)
  case Nil
  then show ?case by simp
next
  case (Cons e es)
  from Cons.prems obtain t where "step s e = Inr t" "invar (ghost g e) t"
    using step_law [of g s e] by auto
  with Cons.prems Cons.IH [of "ghost g e" t] show ?case by auto
qed

lemma run_invar:
  assumes "invar g s" "allowed step ok s es" "run step s es = Inr t"
  shows "invar (foldl ghost g es) t"
  using run_law [OF assms(1,2)] assms(3) by simp

end

section \<open>Lists as memory regions\<close>

text \<open>\<open>string::replace(pos, n, s)\<close> and \<open>string::insert\<close> at an offset.\<close>

definition str_replace :: "'a list \<Rightarrow> nat \<Rightarrow> nat \<Rightarrow> 'a list \<Rightarrow> 'a list" where
  "str_replace s pos n t = take pos s @ t @ drop (pos + n) s"

lemma length_str_replace [simp]:
  "pos + n \<le> length s \<Longrightarrow> length t = n \<Longrightarrow> length (str_replace s pos n t) = length s"
  by (simp add: str_replace_def)

lemma nth_str_replace:
  assumes "pos + n \<le> length s" "length t = n" "k < length s"
  shows "str_replace s pos n t ! k = (if pos \<le> k \<and> k < pos + n then t ! (k - pos) else s ! k)"
  using assms by (auto simp: str_replace_def nth_append min_def)

lemma take_map_upt: "take n (map f [i..<j]) = map f [i..<min (i + n) j]"
  by (simp add: take_map min_def)

lemma map_upt_append:
  "i \<le> j \<Longrightarrow> j \<le> k \<Longrightarrow> map f [i..<j] @ map f [j..<k] = map f [i..<k]"
  using upt_add_eq_append [of i j "k - j"] by (simp flip: map_append)

end
