(* ===== verification/Byte_Stream.thy ===== *)
theory Byte_Stream
  imports Prelude
begin

text \<open>
  \<open>ByteStream\<close> (\<open>src/libsponge/byte_stream.hh\<close>, \<open>byte_stream.cc\<close>): the bounded in-memory byte queue
  between a writer and a reader. One definition per member function, in the order of the source;
  the stream's fields are the record's fields without the leading underscore.

  The locale \<open>byte_channel\<close> is the contract its clients (the reassembler, the TCP sender, the
  copy loops) rely on: what a write accepts, what a peek shows and what a pop removes. The FIFO
  theorem is proved once inside it and reaches \<open>ByteStream\<close> by interpretation.
\<close>

section \<open>State and operations\<close>

record ByteStream =
  bs_buf :: bytes
  bs_capacity :: size_t
  bs_size :: size_t
  bs_isInputEnd :: bool
  bs_num_bytes_written :: size_t
  bs_num_bytes_read :: size_t
  bs_error :: bool

definition ByteStream_new :: "size_t \<Rightarrow> ByteStream" where
  "ByteStream_new capacity =
     \<lparr>bs_buf = [], bs_capacity = capacity, bs_size = 0, bs_isInputEnd = False,
      bs_num_bytes_written = 0, bs_num_bytes_read = 0, bs_error = False\<rparr>"

text \<open>\<open>_buf.insert(_buf.begin() + _size, ...)\<close> inserts at offset \<open>_size\<close>.\<close>

definition ByteStream_write :: "ByteStream \<Rightarrow> bytes \<Rightarrow> size_t \<times> ByteStream" where
  "ByteStream_write s data =
     (if bs_isInputEnd s \<or> bs_capacity s = bs_size s then (0, s)
      else
        let toWrite = min (sub64 (bs_capacity s) (bs_size s)) (length data)
        in (toWrite,
            s\<lparr>bs_buf := take (bs_size s) (bs_buf s) @ take toWrite data @ drop (bs_size s) (bs_buf s),
              bs_size := add64 (bs_size s) toWrite,
              bs_num_bytes_written := add64 (bs_num_bytes_written s) toWrite\<rparr>))"

definition ByteStream_remaining_capacity :: "ByteStream \<Rightarrow> size_t" where
  "ByteStream_remaining_capacity s = sub64 (bs_capacity s) (bs_size s)"

definition ByteStream_end_input :: "ByteStream \<Rightarrow> ByteStream" where
  "ByteStream_end_input s = s\<lparr>bs_isInputEnd := True\<rparr>"

definition ByteStream_set_error :: "ByteStream \<Rightarrow> ByteStream" where
  "ByteStream_set_error s = s\<lparr>bs_error := True\<rparr>"

definition ByteStream_peek_output :: "ByteStream \<Rightarrow> size_t \<Rightarrow> bytes" where
  "ByteStream_peek_output s len =
     (let toPeek = min (bs_size s) len in take toPeek (bs_buf s))"

definition ByteStream_pop_output :: "ByteStream \<Rightarrow> size_t \<Rightarrow> ByteStream" where
  "ByteStream_pop_output s len =
     (let toPop = min (bs_size s) len
      in s\<lparr>bs_buf := drop toPop (bs_buf s),
           bs_size := sub64 (bs_size s) toPop,
           bs_num_bytes_read := add64 (bs_num_bytes_read s) toPop\<rparr>)"

definition ByteStream_read :: "ByteStream \<Rightarrow> size_t \<Rightarrow> bytes \<times> ByteStream" where
  "ByteStream_read s len =
     (let rst = ByteStream_peek_output s len in (rst, ByteStream_pop_output s len))"

definition ByteStream_input_ended :: "ByteStream \<Rightarrow> bool" where
  "ByteStream_input_ended s = bs_isInputEnd s"

definition ByteStream_has_error :: "ByteStream \<Rightarrow> bool" where
  "ByteStream_has_error s = bs_error s"

definition ByteStream_buffer_size :: "ByteStream \<Rightarrow> size_t" where
  "ByteStream_buffer_size s = bs_size s"

definition ByteStream_buffer_empty :: "ByteStream \<Rightarrow> bool" where
  "ByteStream_buffer_empty s \<longleftrightarrow> bs_size s = 0"

definition ByteStream_eof :: "ByteStream \<Rightarrow> bool" where
  "ByteStream_eof s \<longleftrightarrow> bs_size s = 0 \<and> bs_isInputEnd s"

definition ByteStream_bytes_written :: "ByteStream \<Rightarrow> size_t" where
  "ByteStream_bytes_written s = bs_num_bytes_written s"

definition ByteStream_bytes_read :: "ByteStream \<Rightarrow> size_t" where
  "ByteStream_bytes_read s = bs_num_bytes_read s"

text \<open>The accessors only name fields; proofs see through them.\<close>

lemmas ByteStream_accessors [simp] =
  ByteStream_input_ended_def ByteStream_has_error_def ByteStream_buffer_size_def
  ByteStream_bytes_written_def ByteStream_bytes_read_def

section \<open>The representation invariant\<close>

text \<open>
  The separately kept \<open>_size\<close> is the number of buffered bytes, never exceeds the capacity, and
  the two running counters differ by exactly the bytes still buffered (modulo \<open>2 ^ 64\<close>).
\<close>

definition ByteStream_inv :: "ByteStream \<Rightarrow> bool" where
  "ByteStream_inv s \<longleftrightarrow>
     bs_size s = length (bs_buf s) \<and> bs_size s \<le> bs_capacity s \<and> bs_capacity s < two64 \<and>
     bs_num_bytes_read s < two64 \<and>
     bs_num_bytes_written s = add64 (bs_num_bytes_read s) (bs_size s)"

lemma ByteStream_inv_new: "capacity < two64 \<Longrightarrow> ByteStream_inv (ByteStream_new capacity)"
  by (simp add: ByteStream_inv_def ByteStream_new_def)

lemma ByteStream_remaining_capacity_inv [simp]:
  "ByteStream_inv s \<Longrightarrow> ByteStream_remaining_capacity s = bs_capacity s - bs_size s"
  by (simp add: ByteStream_inv_def ByteStream_remaining_capacity_def sub64_small)

text \<open>What a write accepts: nothing once the input has ended, else as much as there is room.\<close>

definition write_room :: "ByteStream \<Rightarrow> nat" where
  "write_room s = (if bs_isInputEnd s then 0 else bs_capacity s - bs_size s)"

lemma ByteStream_write_inv_eq:
  assumes "ByteStream_inv s"
  shows "ByteStream_write s data =
    (let n = min (write_room s) (length data)
     in (n, s\<lparr>bs_buf := bs_buf s @ take n data, bs_size := bs_size s + n,
              bs_num_bytes_written := add64 (bs_num_bytes_written s) n\<rparr>))"
proof (cases "bs_isInputEnd s \<or> bs_capacity s = bs_size s")
  case True
  with assms show ?thesis
    by (auto simp: ByteStream_write_def write_room_def ByteStream_inv_def Let_def)
next
  case False
  moreover from assms False
  have "sub64 (bs_capacity s) (bs_size s) = write_room s"
    "add64 (bs_size s) (min (write_room s) (length data)) =
       bs_size s + min (write_room s) (length data)"
    by (auto simp: ByteStream_inv_def write_room_def sub64_small intro!: add64_small)
  ultimately show ?thesis
    using assms by (simp add: ByteStream_write_def ByteStream_inv_def Let_def)
qed

lemma ByteStream_write_all:
  assumes "ByteStream_inv s" "\<not> bs_isInputEnd s" "length data \<le> bs_capacity s - bs_size s"
  shows "ByteStream_write s data =
    (length data,
     s\<lparr>bs_buf := bs_buf s @ data, bs_size := bs_size s + length data,
       bs_num_bytes_written := add64 (bs_num_bytes_written s) (length data)\<rparr>)"
  using assms by (simp add: ByteStream_write_inv_eq write_room_def min_absorb2 Let_def)

lemma ByteStream_write_inv:
  "ByteStream_inv s \<Longrightarrow> ByteStream_inv (snd (ByteStream_write s data))"
  by (auto simp: ByteStream_write_inv_eq Let_def ByteStream_inv_def write_room_def add64_assoc)

lemma ByteStream_pop_inv_eq:
  assumes "ByteStream_inv s"
  shows "ByteStream_pop_output s len =
    s\<lparr>bs_buf := drop len (bs_buf s), bs_size := bs_size s - len,
      bs_num_bytes_read := add64 (bs_num_bytes_read s) (min (bs_size s) len)\<rparr>"
proof -
  from assms have "sub64 (bs_size s) (min (bs_size s) len) = bs_size s - min (bs_size s) len"
    by (auto simp: ByteStream_inv_def intro!: sub64_small)
  then show ?thesis
    using assms by (auto simp: ByteStream_pop_output_def ByteStream_inv_def Let_def min_def)
qed

lemma ByteStream_pop_inv: "ByteStream_inv s \<Longrightarrow> ByteStream_inv (ByteStream_pop_output s len)"
  by (auto simp: ByteStream_pop_inv_eq ByteStream_inv_def add64_assoc min_def)

lemma ByteStream_peek_inv_eq:
  "ByteStream_inv s \<Longrightarrow> ByteStream_peek_output s len = take len (bs_buf s)"
  by (auto simp: ByteStream_peek_output_def ByteStream_inv_def Let_def min_def)

lemma ByteStream_read_inv_eq:
  "ByteStream_inv s \<Longrightarrow>
     ByteStream_read s len = (take len (bs_buf s), ByteStream_pop_output s len)"
  by (simp add: ByteStream_read_def ByteStream_peek_inv_eq)

lemma ByteStream_end_input_inv [simp]:
  "ByteStream_inv (ByteStream_end_input s) = ByteStream_inv s"
  by (simp add: ByteStream_inv_def ByteStream_end_input_def)

lemma ByteStream_set_error_inv [simp]:
  "ByteStream_inv (ByteStream_set_error s) = ByteStream_inv s"
  by (simp add: ByteStream_inv_def ByteStream_set_error_def)

section \<open>The channel contract and the FIFO theorem\<close>

datatype channel_op = Ch_write bytes | Ch_pop nat

text \<open>A run of writes and pops, with the bytes accepted and the bytes removed along it.\<close>

fun channel_run ::
  "('s \<Rightarrow> bytes \<Rightarrow> nat \<times> 's) \<Rightarrow> ('s \<Rightarrow> nat \<Rightarrow> bytes) \<Rightarrow> ('s \<Rightarrow> nat \<Rightarrow> 's) \<Rightarrow>
   's \<Rightarrow> channel_op list \<Rightarrow> bytes \<times> bytes \<times> 's" where
  "channel_run wr pk pp s [] = ([], [], s)"
| "channel_run wr pk pp s (Ch_write d # ops) =
     (let (n, s') = wr s d; (acc, del, t) = channel_run wr pk pp s' ops
      in (take n d @ acc, del, t))"
| "channel_run wr pk pp s (Ch_pop n # ops) =
     (let (acc, del, t) = channel_run wr pk pp (pp s n) ops
      in (acc, pk s n @ del, t))"

locale byte_channel =
  fixes invar :: "'s \<Rightarrow> bool"
    and content :: "'s \<Rightarrow> bytes"
    and room :: "'s \<Rightarrow> nat"
    and wr :: "'s \<Rightarrow> bytes \<Rightarrow> nat \<times> 's"
    and pk :: "'s \<Rightarrow> nat \<Rightarrow> bytes"
    and pp :: "'s \<Rightarrow> nat \<Rightarrow> 's"
  assumes invar_write: "invar s \<Longrightarrow> invar (snd (wr s d))"
    and invar_pop: "invar s \<Longrightarrow> invar (pp s n)"
    and write_count: "invar s \<Longrightarrow> fst (wr s d) = min (room s) (length d)"
    and write_content: "invar s \<Longrightarrow> content (snd (wr s d)) = content s @ take (room s) d"
    and peek_content: "invar s \<Longrightarrow> pk s n = take n (content s)"
    and pop_content: "invar s \<Longrightarrow> content (pp s n) = drop n (content s)"
begin

lemma run_invar: "invar s \<Longrightarrow> invar (snd (snd (channel_run wr pk pp s ops)))"
proof (induction ops arbitrary: s)
  case Nil
  then show ?case by simp
next
  case (Cons oper ops)
  then show ?case
    by (cases oper) (auto simp: split_beta Let_def intro: invar_write invar_pop)
qed

text \<open>
  First in, first out: the bytes removed so far followed by the bytes still buffered are the
  bytes buffered at the start followed by the bytes accepted since.
\<close>

lemma run_fifo:
  "invar s \<Longrightarrow> channel_run wr pk pp s ops = (acc, del, t) \<Longrightarrow>
     del @ content t = content s @ acc"
proof (induction ops arbitrary: s acc del)
  case Nil
  then show ?case by simp
next
  case (Cons oper ops)
  show ?case
  proof (cases oper)
    case (Ch_write d)
    obtain acc' del' where run: "channel_run wr pk pp (snd (wr s d)) ops = (acc', del', t)"
      and eqs: "acc = take (fst (wr s d)) d @ acc'" "del = del'"
      using Cons.prems(2) Ch_write
      by (cases "channel_run wr pk pp (snd (wr s d)) ops") (auto simp: split_beta Let_def)
    from Cons.IH [OF invar_write [OF Cons.prems(1)] run]
    show ?thesis
      using Cons.prems(1) eqs by (simp add: write_content write_count min_def)
  next
    case (Ch_pop n)
    obtain del' where run: "channel_run wr pk pp (pp s n) ops = (acc, del', t)"
      and eqs: "del = pk s n @ del'"
      using Cons.prems(2) Ch_pop
      by (cases "channel_run wr pk pp (pp s n) ops") (auto simp: split_beta Let_def)
    from Cons.IH [OF invar_pop [OF Cons.prems(1)] run]
    have "take n (content s) @ del' @ content t = content s @ acc"
      using Cons.prems(1) by (simp add: pop_content flip: append_assoc)
    then show ?thesis
      using Cons.prems(1) eqs by (simp add: peek_content)
  qed
qed

end

interpretation bs: byte_channel ByteStream_inv bs_buf write_room
  ByteStream_write ByteStream_peek_output ByteStream_pop_output
proof
  fix s d
  assume inv: "ByteStream_inv s"
  show "ByteStream_inv (snd (ByteStream_write s d))" using inv by (rule ByteStream_write_inv)
  show "fst (ByteStream_write s d) = min (write_room s) (length d)"
    using inv by (simp add: ByteStream_write_inv_eq Let_def)
  show "bs_buf (snd (ByteStream_write s d)) = bs_buf s @ take (write_room s) d"
    using inv by (simp add: ByteStream_write_inv_eq Let_def min_def)
next
  fix s n
  assume inv: "ByteStream_inv s"
  show "ByteStream_inv (ByteStream_pop_output s n)" using inv by (rule ByteStream_pop_inv)
  show "ByteStream_peek_output s n = take n (bs_buf s)" using inv by (rule ByteStream_peek_inv_eq)
  show "bs_buf (ByteStream_pop_output s n) = drop n (bs_buf s)"
    using inv by (simp add: ByteStream_pop_inv_eq)
qed

abbreviation stream_run :: "ByteStream \<Rightarrow> channel_op list \<Rightarrow> bytes \<times> bytes \<times> ByteStream" where
  "stream_run \<equiv> channel_run ByteStream_write ByteStream_peek_output ByteStream_pop_output"

lemma stream_run_frame:
  assumes "ByteStream_inv s" "stream_run s ops = (acc, del, t)"
  shows "bs_capacity t = bs_capacity s \<and> bs_isInputEnd t = bs_isInputEnd s \<and>
    bs_num_bytes_written t = add64 (bs_num_bytes_written s) (length acc) \<and>
    bs_num_bytes_read t = add64 (bs_num_bytes_read s) (length del) \<and>
    (bs_isInputEnd s \<longrightarrow> acc = [])"
  using assms
proof (induction ops arbitrary: s acc del)
  case Nil
  then show ?case by (simp add: ByteStream_inv_def)
next
  case (Cons oper ops)
  show ?case
  proof (cases oper)
    case (Ch_write d)
    let ?u = "snd (ByteStream_write s d)"
    obtain acc' where run: "stream_run ?u ops = (acc', del, t)"
      and acc: "acc = take (fst (ByteStream_write s d)) d @ acc'"
      using Cons.prems(2) Ch_write
      by (cases "stream_run ?u ops") (auto simp: split_beta Let_def)
    have u: "ByteStream_inv ?u" using Cons.prems(1) by (rule bs.invar_write)
    show ?thesis
      using Cons.IH [OF u run] Cons.prems(1) acc
      by (auto simp: ByteStream_write_inv_eq Let_def add64_assoc write_room_def)
  next
    case (Ch_pop n)
    let ?u = "ByteStream_pop_output s n"
    obtain del' where run: "stream_run ?u ops = (acc, del', t)"
      and del: "del = ByteStream_peek_output s n @ del'"
      using Cons.prems(2) Ch_pop
      by (cases "stream_run ?u ops") (auto simp: split_beta Let_def)
    have u: "ByteStream_inv ?u" using Cons.prems(1) by (rule bs.invar_pop)
    have len: "length (ByteStream_peek_output s n) = min (bs_size s) n"
      using Cons.prems(1) by (simp add: bs.peek_content) (simp add: ByteStream_inv_def)
    show ?thesis
      using Cons.IH [OF u run] Cons.prems(1) del len
      by (auto simp: ByteStream_pop_inv_eq add64_assoc)
  qed
qed

section \<open>Properties\<close>

text \<open>
  Claim C25. On a fresh stream, after any sequence of writes and pops: the bytes accepted are
  exactly the bytes delivered followed by the bytes still buffered (nothing is lost, duplicated
  or reordered), the buffer stays within the capacity, and the two counters report the accepted
  and the delivered bytes (modulo \<open>2 ^ 64\<close>).
\<close>

theorem ByteStream_fifo:
  assumes "capacity < two64"
    and "stream_run (ByteStream_new capacity) ops = (acc, del, t)"
  shows "acc = del @ bs_buf t \<and> length (bs_buf t) \<le> capacity \<and>
    ByteStream_buffer_size t = length (bs_buf t) \<and>
    ByteStream_bytes_written t = length acc mod two64 \<and>
    ByteStream_bytes_read t = length del mod two64"
proof -
  let ?s = "ByteStream_new capacity"
  have inv: "ByteStream_inv ?s" using assms(1) by (rule ByteStream_inv_new)
  have t: "ByteStream_inv t" using bs.run_invar [OF inv, of ops] assms(2) by simp
  have new: "bs_buf ?s = []" "bs_capacity ?s = capacity"
    "bs_num_bytes_written ?s = 0" "bs_num_bytes_read ?s = 0"
    by (simp_all add: ByteStream_new_def)
  show ?thesis
    using bs.run_fifo [OF inv assms(2)] stream_run_frame [OF inv assms(2)] t new
    by (simp add: ByteStream_inv_def add64_def)
qed

theorem ByteStream_fifo_witness:
  "stream_run (ByteStream_new 3) [Ch_write [1, 2], Ch_pop 1, Ch_write [3, 4, 5]] =
     ([1, 2, 3, 4], [1], \<lparr>bs_buf = [2, 3, 4], bs_capacity = 3, bs_size = 3, bs_isInputEnd = False,
        bs_num_bytes_written = 4, bs_num_bytes_read = 1, bs_error = False\<rparr>) \<and>
   [1, 2, 3, 4 :: byte] = [1] @ [2, 3, 4]"
proof -
  have run: "stream_run (ByteStream_new 3) [Ch_write [1, 2], Ch_pop 1, Ch_write [3, 4, 5]] =
     ([1, 2, 3, 4], [1], \<lparr>bs_buf = [2, 3, 4], bs_capacity = 3, bs_size = 3, bs_isInputEnd = False,
        bs_num_bytes_written = 4, bs_num_bytes_read = 1, bs_error = False\<rparr>)"
    by (simp add: ByteStream_new_def ByteStream_write_def ByteStream_pop_output_def
        ByteStream_peek_output_def sub64_def add64_def two64_def Let_def)
  have cap: "3 < two64" by (simp add: two64_def)
  show ?thesis using ByteStream_fifo [OF cap run] run by simp
qed

text \<open>
  Once the writer has called \<open>end_input\<close>, no later write is accepted, and the reader
  sees \<open>eof\<close> exactly when it has removed everything that was buffered at that moment.
\<close>

lemma ByteStream_end_then_drain:
  assumes "ByteStream_inv s"
    and "stream_run (ByteStream_end_input s) ops = (acc, del, t)"
  shows "acc = [] \<and> (ByteStream_eof t \<longleftrightarrow> del = bs_buf s) \<and> del @ bs_buf t = bs_buf s"
proof -
  let ?e = "ByteStream_end_input s"
  have inv: "ByteStream_inv ?e" using assms(1) by simp
  have e: "bs_isInputEnd ?e" "bs_buf ?e = bs_buf s" by (simp_all add: ByteStream_end_input_def)
  have t: "ByteStream_inv t" using bs.run_invar [OF inv, of ops] assms(2) by simp
  have "acc = []" "bs_isInputEnd t" using stream_run_frame [OF inv assms(2)] e by auto
  moreover from this have fifo: "del @ bs_buf t = bs_buf s"
    using bs.run_fifo [OF inv assms(2)] e by simp
  moreover have "del = bs_buf s \<longleftrightarrow> bs_buf t = []" using fifo by (metis append_self_conv)
  ultimately show ?thesis using t by (simp add: ByteStream_eof_def ByteStream_inv_def)
qed

lemma ByteStream_end_then_drain_witness:
  "ByteStream_inv (snd (ByteStream_write (ByteStream_new 5) [7, 8])) \<and>
   (\<exists>t. stream_run (ByteStream_end_input (snd (ByteStream_write (ByteStream_new 5) [7, 8])))
          [Ch_write [9], Ch_pop 2] = ([], [7, 8], t) \<and> ByteStream_eof t)"
proof -
  let ?s = "snd (ByteStream_write (ByteStream_new 5) [7, 8])"
  have cap: "5 < two64" by (simp add: two64_def)
  have inv: "ByteStream_inv ?s"
    by (rule ByteStream_write_inv) (rule ByteStream_inv_new [OF cap])
  obtain t where run: "stream_run (ByteStream_end_input ?s) [Ch_write [9], Ch_pop 2] = ([], [7, 8], t)"
    by (simp add: ByteStream_new_def ByteStream_write_def ByteStream_pop_output_def
        ByteStream_peek_output_def ByteStream_end_input_def sub64_def add64_def two64_def Let_def)
  have "bs_buf ?s = [7, 8]"
    by (simp add: ByteStream_new_def ByteStream_write_def sub64_def add64_def two64_def Let_def)
  with ByteStream_end_then_drain [OF inv run] have "ByteStream_eof t" by simp
  with inv run show ?thesis by blast
qed

end
