(* ===== verification/Stream_Reassembler.thy ===== *)
theory Stream_Reassembler
  imports Byte_Stream
begin

text \<open>
  \<open>StreamReassembler\<close> (\<open>src/libsponge/stream_reassembler.hh\<close>, \<open>stream_reassembler.cc\<close>): stores
  out-of-order, overlapping substrings of a byte stream and writes every newly contiguous byte
  into its output \<open>ByteStream\<close>.

  \<^item> The \<open>std::map<size_t, std::string>\<close> is an association list in key order; an iterator is a
    position in it, \<open>end()\<close> the position one past the last entry.
  \<^item> The code reads \<open>->first\<close> through \<open>end()\<close> when the map is empty (in \<open>getFrontItr\<close> and at the
    end of \<open>push_substring\<close>), which C++ leaves undefined. The field \<open>sr_past_end\<close> is whatever
    such a read yields; theory \<open>Reassembler_Correct\<close> shows that it never influences the result.
  \<^item> When the output stream accepts only part of an entry, the code erases the entry's node and
    then uses the string inside it: that branch is the fault \<open>UseAfterFree\<close>.
\<close>

section \<open>\<open>std::map\<close> with \<open>size_t\<close> keys\<close>

type_synonym segmap = "(size_t \<times> bytes) list"
type_synonym iter = nat

definition map_lower_bound :: "segmap \<Rightarrow> size_t \<Rightarrow> iter" where
  "map_lower_bound m k = length (takeWhile (\<lambda>e. fst e < k) m)"

definition map_upper_bound :: "segmap \<Rightarrow> size_t \<Rightarrow> iter" where
  "map_upper_bound m k = length (takeWhile (\<lambda>e. fst e \<le> k) m)"

text \<open>\<open>m[k] = v\<close>: replaces the entry for \<open>k\<close> or inserts one in key order.\<close>

fun map_assign :: "segmap \<Rightarrow> size_t \<Rightarrow> bytes \<Rightarrow> segmap" where
  "map_assign [] k v = [(k, v)]"
| "map_assign ((i, d) # m) k v =
     (if k < i then (k, v) # (i, d) # m
      else if k = i then (k, v) # m
      else (i, d) # map_assign m k v)"

definition map_erase :: "segmap \<Rightarrow> iter \<Rightarrow> segmap" where
  "map_erase m it = take it m @ drop (Suc it) m"

section \<open>State\<close>

record StreamReassembler =
  sr_exIdx :: size_t
  sr_unassembledStrs :: segmap
  sr_unassembledSize :: size_t
  sr_eofSignRecv :: bool
  sr_eofIdx :: size_t
  sr_output :: ByteStream
  sr_capacity :: size_t
  sr_past_end :: size_t

definition StreamReassembler_new :: "size_t \<Rightarrow> StreamReassembler" where
  "StreamReassembler_new capacity =
     \<lparr>sr_exIdx = 0, sr_unassembledStrs = [], sr_unassembledSize = 0, sr_eofSignRecv = False,
      sr_eofIdx = 0, sr_output = ByteStream_new capacity, sr_capacity = capacity, sr_past_end = 0\<rparr>"

text \<open>\<open>it->first\<close>; through \<open>end()\<close> it is the arbitrary value \<open>sr_past_end\<close>.\<close>

definition iter_first :: "StreamReassembler \<Rightarrow> iter \<Rightarrow> size_t" where
  "iter_first r it =
     (if it < length (sr_unassembledStrs r) then fst (sr_unassembledStrs r ! it)
      else sr_past_end r)"

section \<open>Operations\<close>

definition getBackItr :: "StreamReassembler \<Rightarrow> size_t \<Rightarrow> iter" where
  "getBackItr r idx =
     (if idx = 0 then map_upper_bound (sr_unassembledStrs r) idx
      else map_upper_bound (sr_unassembledStrs r) (sub64 idx 1))"

definition getFrontItr :: "StreamReassembler \<Rightarrow> size_t \<Rightarrow> iter" where
  "getFrontItr r idx =
     (let lb = map_lower_bound (sr_unassembledStrs r) (add64 idx 1);
          fIt = (if lb \<noteq> 0 then lb - 1 else lb)
      in if iter_first r fIt > idx then length (sr_unassembledStrs r) else fIt)"

text \<open>
  The loop of \<open>cutData\<close> that trims the tail of \<open>data\<close> against the entries at or after \<open>idx\<close>: it
  returns whether to drop, the trimmed data, the map and \<open>_unassembledSize\<close>.
\<close>

function cutBack :: "size_t \<Rightarrow> bytes \<Rightarrow> iter \<Rightarrow> segmap \<Rightarrow> size_t \<Rightarrow> bool \<times> bytes \<times> segmap \<times> size_t" where
  "cutBack idx data bIt m usize =
     (if length m \<le> bIt then (False, data, m, usize)
      else
        let (bIdx, bData) = m ! bIt; dEnd = add64 idx (length data)
        in if dEnd \<le> bIdx then (False, data, m, usize)
           else if dEnd \<le> add64 bIdx (length bData) then
             (if idx = bIdx
              then (True, data, m[bIt := (bIdx, str_replace bData 0 (length data) data)], usize)
              else let n = sub64 dEnd bIdx; off = sub64 bIdx idx
                   in (False, take off data,
                       m[bIt := (bIdx, str_replace bData 0 n (take n (drop off data)))], usize))
           else cutBack idx data bIt (map_erase m bIt) (sub64 usize (length bData)))"
  by pat_completeness auto
termination
  by (relation "measure (\<lambda>(idx, data, bIt, m, usize). length m)") (auto simp: map_erase_def)

declare cutBack.simps [simp del]

text \<open>
  \<open>cutData(idx, data)\<close> returns \<open>{drop, newIdx}\<close> and changes \<open>data\<close>, the map and \<open>_unassembledSize\<close>.
\<close>

definition cutTail ::
  "StreamReassembler \<Rightarrow> size_t \<Rightarrow> bytes \<Rightarrow> bool \<times> size_t \<times> bytes \<times> StreamReassembler" where
  "cutTail r idx data =
     (let (drp, data', m, usize) =
            cutBack idx data (getBackItr r idx) (sr_unassembledStrs r) (sr_unassembledSize r)
      in (drp, (if drp then 0 else idx), data',
          r\<lparr>sr_unassembledStrs := m, sr_unassembledSize := usize\<rparr>))"

definition cutData ::
  "StreamReassembler \<Rightarrow> size_t \<Rightarrow> bytes \<Rightarrow> bool \<times> size_t \<times> bytes \<times> StreamReassembler" where
  "cutData r idx data =
     (if idx < sr_exIdx r then
        (if add64 idx (length data) \<le> sr_exIdx r then (True, 0, data, r)
         else cutTail r (sr_exIdx r) (drop (sub64 (sr_exIdx r) idx) data))
      else
        let m = sr_unassembledStrs r; fIt = getFrontItr r idx
        in if length m \<le> fIt then cutTail r idx data
           else
             let (fIdx, fData) = m ! fIt; fTailIdxNext = add64 fIdx (length fData)
             in if fTailIdxNext \<le> idx then cutTail r idx data
                else if add64 idx (length data) \<le> fTailIdxNext then
                  (True, 0, data,
                   r\<lparr>sr_unassembledStrs :=
                       m[fIt := (fIdx, str_replace fData (sub64 idx fIdx) (length data) data)]\<rparr>)
                else
                  let n = sub64 fTailIdxNext idx
                  in cutTail
                       (r\<lparr>sr_unassembledStrs :=
                            m[fIt := (fIdx, str_replace fData (sub64 idx fIdx) n (take n data))]\<rparr>)
                       fTailIdxNext (drop n data))"

text \<open>
  The assembly loop of \<open>push_substring\<close>. Its iterator is always \<open>begin()\<close>: each round either
  erases the first entry or leaves the loop.
\<close>

fun pushLoop ::
  "bool \<Rightarrow> size_t \<Rightarrow> segmap \<Rightarrow> size_t \<Rightarrow> size_t \<Rightarrow> ByteStream \<Rightarrow>
   (segmap \<times> size_t \<times> size_t \<times> ByteStream) result" where
  "pushLoop eofSign eofIdx [] exIdx usize out = Inr ([], exIdx, usize, out)"
| "pushLoop eofSign eofIdx ((currIdx, currData) # m) exIdx usize out =
     (if currIdx > exIdx then Inr ((currIdx, currData) # m, exIdx, usize, out)
      else
        let (pushed, out1) = ByteStream_write out currData;
            exIdx1 = add64 exIdx pushed;
            out2 = (if eofSign \<and> eofIdx \<le> exIdx1 then ByteStream_end_input out1 else out1);
            usize1 = sub64 usize pushed
        in if pushed < length currData then Inl UseAfterFree
           else pushLoop eofSign eofIdx m exIdx1 usize1 out2)"

definition pushTry :: "StreamReassembler \<Rightarrow> StreamReassembler result" where
  "pushTry r =
     (if sr_exIdx r \<noteq> iter_first r 0 then Inr r
      else bind_result
        (pushLoop (sr_eofSignRecv r) (sr_eofIdx r) (sr_unassembledStrs r) (sr_exIdx r)
           (sr_unassembledSize r) (sr_output r))
        (\<lambda>(m, exIdx, usize, out).
           Inr (r\<lparr>sr_unassembledStrs := m, sr_exIdx := exIdx, sr_unassembledSize := usize,
                  sr_output := out\<rparr>)))"

definition firstUnacceptableIdx :: "StreamReassembler \<Rightarrow> size_t" where
  "firstUnacceptableIdx r =
     sub64 (add64 (sr_exIdx r) (sr_capacity r)) (ByteStream_buffer_size (sr_output r))"

definition push_substring ::
  "StreamReassembler \<Rightarrow> bytes \<Rightarrow> size_t \<Rightarrow> bool \<Rightarrow> StreamReassembler result" where
  "push_substring r data index eof =
     (if ByteStream_input_ended (sr_output r) then Inr r
      else
        let r1 = (if eof then
                    let e = add64 index (length data);
                        r' = r\<lparr>sr_eofSignRecv := True, sr_eofIdx := e\<rparr>
                    in if e = sr_exIdx r then r'\<lparr>sr_output := ByteStream_end_input (sr_output r)\<rparr>
                       else r'
                  else r)
        in if data = [] then Inr r1
           else
             let (drp, newIdx, dataCopy, r2) = cutData r1 index data
             in if drp then Inr r2
                else
                  let r3 = (if newIdx < firstUnacceptableIdx r2 then
                              r2\<lparr>sr_unassembledStrs :=
                                   map_assign (sr_unassembledStrs r2) newIdx dataCopy,
                                 sr_unassembledSize :=
                                   add64 (sr_unassembledSize r2) (length dataCopy)\<rparr>
                            else r2)
                  in pushTry r3)"

definition unassembled_bytes :: "StreamReassembler \<Rightarrow> size_t" where
  "unassembled_bytes r = sr_unassembledSize r"

definition StreamReassembler_empty :: "StreamReassembler \<Rightarrow> bool" where
  "StreamReassembler_empty r \<longleftrightarrow> sr_unassembledSize r = 0"

end
