(* ===== verification/Reassembler_Correct.thy ===== *)
theory Reassembler_Correct
  imports Stream_Reassembler
begin

text \<open>
  One call of \<open>push_substring\<close>, verified. The stored substrings are read as a partial map from
  stream indices to bytes (\<open>seg_map\<close>); \<open>cutData\<close> followed by the insertion lays the new bytes over
  that map (\<open>cutData_ok\<close>), the assembly loop moves the gap-free run at the expected index to the
  output (\<open>pushLoop_assembled\<close>), and \<open>push_substring_effect\<close> joins the two under the invariant
  \<open>sr_inv\<close>: no fault, the invariant kept, the effect \<open>push_effect\<close>.
\<close>

section \<open>Stored substrings as a partial map from stream indices to bytes\<close>

fun seg_map :: "segmap \<Rightarrow> nat \<Rightarrow> byte option" where
  "seg_map [] k = None"
| "seg_map ((i, d) # m) k = (if i \<le> k \<and> k < i + length d then Some (d ! (k - i)) else seg_map m k)"

text \<open>Sorted, non-empty, pairwise disjoint entries within \<open>[lo, hi)\<close>.\<close>

fun segs :: "nat \<Rightarrow> nat \<Rightarrow> segmap \<Rightarrow> bool" where
  "segs lo hi [] \<longleftrightarrow> lo \<le> hi"
| "segs lo hi ((i, d) # m) \<longleftrightarrow> lo \<le> i \<and> d \<noteq> [] \<and> segs (i + length d) hi m"

definition seg_total :: "segmap \<Rightarrow> nat" where
  "seg_total m = sum_list (map (length \<circ> snd) m)"

lemma seg_total_simps [simp]:
  "seg_total [] = 0" "seg_total ((i, d) # m) = length d + seg_total m" "seg_total (a @ b) = seg_total a + seg_total b"
  by (simp_all add: seg_total_def)

text \<open>\<open>overlay f lo idx data\<close>: the bytes of \<open>data\<close> at \<open>idx\<close> written over \<open>f\<close>, from \<open>lo\<close> on.\<close>

definition overlay :: "(nat \<Rightarrow> byte option) \<Rightarrow> nat \<Rightarrow> nat \<Rightarrow> bytes \<Rightarrow> nat \<Rightarrow> byte option" where
  "overlay f lo idx data k =
     (if lo \<le> k \<and> idx \<le> k \<and> k < idx + length data then Some (data ! (k - idx)) else f k)"

lemma segs_le: "segs lo hi m \<Longrightarrow> lo \<le> hi"
  by (induction lo hi m rule: segs.induct) auto

lemma segs_mono: "segs lo hi m \<Longrightarrow> lo' \<le> lo \<Longrightarrow> segs lo' hi m"
  by (cases m) auto

lemma segs_mono_hi: "segs lo hi m \<Longrightarrow> hi \<le> hi' \<Longrightarrow> segs lo hi' m"
  by (induction lo hi m rule: segs.induct) auto

lemma segs_append: "segs lo hi (a @ b) \<longleftrightarrow> (\<exists>mid. segs lo mid a \<and> segs mid hi b)"
proof (induction a arbitrary: lo)
  case Nil
  then show ?case by (auto intro: segs_mono)
next
  case (Cons e a)
  then show ?case by (cases e) auto
qed

lemma segs_keys: "segs lo hi m \<Longrightarrow> (i, d) \<in> set m \<Longrightarrow> lo \<le> i \<and> i + length d \<le> hi \<and> d \<noteq> []"
  by (induction lo hi m rule: segs.induct) (auto dest: segs_le)

lemma segs_keys_ge: "segs lo hi m \<Longrightarrow> \<forall>e\<in>set m. lo \<le> fst e"
  by (auto dest: segs_keys)

lemma segs_keys_less: "segs lo hi m \<Longrightarrow> \<forall>e\<in>set m. fst e < hi"
proof
  fix e
  assume "segs lo hi m" "e \<in> set m"
  then have "fst e + length (snd e) \<le> hi" "snd e \<noteq> []"
    using segs_keys [of lo hi m "fst e" "snd e"] by auto
  then show "fst e < hi" by (cases "snd e") auto
qed

lemma segs_total: "segs lo hi m \<Longrightarrow> seg_total m \<le> hi - lo"
  by (induction lo hi m rule: segs.induct) (auto dest: segs_le)

lemma seg_map_append: "seg_map (a @ b) k = (case seg_map a k of None \<Rightarrow> seg_map b k | Some x \<Rightarrow> Some x)"
  by (induction a) auto

lemma seg_map_below: "segs lo hi m \<Longrightarrow> k < lo \<Longrightarrow> seg_map m k = None"
  by (induction lo hi m rule: segs.induct) auto

lemma seg_map_above: "segs lo hi m \<Longrightarrow> hi \<le> k \<Longrightarrow> seg_map m k = None"
  by (induction lo hi m rule: segs.induct) (auto dest: segs_le)

section \<open>The tail trimming loop\<close>

text \<open>The loop, on the entries from the iterator on.\<close>

fun cutSuf :: "nat \<Rightarrow> bytes \<Rightarrow> segmap \<Rightarrow> nat \<Rightarrow> bool \<times> bytes \<times> segmap \<times> nat" where
  "cutSuf idx data [] u = (False, data, [], u)"
| "cutSuf idx data ((b, bd) # m) u =
     (let dEnd = add64 idx (length data)
      in if dEnd \<le> b then (False, data, (b, bd) # m, u)
         else if dEnd \<le> add64 b (length bd) then
           (if idx = b then (True, data, (b, str_replace bd 0 (length data) data) # m, u)
            else let n = sub64 dEnd b; off = sub64 b idx
                 in (False, take off data, (b, str_replace bd 0 n (take n (drop off data))) # m, u))
         else cutSuf idx data m (sub64 u (length bd)))"

lemma cutBack_cutSuf:
  "cutBack idx data (length pre) (pre @ suf) u =
     (let (dr, dat, suf', u') = cutSuf idx data suf u in (dr, dat, pre @ suf', u'))"
proof (induction suf arbitrary: u)
  case Nil
  then show ?case by (simp add: cutBack.simps)
next
  case (Cons e suf)
  obtain b bd where e: "e = (b, bd)" by (cases e)
  have erase: "map_erase (pre @ e # suf) (length pre) = pre @ suf"
    by (simp add: map_erase_def)
  show ?case
    unfolding cutBack.simps [of idx data "length pre" "pre @ e # suf"] erase
    using Cons.IH by (simp add: e Let_def)
qed

text \<open>
  What the loop achieves: either the new bytes lie inside one stored entry and have been written
  into it, or the trimmed data fits before the remaining entries, and together they hold the new
  bytes over the old ones.
\<close>

definition trimmed :: "nat \<Rightarrow> nat \<Rightarrow> bytes \<Rightarrow> segmap \<Rightarrow> nat \<Rightarrow> bool \<Rightarrow> bytes \<Rightarrow> segmap \<Rightarrow> nat \<Rightarrow> bool" where
  "trimmed idx hi data suf u drp dat suf' u' \<longleftrightarrow>
     (let res = (if drp then suf' else (idx, dat) # suf')
      in segs idx hi res \<and> seg_map res = overlay (seg_map suf) idx idx data) \<and>
     seg_total suf' \<le> seg_total suf \<and> u' = u - (seg_total suf - seg_total suf') \<and>
     (drp \<longrightarrow> seg_map suf idx \<noteq> None)"

lemma cutSuf_trimmed:
  assumes "segs idx hi suf" "data \<noteq> []" "idx + length data \<le> hi" "hi < two64"
    and "seg_total suf \<le> u" "u < two64"
    and "cutSuf idx data suf u = (drp, dat, suf', u')"
  shows "trimmed idx hi data suf u drp dat suf' u'"
  using assms
proof (induction suf arbitrary: u)
  case Nil
  then show ?case by (auto simp: trimmed_def overlay_def)
next
  case (Cons e m)
  obtain b bd where e: "e = (b, bd)" by (cases e)
  from Cons.prems e have b: "idx \<le> b" "bd \<noteq> []" "segs (b + length bd) hi m" by auto
  then have bhi: "b + length bd \<le> hi" using segs_le by blast
  have ar: "add64 idx (length data) = idx + length data" "add64 b (length bd) = b + length bd"
    using Cons.prems bhi by (simp_all add: add64_small)
  consider (before) "idx + length data \<le> b"
    | (inside) "b < idx + length data" "idx + length data \<le> b + length bd" "idx = b"
    | (part) "b < idx + length data" "idx + length data \<le> b + length bd" "idx < b"
    | (over) "b + length bd < idx + length data"
    using b by linarith
  then show ?case
  proof cases
    case before
    with Cons.prems e ar b show ?thesis
      by (auto simp: trimmed_def overlay_def fun_eq_iff)
  next
    case inside
    let ?nd = "str_replace bd 0 (length data) data"
    have len: "length ?nd = length bd" using inside by simp
    from inside Cons.prems e ar
    have eqs: "drp" "suf' = (b, ?nd) # m" "u' = u" by auto
    have "seg_map suf' = overlay (seg_map (e # m)) idx idx data"
      using eqs e inside len by (auto simp: overlay_def fun_eq_iff nth_str_replace)
    moreover have "?nd \<noteq> []" using len b(2) by (metis length_0_conv)
    ultimately show ?thesis
      using eqs e inside len b by (simp add: trimmed_def)
  next
    case part
    let ?n = "idx + length data - b" and ?off = "b - idx"
    let ?nd = "str_replace bd 0 ?n (drop ?off data)"
    have subs: "sub64 (idx + length data) b = ?n" "sub64 b idx = ?off"
      using part Cons.prems by (simp_all add: sub64_small)
    have tlen: "length (drop ?off data) = ?n" using part by simp
    have len: "length ?nd = length bd" using part tlen by (intro length_str_replace) auto
    from part Cons.prems e ar subs
    have eqs: "\<not> drp" "dat = take ?off data" "suf' = (b, ?nd) # m" "u' = u" by (auto simp: Let_def)
    have nth: "?nd ! k = (if k < ?n then data ! (?off + k) else bd ! k)" if "k < length bd" for k
      using that part tlen by (subst nth_str_replace) auto
    have "seg_map ((idx, dat) # suf') = overlay (seg_map (e # m)) idx idx data"
      using eqs e part len by (auto simp: overlay_def fun_eq_iff nth)
    moreover have "?nd \<noteq> []" using len b(2) by (metis length_0_conv)
    moreover have "dat \<noteq> []" "idx + length dat = b" using eqs part by auto
    ultimately show ?thesis
      using eqs e part len b by (simp add: trimmed_def)
  next
    case over
    have u: "sub64 u (length bd) = u - length bd"
      using Cons.prems e by (intro sub64_small) auto
    from over e ar b have "cutSuf idx data (e # m) u = cutSuf idx data m (u - length bd)"
      by (simp add: Let_def u)
    with Cons.prems have run: "cutSuf idx data m (u - length bd) = (drp, dat, suf', u')" by simp
    have sm: "segs idx hi m" using b segs_mono by force
    have IH: "trimmed idx hi data m (u - length bd) drp dat suf' u'"
      by (rule Cons.IH [OF sm Cons.prems(2-4) _ _ run]) (use Cons.prems e in auto)
    have ov: "overlay (seg_map (e # m)) idx idx data = overlay (seg_map m) idx idx data"
      using e over b by (auto simp: overlay_def fun_eq_iff)
    show ?thesis
      using IH ov e Cons.prems by (auto simp: trimmed_def Let_def)
  qed
qed

section \<open>Iterators\<close>

lemma takeWhile_split:
  "\<forall>e\<in>set pre. P e \<Longrightarrow> \<forall>e\<in>set suf. \<not> P e \<Longrightarrow> takeWhile P (pre @ suf) = pre"
  by (cases suf) (auto simp: takeWhile_append2)

lemma getBackItr_split:
  assumes "sr_unassembledStrs r = pre @ suf" "idx < two64"
    and "\<forall>e\<in>set pre. fst e < idx"
    and "\<forall>e\<in>set suf. idx \<le> fst e \<and> 0 < fst e"
  shows "getBackItr r idx = length pre"
proof -
  define k where "k = (if idx = 0 then idx else sub64 idx 1)"
  have k: "k = (if idx = 0 then 0 else idx - 1)"
    using assms(2) by (simp add: k_def sub64_small)
  have "takeWhile (\<lambda>e. fst e \<le> k) (pre @ suf) = pre"
    using assms(3,4) by (intro takeWhile_split ballI) (force simp: k split: if_splits)+
  moreover have "getBackItr r idx = map_upper_bound (pre @ suf) k"
    by (simp add: getBackItr_def assms(1) k_def)
  ultimately show ?thesis by (simp add: map_upper_bound_def)
qed

text \<open>
  The iterator before \<open>idx\<close>. With an empty map the value read through \<open>end()\<close> decides between
  \<open>end()\<close> and \<open>begin()\<close>, which are then the same iterator.
\<close>

lemma getFrontItr_split:
  assumes "sr_unassembledStrs r = pre @ suf" "idx + 1 < two64"
    and "\<forall>e\<in>set pre. fst e \<le> idx"
    and "\<forall>e\<in>set suf. idx < fst e"
  shows "getFrontItr r idx = (if pre = [] then length (pre @ suf) else length pre - 1)"
proof -
  have "add64 idx 1 = idx + 1" using assms(2) by (simp add: add64_small)
  moreover have "takeWhile (\<lambda>e. fst e < idx + 1) (pre @ suf) = pre"
    using assms by (intro takeWhile_split) force+
  ultimately have lb: "map_lower_bound (sr_unassembledStrs r) (add64 idx 1) = length pre"
    by (simp add: map_lower_bound_def assms(1))
  show ?thesis
  proof (cases pre rule: rev_cases)
    case Nil
    then show ?thesis
      using lb assms(1,4) by (cases suf) (auto simp: getFrontItr_def iter_first_def)
  next
    case (snoc pre0 e)
    then show ?thesis
      using lb assms(1,3) by (force simp: getFrontItr_def iter_first_def nth_append)
  qed
qed

lemma segs_snoc:
  "segs lo hi (m @ [(f, fd)]) \<longleftrightarrow> segs lo f m \<and> fd \<noteq> [] \<and> f + length fd \<le> hi"
  by (auto simp: segs_append intro: segs_mono_hi)

lemma segs_raise:
  "segs lo hi m \<Longrightarrow> lo' \<le> hi \<Longrightarrow> \<forall>e\<in>set m. lo' \<le> fst e \<Longrightarrow> segs lo' hi m"
  by (cases m) auto

lemma map_assign_split:
  assumes "\<forall>e\<in>set pre. fst e < k" "\<forall>e\<in>set suf. k < fst e"
  shows "map_assign (pre @ suf) k v = pre @ (k, v) # suf"
  using assms
proof (induction pre)
  case Nil
  then show ?case by (cases suf) auto
next
  case (Cons e pre)
  then show ?case by (cases e) fastforce
qed

text \<open>The split of a sorted map at an index.\<close>

lemma segs_split_at:
  assumes "segs lo hi m"
  obtains pre suf where "m = pre @ suf" "\<forall>e\<in>set pre. fst e \<le> idx"
    "\<forall>e\<in>set suf. idx < fst e"
  using assms
proof (induction lo hi m arbitrary: thesis rule: segs.induct)
  case (1 lo hi)
  then show ?case by (auto intro: "1.prems"(1) [of "[]" "[]"])
next
  case (2 lo hi i d m)
  show ?case
  proof (cases "i \<le> idx")
    case True
    from "2.prems" have "segs (i + length d) hi m" by simp
    then obtain pre suf where "m = pre @ suf" "\<forall>e\<in>set pre. fst e \<le> idx"
      "\<forall>e\<in>set suf. idx < fst e" using "2.IH" by blast
    with True show ?thesis by (intro "2.prems"(1) [of "(i, d) # pre" suf]) auto
  next
    case False
    with "2.prems"(2) show ?thesis
      by (intro "2.prems"(1) [of "[]" "(i, d) # m"]) (auto dest: segs_keys)
  qed
qed

section \<open>\<open>cutData\<close>\<close>

text \<open>
  The map after \<open>cutData\<close> and, unless the data was dropped, the insertion of what is left of it.
\<close>

definition stored :: "bool \<Rightarrow> nat \<Rightarrow> bytes \<Rightarrow> segmap \<Rightarrow> segmap" where
  "stored drp newIdx dat m = (if drp then m else map_assign m newIdx dat)"

definition cut_ok ::
  "StreamReassembler \<Rightarrow> nat \<Rightarrow> nat \<Rightarrow> bytes \<Rightarrow> bool \<Rightarrow> nat \<Rightarrow> bytes \<Rightarrow> StreamReassembler \<Rightarrow> bool" where
  "cut_ok r hi idx data drp newIdx dat r' \<longleftrightarrow>
     (\<exists>m'. r' = r\<lparr>sr_unassembledStrs := m', sr_unassembledSize := seg_total m'\<rparr> \<and>
        segs (sr_exIdx r) hi (stored drp newIdx dat m') \<and>
        seg_map (stored drp newIdx dat m') =
          overlay (seg_map (sr_unassembledStrs r)) (sr_exIdx r) idx data \<and>
        (\<not> drp \<longrightarrow> newIdx < hi \<and>
           seg_total (stored drp newIdx dat m') = seg_total m' + length dat) \<and>
        (drp \<longrightarrow> idx + length data \<le> sr_exIdx r \<or>
           seg_map (sr_unassembledStrs r) (max (sr_exIdx r) idx) \<noteq> None))"

lemma cutTail_ok:
  assumes m: "sr_unassembledStrs r = pre @ suf" and u: "sr_unassembledSize r = seg_total (pre @ suf)"
    and pre: "segs (sr_exIdx r) idx pre" and suf: "segs idx hi suf"
    and pos: "\<forall>e\<in>set suf. 0 < fst e"
    and d: "data \<noteq> []" "idx + length data \<le> hi" "hi < two64"
    and run: "cutTail r idx data = (drp, newIdx, dat, r')"
  shows "cut_ok r hi idx data drp newIdx dat r'"
proof -
  note keys = segs_keys_less [OF pre]
  note skeys = segs_keys_ge [OF suf]
  have it: "getBackItr r idx = length pre"
    using keys skeys pos d by (intro getBackItr_split [OF m]) auto
  obtain suf' u' where cut: "cutSuf idx data suf (seg_total (pre @ suf)) = (drp, dat, suf', u')"
    and res: "newIdx = (if drp then 0 else idx)"
      "r' = r\<lparr>sr_unassembledStrs := pre @ suf', sr_unassembledSize := u'\<rparr>"
    using run unfolding cutTail_def it m u
    by (cases "cutSuf idx data suf (seg_total (pre @ suf))") (auto simp: cutBack_cutSuf)
  have tot: "seg_total (pre @ suf) < two64"
    using segs_total [of "sr_exIdx r" hi "pre @ suf"] pre suf d
    by (force simp: segs_append)
  have tr: "trimmed idx hi data suf (seg_total (pre @ suf)) drp dat suf' u'"
    by (rule cutSuf_trimmed [OF suf d _ tot cut]) simp
  let ?res = "if drp then suf' else (idx, dat) # suf'"
  have tr': "segs idx hi ?res" "seg_map ?res = overlay (seg_map suf) idx idx data"
    "seg_total suf' \<le> seg_total suf" "u' = seg_total (pre @ suf')"
    "drp \<Longrightarrow> seg_map suf idx \<noteq> None"
    using tr by (auto simp: trimmed_def Let_def)
  have st: "stored drp newIdx dat (pre @ suf') = pre @ ?res"
  proof (cases drp)
    case False
    with tr'(1) have "\<And>e. e \<in> set suf' \<Longrightarrow> idx < fst e"
      by (cases dat) (auto dest: segs_keys)
    with False keys res show ?thesis by (simp add: stored_def map_assign_split)
  qed (simp add: stored_def)
  have "segs (sr_exIdx r) hi (pre @ ?res)" using pre tr'(1) by (auto simp: segs_append)
  moreover have "seg_map (pre @ ?res) = overlay (seg_map (pre @ suf)) (sr_exIdx r) idx data"
  proof
    fix k
    have ex: "sr_exIdx r \<le> idx" using pre segs_le by blast
    show "seg_map (pre @ ?res) k = overlay (seg_map (pre @ suf)) (sr_exIdx r) idx data k"
      using tr'(2) ex seg_map_above [OF pre, of k]
      by (cases "seg_map pre k") (auto simp: seg_map_append overlay_def not_le [symmetric])
  qed
  moreover have "\<not> drp \<Longrightarrow> seg_total (pre @ ?res) = seg_total (pre @ suf') + length dat" by simp
  moreover have "\<not> drp \<Longrightarrow> newIdx < hi" using res d by (cases data) auto
  moreover have "drp \<Longrightarrow> seg_map (pre @ suf) (max (sr_exIdx r) idx) \<noteq> None"
    using tr'(5) segs_le [OF pre] by (auto simp: seg_map_append max_def split: option.splits)
  ultimately show ?thesis
    unfolding cut_ok_def m using res tr'(4) st by (intro exI [of _ "pre @ suf'"]) auto
qed

text \<open>The case of an entry \<open>(f, fd)\<close> that starts at or before the new data.\<close>

lemma seg_map_update:
  assumes "segs lo f pre" "length nd = length fd"
    and "\<And>j. j < length fd \<Longrightarrow>
      nd ! j = (if idx \<le> f + j \<and> f + j < idx + length data then data ! (f + j - idx) else fd ! j)"
    and "lo \<le> idx" "f \<le> idx" "idx + length data \<le> f + length fd"
  shows "seg_map (pre @ (f, nd) # suf) = overlay (seg_map (pre @ (f, fd) # suf)) lo idx data"
proof
  fix k
  show "seg_map (pre @ (f, nd) # suf) k = overlay (seg_map (pre @ (f, fd) # suf)) lo idx data k"
    using assms seg_map_above [OF assms(1), of k] assms(3) [of "k - f"]
    by (cases "seg_map pre k") (auto simp: seg_map_append overlay_def not_le [symmetric])
qed

lemma overlay_overlay:
  "lo \<le> idx \<Longrightarrow> n \<le> length data \<Longrightarrow>
     overlay (overlay f lo idx (take n data)) lo (idx + n) (drop n data) = overlay f lo idx data"
  by (auto simp: overlay_def fun_eq_iff)

lemma cutData_front:
  assumes segs: "segs (sr_exIdx r) hi (sr_unassembledStrs r)"
    and u: "sr_unassembledSize r = seg_total (sr_unassembledStrs r)"
    and m: "sr_unassembledStrs r = pre @ (f, fd) # suf" and f: "f \<le> idx"
    and sufs: "segs idx hi suf"
    and d: "data \<noteq> []" "idx + length data \<le> hi" "hi < two64" and ex: "sr_exIdx r \<le> idx"
    and fIt: "getFrontItr r idx = length pre"
    and run: "cutData r idx data = (drp, newIdx, dat, r')"
  shows "cut_ok r hi idx data drp newIdx dat r'"
proof -
  have pre: "segs (sr_exIdx r) f pre" and fd: "fd \<noteq> []" and suf: "segs (f + length fd) hi suf"
    using segs by (auto simp: m segs_append intro: segs_mono_hi)
  have pos: "\<forall>e\<in>set suf. 0 < fst e" using segs_keys_ge [OF suf] fd
    by (metis add_gr_0 length_greater_0_conv less_le_trans)
  have ftail: "add64 f (length fd) = f + length fd" "f + length fd < two64"
    using segs_le [OF suf] d by (simp_all add: add64_small)
  have dend: "add64 idx (length data) = idx + length data" using d by (simp add: add64_small)
  have off: "sub64 idx f = idx - f" using f d by (simp add: sub64_small)
  consider (before) "f + length fd \<le> idx"
    | (inside) "idx < f + length fd" "idx + length data \<le> f + length fd"
    | (over) "idx < f + length fd" "f + length fd < idx + length data" by linarith
  then show ?thesis
  proof cases
    case before
    then have tail: "cutTail r idx data = (drp, newIdx, dat, r')"
      using run ex fIt m ftail by (simp add: cutData_def)
    show ?thesis
      by (rule cutTail_ok [where pre = "pre @ [(f, fd)]", OF _ _ _ sufs pos d tail])
        (use before pre fd m u in \<open>auto simp: segs_snoc\<close>)
  next
    case inside
    let ?nd = "str_replace fd (idx - f) (length data) data"
    have len: "length ?nd = length fd" using inside f by simp
    have "drp" "r' = r\<lparr>sr_unassembledStrs := pre @ (f, ?nd) # suf\<rparr>"
      using run ex fIt m inside dend ftail off by (auto simp: cutData_def)
    moreover have "segs (sr_exIdx r) hi (pre @ (f, ?nd) # suf)"
      using pre suf fd len by (auto simp: segs_append)
    moreover have "seg_map (pre @ (f, ?nd) # suf) =
        overlay (seg_map (sr_unassembledStrs r)) (sr_exIdx r) idx data"
      unfolding m using inside f ex len
      by (intro seg_map_update [OF pre]) (auto simp: nth_str_replace add.commute)
    moreover have "seg_map (pre @ (f, fd) # suf) idx \<noteq> None"
      using inside f by (auto simp: seg_map_append split: option.splits)
    ultimately show ?thesis
      unfolding cut_ok_def using u m len ex
      by (intro exI [of _ "pre @ (f, ?nd) # suf"]) (simp add: stored_def)
  next
    case over
    let ?n = "f + length fd - idx"
    let ?nd = "str_replace fd (idx - f) ?n (take ?n data)"
    let ?m = "pre @ (f, ?nd) # suf"
    let ?r = "r\<lparr>sr_unassembledStrs := ?m\<rparr>"
    have n: "?n < length data" "sub64 (f + length fd) idx = ?n"
      using over ftail by (simp_all add: sub64_small)
    have len: "length ?nd = length fd" using over f n by simp
    have tail: "cutTail ?r (f + length fd) (drop ?n data) = (drp, newIdx, dat, r')"
      using run ex fIt m over dend ftail off n by (simp add: cutData_def Let_def)
    have nd: "?nd \<noteq> []" using len fd by (metis length_0_conv)
    have "cut_ok ?r hi (f + length fd) (drop ?n data) drp newIdx dat r'"
      by (rule cutTail_ok [where pre = "pre @ [(f, ?nd)]", OF _ _ _ suf pos _ _ d(3) tail])
        (use pre nd len m u n d in \<open>auto simp: segs_snoc\<close>)
    moreover have map1: "seg_map ?m =
        overlay (seg_map (sr_unassembledStrs r)) (sr_exIdx r) idx (take ?n data)"
      unfolding m using over f ex len n
      by (intro seg_map_update [OF pre]) (auto simp: nth_str_replace add.commute)
    moreover have "f + length fd = idx + ?n" using over by simp
    moreover have "seg_map (sr_unassembledStrs r) (max (sr_exIdx r) idx) \<noteq> None"
      using over f ex by (auto simp: m seg_map_append max_def split: option.splits)
    ultimately show ?thesis
      using overlay_overlay [OF ex, of ?n data] n by (auto simp: cut_ok_def)
  qed
qed

lemma cutData_ok:
  assumes segs: "segs (sr_exIdx r) hi (sr_unassembledStrs r)"
    and u: "sr_unassembledSize r = seg_total (sr_unassembledStrs r)"
    and d: "data \<noteq> []" "idx + length data \<le> hi" "hi < two64"
    and run: "cutData r idx data = (drp, newIdx, dat, r')"
  shows "cut_ok r hi idx data drp newIdx dat r'"
proof (cases "idx < sr_exIdx r")
  case True
  let ?ex = "sr_exIdx r" and ?f = "seg_map (sr_unassembledStrs r)"
  have end_idx: "add64 idx (length data) = idx + length data" using d by (simp add: add64_small)
  show ?thesis
  proof (cases "idx + length data \<le> ?ex")
    case old: True
    with True run end_idx have "drp" "r' = r" by (auto simp: cutData_def)
    moreover have "overlay ?f ?ex idx data = ?f" using old by (auto simp: overlay_def fun_eq_iff)
    ultimately show ?thesis
      unfolding cut_ok_def using segs u old
      by (intro exI [of _ "sr_unassembledStrs r"]) (simp add: stored_def)
  next
    case new: False
    let ?d = "drop (?ex - idx) data"
    have exlt: "?ex < two64" using segs_le [OF segs] d by simp
    have tail: "cutTail r ?ex ?d = (drp, newIdx, dat, r')"
      using True new run end_idx exlt by (simp add: cutData_def sub64_small)
    have pos: "\<forall>e\<in>set (sr_unassembledStrs r). 0 < fst e"
      using segs_keys_ge [OF segs] True by fastforce
    have "cut_ok r hi ?ex ?d drp newIdx dat r'"
      by (rule cutTail_ok [where pre = "[]", OF _ _ _ segs pos _ _ d(3) tail])
        (use u new d True in auto)
    moreover have "overlay ?f ?ex ?ex ?d = overlay ?f ?ex idx data"
      using True new by (auto simp: overlay_def fun_eq_iff)
    ultimately show ?thesis using True by (simp add: cut_ok_def max_def add.commute)
  qed
next
  case False
  then have ex: "sr_exIdx r \<le> idx" by simp
  from segs obtain pre suf where m: "sr_unassembledStrs r = pre @ suf"
    and pre: "\<forall>e\<in>set pre. fst e \<le> idx" and suf: "\<forall>e\<in>set suf. idx < fst e"
    by (rule segs_split_at)
  have idx: "idx + 1 < two64" "idx < hi" using d by (cases data; simp)+
  note fIt = getFrontItr_split [OF m idx(1) pre suf]
  have sufs: "segs idx hi suf"
    using segs suf idx segs_raise [of _ hi suf idx] by (fastforce simp: m segs_append)
  have pos: "\<forall>e\<in>set suf. 0 < fst e" using suf by auto
  show ?thesis
  proof (cases pre rule: rev_cases)
    case Nil
    then have tail: "cutTail r idx data = (drp, newIdx, dat, r')"
      using run ex fIt m by (simp add: cutData_def)
    show ?thesis
      by (rule cutTail_ok [OF m _ _ sufs pos d tail]) (use Nil u m ex in auto)
  next
    case (snoc pre0 e)
    obtain f fd where e: "e = (f, fd)" by (cases e)
    show ?thesis
      by (rule cutData_front [OF segs u _ _ sufs d ex _ run]) (use m snoc e fIt pre in auto)
  qed
qed

section \<open>The assembly loop\<close>

text \<open>
  \<open>run_from f ex n\<close>: the indices from \<open>ex\<close> on at which \<open>f\<close> holds a byte without a gap number
  exactly \<open>n\<close>; \<open>run_bytes\<close> are those bytes.
\<close>

definition run_from :: "(nat \<Rightarrow> byte option) \<Rightarrow> nat \<Rightarrow> nat \<Rightarrow> bool" where
  "run_from f ex n \<longleftrightarrow> (\<forall>k. ex \<le> k \<and> k < ex + n \<longrightarrow> f k \<noteq> None) \<and> f (ex + n) = None"

definition run_bytes :: "(nat \<Rightarrow> byte option) \<Rightarrow> nat \<Rightarrow> nat \<Rightarrow> bytes" where
  "run_bytes f ex n = map (\<lambda>k. the (f k)) [ex..<ex + n]"

lemma length_run_bytes [simp]: "length (run_bytes f ex n) = n"
  by (simp add: run_bytes_def)

lemma run_bytes_append:
  "run_bytes f ex n @ run_bytes f (ex + n) k = run_bytes f ex (n + k)"
  unfolding run_bytes_def by (subst map_upt_append) (simp_all add: add.assoc)

lemma run_from_0: "f ex = None \<Longrightarrow> run_from f ex 0"
  by (auto simp: run_from_def)

text \<open>The effect of the loop on the map, the expected index and the output stream.\<close>

definition assembled ::
  "bool \<Rightarrow> nat \<Rightarrow> nat \<Rightarrow> segmap \<Rightarrow> nat \<Rightarrow> ByteStream \<Rightarrow> (segmap \<times> nat \<times> nat \<times> ByteStream) \<Rightarrow> nat \<Rightarrow> bool" where
  "assembled eofSign L hi m ex out res n \<longleftrightarrow>
     (\<exists>m' out'. res = (m', ex + n, seg_total m', out') \<and>
        run_from (seg_map m) ex n \<and> segs (ex + n) hi m' \<and>
        seg_map m' = (\<lambda>k. if k < ex + n then None else seg_map m k) \<and>
        ByteStream_inv out' \<and>
        out' = out\<lparr>bs_buf := bs_buf out @ run_bytes (seg_map m) ex n,
                   bs_size := bs_size out + n,
                   bs_num_bytes_written := add64 (bs_num_bytes_written out) n,
                   bs_isInputEnd := bs_isInputEnd out \<or> (eofSign \<and> 0 < n \<and> ex + n = L)\<rparr>)"

lemma assembled_0:
  assumes "segs ex hi m" "seg_map m ex = None" "ByteStream_inv out"
  shows "assembled eofSign L hi m ex out (m, ex, seg_total m, out) 0"
  using assms seg_map_below [OF assms(1)]
  by (auto simp: assembled_def run_from_def run_bytes_def fun_eq_iff ByteStream_inv_def
      intro!: exI [of _ out])

lemma seg_map_first:
  assumes "segs (ex + length d) hi m"
  shows "run_bytes (seg_map ((ex, d) # m)) ex (length d) = d"
    and "\<And>k. ex + length d \<le> k \<Longrightarrow> seg_map ((ex, d) # m) k = seg_map m k"
  by (auto simp: run_bytes_def intro: nth_equalityI)

lemma assembled_step:
  assumes asm: "assembled eofSign L hi m (ex + length d) out2 res n"
    and m: "segs (ex + length d) hi m" and d: "d \<noteq> []"
    and out2: "out2 = out\<lparr>bs_buf := bs_buf out @ d, bs_size := bs_size out + length d,
        bs_num_bytes_written := add64 (bs_num_bytes_written out) (length d),
        bs_isInputEnd := eofSign \<and> ex + length d = L\<rparr>"
    and fin: "bs_isInputEnd out2 \<Longrightarrow> m = []" and ended: "\<not> bs_isInputEnd out"
  shows "assembled eofSign L hi ((ex, d) # m) ex out res (length d + n)"
proof -
  let ?n = "length d" and ?f = "seg_map ((ex, d) # m)"
  from asm obtain m' out' where res: "res = (m', ex + ?n + n, seg_total m', out')"
    and run: "run_from (seg_map m) (ex + ?n) n" and m': "segs (ex + ?n + n) hi m'"
    and map': "seg_map m' = (\<lambda>k. if k < ex + ?n + n then None else seg_map m k)"
    and inv': "ByteStream_inv out'"
    and out': "out' = out2\<lparr>bs_buf := bs_buf out2 @ run_bytes (seg_map m) (ex + ?n) n,
       bs_size := bs_size out2 + n,
       bs_num_bytes_written := add64 (bs_num_bytes_written out2) n,
       bs_isInputEnd := bs_isInputEnd out2 \<or> (eofSign \<and> 0 < n \<and> ex + ?n + n = L)\<rparr>"
    by (auto simp: assembled_def)
  have n0: "n = 0" if "m = []"
    using run that by (cases n) (auto simp: run_from_def)
  have bytes: "run_bytes ?f ex (?n + n) = d @ run_bytes (seg_map m) (ex + ?n) n"
  proof -
    have "run_bytes ?f (ex + ?n) n = run_bytes (seg_map m) (ex + ?n) n"
      by (auto simp: run_bytes_def)
    then show ?thesis using seg_map_first(1) [OF m] run_bytes_append [of ?f ex ?n n] by metis
  qed
  have run': "run_from ?f ex (?n + n)"
    unfolding run_from_def
  proof (intro conjI allI impI)
    fix k
    assume "ex \<le> k \<and> k < ex + (?n + n)"
    then show "?f k \<noteq> None" using run by (cases "k < ex + ?n") (auto simp: run_from_def)
  next
    show "?f (ex + (?n + n)) = None" using run by (simp add: run_from_def add.assoc)
  qed
  have out: "out' = out\<lparr>bs_buf := bs_buf out @ run_bytes ?f ex (?n + n),
       bs_size := bs_size out + (?n + n),
       bs_num_bytes_written := add64 (bs_num_bytes_written out) (?n + n),
       bs_isInputEnd := bs_isInputEnd out \<or> (eofSign \<and> 0 < ?n + n \<and> ex + (?n + n) = L)\<rparr>"
  proof -
    have "bs_isInputEnd out2 \<or> (eofSign \<and> 0 < n \<and> ex + ?n + n = L) \<longleftrightarrow>
        bs_isInputEnd out \<or> (eofSign \<and> 0 < ?n + n \<and> ex + (?n + n) = L)"
      using out2 fin n0 d ended by auto
    then show ?thesis unfolding out' bytes using out2 by (simp add: add64_assoc add.assoc)
  qed
  have "seg_map m' = (\<lambda>k. if k < ex + (?n + n) then None else ?f k)"
    using map' by (auto simp: fun_eq_iff)
  with res run' m' inv' out show ?thesis
    unfolding assembled_def by (intro exI [of _ m'] exI [of _ out']) (simp add: add.assoc)
qed

lemma pushLoop_assembled:
  assumes "segs ex hi m" "ByteStream_inv out" "m \<noteq> [] \<Longrightarrow> \<not> bs_isInputEnd out"
    and "hi \<le> ex + (bs_capacity out - bs_size out)" "hi \<le> L" "L < two64"
    and "eofSign \<Longrightarrow> eofIdx = L"
  shows "\<exists>res n. pushLoop eofSign eofIdx m ex (seg_total m) out = Inr res \<and>
           assembled eofSign L hi m ex out res n"
  using assms
proof (induction m arbitrary: ex out)
  case Nil
  then have "assembled eofSign L hi [] ex out ([], ex, seg_total [], out) 0"
    by (intro assembled_0) auto
  then show ?case by auto
next
  case (Cons e m)
  obtain i d where e: "e = (i, d)" by (cases e)
  from Cons.prems e have i: "ex \<le> i" "d \<noteq> []" and m: "segs (i + length d) hi m" by auto
  show ?case
  proof (cases "ex < i")
    case True
    have "assembled eofSign L hi (e # m) ex out (e # m, ex, seg_total (e # m), out) 0"
      by (rule assembled_0) (use Cons.prems e m True in \<open>auto simp: seg_map_below\<close>)
    then show ?thesis using True e by auto
  next
    case False
    with i have ix: "i = ex" by simp
    let ?n = "length d" and ?f = "seg_map ((ex, d) # m)"
    have hi: "ex + ?n \<le> hi" using segs_le [OF m] ix by simp
    have ended: "\<not> bs_isInputEnd out" using Cons.prems(3) by simp
    have w: "ByteStream_write out d =
        (?n, out\<lparr>bs_buf := bs_buf out @ d, bs_size := bs_size out + ?n,
                 bs_num_bytes_written := add64 (bs_num_bytes_written out) ?n\<rparr>)"
      using Cons.prems(2,4) ended hi by (intro ByteStream_write_all) auto
    define out1 where "out1 = snd (ByteStream_write out d)"
    define out2 where "out2 = (if eofSign \<and> eofIdx \<le> ex + ?n then ByteStream_end_input out1 else out1)"
    have out1: "ByteStream_inv out1" using Cons.prems(2) by (simp add: out1_def bs.invar_write)
    have out2: "ByteStream_inv out2" using out1 by (simp add: out2_def)
    have tot: "seg_total m + ?n < two64"
      using segs_total [OF Cons.prems(1)] e hi Cons.prems(5,6) by simp
    have ar: "add64 ex ?n = ex + ?n" "sub64 (seg_total (e # m)) ?n = seg_total m"
      using hi Cons.prems(5,6) tot e by (auto simp: add64_small sub64_small)
    have loop: "pushLoop eofSign eofIdx (e # m) ex (seg_total (e # m)) out =
        pushLoop eofSign eofIdx m (ex + ?n) (seg_total m) out2"
      using w ar by (simp add: e ix out2_def out1_def Let_def)
    have fin: "m = []" if "bs_isInputEnd out2"
    proof -
      have "L \<le> ex + ?n"
        using that ended w Cons.prems(7) by (auto simp: out2_def out1_def split: if_splits)
      then show ?thesis
        using segs_keys_ge [OF m] segs_keys_less [OF m] Cons.prems(5) ix by (cases m) auto
    qed
    have caps: "bs_capacity out2 - bs_size out2 = bs_capacity out - bs_size out - ?n"
      using w by (simp add: out2_def out1_def ByteStream_end_input_def)
    have hi2: "hi \<le> ex + ?n + (bs_capacity out2 - bs_size out2)"
      using caps hi Cons.prems(4) by simp
    obtain res n where res: "pushLoop eofSign eofIdx m (ex + ?n) (seg_total m) out2 = Inr res"
      and asm: "assembled eofSign L hi m (ex + ?n) out2 res n"
      using Cons.IH [OF _ out2 _ hi2 Cons.prems(5-7)] m ix fin by blast
    have "assembled eofSign L hi ((ex, d) # m) ex out res (?n + n)"
    proof (rule assembled_step [OF asm _ i(2) _ fin ended])
      show "segs (ex + ?n) hi m" using m ix by simp
      have "eofSign \<and> eofIdx \<le> ex + ?n \<longleftrightarrow> eofSign \<and> ex + ?n = L"
        using hi Cons.prems(5,7) by auto
      then show "out2 = out\<lparr>bs_buf := bs_buf out @ d, bs_size := bs_size out + ?n,
          bs_num_bytes_written := add64 (bs_num_bytes_written out) ?n,
          bs_isInputEnd := eofSign \<and> ex + ?n = L\<rparr>"
        using w ended by (cases out) (simp add: out2_def out1_def ByteStream_end_input_def)
    qed
    then have "assembled eofSign L hi (e # m) ex out res (?n + n)" using e ix by simp
    then show ?thesis using loop res by metis
  qed
qed

section \<open>The invariant and the effect of \<open>push_substring\<close>\<close>

text \<open>
  \<open>L\<close> is the length of the stream being received. Everything stored lies between the expected
  index and both the end of the stream and the end of the window; nothing is stored at the
  expected index itself; the output has ended exactly when the end is known and reached.
\<close>

abbreviation out_room :: "StreamReassembler \<Rightarrow> nat" where
  "out_room r \<equiv> bs_capacity (sr_output r) - bs_size (sr_output r)"

definition sr_inv :: "nat \<Rightarrow> StreamReassembler \<Rightarrow> bool" where
  "sr_inv L r \<longleftrightarrow>
     ByteStream_inv (sr_output r) \<and> bs_capacity (sr_output r) = sr_capacity r \<and>
     bs_num_bytes_written (sr_output r) = sr_exIdx r \<and>
     L + sr_capacity r < two64 \<and>
     segs (sr_exIdx r) (min L (sr_exIdx r + out_room r)) (sr_unassembledStrs r) \<and>
     sr_unassembledSize r = seg_total (sr_unassembledStrs r) \<and>
     seg_map (sr_unassembledStrs r) (sr_exIdx r) = None \<and>
     (sr_eofSignRecv r \<longrightarrow> sr_eofIdx r = L) \<and>
     (bs_isInputEnd (sr_output r) \<longleftrightarrow> sr_eofSignRecv r \<and> sr_exIdx r = L)"

definition push_ok :: "nat \<Rightarrow> StreamReassembler \<Rightarrow> bytes \<Rightarrow> nat \<Rightarrow> bool \<Rightarrow> bool" where
  "push_ok L r data index eof \<longleftrightarrow>
     index + length data \<le> L \<and> index + length data \<le> sr_exIdx r + out_room r \<and>
     (eof \<longrightarrow> index + length data = L)"

lemma sr_inv_new:
  "L + capacity < two64 \<Longrightarrow> sr_inv L (StreamReassembler_new capacity)"
  by (auto simp: sr_inv_def StreamReassembler_new_def ByteStream_new_def ByteStream_inv_def)

lemma sr_inv_exIdx_le: "sr_inv L r \<Longrightarrow> sr_exIdx r \<le> L"
  by (auto simp: sr_inv_def dest: segs_le)

lemma firstUnacceptableIdx_eq:
  assumes "sr_inv L r"
  shows "firstUnacceptableIdx r = sr_exIdx r + out_room r"
  using assms sr_inv_exIdx_le [OF assms]
  by (auto simp: sr_inv_def firstUnacceptableIdx_def ByteStream_inv_def add64_small sub64_small)

text \<open>
  The result of one push: the new bytes are laid over the stored ones, and the gap-free run at
  the expected index moves to the output.
\<close>

definition push_effect ::
  "nat \<Rightarrow> StreamReassembler \<Rightarrow> bytes \<Rightarrow> nat \<Rightarrow> bool \<Rightarrow> nat \<Rightarrow> StreamReassembler \<Rightarrow> bool" where
  "push_effect L r data index eof n r' \<longleftrightarrow>
     (let f = overlay (seg_map (sr_unassembledStrs r)) (sr_exIdx r) index data
      in run_from f (sr_exIdx r) n \<and>
         sr_exIdx r' = sr_exIdx r + n \<and>
         seg_map (sr_unassembledStrs r') = (\<lambda>k. if k < sr_exIdx r + n then None else f k) \<and>
         bs_buf (sr_output r') = bs_buf (sr_output r) @ run_bytes f (sr_exIdx r) n) \<and>
     sr_eofSignRecv r' = (sr_eofSignRecv r \<or> eof) \<and> sr_capacity r' = sr_capacity r \<and>
     bs_num_bytes_read (sr_output r') = bs_num_bytes_read (sr_output r) \<and>
     bs_error (sr_output r') = bs_error (sr_output r)"

text \<open>
  The assembly step. The value behind \<open>end()\<close> only matters for an empty map, where both branches
  leave the state as it is.
\<close>

lemma pushTry_pushLoop:
  assumes "segs (sr_exIdx r) hi (sr_unassembledStrs r)"
  shows "pushTry r =
    bind_result
      (pushLoop (sr_eofSignRecv r) (sr_eofIdx r) (sr_unassembledStrs r) (sr_exIdx r)
         (sr_unassembledSize r) (sr_output r))
      (\<lambda>(m, exIdx, usize, out).
         Inr (r\<lparr>sr_unassembledStrs := m, sr_exIdx := exIdx, sr_unassembledSize := usize,
                sr_output := out\<rparr>))"
  using assms
  by (cases "sr_unassembledStrs r"; cases r) (auto simp: pushTry_def iter_first_def)

lemma pushTry_effect:
  fixes r
  defines "ex \<equiv> sr_exIdx r" and "m \<equiv> sr_unassembledStrs r" and "out \<equiv> sr_output r"
  assumes "segs ex hi m" "sr_unassembledSize r = seg_total m" "ByteStream_inv out"
    and "\<not> bs_isInputEnd out" "hi = min L (ex + out_room r)" "L + sr_capacity r < two64"
    and "bs_capacity out = sr_capacity r" "bs_num_bytes_written out = ex"
    and "sr_eofSignRecv r \<Longrightarrow> sr_eofIdx r = L" "sr_eofSignRecv r \<Longrightarrow> ex < L"
  shows "\<exists>r' n. pushTry r = Inr r' \<and> sr_inv L r' \<and> run_from (seg_map m) ex n \<and>
    sr_exIdx r' = ex + n \<and>
    seg_map (sr_unassembledStrs r') = (\<lambda>k. if k < ex + n then None else seg_map m k) \<and>
    bs_buf (sr_output r') = bs_buf out @ run_bytes (seg_map m) ex n \<and>
    sr_eofSignRecv r' = sr_eofSignRecv r \<and> sr_capacity r' = sr_capacity r \<and>
    bs_num_bytes_read (sr_output r') = bs_num_bytes_read out \<and>
    bs_error (sr_output r') = bs_error out"
proof -
  obtain m' out' n where
    loop: "pushLoop (sr_eofSignRecv r) (sr_eofIdx r) m ex (seg_total m) out =
      Inr (m', ex + n, seg_total m', out')"
    and run: "run_from (seg_map m) ex n" and m': "segs (ex + n) hi m'"
    and map': "seg_map m' = (\<lambda>k. if k < ex + n then None else seg_map m k)"
    and inv': "ByteStream_inv out'"
    and out': "out' = out\<lparr>bs_buf := bs_buf out @ run_bytes (seg_map m) ex n,
       bs_size := bs_size out + n, bs_num_bytes_written := add64 (bs_num_bytes_written out) n,
       bs_isInputEnd := bs_isInputEnd out \<or> (sr_eofSignRecv r \<and> 0 < n \<and> ex + n = L)\<rparr>"
    using pushLoop_assembled [of ex hi m out L "sr_eofSignRecv r" "sr_eofIdx r"] assms
    by (auto simp: assembled_def)
  let ?r = "r\<lparr>sr_unassembledStrs := m', sr_exIdx := ex + n,
    sr_unassembledSize := seg_total m', sr_output := out'\<rparr>"
  have try_eq: "pushTry r = Inr ?r"
    using pushTry_pushLoop [of r hi] assms loop by simp
  have bounds: "ex + n \<le> L" "n \<le> bs_capacity out - bs_size out"
    using segs_le [OF m'] assms(8) by (auto simp: out_def)
  have "ex + n + out_room ?r = ex + out_room r" using bounds out' by (simp add: out_def)
  then have segs': "segs (ex + n) (min L (ex + n + out_room ?r)) m'"
    using m' assms(8) by (simp only:)
  have written: "bs_num_bytes_written out' = ex + n"
    using out' assms(9,11) bounds by (simp add: add64_small)
  have "sr_inv L ?r"
    unfolding sr_inv_def
    using assms segs' inv' run map' out' bounds written
    by (auto simp: run_from_def)
  with try_eq run map' out' show ?thesis by auto
qed

lemma overlay_old: "data = [] \<or> index + length data \<le> lo \<Longrightarrow> overlay f lo index data = f"
  by (auto simp: overlay_def fun_eq_iff)

text \<open>The state after the end-of-stream bookkeeping at the start of \<open>push_substring\<close>.\<close>

definition mark_eof :: "nat \<Rightarrow> StreamReassembler \<Rightarrow> bool \<Rightarrow> StreamReassembler" where
  "mark_eof L r eof =
     (if eof then
        r\<lparr>sr_eofSignRecv := True, sr_eofIdx := L,
          sr_output := (if L = sr_exIdx r then ByteStream_end_input (sr_output r) else sr_output r)\<rparr>
      else r)"

lemma mark_eof_fields [simp]:
  "sr_exIdx (mark_eof L r eof) = sr_exIdx r"
  "sr_unassembledStrs (mark_eof L r eof) = sr_unassembledStrs r"
  "sr_unassembledSize (mark_eof L r eof) = sr_unassembledSize r"
  "sr_capacity (mark_eof L r eof) = sr_capacity r"
  "sr_eofSignRecv (mark_eof L r eof) = (eof \<or> sr_eofSignRecv r)"
  "bs_buf (sr_output (mark_eof L r eof)) = bs_buf (sr_output r)"
  "bs_size (sr_output (mark_eof L r eof)) = bs_size (sr_output r)"
  "bs_capacity (sr_output (mark_eof L r eof)) = bs_capacity (sr_output r)"
  "bs_num_bytes_read (sr_output (mark_eof L r eof)) = bs_num_bytes_read (sr_output r)"
  "bs_num_bytes_written (sr_output (mark_eof L r eof)) = bs_num_bytes_written (sr_output r)"
  "bs_error (sr_output (mark_eof L r eof)) = bs_error (sr_output r)"
  "sr_eofIdx (mark_eof L r eof) = (if eof then L else sr_eofIdx r)"
  "ByteStream_inv (sr_output (mark_eof L r eof)) = ByteStream_inv (sr_output r)"
  "bs_isInputEnd (sr_output (mark_eof L r eof)) =
     (bs_isInputEnd (sr_output r) \<or> (eof \<and> L = sr_exIdx r))"
  by (simp_all add: mark_eof_def ByteStream_end_input_def ByteStream_inv_def)

lemma sr_inv_mark_eof: "sr_inv L r \<Longrightarrow> sr_inv L (mark_eof L r eof)"
  unfolding sr_inv_def mark_eof_fields by auto

lemma push_substring_mark_eof:
  assumes "push_ok L r data index eof" "L < two64" "\<not> bs_isInputEnd (sr_output r)"
  shows "push_substring r data index eof =
    (let r1 = mark_eof L r eof
     in if data = [] then Inr r1
        else
          let (drp, newIdx, dat, r2) = cutData r1 index data
          in if drp then Inr r2
             else if newIdx < firstUnacceptableIdx r2
             then pushTry (r2\<lparr>sr_unassembledStrs := map_assign (sr_unassembledStrs r2) newIdx dat,
                              sr_unassembledSize := add64 (sr_unassembledSize r2) (length dat)\<rparr>)
             else pushTry r2)"
proof -
  have "eof \<Longrightarrow> add64 index (length data) = L"
    using assms by (auto simp: push_ok_def add64_small)
  then have "(if eof then
        let e = add64 index (length data);
            r' = r\<lparr>sr_eofSignRecv := True, sr_eofIdx := e\<rparr>
        in if e = sr_exIdx r then r'\<lparr>sr_output := ByteStream_end_input (sr_output r)\<rparr> else r'
      else r) = mark_eof L r eof"
    by (auto simp: mark_eof_def Let_def)
  then show ?thesis
    using assms(3) by (simp add: push_substring_def Let_def split_beta cong: if_cong)
qed

lemma push_effect_unchanged:
  assumes "sr_inv L r" "push_ok L r data index eof"
    and "overlay (seg_map (sr_unassembledStrs r)) (sr_exIdx r) index data (sr_exIdx r) = None"
    and "sr_exIdx r' = sr_exIdx r" "bs_buf (sr_output r') = bs_buf (sr_output r)"
    and "seg_map (sr_unassembledStrs r') =
      overlay (seg_map (sr_unassembledStrs r)) (sr_exIdx r) index data"
    and "sr_eofSignRecv r' = (sr_eofSignRecv r \<or> eof)" "sr_capacity r' = sr_capacity r"
    and "bs_num_bytes_read (sr_output r') = bs_num_bytes_read (sr_output r)"
    and "bs_error (sr_output r') = bs_error (sr_output r)"
  shows "push_effect L r data index eof 0 r'"
proof -
  have "overlay (seg_map (sr_unassembledStrs r)) (sr_exIdx r) index data k = None"
    if "k < sr_exIdx r" for k
    using that seg_map_below [of "sr_exIdx r"] assms(1) by (auto simp: overlay_def sr_inv_def)
  with assms show ?thesis
    by (auto simp: push_effect_def Let_def run_bytes_def fun_eq_iff intro: run_from_0)
qed

lemma push_old:
  assumes inv: "sr_inv L r" and ok: "push_ok L r data index eof"
    and old: "data = [] \<or> index + length data \<le> sr_exIdx r"
  shows "\<exists>r'. push_substring r data index eof = Inr r' \<and> sr_inv L r' \<and>
           push_effect L r data index eof 0 r'"
proof (cases "bs_isInputEnd (sr_output r)")
  case True
  then have "push_substring r data index eof = Inr r" "sr_eofSignRecv r"
    using inv by (auto simp: push_substring_def sr_inv_def)
  moreover have "push_effect L r data index eof 0 r"
    by (rule push_effect_unchanged [OF inv ok])
      (use inv old calculation in \<open>auto simp: overlay_old sr_inv_def\<close>)
  ultimately show ?thesis using inv by blast
next
  case False
  let ?r1 = "mark_eof L r eof"
  have L: "L < two64" using inv by (simp add: sr_inv_def)
  have "add64 index (length data) = index + length data"
    using ok L by (auto simp: push_ok_def add64_small)
  with old have "data \<noteq> [] \<Longrightarrow> cutData ?r1 index data = (True, 0, data, ?r1)"
    by (cases data) (auto simp: cutData_def)
  then have "push_substring r data index eof = Inr ?r1"
    using push_substring_mark_eof [OF ok L False] by (simp add: Let_def)
  moreover have "push_effect L r data index eof 0 ?r1"
    by (rule push_effect_unchanged [OF inv ok])
      (use inv old in \<open>auto simp: overlay_old sr_inv_def\<close>)
  ultimately show ?thesis using sr_inv_mark_eof [OF inv] by blast
qed

lemma push_new:
  assumes inv: "sr_inv L r" and ok: "push_ok L r data index eof"
    and new: "sr_exIdx r < index + length data" and data: "data \<noteq> []"
  shows "\<exists>r' n. push_substring r data index eof = Inr r' \<and> sr_inv L r' \<and>
           push_effect L r data index eof n r'"
proof -
  let ?ex = "sr_exIdx r" and ?r1 = "mark_eof L r eof"
  define hi where "hi = min L (?ex + out_room r)"
  define f where "f = overlay (seg_map (sr_unassembledStrs r)) ?ex index data"
  have L: "L + sr_capacity r < two64" "L < two64" using inv by (auto simp: sr_inv_def)
  have exL: "?ex < L" using new ok by (auto simp: push_ok_def)
  have live: "\<not> bs_isInputEnd (sr_output r)" "\<not> bs_isInputEnd (sr_output ?r1)"
    using inv exL by (auto simp: sr_inv_def)
  have inv1: "sr_inv L ?r1" using inv by (rule sr_inv_mark_eof)
  have segs1: "segs (sr_exIdx ?r1) hi (sr_unassembledStrs ?r1)"
    and u1: "sr_unassembledSize ?r1 = seg_total (sr_unassembledStrs ?r1)"
    using inv by (auto simp: sr_inv_def hi_def)
  obtain drp newIdx dat r2 where cut: "cutData ?r1 index data = (drp, newIdx, dat, r2)"
    by (cases "cutData ?r1 index data") auto
  have hi: "index + length data \<le> hi" "hi < two64"
    using ok L by (auto simp: push_ok_def hi_def)
  have "cut_ok ?r1 hi index data drp newIdx dat r2"
    by (rule cutData_ok [OF segs1 u1 data hi cut])
  then obtain m' where
    r2: "r2 = ?r1\<lparr>sr_unassembledStrs := m', sr_unassembledSize := seg_total m'\<rparr>"
    and segs': "segs ?ex hi (stored drp newIdx dat m')"
    and map': "seg_map (stored drp newIdx dat m') = f"
    and nd: "\<not> drp \<Longrightarrow> newIdx < hi"
      "\<not> drp \<Longrightarrow> seg_total (stored drp newIdx dat m') = seg_total m' + length dat"
    and drop_old: "drp \<Longrightarrow> seg_map (sr_unassembledStrs r) (max ?ex index) \<noteq> None"
    using new by (auto simp: cut_ok_def f_def)
  show ?thesis
  proof (cases drp)
    case True
    with push_substring_mark_eof [OF ok L(2) live(1)] cut data
    have res: "push_substring r data index eof = Inr r2" by (simp add: Let_def)
    have none: "seg_map (sr_unassembledStrs r) ?ex = None" using inv by (simp add: sr_inv_def)
    have "?ex < index"
    proof (rule ccontr)
      assume "\<not> ?ex < index"
      then have "max ?ex index = ?ex" by simp
      with none drop_old [OF True] show False by simp
    qed
    then have gap: "f ?ex = None" using inv by (simp add: f_def overlay_def sr_inv_def)
    have "sr_inv L r2"
      using inv1 True segs' map' gap by (simp add: sr_inv_def r2 stored_def hi_def)
    moreover have "push_effect L r data index eof 0 r2"
      by (rule push_effect_unchanged [OF inv ok])
        (use gap map' True in \<open>auto simp: r2 stored_def f_def\<close>)
    ultimately show ?thesis using res by blast
  next
    case False
    let ?m = "map_assign m' newIdx dat"
    let ?r3 = "r2\<lparr>sr_unassembledStrs := ?m, sr_unassembledSize := seg_total ?m\<rparr>"
    have segs3: "segs ?ex hi ?m" and map3: "seg_map ?m = f"
      using segs' map' False by (simp_all add: stored_def)
    have "firstUnacceptableIdx r2 = firstUnacceptableIdx ?r1"
      by (simp add: firstUnacceptableIdx_def r2)
    then have acc: "newIdx < firstUnacceptableIdx r2"
      using nd(1) [OF False] firstUnacceptableIdx_eq [OF inv1] by (simp add: hi_def)
    have "seg_total ?m < two64" using segs_total [OF segs3] hi(2) by simp
    then have "add64 (sr_unassembledSize r2) (length dat) = seg_total ?m"
      using nd(2) [OF False] False by (simp add: stored_def r2 add64_small)
    moreover have "sr_unassembledStrs r2 = m'" by (simp add: r2)
    ultimately have res: "push_substring r data index eof = pushTry ?r3"
      using push_substring_mark_eof [OF ok L(2) live(1)] cut data False acc
      by (simp add: Let_def)
    have r3: "sr_exIdx ?r3 = ?ex" "sr_unassembledStrs ?r3 = ?m" "sr_output ?r3 = sr_output ?r1"
      "sr_unassembledSize ?r3 = seg_total ?m" "sr_capacity ?r3 = sr_capacity r"
      "sr_eofSignRecv ?r3 = sr_eofSignRecv ?r1" "sr_eofIdx ?r3 = sr_eofIdx ?r1"
      by (simp_all add: r2)
    have "\<exists>r' n. pushTry ?r3 = Inr r' \<and> sr_inv L r' \<and> run_from (seg_map ?m) ?ex n \<and>
        sr_exIdx r' = ?ex + n \<and>
        seg_map (sr_unassembledStrs r') = (\<lambda>k. if k < ?ex + n then None else seg_map ?m k) \<and>
        bs_buf (sr_output r') = bs_buf (sr_output ?r1) @ run_bytes (seg_map ?m) ?ex n \<and>
        sr_eofSignRecv r' = sr_eofSignRecv ?r1 \<and> sr_capacity r' = sr_capacity r \<and>
        bs_num_bytes_read (sr_output r') = bs_num_bytes_read (sr_output ?r1) \<and>
        bs_error (sr_output r') = bs_error (sr_output ?r1)"
      by (rule pushTry_effect [of ?r3 hi L, unfolded r3])
        (use segs3 inv1 live exL L in \<open>auto simp: sr_inv_def hi_def\<close>)
    then show ?thesis
      unfolding res map3 push_effect_def Let_def f_def [symmetric] mark_eof_fields by blast
  qed
qed

lemma push_substring_effect:
  assumes inv: "sr_inv L r" and ok: "push_ok L r data index eof"
  shows "\<exists>r' n. push_substring r data index eof = Inr r' \<and> sr_inv L r' \<and>
           push_effect L r data index eof n r'"
proof (cases "data = [] \<or> index + length data \<le> sr_exIdx r")
  case True
  then show ?thesis using push_old [OF inv ok] by blast
next
  case False
  then show ?thesis using push_new [OF inv ok] by simp
qed

end
