(* ===== verification/Reassembler_Stream.thy ===== *)
theory Reassembler_Stream
  imports Reassembler_Correct
begin

text \<open>
  The reassembler over whole executions: pushes of substrings of one stream \<open>S\<close>, in any order and
  with any overlap, interleaved with reads of the output. The properties say that the output is
  always the longest gap-free prefix received so far, that the memory accounting is exact, that
  the end of the stream is signalled exactly when it has been reached, and which inputs run into
  the code's use after free.
\<close>

datatype reasm_op = Push bytes nat bool | Consume nat

fun reasm_step :: "StreamReassembler \<Rightarrow> reasm_op \<Rightarrow> StreamReassembler result" where
  "reasm_step r (Push data index eof) = push_substring r data index eof"
| "reasm_step r (Consume n) = Inr (r\<lparr>sr_output := ByteStream_pop_output (sr_output r) n\<rparr>)"

text \<open>
  The sender's side of the contract: the data is the piece of \<open>S\<close> at its index, ends inside the
  advertised window, and carries the end mark only if it ends the stream.
\<close>

fun reasm_ok :: "bytes \<Rightarrow> StreamReassembler \<Rightarrow> reasm_op \<Rightarrow> bool" where
  "reasm_ok S r (Push data index eof) \<longleftrightarrow>
     push_ok (length S) r data index eof \<and> data = take (length data) (drop index S)"
| "reasm_ok S r (Consume n) \<longleftrightarrow> True"

text \<open>Ghost state: the indices received so far and whether the end mark has been seen.\<close>

fun reasm_ghost :: "nat set \<times> bool \<Rightarrow> reasm_op \<Rightarrow> nat set \<times> bool" where
  "reasm_ghost (R, f) (Push data index eof) = (R \<union> {index..<index + length data}, f \<or> eof)"
| "reasm_ghost (R, f) (Consume n) = (R, f)"

fun received :: "reasm_op list \<Rightarrow> nat set" where
  "received [] = {}"
| "received (Push data index eof # ops) = {index..<index + length data} \<union> received ops"
| "received (Consume n # ops) = received ops"

fun end_seen :: "reasm_op list \<Rightarrow> bool" where
  "end_seen [] \<longleftrightarrow> False"
| "end_seen (Push data index eof # ops) \<longleftrightarrow> eof \<or> end_seen ops"
| "end_seen (Consume n # ops) \<longleftrightarrow> end_seen ops"

lemma foldl_reasm_ghost:
  "foldl reasm_ghost (R, f) ops = (R \<union> received ops, f \<or> end_seen ops)"
proof (induction ops arbitrary: R f)
  case Nil
  then show ?case by simp
next
  case (Cons oper ops)
  then show ?case by (cases oper) (auto simp: Un_assoc)
qed

definition reasm_inv :: "bytes \<Rightarrow> nat set \<times> bool \<Rightarrow> StreamReassembler \<Rightarrow> bool" where
  "reasm_inv S g r \<longleftrightarrow>
     sr_inv (length S) r \<and>
     {..<sr_exIdx r} \<union> dom (seg_map (sr_unassembledStrs r)) = fst g \<and>
     sr_eofSignRecv r = snd g \<and>
     (\<forall>k b. seg_map (sr_unassembledStrs r) k = Some b \<longrightarrow> b = S ! k) \<and>
     bs_num_bytes_read (sr_output r) + bs_size (sr_output r) = sr_exIdx r \<and>
     bs_buf (sr_output r) = drop (bs_num_bytes_read (sr_output r)) (take (sr_exIdx r) S)"

lemma reasm_inv_new:
  "length S + capacity < two64 \<Longrightarrow> reasm_inv S ({}, False) (StreamReassembler_new capacity)"
  using sr_inv_new [of "length S" capacity]
  by (auto simp: reasm_inv_def StreamReassembler_new_def ByteStream_new_def)

lemma overlay_slice:
  assumes "data = take (length data) (drop index S)" "index + length data \<le> length S"
    and "\<And>b. f k = Some b \<Longrightarrow> b = S ! k" "overlay f lo index data k = Some b"
  shows "b = S ! k"
proof (cases "lo \<le> k \<and> index \<le> k \<and> k < index + length data")
  case True
  then obtain j where j: "k = index + j" "j < length data" by (auto simp: le_iff_add)
  have "b = data ! j" using True j assms(4) by (simp add: overlay_def)
  also have "\<dots> = take (length data) (drop index S) ! j" using assms(1) by simp
  also have "\<dots> = S ! k" using j assms(2) by simp
  finally show ?thesis .
next
  case False
  then have "f k = Some b" using assms(4) by (auto simp: overlay_def)
  then show ?thesis by (rule assms(3))
qed

lemma run_bytes_stream:
  assumes "run_from f ex n" "ex + n \<le> length S" "\<And>k b. f k = Some b \<Longrightarrow> b = S ! k"
  shows "take ex S @ run_bytes f ex n = take (ex + n) S"
proof -
  have "run_bytes f ex n = map ((!) S) [ex..<ex + n]"
    unfolding run_bytes_def
  proof (rule map_cong [OF refl])
    fix k
    assume "k \<in> set [ex..<ex + n]"
    then obtain b where "f k = Some b" using assms(1) by (auto simp: run_from_def)
    then show "the (f k) = S ! k" using assms(3) by simp
  qed
  also have "\<dots> = take n (drop ex S)"
    using assms(2) by (intro nth_equalityI) auto
  finally show ?thesis by (simp add: take_add)
qed

lemma reasm_push_law:
  assumes inv: "reasm_inv S g r" and ok: "reasm_ok S r (Push data index eof)"
  shows "\<exists>r'. push_substring r data index eof = Inr r' \<and>
           reasm_inv S (reasm_ghost g (Push data index eof)) r'"
proof -
  let ?ex = "sr_exIdx r"
  define f where "f = overlay (seg_map (sr_unassembledStrs r)) ?ex index data"
  have pok: "push_ok (length S) r data index eof"
    and slice: "data = take (length data) (drop index S)" using ok by auto
  have srinv: "sr_inv (length S) r" using inv by (simp add: reasm_inv_def)
  from push_substring_effect [OF srinv pok] obtain r' n where
    res: "push_substring r data index eof = Inr r'" and inv': "sr_inv (length S) r'"
    and eff: "push_effect (length S) r data index eof n r'" by blast
  have run: "run_from f ?ex n" and ex': "sr_exIdx r' = ?ex + n"
    and map': "seg_map (sr_unassembledStrs r') = (\<lambda>k. if k < ?ex + n then None else f k)"
    and buf': "bs_buf (sr_output r') = bs_buf (sr_output r) @ run_bytes f ?ex n"
    and eof': "sr_eofSignRecv r' = (sr_eofSignRecv r \<or> eof)"
    and read': "bs_num_bytes_read (sr_output r') = bs_num_bytes_read (sr_output r)"
    using eff unfolding push_effect_def Let_def f_def [symmetric] by blast+
  have fS: "b = S ! k" if "f k = Some b" for k b
    using overlay_slice [OF slice _ _ that [unfolded f_def]] pok inv
    by (auto simp: push_ok_def reasm_inv_def)
  have exL: "?ex + n \<le> length S" using sr_inv_exIdx_le [OF inv'] ex' by simp
  have size': "bs_size (sr_output r') = bs_size (sr_output r) + n"
    using inv' srinv buf' by (simp add: sr_inv_def ByteStream_inv_def)
  have "bs_buf (sr_output r') = drop (bs_num_bytes_read (sr_output r)) (take (?ex + n) S)"
  proof -
    let ?rd = "bs_num_bytes_read (sr_output r)"
    have "?rd \<le> length (take ?ex S)" using inv exL by (auto simp: reasm_inv_def)
    then have "drop ?rd (take ?ex S) @ run_bytes f ?ex n = drop ?rd (take ?ex S @ run_bytes f ?ex n)"
      by simp
    then show ?thesis using inv buf' run_bytes_stream [OF run exL fS] by (simp add: reasm_inv_def)
  qed
  moreover have "{..<?ex + n} \<union> dom (seg_map (sr_unassembledStrs r')) =
      {..<?ex} \<union> dom (seg_map (sr_unassembledStrs r)) \<union> {index..<index + length data}"
    using run map' by (auto simp: f_def run_from_def overlay_def dom_def split: if_splits)
  ultimately have "reasm_inv S (reasm_ghost g (Push data index eof)) r'"
    using inv inv' ex' read' size' eof' map' fS
    by (cases g) (auto simp: reasm_inv_def split: if_splits)
  with res show ?thesis by blast
qed

lemma reasm_consume_law:
  assumes "reasm_inv S g r"
  shows "reasm_inv S (reasm_ghost g (Consume n)) (r\<lparr>sr_output := ByteStream_pop_output (sr_output r) n\<rparr>)"
proof -
  let ?o = "sr_output r" and ?p = "ByteStream_pop_output (sr_output r) n"
  have inv: "ByteStream_inv ?o" "sr_inv (length S) r" using assms by (auto simp: reasm_inv_def sr_inv_def)
  have pop: "?p = ?o\<lparr>bs_buf := drop n (bs_buf ?o), bs_size := bs_size ?o - n,
      bs_num_bytes_read := add64 (bs_num_bytes_read ?o) (min (bs_size ?o) n)\<rparr>"
    using inv(1) by (rule ByteStream_pop_inv_eq)
  have "sr_exIdx r \<le> length S" "length S < two64"
    using sr_inv_exIdx_le [OF inv(2)] inv(2) by (auto simp: sr_inv_def)
  then have read: "bs_num_bytes_read ?p = bs_num_bytes_read ?o + min (bs_size ?o) n"
    using assms by (auto simp: pop reasm_inv_def intro!: add64_small)
  have hi: "min (length S) (sr_exIdx r + out_room r) \<le>
      min (length S) (sr_exIdx r + (bs_capacity ?p - bs_size ?p))"
    by (simp add: pop)
  have "segs (sr_exIdx r) (min (length S) (sr_exIdx r + (bs_capacity ?p - bs_size ?p)))
      (sr_unassembledStrs r)"
    by (rule segs_mono_hi [OF _ hi]) (use inv(2) in \<open>auto simp: sr_inv_def\<close>)
  then have "sr_inv (length S) (r\<lparr>sr_output := ?p\<rparr>)"
    using inv bs.invar_pop [OF inv(1), of n] by (auto simp: sr_inv_def pop)
  moreover have "bs_buf ?p = drop (bs_num_bytes_read ?p) (take (sr_exIdx r) S)"
  proof -
    have "bs_buf ?p = drop (bs_num_bytes_read ?o + n) (take (sr_exIdx r) S)"
      using assms by (simp add: pop reasm_inv_def add.commute)
    moreover have "length (take (sr_exIdx r) S) \<le> bs_num_bytes_read ?o + bs_size ?o"
      using assms by (simp add: reasm_inv_def)
    ultimately show ?thesis unfolding read by (cases "n \<le> bs_size ?o") (simp_all add: min_def)
  qed
  moreover have "bs_num_bytes_read ?p + bs_size ?p = sr_exIdx r"
    using assms read by (auto simp: reasm_inv_def pop min_def)
  ultimately show ?thesis
    using assms by (cases g) (simp add: reasm_inv_def)
qed

interpretation sr: guarded_system reasm_step "reasm_inv S" reasm_ghost "reasm_ok S"
  for S
proof
  fix g r e
  assume "reasm_inv S g r" "reasm_ok S r e"
  then show "\<exists>t. reasm_step r e = Inr t \<and> reasm_inv S (reasm_ghost g e) t"
    by (cases e) (use reasm_push_law reasm_consume_law in auto)
qed

text \<open>What the invariant says in terms of the indices received.\<close>

lemma reasm_inv_least:
  assumes "reasm_inv S (R, f) r"
  shows "sr_exIdx r = (LEAST k. k \<notin> R)"
proof -
  have R: "{..<sr_exIdx r} \<union> dom (seg_map (sr_unassembledStrs r)) = R"
    and gap: "seg_map (sr_unassembledStrs r) (sr_exIdx r) = None"
    using assms by (auto simp: reasm_inv_def sr_inv_def)
  show ?thesis
  proof (rule Least_equality [symmetric])
    show "sr_exIdx r \<notin> R" using R gap by auto
    show "sr_exIdx r \<le> k" if "k \<notin> R" for k using that R by (auto simp: not_less [symmetric])
  qed
qed

lemma dom_seg_map_Cons: "dom (seg_map ((i, d) # m)) = {i..<i + length d} \<union> dom (seg_map m)"
  by (auto simp: dom_def)

lemma seg_total_card: "segs lo hi m \<Longrightarrow> seg_total m = card (dom (seg_map m)) \<and> finite (dom (seg_map m))"
proof (induction lo hi m rule: segs.induct)
  case (1 lo hi)
  then show ?case by simp
next
  case (2 lo hi i d m)
  then have "{i..<i + length d} \<inter> dom (seg_map m) = {}"
    using seg_map_below [of "i + length d" hi m] by fastforce
  with 2 show ?case by (simp add: dom_seg_map_Cons card_Un_disjoint del: seg_map.simps)
qed

lemma reasm_inv_unassembled:
  assumes "reasm_inv S (R, f) r"
  shows "sr_unassembledSize r = card (R - {..<sr_exIdx r})"
proof -
  let ?m = "sr_unassembledStrs r"
  have segs: "segs (sr_exIdx r) (min (length S) (sr_exIdx r + out_room r)) ?m"
    and u: "sr_unassembledSize r = seg_total ?m"
    and R: "{..<sr_exIdx r} \<union> dom (seg_map ?m) = R"
    using assms by (auto simp: reasm_inv_def sr_inv_def)
  have "dom (seg_map ?m) \<inter> {..<sr_exIdx r} = {}" using seg_map_below [OF segs] by fastforce
  then have "R - {..<sr_exIdx r} = dom (seg_map ?m)" using R by blast
  then show ?thesis using u seg_total_card [OF segs] by simp
qed

text \<open>No operation of the reassembler depends on what a read through \<open>end()\<close> yields.\<close>

lemma ByteStream_inv_size_le: "ByteStream_inv s \<Longrightarrow> bs_size s \<le> bs_capacity s"
  by (simp add: ByteStream_inv_def)

lemma getFrontItr_past_end: "getFrontItr (r\<lparr>sr_past_end := j\<rparr>) idx = getFrontItr r idx"
proof (cases "sr_unassembledStrs r = []")
  case True
  then show ?thesis by (simp add: getFrontItr_def map_lower_bound_def iter_first_def)
next
  case False
  define lb where "lb = map_lower_bound (sr_unassembledStrs r) (add64 idx 1)"
  define fIt where "fIt = (if lb \<noteq> 0 then lb - 1 else lb)"
  have "lb \<le> length (sr_unassembledStrs r)"
    unfolding lb_def map_lower_bound_def by (rule length_takeWhile_le)
  with False have "fIt < length (sr_unassembledStrs r)" by (cases lb) (auto simp: fIt_def)
  then have "iter_first (r\<lparr>sr_past_end := j\<rparr>) fIt = iter_first r fIt" by (simp add: iter_first_def)
  moreover have "getFrontItr q idx =
      (if idx < iter_first q fIt then length (sr_unassembledStrs r) else fIt)"
    if "sr_unassembledStrs q = sr_unassembledStrs r" for q
    using that by (simp only: getFrontItr_def Let_def lb_def fIt_def)
  ultimately show ?thesis by simp
qed

lemma cutTail_past_end:
  "cutTail (r\<lparr>sr_past_end := j\<rparr>) idx data =
     (\<lambda>(a, b, c, t). (a, b, c, t\<lparr>sr_past_end := j\<rparr>)) (cutTail r idx data)"
  by (simp add: cutTail_def getBackItr_def split_beta Let_def)

lemma cutData_past_end:
  "cutData (r\<lparr>sr_past_end := j\<rparr>) idx data =
     (\<lambda>(a, b, c, t). (a, b, c, t\<lparr>sr_past_end := j\<rparr>)) (cutData r idx data)"
proof -
  have upd: "r\<lparr>sr_past_end := j, sr_unassembledStrs := m\<rparr> = r\<lparr>sr_unassembledStrs := m, sr_past_end := j\<rparr>"
    for m by simp
  show ?thesis
    unfolding cutData_def getFrontItr_past_end Let_def
    by (simp add: upd cutTail_past_end split_beta)
qed

lemma pushTry_past_end:
  "pushTry (r\<lparr>sr_past_end := j\<rparr>) = bind_result (pushTry r) (\<lambda>t. Inr (t\<lparr>sr_past_end := j\<rparr>))"
proof (cases "sr_unassembledStrs r")
  case Nil
  then show ?thesis by (cases r) (simp add: pushTry_def iter_first_def)
next
  case (Cons e m)
  then show ?thesis
    by (auto simp: pushTry_def iter_first_def bind_result_assoc split_beta
        intro!: arg_cong [where f = "bind_result _"])
qed

section \<open>Properties\<close>

lemma reasm_inv_past_end: "reasm_inv S g (r\<lparr>sr_past_end := j\<rparr>) = reasm_inv S g r"
  by (simp add: reasm_inv_def sr_inv_def)

text \<open>
  Claim C10. Push any substrings of a stream \<open>S\<close> into a fresh reassembler, in any order, repeated
  and overlapping at will, each inside the window advertised at that moment, and read from the
  output in between: whatever value \<open>j\<close> the reads of \<open>->first\<close> through \<open>end()\<close> give, no call throws or
  uses an erased node, the expected index is the first index not received so far, exactly that
  many bytes have been written, and what the reader has not yet consumed is the rest of that prefix
  of \<open>S\<close>, unaltered and in order. (C++ leaves those reads undefined; the claim is about an
  implementation in which they give some value.)
\<close>

theorem reassembly_correct:
  assumes "length S + capacity < two64"
    and "allowed reasm_step (reasm_ok S) ((StreamReassembler_new capacity)\<lparr>sr_past_end := j\<rparr>) ops"
  shows "\<exists>r. run reasm_step ((StreamReassembler_new capacity)\<lparr>sr_past_end := j\<rparr>) ops = Inr r \<and>
    sr_exIdx r = (LEAST k. k \<notin> received ops) \<and>
    ByteStream_bytes_written (sr_output r) = sr_exIdx r \<and>
    bs_buf (sr_output r) =
      drop (ByteStream_bytes_read (sr_output r)) (take (sr_exIdx r) S)"
proof -
  have "reasm_inv S ({}, False) ((StreamReassembler_new capacity)\<lparr>sr_past_end := j\<rparr>)"
    using reasm_inv_new [OF assms(1)] by (simp add: reasm_inv_past_end)
  from sr.run_law [OF this assms(2)] obtain r where
    run: "run reasm_step ((StreamReassembler_new capacity)\<lparr>sr_past_end := j\<rparr>) ops = Inr r"
    and inv: "reasm_inv S (received ops, end_seen ops) r"
    by (auto simp: foldl_reasm_ghost)
  with reasm_inv_least [OF inv] show ?thesis by (auto simp: reasm_inv_def sr_inv_def)
qed

lemmas reasm_eval =
  StreamReassembler_new_def ByteStream_new_def push_substring_def cutData_def cutTail_def
  cutBack.simps getBackItr_def getFrontItr_def map_lower_bound_def map_upper_bound_def
  iter_first_def pushTry_def firstUnacceptableIdx_def ByteStream_write_def
  ByteStream_end_input_def ByteStream_pop_output_def push_ok_def str_replace_def map_erase_def
  add64_def sub64_def two64_def Let_def

theorem reassembly_correct_witness:
  "\<exists>r. run reasm_step ((StreamReassembler_new 8)\<lparr>sr_past_end := 1\<rparr>)
       [Push [3, 4] 2 True, Push [2, 3] 1 False, Push [1] 0 False, Consume 1] = Inr r \<and>
     sr_exIdx r = (LEAST k. k \<notin> {0..<4}) \<and> bs_buf (sr_output r) = [2, 3, 4]"
proof -
  let ?ops = "[Push [3, 4] 2 True, Push [2, 3] 1 False, Push [1] 0 False, Consume 1]"
  let ?r = "(StreamReassembler_new 8)\<lparr>sr_past_end := 1\<rparr>"
  have len: "length [1, 2, 3, 4 :: byte] + 8 < two64" by (simp add: two64_def)
  have ok: "allowed reasm_step (reasm_ok [1, 2, 3, 4]) ?r ?ops"
    by (simp add: reasm_eval)
  have rec: "received ?ops = {0..<4}" by auto
  obtain r where r: "run reasm_step ?r ?ops = Inr r" "bs_buf (sr_output r) = [2, 3, 4]"
    by (simp add: reasm_eval)
  with reassembly_correct [OF len ok] show ?thesis unfolding rec by auto
qed

text \<open>
  Claim C34. Under the same contract, that is when every push ends inside the window advertised at
  that moment, the memory accounting is exact: \<open>unassembled_bytes\<close> counts each received but not yet
  assembled index once, however often it was pushed, and together with the unread output it never
  exceeds the capacity. (Without the contract it can: \<open>overrun_stored_in_full\<close>.)
\<close>

theorem reassembler_memory:
  assumes "length S + capacity < two64"
    and "allowed reasm_step (reasm_ok S) (StreamReassembler_new capacity) ops"
    and "run reasm_step (StreamReassembler_new capacity) ops = Inr r"
  shows "unassembled_bytes r = card (received ops - {..<sr_exIdx r}) \<and>
    (StreamReassembler_empty r \<longleftrightarrow> received ops = {..<sr_exIdx r}) \<and>
    ByteStream_buffer_size (sr_output r) + unassembled_bytes r \<le> sr_capacity r"
proof -
  have inv: "reasm_inv S (received ops, end_seen ops) r"
    using sr.run_invar [OF reasm_inv_new [OF assms(1)] assms(2,3)] by (simp add: foldl_reasm_ghost)
  note u = reasm_inv_unassembled [OF inv]
  have fin: "finite (received ops)" by (induction ops rule: received.induct) auto
  have sub: "{..<sr_exIdx r} \<subseteq> received ops" using inv by (auto simp: reasm_inv_def)
  have segs: "segs (sr_exIdx r) (min (length S) (sr_exIdx r + out_room r)) (sr_unassembledStrs r)"
    and tot: "sr_unassembledSize r = seg_total (sr_unassembledStrs r)"
    and out: "ByteStream_inv (sr_output r)" "bs_capacity (sr_output r) = sr_capacity r"
    using inv by (auto simp: reasm_inv_def sr_inv_def)
  have "sr_unassembledSize r \<le> out_room r" using segs_total [OF segs] tot by simp
  then have "bs_size (sr_output r) + sr_unassembledSize r \<le> sr_capacity r"
    using ByteStream_inv_size_le [OF out(1)] out(2) by linarith
  moreover have "card (received ops - {..<sr_exIdx r}) = 0 \<longleftrightarrow> received ops = {..<sr_exIdx r}"
    using fin sub by (auto simp: card_eq_0_iff)
  ultimately show ?thesis by (simp add: unassembled_bytes_def StreamReassembler_empty_def u)
qed

theorem reassembler_memory_witness:
  "\<exists>r. run reasm_step (StreamReassembler_new 4)
       [Push [3, 4] 2 False, Push [2, 3] 1 False, Push [3] 2 False] = Inr r \<and>
     unassembled_bytes r = card ({1..<4} - {..<sr_exIdx r})"
proof -
  let ?ops = "[Push [3, 4] 2 False, Push [2, 3] 1 False, Push [3] 2 False]"
  have len: "length [1, 2, 3, 4 :: byte] + 4 < two64" by (simp add: two64_def)
  have ok: "allowed reasm_step (reasm_ok [1, 2, 3, 4]) (StreamReassembler_new 4) ?ops"
    by (simp add: reasm_eval)
  obtain r where r: "run reasm_step (StreamReassembler_new 4) ?ops = Inr r"
    by (simp add: reasm_eval)
  have rec: "received ?ops = {1..<4}" by auto
  show ?thesis using reassembler_memory [OF len ok r] r unfolding rec by blast
qed

text \<open>
  Only the start of a substring is compared with the window: one that starts inside it and ends
  beyond is stored in full, whatever the capacity.
\<close>

lemma overrun_stored_in_full:
  assumes "0 < index" "index < capacity" "data \<noteq> []" "index + length data + capacity < two64"
  shows "\<exists>r. push_substring (StreamReassembler_new capacity) data index False = Inr r \<and>
    unassembled_bytes r = length data"
proof -
  have "add64 0 (length data) = length data" "add64 0 capacity = capacity" "sub64 capacity 0 = capacity"
    using assms by (auto simp: add64_small sub64_small)
  with assms show ?thesis
    by (simp add: push_substring_def cutData_def cutTail_def cutBack.simps getFrontItr_def
        map_lower_bound_def iter_first_def pushTry_def firstUnacceptableIdx_def Let_def
        unassembled_bytes_def StreamReassembler_new_def ByteStream_new_def)
qed

lemma overrun_exceeds_capacity:
  "\<exists>r. push_substring (StreamReassembler_new 2) [1, 2, 3] 1 False = Inr r \<and> sr_capacity r < unassembled_bytes r"
  by (simp add: reasm_eval unassembled_bytes_def)

text \<open>
  Under the same contract the output stream's input ends exactly when a push carrying
  the end mark has been made and every byte of \<open>S\<close> has been assembled; then everything written
  is \<open>S\<close>.
\<close>

lemma reassembler_eof:
  assumes "length S + capacity < two64"
    and "allowed reasm_step (reasm_ok S) (StreamReassembler_new capacity) ops"
    and "run reasm_step (StreamReassembler_new capacity) ops = Inr r"
  shows "(ByteStream_input_ended (sr_output r) \<longleftrightarrow> end_seen ops \<and> sr_exIdx r = length S) \<and>
    (ByteStream_input_ended (sr_output r) \<longrightarrow>
       bs_buf (sr_output r) = drop (ByteStream_bytes_read (sr_output r)) S)"
proof -
  have "reasm_inv S (received ops, end_seen ops) r"
    using sr.run_invar [OF reasm_inv_new [OF assms(1)] assms(2,3)] by (simp add: foldl_reasm_ghost)
  then show ?thesis by (auto simp: reasm_inv_def sr_inv_def)
qed

lemma reassembler_eof_demo:
  "\<exists>r. run reasm_step (StreamReassembler_new 4) [Push [2] 1 True, Push [1] 0 False] = Inr r \<and>
     ByteStream_input_ended (sr_output r) \<and> bs_buf (sr_output r) = drop 0 [1, 2]"
proof -
  let ?ops = "[Push [2] 1 True, Push [1] 0 False]"
  have len: "length [1, 2 :: byte] + 4 < two64" by (simp add: two64_def)
  have ok: "allowed reasm_step (reasm_ok [1, 2]) (StreamReassembler_new 4) ?ops"
    by (simp add: reasm_eval)
  obtain r where r: "run reasm_step (StreamReassembler_new 4) ?ops = Inr r"
    and x: "sr_exIdx r = 2" "bs_num_bytes_read (sr_output r) = 0"
    by (simp add: reasm_eval)
  show ?thesis using reassembler_eof [OF len ok r] r x by auto
qed

text \<open>
  The undefined reads of \<open>->first\<close> through \<open>end()\<close> are harmless: whatever value they
  yield, \<open>push_substring\<close> computes the same result, in every state and for every argument.
\<close>

lemma past_end_reads_harmless:
  "push_substring (r\<lparr>sr_past_end := j\<rparr>) data index eof =
     bind_result (push_substring r data index eof) (\<lambda>r'. Inr (r'\<lparr>sr_past_end := j\<rparr>))"
proof (cases "ByteStream_input_ended (sr_output r)")
  case True
  then show ?thesis by (simp add: push_substring_def)
next
  case False
  define mark where "mark q = (if eof then
      let e = add64 index (length data); q' = q\<lparr>sr_eofSignRecv := True, sr_eofIdx := e\<rparr>
      in if e = sr_exIdx q then q'\<lparr>sr_output := ByteStream_end_input (sr_output q)\<rparr> else q'
      else q)" for q :: StreamReassembler
  define store where "store = (\<lambda>(drp, newIdx, d, q). if drp then Inr q
      else pushTry (if newIdx < firstUnacceptableIdx q
        then q\<lparr>sr_unassembledStrs := map_assign (sr_unassembledStrs q) newIdx d,
               sr_unassembledSize := add64 (sr_unassembledSize q) (length d)\<rparr> else q))"
  have push: "push_substring q data index eof =
      (if data = [] then Inr (mark q) else store (cutData (mark q) index data))"
    if "\<not> ByteStream_input_ended (sr_output q)" for q
    using that by (simp add: push_substring_def mark_def store_def Let_def split_beta)
  have mark: "mark (r\<lparr>sr_past_end := j\<rparr>) = (mark r)\<lparr>sr_past_end := j\<rparr>"
    by (simp add: mark_def Let_def)
  have store: "store (drp, i, d, q\<lparr>sr_past_end := j\<rparr>) =
      bind_result (store (drp, i, d, q)) (\<lambda>t. Inr (t\<lparr>sr_past_end := j\<rparr>))" for drp i d q
    by (cases q) (simp add: store_def firstUnacceptableIdx_def flip: pushTry_past_end)
  show ?thesis
    using False by (simp add: push mark cutData_past_end split_beta store)
qed

lemma cutData_empty_map:
  assumes "sr_unassembledStrs q = []"
  shows "cutData q (sr_exIdx q) data = (False, sr_exIdx q, data, q)"
proof -
  have "q\<lparr>sr_unassembledStrs := [], sr_unassembledSize := sr_unassembledSize q\<rparr> = q"
    using assms by (cases q) simp
  then show ?thesis using assms by (simp add: cutData_def cutTail_def cutBack.simps Let_def)
qed

text \<open>
  Claim C39. Data that overruns the window is not discarded but ends in undefined behaviour: in any
  state a reassembler gets into with nothing pending, its stream not ended and some but not enough
  room in its output, a push at the expected index fills the output, erases the stored entry and
  then goes on using the string inside the erased node. (With no room at all the push is not stored
  and no node is erased.)
\<close>

theorem overrun_use_after_free:
  assumes "sr_inv L r" "sr_unassembledStrs r = []" "\<not> ByteStream_input_ended (sr_output r)"
    and "0 < ByteStream_remaining_capacity (sr_output r)" "ByteStream_remaining_capacity (sr_output r) < length data"
    and "sr_exIdx r + length data + sr_capacity r < two64"
  shows "push_substring r data (sr_exIdx r) eof = Inl UseAfterFree"
proof -
  have out: "bs_capacity (sr_output r) = sr_capacity r" "bs_size (sr_output r) \<le> sr_capacity r"
    using assms(1) ByteStream_inv_size_le [of "sr_output r"] by (auto simp: sr_inv_def)
  have room: "ByteStream_remaining_capacity (sr_output r) = sr_capacity r - bs_size (sr_output r)"
    using out assms(6) by (simp add: ByteStream_remaining_capacity_def sub64_small)
  have arith: "add64 (sr_exIdx r) (length data) = sr_exIdx r + length data" "data \<noteq> []"
    "sr_exIdx r < firstUnacceptableIdx r"
    "sub64 (sr_capacity r) (bs_size (sr_output r)) = sr_capacity r - bs_size (sr_output r)"
    using assms(4-6) out room by (auto simp: firstUnacceptableIdx_def add64_small sub64_small)
  define r1 where "r1 = (if eof then r\<lparr>sr_eofSignRecv := True, sr_eofIdx := sr_exIdx r + length data\<rparr> else r)"
  have r1: "sr_unassembledStrs r1 = []" "sr_exIdx r1 = sr_exIdx r" "sr_output r1 = sr_output r"
    "firstUnacceptableIdx r1 = firstUnacceptableIdx r"
    using assms(2) by (simp_all add: r1_def firstUnacceptableIdx_def)
  have "push_substring r data (sr_exIdx r) eof =
      pushTry (r1\<lparr>sr_unassembledStrs := [(sr_exIdx r, data)], sr_unassembledSize := add64 (sr_unassembledSize r1) (length data)\<rparr>)"
    using assms(3,4) arith cutData_empty_map [OF r1(1), of data] r1 room
    by (cases eof) (simp_all add: push_substring_def Let_def r1_def)
  also have "\<dots> = Inl UseAfterFree"
    using assms(3-5) arith(4) room out(1) by (simp add: pushTry_def iter_first_def r1 ByteStream_write_def Let_def)
  finally show ?thesis .
qed

theorem overrun_use_after_free_witness:
  "\<exists>r. run reasm_step (StreamReassembler_new 2) [Push [1, 2] 0 False, Consume 1] = Inr r \<and>
     push_substring r [3, 4] 2 True = Inl UseAfterFree"
proof -
  let ?ops = "[Push [1, 2] 0 False, Consume 1]"
  have len: "length [1, 2 :: byte] + 2 < two64" by (simp add: two64_def)
  have ok: "allowed reasm_step (reasm_ok [1, 2]) (StreamReassembler_new 2) ?ops" by (simp add: reasm_eval)
  obtain r where r: "run reasm_step (StreamReassembler_new 2) ?ops = Inr r" "sr_unassembledStrs r = []" "sr_exIdx r = 2"
    "\<not> bs_isInputEnd (sr_output r)" "bs_capacity (sr_output r) = 2" "bs_size (sr_output r) = 1" "sr_capacity r = 2"
    by (simp add: reasm_eval)
  have "sr_inv 2 r" using sr.run_invar [OF reasm_inv_new [OF len] ok r(1)] by (simp add: reasm_inv_def numeral_2_eq_2)
  from overrun_use_after_free [OF this r(2), of "[3, 4]" True] r show ?thesis
    by (simp add: ByteStream_remaining_capacity_def sub64_def two64_def)
qed

end
