(* ===== verification/Buffers.thy ===== *)
theory Buffers
  imports Prelude
begin

text \<open>
  The byte containers that packets travel in (\<open>src/libsponge/util/buffer.hh\<close>, \<open>buffer.cc\<close>):
  \<open>Buffer\<close> (a shared string and an offset into it), \<open>BufferList\<close> (a queue of buffers) and
  \<open>BufferViewList\<close> (a queue of string views, which are modelled by the bytes they show).

  The locale \<open>byte_view\<close> states what all three promise: \<open>remove_prefix\<close> discards exactly the
  first \<open>n\<close> bytes, or throws \<open>out_of_range\<close> when there are fewer. All three are interpreted.
\<close>

section \<open>\<open>Buffer\<close>\<close>

record Buffer =
  buf_storage :: "bytes option"
  buf_starting_offset :: size_t

definition Buffer_default :: Buffer where
  "Buffer_default = \<lparr>buf_storage = None, buf_starting_offset = 0\<rparr>"

definition Buffer_new :: "bytes \<Rightarrow> Buffer" where
  "Buffer_new s = \<lparr>buf_storage = Some s, buf_starting_offset = 0\<rparr>"

definition Buffer_str :: "Buffer \<Rightarrow> bytes" where
  "Buffer_str b = (case buf_storage b of None \<Rightarrow> [] | Some s \<Rightarrow> drop (buf_starting_offset b) s)"

definition Buffer_size :: "Buffer \<Rightarrow> size_t" where
  "Buffer_size b = length (Buffer_str b)"

definition Buffer_at :: "Buffer \<Rightarrow> size_t \<Rightarrow> byte result" where
  "Buffer_at b n =
     (if n < length (Buffer_str b) then Inr (Buffer_str b ! n)
      else Inl (OutOfRangeError ''string_view::at''))"

definition Buffer_copy :: "Buffer \<Rightarrow> bytes" where
  "Buffer_copy b = Buffer_str b"

text \<open>The body of \<open>remove_prefix\<close> after its range check, which releases a fully consumed string.\<close>

definition Buffer_discard :: "Buffer \<Rightarrow> size_t \<Rightarrow> Buffer" where
  "Buffer_discard b n =
     (let off = buf_starting_offset b + n
      in (case buf_storage b of
            None \<Rightarrow> b\<lparr>buf_starting_offset := off\<rparr>
          | Some s \<Rightarrow>
              if off = length s then b\<lparr>buf_storage := None, buf_starting_offset := off\<rparr>
              else b\<lparr>buf_starting_offset := off\<rparr>))"

definition Buffer_remove_prefix :: "Buffer \<Rightarrow> size_t \<Rightarrow> Buffer result" where
  "Buffer_remove_prefix b n =
     (if n > length (Buffer_str b) then Inl (OutOfRangeError ''Buffer::remove_prefix'')
      else Inr (Buffer_discard b n))"

lemma Buffer_str_default [simp]: "Buffer_str Buffer_default = []"
  by (simp add: Buffer_str_def Buffer_default_def)

lemma Buffer_str_new [simp]: "Buffer_str (Buffer_new s) = s"
  by (simp add: Buffer_str_def Buffer_new_def)

lemma Buffer_copy_new [simp]: "Buffer_copy (Buffer_new s) = s"
  by (simp add: Buffer_copy_def)

lemma Buffer_str_discard [simp]: "Buffer_str (Buffer_discard b n) = drop n (Buffer_str b)"
  by (auto simp: Buffer_discard_def Buffer_str_def Let_def add.commute split: option.split)

section \<open>\<open>BufferList\<close> and \<open>BufferViewList\<close>\<close>

type_synonym BufferList = "Buffer list"
type_synonym BufferViewList = "bytes list"

definition BufferList_default :: BufferList where
  "BufferList_default = []"

definition BufferList_of_Buffer :: "Buffer \<Rightarrow> BufferList" where
  "BufferList_of_Buffer b = [b]"

definition BufferList_append :: "BufferList \<Rightarrow> BufferList \<Rightarrow> BufferList" where
  "BufferList_append bl other = bl @ other"

definition BufferList_of_string :: "bytes \<Rightarrow> BufferList" where
  "BufferList_of_string s = BufferList_append BufferList_default (BufferList_of_Buffer (Buffer_new s))"

text \<open>The implicit conversion \<open>operator Buffer\<close>: only for at most one buffer.\<close>

definition BufferList_to_Buffer :: "BufferList \<Rightarrow> Buffer result" where
  "BufferList_to_Buffer bl =
     (case bl of
        [] \<Rightarrow> Inr Buffer_default
      | [b] \<Rightarrow> Inr b
      | _ \<Rightarrow> Inl (RuntimeError ''BufferList: please use concatenate() to combine a multi-Buffer BufferList into one Buffer''))"

definition BufferList_concatenate :: "BufferList \<Rightarrow> bytes" where
  "BufferList_concatenate bl = concat (map Buffer_str bl)"

definition BufferList_size :: "BufferList \<Rightarrow> size_t" where
  "BufferList_size bl = foldl (\<lambda>ret b. add64 ret (Buffer_size b)) 0 bl"

fun BufferList_remove_prefix :: "BufferList \<Rightarrow> size_t \<Rightarrow> BufferList result" where
  "BufferList_remove_prefix [] n =
     (if n > 0 then Inl (OutOfRangeError ''BufferList::remove_prefix'') else Inr [])"
| "BufferList_remove_prefix (b # bl) n =
     (if n = 0 then Inr (b # bl)
      else if n < length (Buffer_str b) then
        bind_result (Buffer_remove_prefix b n) (\<lambda>b'. Inr (b' # bl))
      else BufferList_remove_prefix bl (n - length (Buffer_str b)))"

definition BufferViewList_of_string :: "bytes \<Rightarrow> BufferViewList" where
  "BufferViewList_of_string s = [s]"

definition BufferViewList_of_BufferList :: "BufferList \<Rightarrow> BufferViewList" where
  "BufferViewList_of_BufferList bl = map Buffer_str bl"

fun BufferViewList_remove_prefix :: "BufferViewList \<Rightarrow> size_t \<Rightarrow> BufferViewList result" where
  "BufferViewList_remove_prefix [] n =
     (if n > 0 then Inl (OutOfRangeError ''BufferListView::remove_prefix'') else Inr [])"
| "BufferViewList_remove_prefix (v # vl) n =
     (if n = 0 then Inr (v # vl)
      else if n < length v then Inr (drop n v # vl)
      else BufferViewList_remove_prefix vl (n - length v))"

definition BufferViewList_size :: "BufferViewList \<Rightarrow> size_t" where
  "BufferViewList_size vl = foldl (\<lambda>ret v. add64 ret (length v)) 0 vl"

text \<open>An \<open>iovec\<close> is the view's bytes and their number.\<close>

definition BufferViewList_as_iovecs :: "BufferViewList \<Rightarrow> (bytes \<times> size_t) list" where
  "BufferViewList_as_iovecs vl = map (\<lambda>x. (x, length x)) vl"

section \<open>The contract of a view\<close>

definition shown :: "('b \<Rightarrow> bytes) \<Rightarrow> 'b result \<Rightarrow> bytes option" where
  "shown contents r = (case r of Inl _ \<Rightarrow> None | Inr b \<Rightarrow> Some (contents b))"

lemma shown_simps [simp]:
  "shown contents (Inl e) = None"
  "shown contents (Inr b) = Some (contents b)"
  by (simp_all add: shown_def)

locale byte_view =
  fixes contents :: "'b \<Rightarrow> bytes"
    and remove_prefix :: "'b \<Rightarrow> nat \<Rightarrow> 'b result"
    and err :: cpp_fault
  assumes remove_ok:
    "n \<le> length (contents b) \<Longrightarrow> \<exists>b'. remove_prefix b n = Inr b' \<and> contents b' = drop n (contents b)"
    and remove_short: "length (contents b) < n \<Longrightarrow> remove_prefix b n = Inl err"
begin

text \<open>Discarding in several steps is discarding the total, and fails exactly when the total is too much.\<close>

lemma removes_total:
  "shown contents (run remove_prefix b ns) =
     (if sum_list ns \<le> length (contents b) then Some (drop (sum_list ns) (contents b)) else None)"
proof (induction ns arbitrary: b)
  case Nil
  then show ?case by simp
next
  case (Cons n ns)
  show ?case
  proof (cases "n \<le> length (contents b)")
    case True
    then obtain c where "remove_prefix b n = Inr c" "contents c = drop n (contents b)"
      using remove_ok by blast
    then show ?thesis using Cons.IH [of c] True by (auto simp: add.commute)
  next
    case False
    then show ?thesis using remove_short [of b n] by simp
  qed
qed

end

interpretation buf: byte_view Buffer_str Buffer_remove_prefix
  "OutOfRangeError ''Buffer::remove_prefix''"
  by unfold_locales (auto simp: Buffer_remove_prefix_def)

lemma BufferList_remove_prefix_short:
  "length (BufferList_concatenate bl) < n \<Longrightarrow>
     BufferList_remove_prefix bl n = Inl (OutOfRangeError ''BufferList::remove_prefix'')"
  by (induction bl n rule: BufferList_remove_prefix.induct)
    (auto simp: BufferList_concatenate_def)

lemma BufferList_remove_prefix_ok:
  "n \<le> length (BufferList_concatenate bl) \<Longrightarrow>
     \<exists>bl'. BufferList_remove_prefix bl n = Inr bl' \<and>
       BufferList_concatenate bl' = drop n (BufferList_concatenate bl)"
proof (induction bl n rule: BufferList_remove_prefix.induct)
  case (1 n)
  then show ?case by (simp add: BufferList_concatenate_def)
next
  case (2 b bl n)
  consider "n = 0" | "0 < n" "n < length (Buffer_str b)" | "0 < n" "length (Buffer_str b) \<le> n"
    by linarith
  then show ?case
    by cases (use 2 in \<open>auto simp: BufferList_concatenate_def Buffer_remove_prefix_def\<close>)
qed

interpretation bl: byte_view BufferList_concatenate BufferList_remove_prefix
  "OutOfRangeError ''BufferList::remove_prefix''"
  by unfold_locales (use BufferList_remove_prefix_short BufferList_remove_prefix_ok in auto)

lemma BufferViewList_remove_prefix_short:
  "length (concat vl) < n \<Longrightarrow>
     BufferViewList_remove_prefix vl n = Inl (OutOfRangeError ''BufferListView::remove_prefix'')"
  by (induction vl n rule: BufferViewList_remove_prefix.induct) auto

lemma BufferViewList_remove_prefix_ok:
  "n \<le> length (concat vl) \<Longrightarrow>
     \<exists>vl'. BufferViewList_remove_prefix vl n = Inr vl' \<and> concat vl' = drop n (concat vl)"
proof (induction vl n rule: BufferViewList_remove_prefix.induct)
  case (1 n)
  then show ?case by simp
next
  case (2 v vl n)
  consider "n = 0" | "0 < n" "n < length v" | "0 < n" "length v \<le> n" by linarith
  then show ?case by cases (use 2 in auto)
qed

interpretation bvl: byte_view concat BufferViewList_remove_prefix
  "OutOfRangeError ''BufferListView::remove_prefix''"
  by unfold_locales (use BufferViewList_remove_prefix_short BufferViewList_remove_prefix_ok in auto)

lemma foldl_add64:
  "a + length (concat vl) < two64 \<Longrightarrow>
     foldl (\<lambda>ret v. add64 ret (length v)) a vl = a + length (concat vl)"
proof (induction vl arbitrary: a)
  case Nil
  then show ?case by simp
next
  case (Cons v vl)
  then show ?case using Cons.IH [of "a + length v"] by (simp add: add64_small)
qed

lemma BufferList_size_eq:
  assumes "length (BufferList_concatenate bl) < two64"
  shows "BufferList_size bl = length (BufferList_concatenate bl)"
proof -
  have "BufferList_size bl = foldl (\<lambda>ret v. add64 ret (length v)) 0 (map Buffer_str bl)"
    unfolding BufferList_size_def Buffer_size_def foldl_map by simp
  then show ?thesis
    using foldl_add64 [of 0 "map Buffer_str bl"] assms by (simp add: BufferList_concatenate_def)
qed

section \<open>Properties\<close>

text \<open>
  A partial write of a discontiguous buffer: however many \<open>remove_prefix\<close> calls a
  \<open>BufferList\<close> and the \<open>BufferViewList\<close> made from it go through, both succeed exactly while the
  total is available, and then both show the same remaining bytes, those after the total.
\<close>

lemma BufferList_views_agree:
  "shown BufferList_concatenate (run BufferList_remove_prefix bl ns) =
     (if sum_list ns \<le> length (BufferList_concatenate bl)
      then Some (drop (sum_list ns) (BufferList_concatenate bl)) else None) \<and>
   shown concat (run BufferViewList_remove_prefix (BufferViewList_of_BufferList bl) ns) =
     shown BufferList_concatenate (run BufferList_remove_prefix bl ns)"
proof -
  have "concat (BufferViewList_of_BufferList bl) = BufferList_concatenate bl"
    by (simp add: BufferViewList_of_BufferList_def BufferList_concatenate_def)
  then show ?thesis
    using bl.removes_total [of bl ns] bvl.removes_total [of "BufferViewList_of_BufferList bl" ns]
    by simp
qed

end
