(* ===== verification/Wrapping_Integers.thy ===== *)
theory Wrapping_Integers
  imports Prelude
begin

text \<open>
  \<open>WrappingInt32\<close>, \<open>wrap\<close> and \<open>unwrap\<close> (\<open>src/libsponge/wrapping_integers.hh\<close>,
  \<open>wrapping_integers.cc\<close>): the 32-bit sequence numbers on the wire and the 64-bit absolute
  sequence numbers inside an endpoint.

  A \<open>WrappingInt32\<close> is its raw value, a \<open>32 word\<close>. The two overloads of \<open>operator-\<close> are
  \<open>WrappingInt32_diff\<close> (two points, a signed distance) and \<open>WrappingInt32_minus\<close> (a point and an
  offset). Conversions to \<open>int32_t\<close> and \<open>int64_t\<close> are two's complement; the one signed addition
  that could leave the range of \<open>int64_t\<close> (a checkpoint within \<open>2 ^ 31\<close> of \<open>2 ^ 63\<close>) is
  given its two's complement value, and no theorem relies on it.
\<close>

type_synonym uint8 = "8 word"
type_synonym uint16 = "16 word"
type_synonym uint32 = "32 word"
type_synonym WrappingInt32 = "32 word"

section \<open>Operations\<close>

definition WrappingInt32_diff :: "WrappingInt32 \<Rightarrow> WrappingInt32 \<Rightarrow> int" where
  "WrappingInt32_diff a b = sint (a - b)"

definition WrappingInt32_plus :: "WrappingInt32 \<Rightarrow> uint32 \<Rightarrow> WrappingInt32" where
  "WrappingInt32_plus a b = a + b"

definition WrappingInt32_minus :: "WrappingInt32 \<Rightarrow> uint32 \<Rightarrow> WrappingInt32" where
  "WrappingInt32_minus a b = WrappingInt32_plus a (- b)"

definition wrap :: "uint64 \<Rightarrow> WrappingInt32 \<Rightarrow> WrappingInt32" where
  "wrap n isn = WrappingInt32_plus isn (word_of_nat n)"

text \<open>\<open>static_cast<int64_t>\<close> and the conversion back to \<open>uint64_t\<close>.\<close>

definition to_int64 :: "int \<Rightarrow> int" where
  "to_int64 i = signed_take_bit 63 i"

definition to_uint64 :: "int \<Rightarrow> uint64" where
  "to_uint64 i = nat (i mod 2 ^ 64)"

definition unwrap :: "WrappingInt32 \<Rightarrow> WrappingInt32 \<Rightarrow> uint64 \<Rightarrow> uint64" where
  "unwrap n isn checkpoint =
     (let dis = WrappingInt32_diff (wrap checkpoint isn) n;
          rst = to_int64 (to_int64 (int checkpoint) - dis);
          rst' = (if rst < 0 then to_int64 (rst + 2 ^ 32) else rst)
      in to_uint64 rst')"

section \<open>Signed distances\<close>

lemma to_int64_small: "- (2 ^ 63) \<le> i \<Longrightarrow> i < 2 ^ 63 \<Longrightarrow> to_int64 i = i"
  unfolding to_int64_def by (rule signed_take_bit_int_eq_self) simp_all

lemma to_uint64_small: "0 \<le> i \<Longrightarrow> i < 2 ^ 64 \<Longrightarrow> int (to_uint64 i) = i"
  by (simp add: to_uint64_def)

lemma WrappingInt32_diff_range: "- (2 ^ 31) \<le> WrappingInt32_diff a b" "WrappingInt32_diff a b < 2 ^ 31"
  using sint_range_size [of "a - b"] by (simp_all add: WrappingInt32_diff_def word_size)

lemma wrap_eq_iff: "wrap x isn = wrap y isn \<longleftrightarrow> int x mod 2 ^ 32 = int y mod 2 ^ 32"
proof -
  have "wrap x isn = wrap y isn \<longleftrightarrow> (word_of_int (int x) :: 32 word) = word_of_int (int y)"
    by (simp add: wrap_def WrappingInt32_plus_def)
  also have "\<dots> \<longleftrightarrow> int x mod 2 ^ 32 = int y mod 2 ^ 32"
    unfolding word_of_int_eq_iff take_bit_eq_mod by simp
  finally show ?thesis .
qed

text \<open>Stepping back from \<open>checkpoint\<close> by the signed distance lands on a number that wraps to \<open>n\<close>.\<close>

lemma diff_wrap_mod:
  "(int checkpoint - WrappingInt32_diff (wrap checkpoint isn) (wrap x isn)) mod 2 ^ 32 =
     int x mod 2 ^ 32"
proof -
  let ?d = "WrappingInt32_diff (wrap checkpoint isn) (wrap x isn)"
  have "(word_of_int ?d :: 32 word) = word_of_int (int checkpoint - int x)"
    by (simp add: WrappingInt32_diff_def wrap_def WrappingInt32_plus_def)
  then have "?d mod 2 ^ 32 = (int checkpoint - int x) mod 2 ^ 32"
    unfolding word_of_int_eq_iff take_bit_eq_mod by simp
  then have "(int checkpoint - ?d) mod 2 ^ 32 = (int checkpoint - (int checkpoint - int x)) mod 2 ^ 32"
    by (metis mod_diff_right_eq)
  then show ?thesis by simp
qed

text \<open>The value of \<open>unwrap\<close> as an integer, for checkpoints below \<open>2 ^ 63 - 2 ^ 31\<close>.\<close>

lemma int_unwrap:
  assumes "checkpoint < 2 ^ 63 - 2 ^ 31"
    and "rst = int checkpoint - WrappingInt32_diff (wrap checkpoint isn) n"
  shows "int (unwrap n isn checkpoint) = (if rst < 0 then rst + 2 ^ 32 else rst)"
proof -
  let ?d = "WrappingInt32_diff (wrap checkpoint isn) n"
  have d: "- (2 ^ 31) \<le> ?d" "?d < 2 ^ 31" by (rule WrappingInt32_diff_range)+
  have c: "int checkpoint < 2 ^ 63 - 2 ^ 31" using assms(1) by simp
  then have "to_int64 (int checkpoint) = int checkpoint" by (intro to_int64_small) auto
  moreover have "to_int64 rst = rst" using c d assms(2) by (intro to_int64_small) auto
  moreover have "rst < 0 \<Longrightarrow> to_int64 (rst + 2 ^ 32) = rst + 2 ^ 32"
    using c d assms(2) by (intro to_int64_small) auto
  moreover have "int (to_uint64 (if rst < 0 then rst + 2 ^ 32 else rst)) =
      (if rst < 0 then rst + 2 ^ 32 else rst)"
    using c d assms(2) by (intro to_uint64_small) auto
  ultimately show ?thesis
    by (cases "rst < 0") (simp_all only: unwrap_def Let_def simp_thms if_True if_False flip: assms(2))
qed

lemma mod_eq_far:
  fixes x y m :: int
  assumes "x mod m = y mod m" "x \<noteq> y" "0 < m"
  shows "x + m \<le> y \<or> y + m \<le> x"
proof -
  from assms(1) obtain k where k: "x - y = m * k" by (metis mod_eq_dvd_iff dvdE)
  with assms(2) have "k \<noteq> 0" by auto
  then have "1 \<le> k \<or> k \<le> - 1" by arith
  then have "m * 1 \<le> m * k \<or> m * k \<le> m * (- 1)"
    using assms(3) mult_left_mono [of 1 k m] mult_left_mono [of k "- 1" m] by auto
  with k show ?thesis by auto
qed

lemma unwrap_mod:
  assumes "checkpoint < 2 ^ 63 - 2 ^ 31"
  shows "int (unwrap (wrap x isn) isn checkpoint) mod 2 ^ 32 = int x mod 2 ^ 32"
proof -
  have "(i + 2 ^ 32) mod 2 ^ 32 = i mod (2 ^ 32 :: int)" for i by simp
  then show ?thesis using int_unwrap [OF assms refl] diff_wrap_mod [of checkpoint isn x] by auto
qed

lemma wrap_surj: "\<exists>x. wrap x isn = n"
  by (rule exI [of _ "unat (n - isn)"]) (simp add: wrap_def WrappingInt32_plus_def)

lemma unwrap_nearest_aux:
  assumes "checkpoint < 2 ^ 63 - 2 ^ 31"
  shows "\<bar>int (unwrap (wrap x isn) isn checkpoint) - int checkpoint\<bar> \<le> \<bar>int x - int checkpoint\<bar>"
proof -
  define rst where "rst = int checkpoint - WrappingInt32_diff (wrap checkpoint isn) (wrap x isn)"
  have m: "rst mod 2 ^ 32 = int x mod 2 ^ 32" unfolding rst_def by (rule diff_wrap_mod)
  have r: "int checkpoint - 2 ^ 31 < rst" "rst \<le> int checkpoint + 2 ^ 31"
    using WrappingInt32_diff_range [of "wrap checkpoint isn" "wrap x isn"] by (auto simp: rst_def)
  have "rst = int x \<or> rst + 2 ^ 32 \<le> int x \<or> int x + 2 ^ 32 \<le> rst"
    using mod_eq_far [OF m] by auto
  then show ?thesis using int_unwrap [OF assms rst_def] r by auto
qed

lemma unwrap_wrap_near:
  assumes "checkpoint < 2 ^ 63 - 2 ^ 31" "\<bar>int x - int checkpoint\<bar> < 2 ^ 31"
  shows "unwrap (wrap x isn) isn checkpoint = x"
proof (rule ccontr)
  assume ne: "unwrap (wrap x isn) isn checkpoint \<noteq> x"
  let ?u = "int (unwrap (wrap x isn) isn checkpoint)"
  have "?u + 2 ^ 32 \<le> int x \<or> int x + 2 ^ 32 \<le> ?u"
    using mod_eq_far [OF unwrap_mod [OF assms(1)]] ne by auto
  then show False using unwrap_nearest_aux [OF assms(1), of x isn] assms(2) by auto
qed

section \<open>Properties\<close>

text \<open>
  Claim C23. \<open>unwrap\<close> meets its specification: for every sequence number \<open>n\<close> and every checkpoint
  below \<open>2 ^ 63 - 2 ^ 31\<close> the result wraps back to \<open>n\<close>, and no absolute sequence number that
  wraps to \<open>n\<close> is closer to the checkpoint. (From there on the signed 64-bit arithmetic
  overflows, see \<open>unwrap_large_checkpoint\<close>.)
\<close>

theorem unwrap_closest:
  assumes "checkpoint < 2 ^ 63 - 2 ^ 31"
  shows "wrap (unwrap n isn checkpoint) isn = n \<and>
    (\<forall>x. wrap x isn = n \<longrightarrow>
       \<bar>int (unwrap n isn checkpoint) - int checkpoint\<bar> \<le> \<bar>int x - int checkpoint\<bar>)"
proof -
  obtain y where y: "wrap y isn = n" using wrap_surj by blast
  have "wrap (unwrap n isn checkpoint) isn = n"
    using wrap_eq_iff [of "unwrap n isn checkpoint" isn y] unwrap_mod [OF assms, of y isn] y by simp
  then show ?thesis using unwrap_nearest_aux [OF assms] by blast
qed

theorem unwrap_closest_witness:
  "wrap (unwrap 4 0xFFFFFFF0 0x300000000) 0xFFFFFFF0 = 4 \<and>
   unwrap 4 0xFFFFFFF0 0x300000000 = 0x300000014 \<and>
   \<bar>int (unwrap 4 0xFFFFFFF0 0x300000000) - 0x300000000\<bar> \<le> \<bar>int 20 - 0x300000000\<bar>"
proof -
  have lt: "(0x300000000::nat) < 2 ^ 63 - 2 ^ 31" by simp
  have w: "wrap 20 0xFFFFFFF0 = 4" by (simp add: wrap_def WrappingInt32_plus_def)
  have w': "wrap 0x300000014 0xFFFFFFF0 = 4" by (simp add: wrap_def WrappingInt32_plus_def)
  have u: "unwrap 4 0xFFFFFFF0 0x300000000 = 0x300000014"
    using unwrap_wrap_near [OF lt, of "0x300000014" "0xFFFFFFF0"] w' by simp
  show ?thesis using unwrap_closest [OF lt, of 4 "0xFFFFFFF0"] w u by auto
qed

text \<open>
  Beyond the bound the specification fails: a checkpoint of \<open>2 ^ 63\<close> is taken for a negative number,
  the result for an underflow, and \<open>2 ^ 32\<close> is added, although the checkpoint itself wraps to \<open>n\<close>.
\<close>

lemma unwrap_large_checkpoint:
  "unwrap 0 0 (2 ^ 63) = 2 ^ 63 + 2 ^ 32 \<and> wrap (2 ^ 63) 0 = 0"
  by (simp add: unwrap_def wrap_def WrappingInt32_plus_def WrappingInt32_diff_def to_int64_def
      to_uint64_def signed_take_bit_int_eq_self)

text \<open>
  Exactly which absolute sequence numbers survive being put on the wire and read back:
  those at most \<open>2 ^ 31 - 1\<close> below or \<open>2 ^ 31\<close> above the checkpoint, and, because a negative
  result is moved up by \<open>2 ^ 32\<close>, those of the first \<open>2 ^ 32\<close> further above it.
\<close>

lemma unwrap_wrap_roundtrip:
  assumes "checkpoint < 2 ^ 63 - 2 ^ 31"
  shows "unwrap (wrap x isn) isn checkpoint = x \<longleftrightarrow>
    - (2 ^ 31) < int x - int checkpoint \<and>
    (int x - int checkpoint \<le> 2 ^ 31 \<or> x < 2 ^ 32)"
proof -
  define rst where "rst = int checkpoint - WrappingInt32_diff (wrap checkpoint isn) (wrap x isn)"
  have m: "rst mod 2 ^ 32 = int x mod 2 ^ 32" unfolding rst_def by (rule diff_wrap_mod)
  have r: "int checkpoint - 2 ^ 31 < rst" "rst \<le> int checkpoint + 2 ^ 31"
    using WrappingInt32_diff_range [of "wrap checkpoint isn" "wrap x isn"] by (auto simp: rst_def)
  have far: "rst = int x \<or> rst + 2 ^ 32 \<le> int x \<or> int x + 2 ^ 32 \<le> rst"
    using mod_eq_far [OF m] by auto
  have far2: "rst + 2 ^ 32 = int x \<or> rst + 2 ^ 33 \<le> int x \<or> int x \<le> rst"
    using mod_eq_far [of "rst + 2 ^ 32" "2 ^ 32" "int x"] m by auto
  have "unwrap (wrap x isn) isn checkpoint = x \<longleftrightarrow>
      (if rst < 0 then rst + 2 ^ 32 else rst) = int x"
    using int_unwrap [OF assms rst_def] by (simp flip: of_nat_eq_iff [where 'a = int])
  then show ?thesis using r far far2 by auto
qed

lemma unwrap_wrap_roundtrip_witness:
  "unwrap (wrap 0x1FFFFFFFF 7) 7 0x200000005 = 0x1FFFFFFFF"
proof -
  have lt: "(0x200000005::nat) < 2 ^ 63 - 2 ^ 31" by simp
  show ?thesis using unwrap_wrap_roundtrip [OF lt, of "0x1FFFFFFFF" 7] by simp
qed

end
