(* ===== verification/Net_Parser.thy ===== *)
theory Net_Parser
  imports Buffers Wrapping_Integers
begin

text \<open>
  \<open>NetParser\<close> and \<open>NetUnparser\<close> (\<open>src/libsponge/util/parser.hh\<close>, \<open>parser.cc\<close>): reading and writing
  fixed-width integers in network byte order, with a sticky error.

  The templates \<open>_parse_int<T>\<close> and \<open>_unparse_int<T>\<close> are polymorphic definitions over the word
  length. The locale \<open>wire_codec\<close> is the contract the header codecs rely on: a read gives back
  what was written and leaves exactly the rest, and a read beyond the end sets the error. It is
  interpreted for the 8-, 16- and 32-bit instances.
\<close>

unbundle bit_operations_syntax

section \<open>Operations\<close>

datatype ParseResult =
    NoError
  | BadChecksum
  | PacketTooShort
  | WrongIPVersion
  | HeaderTooShort
  | TruncatedPacket
  | Unsupported

text \<open>The array of names has six entries; the seventh enumerator indexes past its end.\<close>

definition as_string :: "ParseResult \<Rightarrow> string result" where
  "as_string r =
     (case r of
        NoError \<Rightarrow> Inr ''NoError''
      | BadChecksum \<Rightarrow> Inr ''BadChecksum''
      | PacketTooShort \<Rightarrow> Inr ''PacketTooShort''
      | WrongIPVersion \<Rightarrow> Inr ''WrongIPVersion''
      | HeaderTooShort \<Rightarrow> Inr ''HeaderTooShort''
      | TruncatedPacket \<Rightarrow> Inr ''TruncatedPacket''
      | Unsupported \<Rightarrow> Inl PastEndAccess)"

record NetParser =
  np_buffer :: Buffer
  np_error :: ParseResult

definition NetParser_new :: "Buffer \<Rightarrow> NetParser" where
  "NetParser_new b = \<lparr>np_buffer = b, np_error = NoError\<rparr>"

definition NetParser_has_error :: "NetParser \<Rightarrow> bool" where
  "NetParser_has_error p \<longleftrightarrow> np_error p \<noteq> NoError"

definition NetParser_set_error :: "NetParser \<Rightarrow> ParseResult \<Rightarrow> NetParser" where
  "NetParser_set_error p res = p\<lparr>np_error := res\<rparr>"

definition NetParser_check_size :: "NetParser \<Rightarrow> size_t \<Rightarrow> NetParser" where
  "NetParser_check_size p sz =
     (if sz > Buffer_size (np_buffer p) then NetParser_set_error p PacketTooShort else p)"

text \<open>
  The checks before the loop make \<open>Buffer::at\<close> and \<open>Buffer::remove_prefix\<close> stay in range, so the
  bytes are read directly and the prefix is discarded without the range check.
\<close>

definition NetParser_parse_int :: "NetParser \<Rightarrow> 'a::len word \<times> NetParser" where
  "NetParser_parse_int p =
     (let len = LENGTH('a) div 8;
          p = NetParser_check_size p len
      in if NetParser_has_error p then (0, p)
         else (foldl (\<lambda>ret i. push_bit 8 ret + ucast (Buffer_str (np_buffer p) ! i)) 0 [0..<len],
               p\<lparr>np_buffer := Buffer_discard (np_buffer p) len\<rparr>))"

definition NetParser_remove_prefix :: "NetParser \<Rightarrow> size_t \<Rightarrow> NetParser" where
  "NetParser_remove_prefix p n =
     (let p = NetParser_check_size p n
      in if NetParser_has_error p then p else p\<lparr>np_buffer := Buffer_discard (np_buffer p) n\<rparr>)"

definition NetUnparser_unparse_int :: "bytes \<Rightarrow> 'a::len word \<Rightarrow> bytes" where
  "NetUnparser_unparse_int s val =
     (let len = LENGTH('a) div 8
      in foldl (\<lambda>s i. s @ [ucast (drop_bit ((len - i - 1) * 8) val AND 0xff)]) s [0..<len])"

definition NetParser_u32 :: "NetParser \<Rightarrow> uint32 \<times> NetParser" where
  "NetParser_u32 p = NetParser_parse_int p"

definition NetParser_u16 :: "NetParser \<Rightarrow> uint16 \<times> NetParser" where
  "NetParser_u16 p = NetParser_parse_int p"

definition NetParser_u8 :: "NetParser \<Rightarrow> uint8 \<times> NetParser" where
  "NetParser_u8 p = NetParser_parse_int p"

definition NetUnparser_u32 :: "bytes \<Rightarrow> uint32 \<Rightarrow> bytes" where
  "NetUnparser_u32 s val = NetUnparser_unparse_int s val"

definition NetUnparser_u16 :: "bytes \<Rightarrow> uint16 \<Rightarrow> bytes" where
  "NetUnparser_u16 s val = NetUnparser_unparse_int s val"

definition NetUnparser_u8 :: "bytes \<Rightarrow> uint8 \<Rightarrow> bytes" where
  "NetUnparser_u8 s val = NetUnparser_unparse_int s val"

section \<open>Bytes of a word, most significant first\<close>

definition be_bytes :: "'a::len word \<Rightarrow> bytes" where
  "be_bytes v = map (\<lambda>i. ucast (drop_bit ((LENGTH('a) div 8 - i - 1) * 8) v)) [0..<LENGTH('a) div 8]"

definition be_value :: "bytes \<Rightarrow> 'a::len word" where
  "be_value bs = foldl (\<lambda>ret b. push_bit 8 ret + ucast b) 0 bs"

lemma length_be_bytes [simp]: "length (be_bytes (v :: 'a::len word)) = LENGTH('a) div 8"
  by (simp add: be_bytes_def)

lemma foldl_snoc_map: "foldl (\<lambda>s i. s @ [f i]) s xs = s @ map f xs"
  by (induction xs arbitrary: s) auto

lemma ucast_and_0xff: "(ucast (v AND 0xff) :: byte) = ucast (v :: 'a::len word)"
proof (rule bit_word_eqI)
  fix n
  assume "n < LENGTH(8)"
  moreover have "bit (0xff :: 'a word) n \<longleftrightarrow> n < 8 \<and> n < LENGTH('a)"
  proof -
    have "(0xff :: 'a word) = mask 8" by (simp add: mask_eq_exp_minus_1)
    then show ?thesis by (simp only: bit_mask_iff possible_bit_word conj_commute)
  qed
  ultimately show "bit (ucast (v AND 0xff) :: byte) n = bit (ucast v :: byte) n"
    by (auto simp: bit_simps dest: bit_imp_le_length)
qed

lemma NetUnparser_unparse_int_eq: "NetUnparser_unparse_int s val = s @ be_bytes val"
  by (simp add: NetUnparser_unparse_int_def be_bytes_def Let_def foldl_snoc_map ucast_and_0xff)

lemma NetUnparser_eq [simp]:
  "NetUnparser_u32 s v32 = s @ be_bytes v32"
  "NetUnparser_u16 s v16 = s @ be_bytes v16"
  "NetUnparser_u8 s v8 = s @ be_bytes v8"
  by (simp_all add: NetUnparser_u32_def NetUnparser_u16_def NetUnparser_u8_def
      NetUnparser_unparse_int_eq)

lemma foldl_nth_take:
  "n \<le> length bs \<Longrightarrow> foldl (\<lambda>r i. f r (bs ! i)) a [0..<n] = foldl f a (take n bs)"
proof (induction n)
  case 0
  then show ?case by simp
next
  case (Suc n)
  then show ?case by (simp add: take_Suc_conv_app_nth)
qed

lemma ucast_ucast_byte:
  "(ucast (ucast v :: byte) :: 'a::len word) = take_bit 8 (v :: 'a word)"
  by (rule bit_word_eqI) (auto simp: bit_simps dest: bit_imp_le_length)

lemma be_value_be_bytes:
  fixes v :: "'a::len word"
  assumes "LENGTH('a) = 8 * n"
  shows "be_value (be_bytes v) = v"
proof -
  have step: "push_bit 8 (drop_bit (8 * Suc k) v) + take_bit 8 (drop_bit (8 * k) v) = drop_bit (8 * k) v"
    for k
    using bits_ident [of 8 "drop_bit (8 * k) v"] by (simp add: drop_bit_drop_bit add.commute)
  have "be_value (map (\<lambda>i. ucast (drop_bit ((n - i - 1) * 8) v)) [0..<j]) = drop_bit (8 * (n - j)) v"
    if "j \<le> n" for j
    using that
  proof (induction j)
    case 0
    have "drop_bit LENGTH('a) v = 0" by simp
    then show ?case by (simp add: be_value_def assms flip: drop_bit_eq_div)
  next
    case (Suc j)
    then obtain k where k: "n - j = Suc k" by (metis Suc_diff_Suc Suc_le_lessD)
    then have idx: "n - Suc j = k" "(n - j - 1) * 8 = 8 * k" by auto
    show ?case using Suc step [of k] k idx by (simp add: be_value_def ucast_ucast_byte mult.commute)
  qed
  from this [of n] show ?thesis by (simp add: be_bytes_def assms)
qed

section \<open>What a parser shows\<close>

text \<open>
  \<open>showing p bs\<close>: no error so far and \<open>bs\<close> is left. \<open>reads n p q\<close>: \<open>q\<close> is \<open>p\<close> after reading \<open>n\<close>
  bytes, or in error when there were fewer; reads compose.
\<close>

definition showing :: "NetParser \<Rightarrow> bytes \<Rightarrow> bool" where
  "showing p bs \<longleftrightarrow> np_error p = NoError \<and> Buffer_str (np_buffer p) = bs"

definition reads :: "nat \<Rightarrow> NetParser \<Rightarrow> NetParser \<Rightarrow> bool" where
  "reads n p q \<longleftrightarrow>
     (if np_error p = NoError \<and> n \<le> length (Buffer_str (np_buffer p))
      then showing q (drop n (Buffer_str (np_buffer p)))
      else np_error p \<in> {NoError, PacketTooShort} \<longrightarrow> np_error q = PacketTooShort)"

lemma reads_trans: "reads m p q \<Longrightarrow> reads n q r \<Longrightarrow> reads (m + n) p r"
  by (auto simp: reads_def showing_def add.commute split: if_splits)

lemma showing_new [simp]: "showing (NetParser_new b) bs \<longleftrightarrow> Buffer_str b = bs"
  by (simp add: showing_def NetParser_new_def)

lemma reads_parse_int: "reads (LENGTH('a) div 8) p (snd (NetParser_parse_int p :: 'a::len word \<times> _))"
  by (auto simp: reads_def showing_def NetParser_parse_int_def NetParser_check_size_def
      NetParser_set_error_def NetParser_has_error_def Buffer_size_def Let_def)

lemma reads_remove_prefix: "reads n p (NetParser_remove_prefix p n)"
  by (auto simp: reads_def showing_def NetParser_remove_prefix_def NetParser_check_size_def
      NetParser_set_error_def NetParser_has_error_def Buffer_size_def Let_def)

lemma parse_int_value:
  assumes "showing p (be_bytes (v :: 'a::len word) @ rest)" "LENGTH('a) = 8 * n"
  shows "fst (NetParser_parse_int p) = v"
proof -
  have le: "LENGTH('a) div 8 \<le> length (Buffer_str (np_buffer p))" using assms(1) by (simp add: showing_def)
  then have "fst (NetParser_parse_int p :: 'a word \<times> _) =
      be_value (take (LENGTH('a) div 8) (Buffer_str (np_buffer p)))"
    unfolding be_value_def foldl_nth_take [OF le, symmetric]
    using assms(1) by (simp add: NetParser_parse_int_def NetParser_check_size_def showing_def
        NetParser_has_error_def Buffer_size_def Let_def)
  also have "\<dots> = be_value (be_bytes v)" using assms(1) by (simp add: showing_def)
  finally show ?thesis using be_value_be_bytes [OF assms(2)] by simp
qed

section \<open>The contract of a fixed-width codec\<close>

locale wire_codec =
  fixes put :: "bytes \<Rightarrow> 'v \<Rightarrow> bytes"
    and get :: "NetParser \<Rightarrow> 'v \<times> NetParser"
    and enc :: "'v \<Rightarrow> bytes"
    and width :: nat
  assumes put_enc: "put s v = s @ enc v"
    and enc_length: "length (enc v) = width"
    and get_value: "showing p (enc v @ rest) \<Longrightarrow> fst (get p) = v"
    and get_reads: "reads width p (snd (get p))"
begin

text \<open>What was written is read back, and exactly the rest is left.\<close>

lemma get_put:
  assumes "showing p (enc v @ rest)"
  obtains q where "get p = (v, q)" "showing q rest"
proof -
  have "showing (snd (get p)) rest"
    using get_reads [of p] assms by (simp add: reads_def showing_def enc_length)
  then show thesis using that [of "snd (get p)"] get_value [OF assms] by (metis prod.collapse)
qed

lemma get_short:
  assumes "np_error p = NoError" "length (Buffer_str (np_buffer p)) < width"
  shows "np_error (snd (get p)) = PacketTooShort"
  using get_reads [of p] assms by (simp add: reads_def)

end

interpretation u8: wire_codec NetUnparser_u8 NetParser_u8 be_bytes 1
proof
  show "fst (NetParser_u8 p) = v" if "showing p (be_bytes v @ rest)" for p v rest
    using parse_int_value [OF that, of 1] by (simp add: NetParser_u8_def)
  show "reads 1 p (snd (NetParser_u8 p))" for p
    using reads_parse_int [where 'a = 8, of p] by (simp add: NetParser_u8_def)
qed simp_all

interpretation u16: wire_codec NetUnparser_u16 NetParser_u16 be_bytes 2
proof
  show "fst (NetParser_u16 p) = v" if "showing p (be_bytes v @ rest)" for p v rest
    using parse_int_value [OF that, of 2] by (simp add: NetParser_u16_def)
  show "reads 2 p (snd (NetParser_u16 p))" for p
    using reads_parse_int [where 'a = 16, of p] by (simp add: NetParser_u16_def)
qed simp_all

interpretation u32: wire_codec NetUnparser_u32 NetParser_u32 be_bytes 4
proof
  show "fst (NetParser_u32 p) = v" if "showing p (be_bytes v @ rest)" for p v rest
    using parse_int_value [OF that, of 4] by (simp add: NetParser_u32_def)
  show "reads 4 p (snd (NetParser_u32 p))" for p
    using reads_parse_int [where 'a = 32, of p] by (simp add: NetParser_u32_def)
qed simp_all

end
