(* ===== verification/Internet_Checksum.thy ===== *)
theory Internet_Checksum
  imports Net_Parser
begin

text \<open>
  \<open>InternetChecksum\<close> (\<open>src/libsponge/util/util.hh\<close>, \<open>util.cc\<close>): the ones' complement sum used by
  the IPv4 and TCP headers, with its running 32-bit sum and byte parity. The arithmetic meaning
  of the sum (\<open>wsum\<close>: bytes weighted 256 and 1 alternately) carries the two properties: a filled-in
  checksum verifies, and a corrupted byte does not.
\<close>

section \<open>Operations\<close>

record InternetChecksum =
  ck_sum :: uint32
  ck_parity :: bool

definition InternetChecksum_new :: "uint32 \<Rightarrow> InternetChecksum" where
  "InternetChecksum_new initial_sum = \<lparr>ck_sum = initial_sum, ck_parity = False\<rparr>"

definition InternetChecksum_add_byte :: "InternetChecksum \<Rightarrow> byte \<Rightarrow> InternetChecksum" where
  "InternetChecksum_add_byte c b =
     (let val = (ucast b :: uint16);
          val = (if \<not> ck_parity c then push_bit 8 val else val)
      in c\<lparr>ck_sum := ck_sum c + ucast val, ck_parity := \<not> ck_parity c\<rparr>)"

definition InternetChecksum_add :: "InternetChecksum \<Rightarrow> bytes \<Rightarrow> InternetChecksum" where
  "InternetChecksum_add c data = foldl InternetChecksum_add_byte c data"

text \<open>One round of the folding loop; it does not overflow and decreases values above \<open>0xffff\<close>.\<close>

definition fold_carry :: "uint32 \<Rightarrow> uint32" where
  "fold_carry ret = drop_bit 16 ret + (ret AND 0xffff)"

lemma unat_and_0xffff: "unat (ret AND 0xffff :: uint32) = unat ret mod 65536"
proof -
  have "(0xffff :: uint32) = mask 16" by (simp add: mask_eq_exp_minus_1)
  then have "ret AND 0xffff = take_bit 16 ret" by (simp only: take_bit_eq_mask)
  then show ?thesis by (simp only: unat_and_mask_mod) simp
qed

lemma unat_fold_carry: "unat (fold_carry ret) = unat ret div 65536 + unat ret mod 65536"
proof -
  have "unat ret < 2 ^ 32" using unsigned_less [of ret] by simp
  then have "unat ret div 65536 + unat ret mod 65536 < 2 ^ 32" by simp
  moreover have "unat (drop_bit 16 ret) = unat ret div 65536"
    by (simp only: unat_drop_bit_div) simp
  ultimately show ?thesis
    unfolding fold_carry_def unat_word_ariths unat_and_0xffff by simp
qed

function value_loop :: "uint32 \<Rightarrow> uint32" where
  "value_loop ret = (if ret > 0xffff then value_loop (fold_carry ret) else ret)"
  by pat_completeness auto
termination
proof (relation "measure unat", goal_cases)
  case 1
  show ?case by simp
next
  case (2 ret)
  then have "65535 < unat ret" by (simp add: word_less_nat_alt)
  then have "unat ret div 65536 > 0" by simp
  moreover have "unat ret = 65536 * (unat ret div 65536) + unat ret mod 65536" by simp
  ultimately show ?case unfolding in_measure unat_fold_carry by linarith
qed

declare value_loop.simps [simp del]

definition InternetChecksum_value :: "InternetChecksum \<Rightarrow> uint16" where
  "InternetChecksum_value c = ucast (NOT (value_loop (ck_sum c)))"

section \<open>The arithmetic meaning\<close>

fun wsum :: "bool \<Rightarrow> bytes \<Rightarrow> nat" where
  "wsum parity [] = 0"
| "wsum parity (b # bs) = (if parity then unat b else 256 * unat b) + wsum (\<not> parity) bs"

lemma wsum_append:
  "wsum parity (xs @ ys) = wsum parity xs + wsum (parity \<noteq> odd (length xs)) ys"
  by (induction parity xs rule: wsum.induct) auto

lemma wsum_le: "wsum parity bs \<le> 65280 * length bs"
proof (induction parity bs rule: wsum.induct)
  case (2 parity b bs)
  have "unat b < 256" using unsigned_less [of b] by simp
  with 2 show ?case by (auto split: if_splits)
qed simp

lemma add_byte:
  "ck_parity (InternetChecksum_add_byte c b) = (\<not> ck_parity c)"
  "unat (ck_sum c) + (if ck_parity c then unat b else 256 * unat b) < 2 ^ 32 \<Longrightarrow>
     unat (ck_sum (InternetChecksum_add_byte c b)) =
       unat (ck_sum c) + (if ck_parity c then unat b else 256 * unat b)"
proof -
  show "ck_parity (InternetChecksum_add_byte c b) = (\<not> ck_parity c)"
    by (simp add: InternetChecksum_add_byte_def Let_def)
next
  assume lt: "unat (ck_sum c) + (if ck_parity c then unat b else 256 * unat b) < 2 ^ 32"
  define val where "val = (if \<not> ck_parity c then push_bit 8 (ucast b :: uint16) else ucast b)"
  have "unat b < 256" using unsigned_less [of b] by simp
  then have "unat val = (if ck_parity c then unat b else 256 * unat b)"
    by (simp add: val_def unat_ucast_mod unat_push_bit_mod del: push_bit_numeral)
  then have "unat (ucast val :: uint32) = (if ck_parity c then unat b else 256 * unat b)"
    using \<open>unat b < 256\<close> by (simp add: unat_ucast_mod)
  moreover have "ck_sum (InternetChecksum_add_byte c b) = ck_sum c + ucast val"
    by (simp add: InternetChecksum_add_byte_def val_def Let_def)
  ultimately show "unat (ck_sum (InternetChecksum_add_byte c b)) =
       unat (ck_sum c) + (if ck_parity c then unat b else 256 * unat b)"
    using lt by (simp add: unat_word_ariths)
qed

lemma InternetChecksum_add_append:
  "InternetChecksum_add (InternetChecksum_add c xs) ys = InternetChecksum_add c (xs @ ys)"
  by (simp add: InternetChecksum_add_def)

lemma unat_checksum_sum:
  "unat (ck_sum c) + wsum (ck_parity c) bs < 2 ^ 32 \<Longrightarrow>
     unat (ck_sum (InternetChecksum_add c bs)) = unat (ck_sum c) + wsum (ck_parity c) bs"
proof (induction bs arbitrary: c)
  case Nil
  then show ?case by (simp add: InternetChecksum_add_def)
next
  case (Cons b bs)
  let ?d = "InternetChecksum_add_byte c b"
  have d: "unat (ck_sum ?d) = unat (ck_sum c) + (if ck_parity c then unat b else 256 * unat b)"
    by (rule add_byte(2)) (use Cons.prems in auto)
  have "InternetChecksum_add c (b # bs) = InternetChecksum_add ?d bs"
    by (simp add: InternetChecksum_add_def)
  then show ?case using Cons.IH [of ?d] Cons.prems d add_byte(1) [of c b] by simp
qed

lemma value_loop_spec:
  "unat (value_loop ret) \<le> 65535 \<and> unat (value_loop ret) mod 65535 = unat ret mod 65535 \<and>
   (value_loop ret = 0 \<longleftrightarrow> ret = 0)"
proof (induction ret rule: value_loop.induct)
  case (1 ret)
  show ?case
  proof (cases "ret > 0xffff")
    case True
    have big: "65535 < unat ret" using True by (simp add: word_less_nat_alt)
    have split: "unat ret = 65536 * (unat ret div 65536) + unat ret mod 65536" by simp
    have "(65536 * q + m) mod 65535 = (q + m) mod 65535" for q m :: nat
    proof -
      have "65536 * q + m = (q + m) + q * 65535" by simp
      then show ?thesis by (simp only: mod_mult_self1)
    qed
    then have "unat ret mod 65535 = unat (fold_carry ret) mod 65535"
      using split unat_fold_carry by metis
    moreover have "fold_carry ret \<noteq> 0"
    proof
      assume "fold_carry ret = 0"
      then have "unat ret div 65536 = 0" using unat_fold_carry [of ret] by simp
      then show False using big unat_fold_carry [of ret] \<open>fold_carry ret = 0\<close> by simp
    qed
    moreover have "value_loop ret = value_loop (fold_carry ret)" "ret \<noteq> 0"
      using True by (auto simp: value_loop.simps [of ret])
    ultimately show ?thesis using 1 [OF True] by simp
  next
    case False
    then have "value_loop ret = ret" by (simp add: value_loop.simps)
    moreover have "unat ret \<le> 65535" using False by (simp add: word_less_nat_alt)
    ultimately show ?thesis by simp
  qed
qed

lemma unat_checksum_value: "unat (InternetChecksum_value c) = 65535 - unat (value_loop (ck_sum c))"
proof -
  let ?r = "value_loop (ck_sum c)"
  have le: "unat ?r \<le> 65535" using value_loop_spec [of "ck_sum c"] by blast
  have "unat (NOT ?r) = 4294967295 - unat ?r"
    by (simp add: unat_compl)
  also have "\<dots> mod 65536 = 65535 - unat ?r"
  proof -
    from le obtain k where k: "65535 = unat ?r + k" by (auto simp: le_iff_add)
    then have eq: "4294967295 - unat ?r = k + 65535 * 65536" and "k < 65536" by linarith+
    have "(4294967295 - unat ?r) mod 65536 = k mod 65536" unfolding eq by (rule mod_mult_self1)
    then show ?thesis using k \<open>k < 65536\<close> by simp
  qed
  finally show ?thesis
    by (simp add: InternetChecksum_value_def unat_ucast_mod)
qed

lemma checksum_zero_iff:
  "InternetChecksum_value c = 0 \<longleftrightarrow> ck_sum c \<noteq> 0 \<and> unat (ck_sum c) mod 65535 = 0"
proof -
  let ?r = "value_loop (ck_sum c)"
  have r: "unat ?r \<le> 65535" "unat ?r mod 65535 = unat (ck_sum c) mod 65535"
    "?r = 0 \<longleftrightarrow> ck_sum c = 0"
    using value_loop_spec [of "ck_sum c"] by auto
  have "InternetChecksum_value c = 0 \<longleftrightarrow> unat (InternetChecksum_value c) = 0"
    by (simp add: unat_eq_0)
  also have "\<dots> \<longleftrightarrow> unat ?r = 65535" using r(1) unat_checksum_value [of c] by linarith
  also have "\<dots> \<longleftrightarrow> ?r \<noteq> 0 \<and> unat ?r mod 65535 = 0"
    using r(1) by (auto simp: unat_eq_0 [symmetric] simp del: unat_eq_0)
  finally show ?thesis using r by simp
qed

lemma be_bytes_16: "be_bytes (v :: uint16) = [ucast (drop_bit 8 v), ucast v]"
  by (simp add: be_bytes_def upt_rec)

lemma wsum_be_bytes_16: "wsum False (be_bytes (v :: uint16)) = unat v"
proof -
  have "unat v < 65536" using unsigned_less [of v] by simp
  then have "unat v div 256 < 256" by simp
  moreover have "unat v div 256 * 256 + unat v mod 256 = unat v" by simp
  ultimately show ?thesis
    by (simp add: be_bytes_16 unat_ucast_mod unat_drop_bit_div [where n = 8, simplified] mult.commute)
qed

text \<open>
  Filling in the checksum: with \<open>c\<close> the value computed over the data with a zero field at an even
  offset, the sum over the data with \<open>c\<close> in that field is a positive multiple of 65535.
\<close>

lemma checksum_fill:
  assumes "even (length pre)" "unat init + 65280 * (length pre + 2 + length post) < 2 ^ 32"
    and "c = InternetChecksum_value (InternetChecksum_add (InternetChecksum_new init) (pre @ [0, 0] @ post))"
  shows "InternetChecksum_value
    (InternetChecksum_add (InternetChecksum_new init) (pre @ be_bytes c @ post)) = 0"
proof -
  let ?s = "\<lambda>f. InternetChecksum_add (InternetChecksum_new init) (pre @ f @ post)"
  define S where "S = unat init + wsum False (pre @ [0, 0] @ post)"
  have lt: "unat init + wsum False (pre @ f @ post) < 2 ^ 32" if "length f = 2" for f
    using wsum_le [of False "pre @ f @ post"] assms(2) that by simp
  have sum: "unat (ck_sum (?s f)) = unat init + wsum False (pre @ f @ post)" if "length f = 2" for f
    using unat_checksum_sum [of "InternetChecksum_new init" "pre @ f @ post"] lt [OF that]
    by (simp add: InternetChecksum_new_def)
  have even: "wsum False (pre @ be_bytes c @ post) = wsum False (pre @ [0, 0] @ post) + unat c"
    using assms(1) wsum_be_bytes_16 [of c] by (simp add: wsum_append)
  define r where "r = unat (value_loop (ck_sum (?s [0, 0])))"
  have r: "r \<le> 65535" "r mod 65535 = S mod 65535" "r = 0 \<longleftrightarrow> S = 0"
    using value_loop_spec [of "ck_sum (?s [0, 0])"] sum [of "[0, 0]"]
    by (auto simp: r_def S_def unat_eq_0 [symmetric] simp del: unat_eq_0)
  have c: "unat c = 65535 - r" using unat_checksum_value assms(3) by (simp add: r_def)
  have total: "unat (ck_sum (?s (be_bytes c))) = S + (65535 - r)"
    using sum [of "be_bytes c"] even c by (simp add: S_def)
  have "(S + (65535 - r)) mod 65535 = (r + (65535 - r)) mod 65535"
    using r(2) by (metis mod_add_left_eq)
  then have "unat (ck_sum (?s (be_bytes c))) mod 65535 = 0" using total r(1) by simp
  moreover have "0 < S + (65535 - r)" using r by (cases "S = 0") auto
  then have "ck_sum (?s (be_bytes c)) \<noteq> 0" using total by (metis less_numeral_extra(3) unat_0)
  ultimately show ?thesis unfolding checksum_zero_iff by blast
qed

section \<open>Properties\<close>

text \<open>
  A checksum computed as the code computes it (over the data with the checksum field,
  at an even offset, set to zero, starting from the lower layer's sum) verifies: the receiver's
  computation over the data with that value filled in gives zero. The bound holds for every
  packet of at most 65535 bytes with an initial sum below 16 million.
\<close>

lemma checksum_verifies:
  assumes "even (length pre)" "length pre + 2 + length post \<le> 65535" "unat init < 16000000"
  shows "InternetChecksum_value (InternetChecksum_add (InternetChecksum_new init)
    (pre @ be_bytes (InternetChecksum_value
       (InternetChecksum_add (InternetChecksum_new init) (pre @ [0, 0] @ post))) @ post)) = 0"
  by (rule checksum_fill [OF assms(1) _ refl]) (use assms(2,3) in simp)

lemma checksum_verifies_witness:
  "InternetChecksum_value (InternetChecksum_add (InternetChecksum_new 6)
    ([0x45, 0xff] @ be_bytes (InternetChecksum_value
       (InternetChecksum_add (InternetChecksum_new 6) ([0x45, 0xff] @ [0, 0] @ [7]))) @ [7])) = 0"
  by (rule checksum_verifies) simp_all

text \<open>
  Claim C24. Error detection: if data of at most 65535 bytes verifies, then after changing any one
  byte of it, at any position, to any other value, it no longer does.
\<close>

theorem checksum_detects_byte_error:
  assumes "length pre + 1 + length post \<le> 65535" "unat init < 16000000" "b \<noteq> b'"
    and "InternetChecksum_value (InternetChecksum_add (InternetChecksum_new init) (pre @ [b] @ post)) = 0"
  shows "InternetChecksum_value
    (InternetChecksum_add (InternetChecksum_new init) (pre @ [b'] @ post)) \<noteq> 0"
proof
  assume zero': "InternetChecksum_value
    (InternetChecksum_add (InternetChecksum_new init) (pre @ [b'] @ post)) = 0"
  let ?s = "\<lambda>x. unat (ck_sum (InternetChecksum_add (InternetChecksum_new init) (pre @ [x] @ post)))"
  define w where "w = (if odd (length pre) then 1 else 256 :: nat)"
  define R where "R = unat init + wsum False pre + wsum (even (length pre)) post"
  have sum: "?s x = R + w * unat x" for x
  proof -
    have "unat init + wsum False (pre @ [x] @ post) < 2 ^ 32"
      using wsum_le [of False "pre @ [x] @ post"] assms(1,2) by simp
    then show ?thesis
      using unat_checksum_sum [of "InternetChecksum_new init" "pre @ [x] @ post"]
      by (simp add: InternetChecksum_new_def R_def w_def wsum_append)
  qed
  have "(R + w * unat b) mod 65535 = (R + w * unat b') mod 65535"
    using assms(4) zero' sum by (simp add: checksum_zero_iff)
  then have "int ((R + w * unat b) mod 65535) = int ((R + w * unat b') mod 65535)" by (rule arg_cong)
  then have "int (R + w * unat b) mod 65535 = int (R + w * unat b') mod 65535"
    unfolding zmod_int of_nat_numeral .
  then have "int w * int (unat b) = int w * int (unat b') \<or>
      int w * int (unat b) + 65535 \<le> int w * int (unat b') \<or>
      int w * int (unat b') + 65535 \<le> int w * int (unat b)"
    using mod_eq_far [of "int (R + w * unat b)" 65535 "int (R + w * unat b')"] by auto
  moreover have "\<not> (int w * int x = int w * int y \<or> int w * int x + 65535 \<le> int w * int y \<or>
      int w * int y + 65535 \<le> int w * int x)" if "x < 256" "y < 256" "x \<noteq> y" for x y :: nat
    using that by (auto simp: w_def)
  moreover have "unat b < 256" "unat b' < 256" using unsigned_less [of b] unsigned_less [of b'] by simp_all
  moreover have "unat b \<noteq> unat b'" using assms(3) by (simp add: word_unat_eq_iff)
  ultimately show False by blast
qed

theorem checksum_detects_byte_error_witness:
  "InternetChecksum_value (InternetChecksum_add (InternetChecksum_new 0) ([1] @ [2] @ [0xfe, 0xfd])) = 0 \<and>
   InternetChecksum_value (InternetChecksum_add (InternetChecksum_new 0) ([1] @ [3] @ [0xfe, 0xfd])) \<noteq> 0"
proof -
  have zero: "InternetChecksum_value
      (InternetChecksum_add (InternetChecksum_new 0) ([1] @ [2] @ [0xfe, 0xfd])) = 0"
    using unat_checksum_sum [of "InternetChecksum_new 0" "[1] @ [2] @ [0xfe, 0xfd]"]
    by (auto simp: checksum_zero_iff InternetChecksum_new_def)
  show ?thesis using checksum_detects_byte_error [OF _ _ _ zero, of 3] zero by simp
qed

end
