(* ===== verification/Tcp_Segment.thy ===== *)
theory Tcp_Segment
  imports Internet_Checksum
begin

text \<open>
  \<open>TCPHeader\<close> and \<open>TCPSegment\<close> (\<open>src/libsponge/tcp_helpers/tcp_header.hh\<close>, \<open>tcp_header.cc\<close>,
  \<open>tcp_segment.hh\<close>, \<open>tcp_segment.cc\<close>): the wire format of TCP. \<open>parse\<close> overwrites every field of
  the header it is called on, so the model builds the header from what is read; the exception of
  \<open>serialize\<close> is a fault.

  The properties are the round trip of serialization and parsing, with the checksum in between,
  and the exact result of \<open>TCPSegment::parse\<close> on arbitrary bytes.
\<close>

section \<open>\<open>TCPHeader\<close>\<close>

record TCPHeader =
  th_sport :: uint16
  th_dport :: uint16
  th_seqno :: WrappingInt32
  th_ackno :: WrappingInt32
  th_doff :: uint8
  th_urg :: bool
  th_ack :: bool
  th_psh :: bool
  th_rst :: bool
  th_syn :: bool
  th_fin :: bool
  th_win :: uint16
  th_cksum :: uint16
  th_uptr :: uint16

definition TCPHeader_LENGTH :: nat where
  "TCPHeader_LENGTH = 20"

definition TCPHeader_new :: TCPHeader where
  "TCPHeader_new =
     \<lparr>th_sport = 0, th_dport = 0, th_seqno = 0, th_ackno = 0, th_doff = 5, th_urg = False,
      th_ack = False, th_psh = False, th_rst = False, th_syn = False, th_fin = False, th_win = 0,
      th_cksum = 0, th_uptr = 0\<rparr>"

definition TCPHeader_parse :: "NetParser \<Rightarrow> ParseResult \<times> TCPHeader \<times> NetParser" where
  "TCPHeader_parse p =
     (let (sport, p) = NetParser_u16 p;
          (dport, p) = NetParser_u16 p;
          (seqno, p) = NetParser_u32 p;
          (ackno, p) = NetParser_u32 p;
          (off_b, p) = NetParser_u8 p;
          doff = drop_bit 4 off_b;
          (fl_b, p) = NetParser_u8 p;
          urg = (fl_b AND 0x20 \<noteq> 0);
          ack = (fl_b AND 0x10 \<noteq> 0);
          psh = (fl_b AND 0x08 \<noteq> 0);
          rst = (fl_b AND 0x04 \<noteq> 0);
          syn = (fl_b AND 0x02 \<noteq> 0);
          fin = (fl_b AND 0x01 \<noteq> 0);
          (win, p) = NetParser_u16 p;
          (cksum, p) = NetParser_u16 p;
          (uptr, p) = NetParser_u16 p;
          h = \<lparr>th_sport = sport, th_dport = dport, th_seqno = seqno, th_ackno = ackno,
               th_doff = doff, th_urg = urg, th_ack = ack, th_psh = psh, th_rst = rst,
               th_syn = syn, th_fin = fin, th_win = win, th_cksum = cksum, th_uptr = uptr\<rparr>
      in if doff < 5 then (HeaderTooShort, h, p)
         else
           let p = NetParser_remove_prefix p (unat doff * 4 - TCPHeader_LENGTH)
           in if NetParser_has_error p then (np_error p, h, p) else (NoError, h, p))"

text \<open>\<open>string::resize\<close>: cut, or pad with zero bytes.\<close>

definition str_resize :: "bytes \<Rightarrow> nat \<Rightarrow> bytes" where
  "str_resize s n = take n s @ replicate (n - length s) 0"

definition TCPHeader_serialize :: "TCPHeader \<Rightarrow> bytes result" where
  "TCPHeader_serialize h =
     (if th_doff h < 5 then Inl (RuntimeError ''TCP header too short'')
      else
        let ret = NetUnparser_u16 [] (th_sport h);
            ret = NetUnparser_u16 ret (th_dport h);
            ret = NetUnparser_u32 ret (th_seqno h);
            ret = NetUnparser_u32 ret (th_ackno h);
            ret = NetUnparser_u8 ret (push_bit 4 (th_doff h));
            fl_b = (if th_urg h then 0x20 else 0) OR (if th_ack h then 0x10 else 0) OR
                   (if th_psh h then 0x08 else 0) OR (if th_rst h then 0x04 else 0) OR
                   (if th_syn h then 0x02 else 0) OR (if th_fin h then 0x01 else 0);
            ret = NetUnparser_u8 ret fl_b;
            ret = NetUnparser_u16 ret (th_win h);
            ret = NetUnparser_u16 ret (th_cksum h);
            ret = NetUnparser_u16 ret (th_uptr h)
        in Inr (str_resize ret (4 * unat (th_doff h))))"

text \<open>\<open>operator==\<close> leaves out the ports and the checksum.\<close>

definition TCPHeader_eq :: "TCPHeader \<Rightarrow> TCPHeader \<Rightarrow> bool" where
  "TCPHeader_eq h other \<longleftrightarrow>
     th_seqno h = th_seqno other \<and> th_ackno h = th_ackno other \<and> th_doff h = th_doff other \<and>
     th_urg h = th_urg other \<and> th_ack h = th_ack other \<and> th_psh h = th_psh other \<and>
     th_rst h = th_rst other \<and> th_syn h = th_syn other \<and> th_fin h = th_fin other \<and>
     th_win h = th_win other \<and> th_uptr h = th_uptr other"

section \<open>\<open>TCPSegment\<close>\<close>

record TCPSegment =
  seg_header :: TCPHeader
  seg_payload :: Buffer

definition TCPSegment_new :: TCPSegment where
  "TCPSegment_new = \<lparr>seg_header = TCPHeader_new, seg_payload = Buffer_default\<rparr>"

text \<open>The result of \<open>_header.parse(p)\<close> is not used: only the parser's own error is returned.\<close>

definition TCPSegment_parse :: "TCPSegment \<Rightarrow> Buffer \<Rightarrow> uint32 \<Rightarrow> ParseResult \<times> TCPSegment" where
  "TCPSegment_parse seg buffer datagram_layer_checksum =
     (let check = InternetChecksum_new datagram_layer_checksum;
          check = InternetChecksum_add check (Buffer_str buffer)
      in if InternetChecksum_value check \<noteq> 0 then (BadChecksum, seg)
         else
           let p = NetParser_new buffer;
               (_, h, p) = TCPHeader_parse p
           in (np_error p, seg\<lparr>seg_header := h, seg_payload := np_buffer p\<rparr>))"

definition length_in_sequence_space :: "TCPSegment \<Rightarrow> size_t" where
  "length_in_sequence_space seg =
     length (Buffer_str (seg_payload seg)) + (if th_syn (seg_header seg) then 1 else 0) +
     (if th_fin (seg_header seg) then 1 else 0)"

definition TCPSegment_serialize :: "TCPSegment \<Rightarrow> uint32 \<Rightarrow> BufferList result" where
  "TCPSegment_serialize seg datagram_layer_checksum =
     (let header_out = (seg_header seg)\<lparr>th_cksum := 0\<rparr>;
          check = InternetChecksum_new datagram_layer_checksum
      in bind_result (TCPHeader_serialize header_out) (\<lambda>zeroed.
           let check = InternetChecksum_add check zeroed;
               check = InternetChecksum_add check (Buffer_str (seg_payload seg));
               header_out = header_out\<lparr>th_cksum := InternetChecksum_value check\<rparr>
           in bind_result (TCPHeader_serialize header_out) (\<lambda>hdr.
                Inr (BufferList_append
                      (BufferList_append BufferList_default (BufferList_of_string hdr))
                      (BufferList_of_Buffer (seg_payload seg))))))"

section \<open>The header's bytes\<close>

definition flag_byte :: "TCPHeader \<Rightarrow> uint8" where
  "flag_byte h =
     (if th_urg h then 0x20 else 0) OR (if th_ack h then 0x10 else 0) OR
     (if th_psh h then 0x08 else 0) OR (if th_rst h then 0x04 else 0) OR
     (if th_syn h then 0x02 else 0) OR (if th_fin h then 0x01 else 0)"

definition header_front :: "TCPHeader \<Rightarrow> bytes" where
  "header_front h = be_bytes (th_sport h) @ be_bytes (th_dport h) @ be_bytes (th_seqno h) @
     be_bytes (th_ackno h) @ be_bytes (push_bit 4 (th_doff h)) @ be_bytes (flag_byte h) @
     be_bytes (th_win h)"

definition header_pad :: "TCPHeader \<Rightarrow> bytes" where
  "header_pad h = replicate (4 * unat (th_doff h) - 20) 0"

lemma length_header_front [simp]: "length (header_front h) = 16"
  by (simp add: header_front_def)

lemma header_front_cksum [simp]:
  "header_front (h\<lparr>th_cksum := c\<rparr>) = header_front h" "header_pad (h\<lparr>th_cksum := c\<rparr>) = header_pad h"
  by (simp_all add: header_front_def header_pad_def flag_byte_def)

lemma doff_ge_5: "\<not> d < 5 \<Longrightarrow> 5 \<le> unat (d :: uint8)"
  by (simp add: word_less_nat_alt)

lemma TCPHeader_serialize_bytes:
  assumes "\<not> th_doff h < 5"
  shows "TCPHeader_serialize h =
    Inr (header_front h @ be_bytes (th_cksum h) @ be_bytes (th_uptr h) @ header_pad h)"
  using assms doff_ge_5 [OF assms]
  by (simp add: TCPHeader_serialize_def header_front_def header_pad_def str_resize_def Let_def
      flip: flag_byte_def)

lemma drop_push_nibble: "d < 16 \<Longrightarrow> drop_bit 4 (push_bit 4 d) = (d :: uint8)"
proof -
  assume "d < 16"
  then have "unat d < 16" by (simp add: word_less_nat_alt)
  then have "unat (drop_bit 4 (push_bit 4 d)) = unat d"
    unfolding unat_drop_bit_div unat_push_bit_mod by simp
  then show ?thesis by (simp only: word_unat_eq_iff)
qed

lemma flag_byte_bits:
  "(flag_byte h AND 0x20 \<noteq> 0) = th_urg h" "(flag_byte h AND 0x10 \<noteq> 0) = th_ack h"
  "(flag_byte h AND 0x08 \<noteq> 0) = th_psh h" "(flag_byte h AND 0x04 \<noteq> 0) = th_rst h"
  "(flag_byte h AND 0x02 \<noteq> 0) = th_syn h" "(flag_byte h AND 0x01 \<noteq> 0) = th_fin h"
  by (cases "th_urg h"; cases "th_ack h"; cases "th_psh h"; cases "th_rst h"; cases "th_syn h";
      cases "th_fin h"; simp add: flag_byte_def)+

text \<open>Parsing what was serialized gives the header back and leaves exactly what follows.\<close>

lemma TCPHeader_parse_serialized:
  assumes "\<not> th_doff h < 5" "th_doff h < 16"
    and "showing p ((header_front h @ be_bytes (th_cksum h) @ be_bytes (th_uptr h) @ header_pad h) @ rest)"
  obtains q where "TCPHeader_parse p = (NoError, h, q)" "showing q rest"
proof -
  obtain p1 where 1: "NetParser_u16 p = (th_sport h, p1)"
    "showing p1 (be_bytes (th_dport h) @ be_bytes (th_seqno h) @ be_bytes (th_ackno h) @
       be_bytes (push_bit 4 (th_doff h)) @ be_bytes (flag_byte h) @ be_bytes (th_win h) @
       be_bytes (th_cksum h) @ be_bytes (th_uptr h) @ header_pad h @ rest)"
    using u16.get_put assms(3) unfolding header_front_def append_assoc by blast
  obtain p2 where 2: "NetParser_u16 p1 = (th_dport h, p2)"
    "showing p2 (be_bytes (th_seqno h) @ be_bytes (th_ackno h) @
       be_bytes (push_bit 4 (th_doff h)) @ be_bytes (flag_byte h) @ be_bytes (th_win h) @
       be_bytes (th_cksum h) @ be_bytes (th_uptr h) @ header_pad h @ rest)"
    using u16.get_put [OF 1(2)] by blast
  obtain p3 where 3: "NetParser_u32 p2 = (th_seqno h, p3)" "showing p3 (be_bytes (th_ackno h) @
       be_bytes (push_bit 4 (th_doff h)) @ be_bytes (flag_byte h) @ be_bytes (th_win h) @
       be_bytes (th_cksum h) @ be_bytes (th_uptr h) @ header_pad h @ rest)"
    using u32.get_put [OF 2(2)] by blast
  obtain p4 where 4: "NetParser_u32 p3 = (th_ackno h, p4)" "showing p4 (be_bytes (push_bit 4 (th_doff h)) @
       be_bytes (flag_byte h) @ be_bytes (th_win h) @
       be_bytes (th_cksum h) @ be_bytes (th_uptr h) @ header_pad h @ rest)"
    using u32.get_put [OF 3(2)] by blast
  obtain p5 where 5: "NetParser_u8 p4 = (push_bit 4 (th_doff h), p5)" "showing p5 (be_bytes (flag_byte h) @
       be_bytes (th_win h) @ be_bytes (th_cksum h) @ be_bytes (th_uptr h) @ header_pad h @ rest)"
    using u8.get_put [OF 4(2)] by blast
  obtain p6 where 6: "NetParser_u8 p5 = (flag_byte h, p6)"
    "showing p6 (be_bytes (th_win h) @ be_bytes (th_cksum h) @ be_bytes (th_uptr h) @ header_pad h @ rest)"
    using u8.get_put [OF 5(2)] by blast
  obtain p7 where 7: "NetParser_u16 p6 = (th_win h, p7)"
    "showing p7 (be_bytes (th_cksum h) @ be_bytes (th_uptr h) @ header_pad h @ rest)"
    using u16.get_put [OF 6(2)] by blast
  obtain p8 where 8: "NetParser_u16 p7 = (th_cksum h, p8)"
    "showing p8 (be_bytes (th_uptr h) @ header_pad h @ rest)"
    using u16.get_put [OF 7(2)] by blast
  obtain p9 where 9: "NetParser_u16 p8 = (th_uptr h, p9)" "showing p9 (header_pad h @ rest)"
    using u16.get_put [OF 8(2)] by blast
  let ?q = "NetParser_remove_prefix p9 (unat (th_doff h) * 4 - TCPHeader_LENGTH)"
  have len: "unat (th_doff h) * 4 - TCPHeader_LENGTH = length (header_pad h)"
    by (simp add: TCPHeader_LENGTH_def header_pad_def)
  have q: "showing ?q rest"
    using reads_remove_prefix [of "length (header_pad h)" p9] 9(2) unfolding len
    by (simp add: reads_def showing_def)
  have "TCPHeader_parse p = (NoError, h, ?q)"
    using assms(1,2) q drop_push_nibble [OF assms(2)]
    by (simp only: TCPHeader_parse_def Let_def 1 2 3 4 5 6 7 8 9 prod.case flag_byte_bits if_False
        NetParser_has_error_def showing_def) simp
  then show thesis using q that by blast
qed

text \<open>The two buffers \<open>serialize\<close> returns: the header with its checksum, and the payload.\<close>

lemma TCPSegment_serialize_bytes:
  fixes seg ck
  defines "h \<equiv> seg_header seg" and "pl \<equiv> Buffer_str (seg_payload seg)"
  assumes "\<not> th_doff h < 5"
    and c: "c = InternetChecksum_value (InternetChecksum_add (InternetChecksum_new ck)
      (header_front h @ [0, 0] @ (be_bytes (th_uptr h) @ header_pad h @ pl)))"
  shows "TCPSegment_serialize seg ck =
    Inr [Buffer_new (header_front h @ be_bytes c @ be_bytes (th_uptr h) @ header_pad h),
         seg_payload seg]"
proof -
  have zero: "be_bytes (0 :: uint16) = [0, 0]" by (simp add: be_bytes_16)
  have "TCPHeader_serialize (h\<lparr>th_cksum := x\<rparr>) =
      Inr (header_front h @ be_bytes x @ be_bytes (th_uptr h) @ header_pad h)" for x
    using TCPHeader_serialize_bytes [of "h\<lparr>th_cksum := x\<rparr>"] assms(3) by simp
  moreover have "InternetChecksum_value (InternetChecksum_add (InternetChecksum_new ck)
      (header_front h @ 0 # 0 # be_bytes (th_uptr h) @ header_pad h @ pl)) = c"
    by (simp add: c)
  ultimately show ?thesis
    by (simp add: TCPSegment_serialize_def Let_def InternetChecksum_add_append zero
        BufferList_append_def BufferList_default_def BufferList_of_string_def
        BufferList_of_Buffer_def flip: h_def pl_def)
qed

lemma TCPSegment_parse_bytes:
  assumes "\<not> th_doff h < 5" "th_doff h < 16"
    and "4 * unat (th_doff h) + length pl \<le> 65535" "unat ck < 16000000"
    and "c = InternetChecksum_value (InternetChecksum_add (InternetChecksum_new ck)
      (header_front h @ [0, 0] @ (be_bytes (th_uptr h) @ header_pad h @ pl)))"
    and "Buffer_str b = header_front h @ be_bytes c @ (be_bytes (th_uptr h) @ header_pad h @ pl)"
  shows "\<exists>b'. TCPSegment_parse seg0 b ck =
      (NoError, seg0\<lparr>seg_header := h\<lparr>th_cksum := c\<rparr>, seg_payload := b'\<rparr>) \<and> Buffer_str b' = pl"
proof -
  let ?h = "h\<lparr>th_cksum := c\<rparr>"
  have doff: "\<not> th_doff ?h < 5" "th_doff ?h < 16" using assms(1,2) by simp_all
  have sum: "InternetChecksum_value (InternetChecksum_add (InternetChecksum_new ck) (Buffer_str b)) = 0"
    unfolding assms(6)
    by (rule checksum_fill [OF _ _ assms(5)])
      (use assms(3,4) doff_ge_5 [OF assms(1)] in \<open>simp_all add: header_pad_def\<close>)
  have "showing (NetParser_new b)
      ((header_front ?h @ be_bytes (th_cksum ?h) @ be_bytes (th_uptr ?h) @ header_pad ?h) @ pl)"
    using assms(6) by simp
  then obtain q where "TCPHeader_parse (NetParser_new b) = (NoError, ?h, q)" "showing q pl"
    by (rule TCPHeader_parse_serialized [OF doff])
  then show ?thesis using sum by (auto simp: TCPSegment_parse_def Let_def showing_def)
qed

section \<open>Which bytes a header parse accepts\<close>

lemma be_bytes_8: "be_bytes (b :: uint8) = [b]"
  by (simp add: be_bytes_def)

lemma TCPHeader_parse_reads:
  assumes "np_error p = NoError"
  defines "bs \<equiv> Buffer_str (np_buffer p)"
  defines "doff \<equiv> drop_bit 4 (bs ! 12)"
  shows "np_error (snd (snd (TCPHeader_parse p))) =
    (if length bs < 20 \<or> \<not> doff < 5 \<and> length bs < 4 * unat doff then PacketTooShort else NoError)"
proof -
  obtain sport p1 where 1: "NetParser_u16 p = (sport, p1)" by fastforce
  obtain dport p2 where 2: "NetParser_u16 p1 = (dport, p2)" by fastforce
  obtain seqno p3 where 3: "NetParser_u32 p2 = (seqno, p3)" by fastforce
  obtain ackno p4 where 4: "NetParser_u32 p3 = (ackno, p4)" by fastforce
  obtain off_b p5 where 5: "NetParser_u8 p4 = (off_b, p5)" by fastforce
  obtain fl_b p6 where 6: "NetParser_u8 p5 = (fl_b, p6)" by fastforce
  obtain win p7 where 7: "NetParser_u16 p6 = (win, p7)" by fastforce
  obtain cksum p8 where 8: "NetParser_u16 p7 = (cksum, p8)" by fastforce
  obtain uptr p9 where 9: "NetParser_u16 p8 = (uptr, p9)" by fastforce
  have r12: "reads 12 p p4"
    using reads_trans [OF reads_trans [OF reads_trans [OF u16.get_reads [of p] u16.get_reads]
        u32.get_reads] u32.get_reads] 1 2 3 4 by simp
  have r20: "reads 20 p p9"
    using reads_trans [OF reads_trans [OF reads_trans [OF reads_trans [OF reads_trans [OF r12
        u8.get_reads] u8.get_reads] u16.get_reads] u16.get_reads] u16.get_reads] 5 6 7 8 9 by simp
  let ?q = "NetParser_remove_prefix p9 (unat (drop_bit 4 off_b) * 4 - TCPHeader_LENGTH)"
  have res: "np_error (snd (snd (TCPHeader_parse p))) =
      (if drop_bit 4 off_b < 5 then np_error p9 else np_error ?q)"
    by (simp only: TCPHeader_parse_def Let_def 1 2 3 4 5 6 7 8 9 prod.case split: if_split) simp
  show ?thesis
  proof (cases "length bs < 20")
    case True
    then have e: "np_error p9 = PacketTooShort" using r20 assms(1) by (simp add: reads_def bs_def)
    then have "np_error ?q = PacketTooShort"
      using reads_remove_prefix [of "unat (drop_bit 4 off_b) * 4 - TCPHeader_LENGTH" p9]
      by (simp add: reads_def)
    with e True show ?thesis unfolding res by simp
  next
    case False
    have "drop 12 bs = bs ! 12 # drop 13 bs"
      using False Cons_nth_drop_Suc [of 12 bs] by simp
    then have "showing p4 (be_bytes (bs ! 12) @ drop 13 bs)"
      using r12 assms(1) False by (simp add: reads_def bs_def be_bytes_8)
    then have off: "off_b = bs ! 12" using u8.get_value 5 by fastforce
    have p9: "showing p9 (drop 20 bs)" using False r20 assms(1) by (simp add: reads_def bs_def)
    have rq: "reads (unat doff * 4 - 20) p9 ?q"
      using reads_remove_prefix [of "unat doff * 4 - 20" p9] off
      by (simp add: doff_def TCPHeader_LENGTH_def)
    have "np_error ?q = (if length bs < 4 * unat doff then PacketTooShort else NoError)"
      if "\<not> doff < 5"
      using rq p9 False doff_ge_5 [OF that] by (auto simp: reads_def showing_def split: if_splits)
    then show ?thesis using False p9 unfolding res off doff_def by (auto simp: showing_def)
  qed
qed

section \<open>Properties\<close>

text \<open>
  Claim C21. Round trip on the wire: a segment with a legal data offset and a total size of at
  most 65535 bytes is serialized without an exception, and parsing those bytes against the same
  lower-layer sum succeeds (the checksum verifies) and yields the same payload and the same
  header, up to the checksum that \<open>serialize\<close> filled in.
\<close>

theorem TCPSegment_roundtrip:
  assumes "5 \<le> unat (th_doff (seg_header seg))" "unat (th_doff (seg_header seg)) < 16"
    and "4 * unat (th_doff (seg_header seg)) + length (Buffer_str (seg_payload seg)) \<le> 65535"
    and "unat ck < 16000000"
  shows "\<exists>bl c b. TCPSegment_serialize seg ck = Inr bl \<and>
    TCPSegment_parse seg0 (Buffer_new (BufferList_concatenate bl)) ck =
      (NoError, seg0\<lparr>seg_header := (seg_header seg)\<lparr>th_cksum := c\<rparr>, seg_payload := b\<rparr>) \<and>
    Buffer_str b = Buffer_str (seg_payload seg)"
proof -
  let ?h = "seg_header seg" and ?pl = "Buffer_str (seg_payload seg)"
  define c where "c = InternetChecksum_value (InternetChecksum_add (InternetChecksum_new ck)
    (header_front ?h @ [0, 0] @ (be_bytes (th_uptr ?h) @ header_pad ?h @ ?pl)))"
  have doff: "\<not> th_doff ?h < 5" "th_doff ?h < 16"
    using assms(1,2) by (simp_all add: word_less_nat_alt)
  obtain bl where bl: "TCPSegment_serialize seg ck = Inr bl" "Buffer_str (Buffer_new (BufferList_concatenate bl)) =
      header_front ?h @ be_bytes c @ (be_bytes (th_uptr ?h) @ header_pad ?h @ ?pl)"
    using TCPSegment_serialize_bytes [OF doff(1) c_def] by (simp add: BufferList_concatenate_def)
  show ?thesis using TCPSegment_parse_bytes [OF doff assms(3,4) c_def bl(2)] bl(1) by blast
qed

theorem TCPSegment_roundtrip_witness:
  "\<exists>bl c b. TCPSegment_serialize
      \<lparr>seg_header = TCPHeader_new\<lparr>th_seqno := 0xDEADBEEF, th_syn := True\<rparr>, seg_payload = Buffer_new [1, 2, 3]\<rparr> 77 =
        Inr bl \<and>
    TCPSegment_parse TCPSegment_new (Buffer_new (BufferList_concatenate bl)) 77 =
      (NoError, TCPSegment_new\<lparr>seg_header :=
         TCPHeader_new\<lparr>th_seqno := 0xDEADBEEF, th_syn := True, th_cksum := c\<rparr>, seg_payload := b\<rparr>) \<and>
    Buffer_str b = [1, 2, 3]"
  using TCPSegment_roundtrip [of
      "\<lparr>seg_header = TCPHeader_new\<lparr>th_seqno := 0xDEADBEEF, th_syn := True\<rparr>, seg_payload = Buffer_new [1, 2, 3]\<rparr>"
      77 TCPSegment_new]
  by (simp add: TCPHeader_new_def)

text \<open>
  Claim C37. The result of \<open>TCPSegment::parse\<close> on arbitrary bytes, exactly: a bad checksum is
  reported first; then a packet that is shorter than 20 bytes or than its data offset claims is
  too short; everything else is accepted. In particular a data offset below the minimum of 5 is
  accepted, because the \<open>HeaderTooShort\<close> that \<open>TCPHeader::parse\<close> returns is dropped.
\<close>

theorem TCPSegment_parse_result:
  "fst (TCPSegment_parse seg b ck) =
     (let bs = Buffer_str b; doff = drop_bit 4 (bs ! 12)
      in if InternetChecksum_value (InternetChecksum_add (InternetChecksum_new ck) bs) \<noteq> 0
         then BadChecksum
         else if length bs < 20 \<or> \<not> doff < 5 \<and> length bs < 4 * unat doff
         then PacketTooShort else NoError)"
proof -
  have "np_error (NetParser_new b) = NoError" "np_buffer (NetParser_new b) = b"
    by (simp_all add: NetParser_new_def)
  then show ?thesis
    using TCPHeader_parse_reads [of "NetParser_new b"]
    by (simp add: TCPSegment_parse_def Let_def split_beta)
qed

end
