(* ===== verification/Tcp_Receiver.thy ===== *)
theory Tcp_Receiver
  imports Reassembler_Stream Tcp_Segment
begin

text \<open>
  \<open>TCPReceiver\<close> (\<open>src/libsponge/tcp_receiver.hh\<close>, \<open>tcp_receiver.cc\<close>): finds the place of an
  inbound segment in the stream, hands its payload to the reassembler and computes the
  acknowledgment number and the window.

  The contract with the remote sender is that every segment carries a piece of one stream \<open>S\<close> under
  one initial sequence number, lies inside the window and is within \<open>2 ^ 31\<close> of the point
  reached; order, repetition and loss are arbitrary. Under it the interpretation of
  \<open>guarded_system\<close> carries the reassembler's guarantee to the acknowledgments that leave the
  receiver.
\<close>

section \<open>State and operations\<close>

record TCPReceiver =
  rc_reassembler :: StreamReassembler
  rc_synRecv :: bool
  rc_isn :: WrappingInt32
  rc_ackno :: WrappingInt32
  rc_capacity :: size_t

definition TCPReceiver_new :: "size_t \<Rightarrow> TCPReceiver" where
  "TCPReceiver_new capacity =
     \<lparr>rc_reassembler = StreamReassembler_new capacity, rc_synRecv = False, rc_isn = 0,
      rc_ackno = 0, rc_capacity = capacity\<rparr>"

definition TCPReceiver_stream_out :: "TCPReceiver \<Rightarrow> ByteStream" where
  "TCPReceiver_stream_out r = sr_output (rc_reassembler r)"

text \<open>The part of \<open>segment_received\<close> after the flags have been looked at.\<close>

definition TCPReceiver_push :: "TCPReceiver \<Rightarrow> TCPSegment \<Rightarrow> uint64 \<Rightarrow> TCPReceiver result" where
  "TCPReceiver_push r seg absIndex =
     bind_result
       (push_substring (rc_reassembler r) (Buffer_copy (seg_payload seg)) absIndex
          (th_fin (seg_header seg)))
       (\<lambda>re.
          let output = sr_output re;
              ex_sqn = add64 (ByteStream_bytes_written output) 1;
              ackno = wrap ex_sqn (rc_isn r);
              ackno = (if ByteStream_input_ended output then WrappingInt32_plus ackno 1 else ackno)
          in Inr (r\<lparr>rc_reassembler := re, rc_ackno := ackno\<rparr>))"

definition TCPReceiver_segment_received :: "TCPReceiver \<Rightarrow> TCPSegment \<Rightarrow> TCPReceiver result" where
  "TCPReceiver_segment_received r seg =
     (let h = seg_header seg
      in if th_syn h then
           (if rc_synRecv r then Inr r
            else TCPReceiver_push (r\<lparr>rc_synRecv := True, rc_isn := th_seqno h\<rparr>) seg 0)
         else if \<not> rc_synRecv r then Inr r
         else
           let checkpoint = ByteStream_bytes_written (TCPReceiver_stream_out r);
               absIndex = sub64 (unwrap (th_seqno h) (rc_isn r) checkpoint) 1
           in TCPReceiver_push r seg absIndex)"

definition TCPReceiver_ackno :: "TCPReceiver \<Rightarrow> WrappingInt32 option" where
  "TCPReceiver_ackno r = (if rc_synRecv r then Some (rc_ackno r) else None)"

definition TCPReceiver_window_size :: "TCPReceiver \<Rightarrow> size_t" where
  "TCPReceiver_window_size r =
     sub64 (rc_capacity r) (ByteStream_buffer_size (TCPReceiver_stream_out r))"

definition TCPReceiver_unassembled_bytes :: "TCPReceiver \<Rightarrow> size_t" where
  "TCPReceiver_unassembled_bytes r = unassembled_bytes (rc_reassembler r)"

section \<open>Executions\<close>

text \<open>
  \<open>Arrive seg i\<close>: the segment \<open>seg\<close> arrives; \<open>i\<close> records where in the stream its payload belongs and
  is not seen by the receiver. \<open>Read n\<close>: the application consumes up to \<open>n\<close> bytes.
\<close>

datatype recv_op = Arrive TCPSegment nat | Read nat

fun recv_step :: "TCPReceiver \<Rightarrow> recv_op \<Rightarrow> TCPReceiver result" where
  "recv_step r (Arrive seg i) = TCPReceiver_segment_received r seg"
| "recv_step r (Read n) =
     Inr (r\<lparr>rc_reassembler := (rc_reassembler r)\<lparr>sr_output :=
            ByteStream_pop_output (sr_output (rc_reassembler r)) n\<rparr>\<rparr>)"

definition push_of :: "TCPSegment \<Rightarrow> nat \<Rightarrow> reasm_op" where
  "push_of seg i = Push (Buffer_str (seg_payload seg)) i (th_fin (seg_header seg))"

fun recv_ok :: "bytes \<Rightarrow> WrappingInt32 \<Rightarrow> TCPReceiver \<Rightarrow> recv_op \<Rightarrow> bool" where
  "recv_ok S isn r (Arrive seg i) \<longleftrightarrow>
     (if th_syn (seg_header seg)
      then rc_synRecv r \<or>
        th_seqno (seg_header seg) = isn \<and> i = 0 \<and> reasm_ok S (rc_reassembler r) (push_of seg 0)
      else rc_synRecv r \<longrightarrow>
        Buffer_str (seg_payload seg) = [] \<and> \<not> th_fin (seg_header seg) \<or>
        th_seqno (seg_header seg) = wrap (i + 1) isn \<and>
        \<bar>int (i + 1) - int (ByteStream_bytes_written (TCPReceiver_stream_out r))\<bar> < 2 ^ 31 \<and>
        reasm_ok S (rc_reassembler r) (push_of seg i))"
| "recv_ok S isn r (Read n) \<longleftrightarrow> True"

text \<open>Ghost state: whether the SYN has been accepted, the indices received, whether FIN was seen.\<close>

fun recv_ghost :: "bool \<times> nat set \<times> bool \<Rightarrow> recv_op \<Rightarrow> bool \<times> nat set \<times> bool" where
  "recv_ghost (sy, g) (Arrive seg i) =
     (if th_syn (seg_header seg)
      then (True, if sy then g else reasm_ghost g (push_of seg 0))
      else (sy, if sy then reasm_ghost g (push_of seg i) else g))"
| "recv_ghost (sy, g) (Read n) = (sy, g)"

definition recv_inv ::
  "bytes \<Rightarrow> WrappingInt32 \<Rightarrow> bool \<times> nat set \<times> bool \<Rightarrow> TCPReceiver \<Rightarrow> bool" where
  "recv_inv S isn g r \<longleftrightarrow>
     rc_synRecv r = fst g \<and> rc_capacity r = sr_capacity (rc_reassembler r) \<and>
     length S + rc_capacity r < 2 ^ 62 \<and> reasm_inv S (snd g) (rc_reassembler r) \<and>
     (fst g \<longrightarrow> rc_isn r = isn \<and>
        rc_ackno r = wrap (sr_exIdx (rc_reassembler r) + 1 +
          (if ByteStream_input_ended (TCPReceiver_stream_out r) then 1 else 0)) isn) \<and>
     (\<not> fst g \<longrightarrow> snd g = ({}, False))"

lemma two62_two64: "n < 2 ^ 62 \<Longrightarrow> n < two64"
  by (simp add: two64_def)

lemma recv_inv_new:
  "length S + capacity < 2 ^ 62 \<Longrightarrow> recv_inv S isn (False, {}, False) (TCPReceiver_new capacity)"
  using reasm_inv_new [of S capacity] two62_two64 [of "length S + capacity"]
  by (simp add: recv_inv_def TCPReceiver_new_def StreamReassembler_new_def)

lemma wrap_plus_1: "WrappingInt32_plus (wrap n isn) 1 = wrap (n + 1) isn"
  by (simp add: wrap_def WrappingInt32_plus_def algebra_simps)

text \<open>Facts about the state that the reassembler's invariant gives the receiver.\<close>

lemma reasm_inv_written:
  "reasm_inv S g r \<Longrightarrow> ByteStream_bytes_written (sr_output r) = sr_exIdx r \<and> sr_exIdx r \<le> length S"
  using sr_inv_exIdx_le [of "length S" r] by (auto simp: reasm_inv_def sr_inv_def)

lemma sr_capacity_push:
  assumes "reasm_inv S g r" "reasm_ok S r (Push data i eof)" "push_substring r data i eof = Inr r'"
  shows "sr_capacity r' = sr_capacity r"
proof -
  have inv: "sr_inv (length S) r" and ok: "push_ok (length S) r data i eof"
    using assms(1,2) by (auto simp: reasm_inv_def)
  show ?thesis
    using push_substring_effect [OF inv ok] assms(3) by (auto simp: push_effect_def Let_def)
qed

text \<open>One push, from a state whose SYN has been recorded.\<close>

lemma recv_push_law:
  assumes "reasm_inv S g (rc_reassembler r)" "reasm_ok S (rc_reassembler r) (push_of seg i)"
    and "rc_isn r = isn" "rc_synRecv r" "rc_capacity r = sr_capacity (rc_reassembler r)"
    and "length S + rc_capacity r < 2 ^ 62"
  shows "\<exists>t. TCPReceiver_push r seg i = Inr t \<and>
    recv_inv S isn (True, reasm_ghost g (push_of seg i)) t"
proof -
  from reasm_push_law [OF assms(1) assms(2) [unfolded push_of_def]] obtain re where
    re: "push_substring (rc_reassembler r) (Buffer_str (seg_payload seg)) i (th_fin (seg_header seg)) = Inr re"
    and inv: "reasm_inv S (reasm_ghost g (push_of seg i)) re" by (auto simp: push_of_def)
  have cap: "sr_capacity re = rc_capacity r"
    using sr_capacity_push [OF assms(1) assms(2) [unfolded push_of_def] re] assms(5) by simp
  have w: "bs_num_bytes_written (sr_output re) = sr_exIdx re" "sr_exIdx re \<le> length S"
    using reasm_inv_written [OF inv] by simp_all
  have "length S + 1 < two64" using assms(6) by (simp add: two64_def)
  then have "add64 (sr_exIdx re) 1 = sr_exIdx re + 1" using w(2) by (intro add64_small) simp
  then show ?thesis
    using re inv w cap assms(3-6)
    by (auto simp: TCPReceiver_push_def recv_inv_def Buffer_copy_def Let_def wrap_plus_1
        TCPReceiver_stream_out_def)
qed

text \<open>A push that leaves the reassembler alone leaves the receiver alone.\<close>

lemma recv_push_same:
  assumes inv: "recv_inv S isn (True, g) r"
    and same: "push_substring (rc_reassembler r) (Buffer_str (seg_payload seg)) i (th_fin (seg_header seg)) =
      Inr (rc_reassembler r)"
  shows "TCPReceiver_push r seg i = Inr r"
proof -
  let ?re = "rc_reassembler r"
  have re: "reasm_inv S g ?re" and len: "length S + rc_capacity r < 2 ^ 62"
    and ack: "rc_isn r = isn" "rc_ackno r = wrap (sr_exIdx ?re + 1 +
      (if ByteStream_input_ended (TCPReceiver_stream_out r) then 1 else 0)) isn"
    using inv by (auto simp: recv_inv_def)
  note w = reasm_inv_written [OF re]
  have "sr_exIdx ?re + 1 < two64" using w len by (simp add: two64_def)
  then have "add64 (sr_exIdx ?re) 1 = sr_exIdx ?re + 1" by (rule add64_small)
  then have "TCPReceiver_push r seg i = Inr (r\<lparr>rc_reassembler := ?re, rc_ackno := rc_ackno r\<rparr>)"
    using same w ack
    by (simp add: TCPReceiver_push_def Buffer_copy_def Let_def wrap_plus_1 TCPReceiver_stream_out_def)
  then show ?thesis by simp
qed

text \<open>A segment that carries something, after the SYN: its place in the stream is found.\<close>

lemma recv_finds_place:
  assumes inv: "recv_inv S isn (True, g) r" and "\<not> th_syn (seg_header seg)"
    and seq: "th_seqno (seg_header seg) = wrap (i + 1) isn"
    and near: "\<bar>int (i + 1) - int (ByteStream_bytes_written (TCPReceiver_stream_out r))\<bar> < 2 ^ 31"
  shows "TCPReceiver_segment_received r seg = TCPReceiver_push r seg i"
proof -
  let ?re = "rc_reassembler r"
  have re: "reasm_inv S g ?re" and sy: "rc_synRecv r" and isn: "rc_isn r = isn"
    and cap: "length S + rc_capacity r < 2 ^ 62"
    using inv by (auto simp: recv_inv_def)
  note w = reasm_inv_written [OF re]
  have near': "\<bar>int (i + 1) - int (sr_exIdx ?re)\<bar> < 2 ^ 31"
    using near w by (simp add: TCPReceiver_stream_out_def)
  have "sr_exIdx ?re < 2 ^ 63 - 2 ^ 31" using w cap by auto
  then have "unwrap (th_seqno (seg_header seg)) isn (sr_exIdx ?re) = i + 1"
    using unwrap_wrap_near [OF _ near'] seq by simp
  moreover have "i + 1 < two64" using near' w cap by (auto simp: two64_def)
  ultimately show ?thesis
    using assms(2) sy isn w
    by (simp add: TCPReceiver_segment_received_def Let_def TCPReceiver_stream_out_def sub64_small)
qed

lemma recv_arrive_law:
  assumes inv: "recv_inv S isn g r" and ok: "recv_ok S isn r (Arrive seg i)"
  shows "\<exists>t. TCPReceiver_segment_received r seg = Inr t \<and> recv_inv S isn (recv_ghost g (Arrive seg i)) t"
proof -
  let ?h = "seg_header seg"
  obtain sy g' where g: "g = (sy, g')" by (cases g)
  have sy: "rc_synRecv r = sy" and re: "reasm_inv S g' (rc_reassembler r)"
    and cap: "rc_capacity r = sr_capacity (rc_reassembler r)" "length S + rc_capacity r < 2 ^ 62"
    using inv by (auto simp: recv_inv_def g)
  consider (again) "th_syn ?h" sy | (syn) "th_syn ?h" "\<not> sy" | (early) "\<not> th_syn ?h" "\<not> sy"
    | (idle) "\<not> th_syn ?h" sy "Buffer_str (seg_payload seg) = []" "\<not> th_fin ?h"
    | (data) "\<not> th_syn ?h" sy "\<not> (Buffer_str (seg_payload seg) = [] \<and> \<not> th_fin ?h)" by blast
  then show ?thesis
  proof cases
    case syn
    let ?r = "r\<lparr>rc_synRecv := True, rc_isn := th_seqno ?h\<rparr>"
    have "\<exists>t. TCPReceiver_push ?r seg 0 = Inr t \<and> recv_inv S isn (True, reasm_ghost g' (push_of seg 0)) t"
      by (rule recv_push_law) (use re ok syn sy cap in auto)
    then show ?thesis using syn sy by (simp add: TCPReceiver_segment_received_def g)
  next
    case idle
    have ghost: "recv_ghost g (Arrive seg i) = g"
      by (cases g') (use idle in \<open>simp add: g push_of_def\<close>)
    have "recv_inv S isn (True, g') r" using inv idle by (simp add: g)
    from recv_push_same [OF this, of seg] have "TCPReceiver_push r seg k = Inr r" for k
      using idle by (simp add: push_substring_def)
    then show ?thesis
      using inv idle sy unfolding ghost by (simp add: TCPReceiver_segment_received_def Let_def)
  next
    case data
    then have inv': "recv_inv S isn (True, g') r" and isn: "rc_isn r = isn" "rc_synRecv r"
      using inv sy by (auto simp: g recv_inv_def)
    show ?thesis
      using recv_finds_place [OF inv' data(1), of i] recv_push_law [OF re _ isn cap] ok data sy by (auto simp: g)
  qed (use inv sy in \<open>auto simp: TCPReceiver_segment_received_def g\<close>)
qed

lemma recv_read_law:
  assumes "recv_inv S isn g r"
  shows "\<exists>t. recv_step r (Read n) = Inr t \<and> recv_inv S isn (recv_ghost g (Read n)) t"
proof -
  let ?re = "rc_reassembler r"
  have "reasm_inv S (snd g) (?re\<lparr>sr_output := ByteStream_pop_output (sr_output ?re) n\<rparr>)"
    using reasm_consume_law [of S "snd g" ?re n] assms by (cases g) (auto simp: recv_inv_def)
  then show ?thesis
    using assms by (cases g) (auto simp: recv_inv_def TCPReceiver_stream_out_def
        ByteStream_pop_output_def Let_def)
qed

interpretation rc: guarded_system recv_step "recv_inv S isn" recv_ghost "recv_ok S isn"
  for S isn
proof
  fix g r e
  assume "recv_inv S isn g r" "recv_ok S isn r e"
  then show "\<exists>t. recv_step r e = Inr t \<and> recv_inv S isn (recv_ghost g e) t"
    by (cases e) (use recv_arrive_law recv_read_law in \<open>auto simp del: recv_ok.simps recv_ghost.simps\<close>)
qed

section \<open>Properties\<close>

text \<open>
  Claim C12. Feed a fresh receiver any sequence of segments of one stream \<open>S\<close>, lost, duplicated and
  reordered at will, with reads in between. The contract (\<open>recv_ok\<close>) is on the segments that reach
  the reassembler, the first SYN and after it the segments without SYN that have a payload or FIN:
  each carries a piece of \<open>S\<close> at its sequence number, marked FIN only at the end of \<open>S\<close>, ends no
  further than the window offered at that moment, and lies within \<open>2 ^ 31\<close> of the point reached. (Of a
  segment that ends beyond the window only a part may be kept, and the \<open>ackno\<close> is then lower than
  what follows.) Under this contract no call faults. Without an
  accepted SYN there is no \<open>ackno\<close>; after it the \<open>ackno\<close> acknowledges exactly the SYN, the longest
  prefix of \<open>S\<close> without a gap (\<open>LEAST k. k \<notin> R\<close> bytes, \<open>R\<close> the indices received) and, once FIN has
  arrived and everything before it, the FIN. The window is the capacity less the unread bytes, and the unread
  bytes are the right ones.
\<close>

theorem receiver_acknowledges_prefix:
  assumes "length S + capacity < 2 ^ 62"
    and "allowed recv_step (recv_ok S isn) (TCPReceiver_new capacity) ops"
    and "foldl recv_ghost (False, {}, False) ops = (sy, R, f)"
  shows "\<exists>r. run recv_step (TCPReceiver_new capacity) ops = Inr r \<and>
    TCPReceiver_ackno r =
      (if sy then Some (wrap (1 + (LEAST k. k \<notin> R) +
         (if f \<and> (LEAST k. k \<notin> R) = length S then 1 else 0)) isn) else None) \<and>
    TCPReceiver_window_size r = rc_capacity r - length (bs_buf (TCPReceiver_stream_out r)) \<and>
    bs_buf (TCPReceiver_stream_out r) =
      drop (ByteStream_bytes_read (TCPReceiver_stream_out r)) (take (LEAST k. k \<notin> R) S)"
proof -
  from rc.run_law [OF recv_inv_new [OF assms(1)] assms(2)] obtain r where
    run: "run recv_step (TCPReceiver_new capacity) ops = Inr r"
    and inv: "recv_inv S isn (sy, R, f) r" using assms(3) by auto
  have re: "reasm_inv S (R, f) (rc_reassembler r)" using inv by (simp add: recv_inv_def)
  note ex = reasm_inv_least [OF re]
  have ended: "bs_isInputEnd (TCPReceiver_stream_out r) \<longleftrightarrow> f \<and> sr_exIdx (rc_reassembler r) = length S"
    using re by (auto simp: reasm_inv_def sr_inv_def TCPReceiver_stream_out_def)
  have out: "ByteStream_inv (TCPReceiver_stream_out r)"
    "bs_capacity (TCPReceiver_stream_out r) = rc_capacity r"
    using re inv by (auto simp: reasm_inv_def sr_inv_def recv_inv_def TCPReceiver_stream_out_def)
  have "TCPReceiver_window_size r = rc_capacity r - length (bs_buf (TCPReceiver_stream_out r))"
    using out by (simp add: TCPReceiver_window_size_def ByteStream_inv_def sub64_small)
  moreover have "TCPReceiver_ackno r =
      (if sy then Some (wrap (1 + sr_exIdx (rc_reassembler r) +
         (if f \<and> sr_exIdx (rc_reassembler r) = length S then 1 else 0)) isn) else None)"
    using inv ended by (simp add: TCPReceiver_ackno_def recv_inv_def)
  moreover have "bs_buf (TCPReceiver_stream_out r) =
      drop (ByteStream_bytes_read (TCPReceiver_stream_out r)) (take (sr_exIdx (rc_reassembler r)) S)"
    using re by (simp add: reasm_inv_def TCPReceiver_stream_out_def)
  ultimately show ?thesis using run unfolding ex by blast
qed

text \<open>A SYN at \<open>0xFFFFFFFF\<close>, then the second half with FIN, then the first half.\<close>

definition demo_seg :: "WrappingInt32 \<Rightarrow> bool \<Rightarrow> bool \<Rightarrow> bytes \<Rightarrow> TCPSegment" where
  "demo_seg seqno syn fin payload =
     TCPSegment_new\<lparr>seg_header := TCPHeader_new\<lparr>th_seqno := seqno, th_syn := syn, th_fin := fin\<rparr>,
                    seg_payload := Buffer_new payload\<rparr>"

lemma demo_seg_simps [simp]:
  "th_seqno (seg_header (demo_seg q s f pl)) = q" "th_syn (seg_header (demo_seg q s f pl)) = s"
  "th_fin (seg_header (demo_seg q s f pl)) = f" "Buffer_str (seg_payload (demo_seg q s f pl)) = pl"
  "Buffer_copy (seg_payload (demo_seg q s f pl)) = pl"
  by (simp_all add: demo_seg_def)

theorem receiver_acknowledges_prefix_witness:
  "\<exists>r. run recv_step (TCPReceiver_new 8)
      [Arrive (demo_seg 0xFFFFFFFF True False []) 0, Arrive (demo_seg 2 False True [3, 4]) 2,
       Arrive (demo_seg 0 False False [1, 2]) 0] = Inr r \<and>
    TCPReceiver_ackno r = Some (wrap (1 + (LEAST k. k \<notin> {0..<4}) +
      (if (LEAST k. k \<notin> {0..<4::nat}) = 4 then 1 else 0)) 0xFFFFFFFF)"
proof -
  let ?ops = "[Arrive (demo_seg 0xFFFFFFFF True False []) 0, Arrive (demo_seg 2 False True [3, 4]) 2,
       Arrive (demo_seg 0 False False [1, 2]) 0]"
  have len: "length [1, 2, 3, 4 :: byte] + 8 < 2 ^ 62" by simp
  have w: "wrap 3 0xFFFFFFFF = 2" "wrap 1 0xFFFFFFFF = 0"
    by (simp_all add: wrap_def WrappingInt32_plus_def)
  have u: "unwrap 2 0xFFFFFFFF 0 = 3" "unwrap 0 0xFFFFFFFF 0 = 1"
    using unwrap_wrap_near [of 0 3 "0xFFFFFFFF"] unwrap_wrap_near [of 0 1 "0xFFFFFFFF"] w by simp_all
  have ok: "allowed recv_step (recv_ok [1, 2, 3, 4] 0xFFFFFFFF) (TCPReceiver_new 8) ?ops"
    by (simp add: TCPReceiver_new_def TCPReceiver_segment_received_def TCPReceiver_push_def
        TCPReceiver_stream_out_def push_of_def u reasm_eval) (simp add: wrap_def WrappingInt32_plus_def)
  have g: "foldl recv_ghost (False, {}, False) ?ops = (True, {0..<4}, True)"
    by (auto simp: push_of_def)
  show ?thesis using receiver_acknowledges_prefix [OF len ok g] by auto
qed

end
