(* ===== verification/Tcp_Sender.thy ===== *)
theory Tcp_Sender
  imports Byte_Stream Tcp_Segment
begin

text \<open>
  \<open>TCPConfig\<close> and \<open>TCPSender\<close> (\<open>src/libsponge/tcp_helpers/tcp_config.hh\<close>,
  \<open>src/libsponge/tcp_sender.hh\<close>, \<open>tcp_sender.cc\<close>): the definitions of the sending half of a
  connection, with its queue of unacknowledged bytes, its retransmission timer and its helpers
  in the order of the source. The theorems are in \<open>Sender_Correct\<close>.

  \<^item> Reading or erasing beyond the end of a deque is the fault \<open>PastEndAccess\<close>, \<open>front()\<close> of an
    empty one \<open>EmptyFront\<close>.
  \<^item> Timeouts and retransmission counts are \<open>unsigned int\<close>, i.e. \<open>32 word\<close>.
  \<^item> The random initial sequence number is an argument of the constructor.
\<close>

section \<open>\<open>TCPConfig\<close>\<close>

definition DEFAULT_CAPACITY :: size_t where "DEFAULT_CAPACITY = 64000"
definition MAX_PAYLOAD_SIZE :: size_t where "MAX_PAYLOAD_SIZE = 1000"
definition TIMEOUT_DFLT :: uint16 where "TIMEOUT_DFLT = 1000"
definition MAX_RETX_ATTEMPTS :: uint32 where "MAX_RETX_ATTEMPTS = 8"

record TCPConfig =
  cfg_rt_timeout :: uint16
  cfg_recv_capacity :: size_t
  cfg_send_capacity :: size_t
  cfg_fixed_isn :: "WrappingInt32 option"

definition TCPConfig_default :: TCPConfig where
  "TCPConfig_default =
     \<lparr>cfg_rt_timeout = TIMEOUT_DFLT, cfg_recv_capacity = DEFAULT_CAPACITY,
      cfg_send_capacity = DEFAULT_CAPACITY, cfg_fixed_isn = None\<rparr>"

section \<open>\<open>UnAckQueue\<close>\<close>

record UnAckQueue =
  uq_unAcked :: bytes
  uq_unAckedPayloadSize :: "size_t list"
  uq_synSent :: bool
  uq_synAcked :: bool
  uq_finSent :: bool
  uq_finAcked :: bool
  uq_baseSqn :: uint64
  uq_next_seqno :: uint64
  uq_win_size :: uint64

definition UnAckQueue_new :: UnAckQueue where
  "UnAckQueue_new =
     \<lparr>uq_unAcked = [], uq_unAckedPayloadSize = [], uq_synSent = False, uq_synAcked = False,
      uq_finSent = False, uq_finAcked = False, uq_baseSqn = 0, uq_next_seqno = 0,
      uq_win_size = 1\<rparr>"

definition ackSqnForFin :: "UnAckQueue \<Rightarrow> uint64" where
  "ackSqnForFin q = uq_next_seqno q"

definition bytesInFlight :: "UnAckQueue \<Rightarrow> size_t" where
  "bytesInFlight q = sub64 (uq_next_seqno q) (uq_baseSqn q)"

definition UnAckQueue_empty :: "UnAckQueue \<Rightarrow> bool" where
  "UnAckQueue_empty q \<longleftrightarrow> uq_unAcked q = []"

definition UnAckQueue_push :: "UnAckQueue \<Rightarrow> TCPSegment \<Rightarrow> UnAckQueue" where
  "UnAckQueue_push q seg =
     (let payload = Buffer_str (seg_payload seg)
      in q\<lparr>uq_unAcked := uq_unAcked q @ payload,
           uq_unAckedPayloadSize := uq_unAckedPayloadSize q @ [length payload]\<rparr>)"

definition frontSeg :: "UnAckQueue \<Rightarrow> WrappingInt32 \<Rightarrow> TCPSegment result" where
  "frontSeg q isn =
     (case uq_unAckedPayloadSize q of
        [] \<Rightarrow> Inl EmptyFront
      | toSend # _ \<Rightarrow>
          if toSend > length (uq_unAcked q) then Inl PastEndAccess
          else
            let payload = take toSend (uq_unAcked q);
                h = TCPHeader_new\<lparr>th_seqno := wrap (uq_baseSqn q) isn\<rparr>;
                h = (if uq_finSent q \<and> sub64 (ackSqnForFin q) 1 = add64 (uq_baseSqn q) toSend
                     then h\<lparr>th_fin := True\<rparr> else h)
            in Inr \<lparr>seg_header = h, seg_payload = Buffer_new payload\<rparr>)"

text \<open>
  The loop of \<open>erase\<close> over the segment sizes from position \<open>i\<close>; it returns the sizes, \<open>_baseSqn\<close> and
  \<open>bytesToErase\<close>.
\<close>

function eraseLoop ::
  "uint64 \<Rightarrow> size_t list \<Rightarrow> nat \<Rightarrow> uint64 \<Rightarrow> size_t \<Rightarrow> size_t list \<times> uint64 \<times> size_t" where
  "eraseLoop ackno sizes i base bytesToErase =
     (if length sizes \<le> i then (sizes, base, bytesToErase)
      else
        let size = sizes ! i; nextSqn = add64 base size
        in if nextSqn = ackno then (drop (Suc i) sizes, ackno, add64 bytesToErase size)
           else if nextSqn < ackno then
             eraseLoop ackno sizes (Suc i) nextSqn (add64 bytesToErase size)
           else
             let bytesAcked = sub64 ackno base
             in (sizes[i := sub64 size bytesAcked], ackno, add64 bytesToErase bytesAcked))"
  by pat_completeness auto
termination
  by (relation "measure (\<lambda>(ackno, sizes, i, base, b). length sizes - i)") auto

declare eraseLoop.simps [simp del]

definition UnAckQueue_erase :: "UnAckQueue \<Rightarrow> uint64 \<Rightarrow> UnAckQueue result" where
  "UnAckQueue_erase q ackno =
     (if uq_finSent q \<and> ackno = ackSqnForFin q
      then Inr (q\<lparr>uq_baseSqn := ackno, uq_unAcked := [], uq_unAckedPayloadSize := []\<rparr>)
      else
        let (sizes, base, bytesToErase) =
              eraseLoop ackno (uq_unAckedPayloadSize q) 0 (uq_baseSqn q) 0
        in if bytesToErase > length (uq_unAcked q) then Inl PastEndAccess
           else Inr (q\<lparr>uq_unAckedPayloadSize := sizes, uq_baseSqn := base,
                       uq_unAcked := drop bytesToErase (uq_unAcked q)\<rparr>))"

definition updateBase :: "UnAckQueue \<Rightarrow> uint64 \<Rightarrow> UnAckQueue result" where
  "updateBase q ackno =
     (if ackno \<le> uq_baseSqn q then Inr q
      else if ackno = 1 then
        Inr (q\<lparr>uq_synAcked := True, uq_baseSqn := add64 (uq_baseSqn q) 1\<rparr>)
      else if uq_finSent q \<and> ackno = ackSqnForFin q then
        (let q = q\<lparr>uq_finAcked := True\<rparr>
         in if \<not> UnAckQueue_empty q then UnAckQueue_erase q ackno
            else Inr (q\<lparr>uq_baseSqn := add64 (uq_baseSqn q) 1\<rparr>))
      else if \<not> UnAckQueue_empty q then UnAckQueue_erase q ackno
      else Inr q)"

definition UnAckQueue_size :: "UnAckQueue \<Rightarrow> size_t" where
  "UnAckQueue_size q = length (uq_unAckedPayloadSize q)"

section \<open>\<open>Timer\<close>\<close>

record Timer =
  tm_initial_retransmission_timeout :: uint32
  tm_timeout :: uint32
  tm_isTimerRunning :: bool
  tm_msSinceBaseSegSent :: size_t
  tm_consecutive_retransmissions :: uint32
  tm_doubleTimeout :: bool

definition Timer_new :: "uint32 \<Rightarrow> Timer" where
  "Timer_new initial_timeout =
     \<lparr>tm_initial_retransmission_timeout = initial_timeout, tm_timeout = initial_timeout,
      tm_isTimerRunning = False, tm_msSinceBaseSegSent = 0, tm_consecutive_retransmissions = 0,
      tm_doubleTimeout = True\<rparr>"

definition startTimer :: "Timer \<Rightarrow> Timer" where
  "startTimer t =
     t\<lparr>tm_isTimerRunning := True, tm_msSinceBaseSegSent := 0,
       tm_consecutive_retransmissions := 0, tm_timeout := tm_initial_retransmission_timeout t\<rparr>"

definition stopTimer :: "Timer \<Rightarrow> Timer" where
  "stopTimer t = (startTimer t)\<lparr>tm_isTimerRunning := False\<rparr>"

section \<open>\<open>TCPSender\<close>\<close>

record TCPSender =
  sn_timer :: Timer
  sn_isn :: WrappingInt32
  sn_stream :: ByteStream
  sn_segments_out :: "TCPSegment list"
  sn_unAckQueue :: UnAckQueue

definition TCPSender_new :: "size_t \<Rightarrow> uint16 \<Rightarrow> WrappingInt32 option \<Rightarrow> WrappingInt32 \<Rightarrow> TCPSender" where
  "TCPSender_new capacity retx_timeout fixed_isn random =
     \<lparr>sn_timer = Timer_new (ucast retx_timeout),
      sn_isn = (case fixed_isn of None \<Rightarrow> random | Some isn \<Rightarrow> isn),
      sn_stream = ByteStream_new capacity, sn_segments_out = [],
      sn_unAckQueue = UnAckQueue_new\<rparr>"

definition remainSpace :: "TCPSender \<Rightarrow> size_t" where
  "remainSpace s = sub64 (uq_win_size (sn_unAckQueue s)) (bytesInFlight (sn_unAckQueue s))"

definition finAcked :: "TCPSender \<Rightarrow> bool" where
  "finAcked s = uq_finAcked (sn_unAckQueue s)"

definition firstPush :: "TCPSender \<Rightarrow> TCPSegment \<Rightarrow> TCPSender" where
  "firstPush s seg =
     (let s = s\<lparr>sn_segments_out := sn_segments_out s @ [seg]\<rparr>
      in if \<not> tm_isTimerRunning (sn_timer s)
         then s\<lparr>sn_timer := startTimer (sn_timer s)\<rparr> else s)"

definition makeSynSeg :: "TCPSender \<Rightarrow> TCPSegment \<times> TCPSender" where
  "makeSynSeg s =
     (let h = TCPHeader_new\<lparr>th_seqno := wrap 0 (sn_isn s), th_syn := True\<rparr>;
          q = sn_unAckQueue s;
          q = (if \<not> uq_synSent q
               then q\<lparr>uq_synSent := True, uq_next_seqno := add64 (uq_next_seqno q) 1\<rparr> else q);
          s = s\<lparr>sn_unAckQueue := q\<rparr>
      in if ByteStream_eof (sn_stream s) \<and> remainSpace s \<ge> 2
         then (TCPSegment_new\<lparr>seg_header := h\<lparr>th_fin := True\<rparr>\<rparr>,
               s\<lparr>sn_unAckQueue := q\<lparr>uq_finSent := True, uq_next_seqno := add64 (uq_next_seqno q) 1\<rparr>\<rparr>)
         else (TCPSegment_new\<lparr>seg_header := h\<rparr>, s))"

definition makeFirstFinSeg :: "TCPSender \<Rightarrow> TCPSegment \<times> TCPSender" where
  "makeFirstFinSeg s =
     (let q = sn_unAckQueue s;
          h = TCPHeader_new\<lparr>th_seqno := wrap (uq_next_seqno q) (sn_isn s), th_fin := True\<rparr>
      in (TCPSegment_new\<lparr>seg_header := h\<rparr>,
          s\<lparr>sn_unAckQueue := q\<lparr>uq_next_seqno := add64 (uq_next_seqno q) 1, uq_finSent := True\<rparr>\<rparr>))"

definition makeNotFirstFinSeg :: "TCPSender \<Rightarrow> TCPSegment" where
  "makeNotFirstFinSeg s =
     (let h = TCPHeader_new\<lparr>th_fin := True,
                th_seqno := wrap (sub64 (ackSqnForFin (sn_unAckQueue s)) 1) (sn_isn s)\<rparr>
      in TCPSegment_new\<lparr>seg_header := h\<rparr>)"

definition timeoutRetransmit :: "TCPSender \<Rightarrow> TCPSender result" where
  "timeoutRetransmit s =
     (let q = sn_unAckQueue s
      in if uq_finAcked q then Inr s
         else
           bind_result
             (if uq_finSent q \<and> \<not> uq_finAcked q then
                (if UnAckQueue_empty q then Inr (makeNotFirstFinSeg s, s)
                 else bind_result (frontSeg q (sn_isn s)) (\<lambda>seg. Inr (seg, s)))
              else if uq_synSent q \<and> \<not> uq_synAcked q then Inr (makeSynSeg s)
              else if \<not> UnAckQueue_empty q then
                bind_result (frontSeg q (sn_isn s)) (\<lambda>seg. Inr (seg, s))
              else Inr (TCPSegment_new, s))
             (\<lambda>(seg, s).
                let t = sn_timer s;
                    t = (if tm_doubleTimeout t then t\<lparr>tm_timeout := tm_timeout t * 2\<rparr> else t);
                    t = t\<lparr>tm_msSinceBaseSegSent := 0,
                          tm_consecutive_retransmissions := tm_consecutive_retransmissions t + 1\<rparr>
                in Inr (s\<lparr>sn_segments_out := sn_segments_out s @ [seg], sn_timer := t\<rparr>)))"

definition hasContentToPush :: "TCPSender \<Rightarrow> bool" where
  "hasContentToPush s \<longleftrightarrow>
     ByteStream_buffer_size (sn_stream s) > 0 \<or>
     ByteStream_eof (sn_stream s) \<and> \<not> uq_finSent (sn_unAckQueue s)"

definition makePayLoadSeg :: "TCPSender \<Rightarrow> TCPSegment \<times> TCPSender" where
  "makePayLoadSeg s =
     (let q = sn_unAckQueue s;
          h = TCPHeader_new\<lparr>th_seqno := wrap (uq_next_seqno q) (sn_isn s)\<rparr>;
          toSend = min (remainSpace s) MAX_PAYLOAD_SIZE;
          (payload, stream) = ByteStream_read (sn_stream s) toSend;
          carryFin = (ByteStream_eof stream \<and> sub64 (remainSpace s) (length payload) > 0);
          h = (if carryFin then h\<lparr>th_fin := True\<rparr> else h);
          q = (if carryFin
               then q\<lparr>uq_finSent := True, uq_next_seqno := add64 (uq_next_seqno q) 1\<rparr> else q);
          q = q\<lparr>uq_next_seqno := add64 (uq_next_seqno q) (length payload)\<rparr>
      in (\<lparr>seg_header = h, seg_payload = Buffer_new payload\<rparr>,
          s\<lparr>sn_stream := stream, sn_unAckQueue := q\<rparr>))"

definition setWindowSize :: "TCPSender \<Rightarrow> uint16 \<Rightarrow> TCPSender" where
  "setWindowSize s sz =
     s\<lparr>sn_timer := (sn_timer s)\<lparr>tm_doubleTimeout := (sz \<noteq> 0)\<rparr>,
       sn_unAckQueue := (sn_unAckQueue s)\<lparr>uq_win_size := (if sz > 0 then unat sz else 1)\<rparr>\<rparr>"

definition TCPSender_bytes_in_flight :: "TCPSender \<Rightarrow> uint64" where
  "TCPSender_bytes_in_flight s = bytesInFlight (sn_unAckQueue s)"

text \<open>One round of the loop of \<open>fill_window\<close>.\<close>

definition fillStep :: "TCPSender \<Rightarrow> TCPSender" where
  "fillStep s =
     (let (seg, s) = makePayLoadSeg s;
          s = s\<lparr>sn_unAckQueue := UnAckQueue_push (sn_unAckQueue s) seg\<rparr>
      in firstPush s seg)"

text \<open>
  Each round either takes a byte out of the stream or sends the FIN, so the loop ends in every
  state.
\<close>

definition fillMeasure :: "TCPSender \<Rightarrow> nat" where
  "fillMeasure s = bs_size (sn_stream s) + (if uq_finSent (sn_unAckQueue s) then 0 else 1)"

lemma sub64_decreases: "0 < b \<Longrightarrow> b \<le> a \<Longrightarrow> sub64 a b < a"
  by (cases "a < two64") (simp_all add: sub64_small order_less_le_trans [OF sub64_less])

lemma fillStep_stream:
  "bs_size (sn_stream (fillStep s)) =
     sub64 (bs_size (sn_stream s)) (min (bs_size (sn_stream s)) (min (remainSpace s) MAX_PAYLOAD_SIZE))"
  "bs_isInputEnd (sn_stream (fillStep s)) = bs_isInputEnd (sn_stream s)"
  "uq_finSent (sn_unAckQueue s) \<Longrightarrow> uq_finSent (sn_unAckQueue (fillStep s))"
  by (auto simp: fillStep_def makePayLoadSeg_def firstPush_def UnAckQueue_push_def ByteStream_read_def
      ByteStream_pop_output_def Let_def)

lemma fillStep_fin:
  assumes "bs_size (sn_stream s) = 0" "ByteStream_eof (sn_stream s)" "0 < remainSpace s"
  shows "uq_finSent (sn_unAckQueue (fillStep s))"
proof -
  have "remainSpace s < two64" by (simp add: remainSpace_def)
  then show ?thesis
    using assms by (auto simp: fillStep_def makePayLoadSeg_def firstPush_def UnAckQueue_push_def
        ByteStream_read_def ByteStream_pop_output_def ByteStream_peek_output_def ByteStream_eof_def
        sub64_small Let_def)
qed

lemma fillStep_decreases:
  assumes "0 < remainSpace s" "hasContentToPush s"
  shows "fillMeasure (fillStep s) < fillMeasure s"
proof (cases "bs_size (sn_stream s) = 0")
  case True
  then have "ByteStream_eof (sn_stream s)" "\<not> uq_finSent (sn_unAckQueue s)"
    using assms(2) by (auto simp: hasContentToPush_def)
  moreover have "bs_size (sn_stream (fillStep s)) = 0"
    unfolding fillStep_stream(1) using True by (simp add: sub64_def)
  ultimately show ?thesis
    using True assms(1) fillStep_fin by (simp add: fillMeasure_def)
next
  case False
  then have "bs_size (sn_stream (fillStep s)) < bs_size (sn_stream s)"
    unfolding fillStep_stream(1) using assms(1)
    by (intro sub64_decreases) (auto simp: MAX_PAYLOAD_SIZE_def)
  then show ?thesis using fillStep_stream(3) [of s] by (auto simp: fillMeasure_def)
qed

function fillLoop :: "TCPSender \<Rightarrow> TCPSender" where
  "fillLoop s = (if remainSpace s > 0 \<and> hasContentToPush s then fillLoop (fillStep s) else s)"
  by pat_completeness auto
termination
  by (relation "measure fillMeasure") (auto intro: fillStep_decreases)

declare fillLoop.simps [simp del]

definition fill_window :: "TCPSender \<Rightarrow> TCPSender" where
  "fill_window s =
     (let q = sn_unAckQueue s
      in if uq_finAcked q \<or> uq_finSent q \<and> \<not> uq_finAcked q then s
         else if \<not> uq_synSent q then (let (seg, s) = makeSynSeg s in firstPush s seg)
         else
           let s = (if \<not> uq_finSent q \<and> ByteStream_eof (sn_stream s) \<and> remainSpace s > 1
                    then (let (seg, s) = makeFirstFinSeg s in firstPush s seg) else s);
               q = sn_unAckQueue s
           in if uq_synSent q \<and> \<not> uq_synAcked q then s else fillLoop s)"

definition ack_received :: "TCPSender \<Rightarrow> WrappingInt32 \<Rightarrow> uint16 \<Rightarrow> TCPSender result" where
  "ack_received s ackno window_size =
     (let s = setWindowSize s window_size;
          q = sn_unAckQueue s;
          absAckno = unwrap ackno (sn_isn s) (uq_baseSqn q)
      in if uq_finSent q \<and> absAckno > ackSqnForFin q \<or> absAckno = 0 \<or> absAckno < uq_baseSqn q
         then Inr s
         else if absAckno > uq_baseSqn q then
           bind_result (updateBase q absAckno) (\<lambda>q.
             Inr (s\<lparr>sn_unAckQueue := q,
                    sn_timer :=
                      (if \<not> UnAckQueue_empty q \<or> uq_finSent q \<and> \<not> uq_finAcked q
                       then startTimer (sn_timer s) else stopTimer (sn_timer s))\<rparr>))
         else Inr s)"

definition TCPSender_tick :: "TCPSender \<Rightarrow> size_t \<Rightarrow> TCPSender result" where
  "TCPSender_tick s ms_since_last_tick =
     (if tm_isTimerRunning (sn_timer s) then
        let t = (sn_timer s)\<lparr>tm_msSinceBaseSegSent :=
                   add64 (tm_msSinceBaseSegSent (sn_timer s)) ms_since_last_tick\<rparr>;
            s = s\<lparr>sn_timer := t\<rparr>
        in if tm_msSinceBaseSegSent t \<ge> unat (tm_timeout t) then timeoutRetransmit s else Inr s
      else Inr s)"

definition consecutive_retransmissions :: "TCPSender \<Rightarrow> uint32" where
  "consecutive_retransmissions s = tm_consecutive_retransmissions (sn_timer s)"

definition send_empty_segment :: "TCPSender \<Rightarrow> TCPSender" where
  "send_empty_segment s =
     (let h = TCPHeader_new\<lparr>th_seqno := wrap (uq_next_seqno (sn_unAckQueue s)) (sn_isn s)\<rparr>
      in s\<lparr>sn_segments_out := sn_segments_out s @ [TCPSegment_new\<lparr>seg_header := h\<rparr>]\<rparr>)"

definition next_seqno_absolute :: "TCPSender \<Rightarrow> uint64" where
  "next_seqno_absolute s = uq_next_seqno (sn_unAckQueue s)"

definition next_seqno :: "TCPSender \<Rightarrow> WrappingInt32" where
  "next_seqno s = wrap (uq_next_seqno (sn_unAckQueue s)) (sn_isn s)"

end
