(* ===== verification/Sender_Correct.thy ===== *)
theory Sender_Correct
  imports Tcp_Sender
begin

text \<open>
  The correctness of \<open>TCPSender\<close>: its invariant, that every operation keeps it under the peer's side
  of the contract (acknowledgments at segment boundaries or inside the oldest segment, windows
  that do not retract what is already in flight), and what follows for whole executions. The
  last section shows what the code does when the contract is broken.
\<close>

section \<open>What a segment on the wire promises\<close>

text \<open>
  A segment is valid for the stream \<open>W\<close> written so far if it is the bare SYN, carries nothing, or
  carries the bytes of \<open>W\<close> that belong at its sequence number, and marks the end only at the end
  of an ended stream.
\<close>

definition slice_at :: "bytes \<Rightarrow> nat \<Rightarrow> bytes \<Rightarrow> bool" where
  "slice_at W i d \<longleftrightarrow> i + length d \<le> length W \<and> d = take (length d) (drop i W)"

definition seg_valid :: "WrappingInt32 \<Rightarrow> bytes \<Rightarrow> bool \<Rightarrow> TCPSegment \<Rightarrow> bool" where
  "seg_valid isn W ended seg \<longleftrightarrow>
     (let h = seg_header seg; d = Buffer_str (seg_payload seg)
      in if th_syn h then th_seqno h = isn \<and> d = [] \<and> \<not> th_fin h
         else (d = [] \<and> \<not> th_fin h) \<or>
           (\<exists>i. th_seqno h = wrap (i + 1) isn \<and> slice_at W i d \<and> length d \<le> MAX_PAYLOAD_SIZE \<and>
              (th_fin h \<longrightarrow> ended \<and> i + length d = length W)))"

lemma slice_at_append: "slice_at W i d \<Longrightarrow> slice_at (W @ w) i d"
  by (auto simp: slice_at_def)

lemma slice_at_take: "slice_at W i d \<Longrightarrow> slice_at W i (take n d)"
  unfolding slice_at_def by (metis (no_types, lifting) add_left_mono le_trans length_take min.cobounded1
      min_def take_all take_take linear)

lemma slice_at_drop: "slice_at W i d \<Longrightarrow> k \<le> length d \<Longrightarrow> slice_at W (i + k) (drop k d)"
  by (auto simp: slice_at_def) (metis drop_drop drop_take add.commute)

lemma seg_valid_mono:
  assumes "seg_valid isn W e seg" "e \<Longrightarrow> e' \<and> w = []"
  shows "seg_valid isn (W @ w) e' seg"
  using assms slice_at_append [of W _ "Buffer_str (seg_payload seg)" w]
  by (auto simp: seg_valid_def Let_def split: if_splits)

section \<open>The invariant\<close>

definition stream_inv :: "bytes \<Rightarrow> ByteStream \<Rightarrow> bool" where
  "stream_inv W st \<longleftrightarrow>
     length W < 2 ^ 62 \<and> ByteStream_inv st \<and> bs_num_bytes_read st + bs_size st = length W \<and>
     bs_buf st = drop (bs_num_bytes_read st) W"

text \<open>
  \<open>queue_inv W ended n q\<close>, with \<open>n\<close> bytes of \<open>W\<close> sent so far: the sequence numbers count SYN, the sent
  bytes and FIN; the queue holds exactly the sent and unacknowledged bytes, cut into the recorded
  sizes; what is in flight fits the window.
\<close>

definition queue_inv :: "bytes \<Rightarrow> bool \<Rightarrow> nat \<Rightarrow> UnAckQueue \<Rightarrow> bool" where
  "queue_inv W ended n q \<longleftrightarrow>
     uq_next_seqno q = of_bool (uq_synSent q) + n + of_bool (uq_finSent q) \<and>
     (if uq_synAcked q then
        uq_synSent q \<and> 1 \<le> uq_baseSqn q \<and>
        (if uq_finAcked q then uq_finSent q \<and> uq_baseSqn q = uq_next_seqno q \<and> uq_unAcked q = []
         else uq_baseSqn q + length (uq_unAcked q) = 1 + n)
      else uq_baseSqn q = 0 \<and> n = 0 \<and> \<not> uq_finSent q \<and> \<not> uq_finAcked q \<and> uq_win_size q = 1 \<and>
        uq_unAcked q = []) \<and>
     (uq_unAcked q \<noteq> [] \<longrightarrow> slice_at W (uq_baseSqn q - 1) (uq_unAcked q)) \<and>
     sum_list (uq_unAckedPayloadSize q) = length (uq_unAcked q) \<and>
     (\<forall>x \<in> set (uq_unAckedPayloadSize q). x \<le> MAX_PAYLOAD_SIZE) \<and>
     (uq_finSent q \<longrightarrow> ended \<and> n = length W) \<and> n \<le> length W \<and>
     1 \<le> uq_win_size q \<and> uq_win_size q < 2 ^ 16 \<and>
     uq_next_seqno q \<le> uq_baseSqn q + uq_win_size q"

definition sender_inv :: "bytes \<Rightarrow> TCPSender \<Rightarrow> bool" where
  "sender_inv W s \<longleftrightarrow>
     stream_inv W (sn_stream s) \<and>
     queue_inv W (bs_isInputEnd (sn_stream s)) (bs_num_bytes_read (sn_stream s)) (sn_unAckQueue s) \<and>
     (\<forall>seg \<in> set (sn_segments_out s). seg_valid (sn_isn s) W (bs_isInputEnd (sn_stream s)) seg) \<and>
     (tm_isTimerRunning (sn_timer s) \<longleftrightarrow>
        uq_baseSqn (sn_unAckQueue s) < uq_next_seqno (sn_unAckQueue s))"

lemma sender_inv_new:
  assumes "capacity < two64"
  shows "sender_inv [] (TCPSender_new capacity t fixed rand)"
  using ByteStream_inv_new [OF assms]
  by (auto simp: sender_inv_def TCPSender_new_def stream_inv_def queue_inv_def UnAckQueue_new_def
      Timer_new_def ByteStream_new_def)

text \<open>The invariant while data may be outstanding, and what is outstanding whenever something is.\<close>

lemma queue_inv_open:
  assumes "uq_synAcked q" "\<not> uq_finAcked q"
  shows "queue_inv W e n q \<longleftrightarrow>
    uq_synSent q \<and> uq_next_seqno q = 1 + n + of_bool (uq_finSent q) \<and> 1 \<le> uq_baseSqn q \<and>
    uq_baseSqn q + length (uq_unAcked q) = 1 + n \<and>
    (uq_unAcked q \<noteq> [] \<longrightarrow> slice_at W (uq_baseSqn q - 1) (uq_unAcked q)) \<and>
    sum_list (uq_unAckedPayloadSize q) = length (uq_unAcked q) \<and>
    (\<forall>x \<in> set (uq_unAckedPayloadSize q). x \<le> MAX_PAYLOAD_SIZE) \<and>
    (uq_finSent q \<longrightarrow> e \<and> n = length W) \<and> n \<le> length W \<and>
    1 \<le> uq_win_size q \<and> uq_win_size q < 2 ^ 16 \<and>
    uq_next_seqno q \<le> uq_baseSqn q + uq_win_size q"
  using assms unfolding queue_inv_def by auto

lemma queue_outstanding:
  assumes "queue_inv W e n q" "uq_baseSqn q < uq_next_seqno q"
  shows "\<not> uq_finAcked q"
    "uq_unAcked q \<noteq> [] \<or> uq_finSent q \<or> uq_synSent q \<and> \<not> uq_synAcked q"
proof -
  show fa: "\<not> uq_finAcked q" using assms by (auto simp: queue_inv_def split: if_splits)
  show "uq_unAcked q \<noteq> [] \<or> uq_finSent q \<or> uq_synSent q \<and> \<not> uq_synAcked q"
  proof (cases "uq_synAcked q")
    case True
    then show ?thesis using assms fa by (cases "uq_finSent q") (auto simp: queue_inv_open)
  next
    case False
    then show ?thesis using assms by (cases "uq_synSent q") (auto simp: queue_inv_def)
  qed
qed

lemma queue_base_le_next: "queue_inv W e n q \<Longrightarrow> uq_baseSqn q \<le> uq_next_seqno q"
  by (auto simp: queue_inv_def split: if_splits)

lemma queue_next_bound:
  assumes "queue_inv W e n q" "length W < 2 ^ 62"
  shows "uq_next_seqno q < 2 ^ 62 + 2"
proof -
  have "uq_next_seqno q \<le> length W + 2" using assms(1) by (auto simp: queue_inv_def)
  then show ?thesis using assms(2) by simp
qed

lemma two64_gt: "n < 2 ^ 62 + 2 ^ 20 \<Longrightarrow> n < two64"
  by (simp add: two64_def)

lemma bytesInFlight_eq:
  assumes "queue_inv W e n q" "length W < 2 ^ 62"
  shows "bytesInFlight q = uq_next_seqno q - uq_baseSqn q"
proof -
  have "uq_next_seqno q < two64" using queue_next_bound [OF assms] by (intro two64_gt) simp
  then show ?thesis
    using queue_base_le_next [OF assms(1)] by (simp add: bytesInFlight_def sub64_small)
qed

lemma remainSpace_eq:
  assumes "sender_inv W s"
  shows "remainSpace s = uq_win_size (sn_unAckQueue s) -
    (uq_next_seqno (sn_unAckQueue s) - uq_baseSqn (sn_unAckQueue s))"
proof -
  let ?q = "sn_unAckQueue s"
  have q: "queue_inv W (bs_isInputEnd (sn_stream s)) (bs_num_bytes_read (sn_stream s)) ?q"
    "length W < 2 ^ 62"
    using assms by (auto simp: sender_inv_def stream_inv_def)
  have w: "uq_win_size ?q < two64" "uq_next_seqno ?q \<le> uq_baseSqn ?q + uq_win_size ?q"
    using q(1) by (auto simp: queue_inv_def two64_def)
  have "uq_next_seqno ?q - uq_baseSqn ?q \<le> uq_win_size ?q" using w(2) by arith
  then show ?thesis
    using bytesInFlight_eq [OF q] w(1) by (simp add: remainSpace_def sub64_small)
qed

lemma seg_valid_bare:
  "seg_valid isn W e (TCPSegment_new\<lparr>seg_header := TCPHeader_new\<lparr>th_seqno := x\<rparr>\<rparr>)"
  by (simp add: seg_valid_def TCPSegment_new_def TCPHeader_new_def)

section \<open>Filling the window\<close>

text \<open>Taking the next \<open>m\<close> bytes out of the stream.\<close>

lemma stream_inv_read:
  fixes len :: nat
  assumes "stream_inv W st"
  defines "n \<equiv> bs_num_bytes_read st" and "m \<equiv> min (bs_size st) len"
  shows "fst (ByteStream_read st len) = take m (drop n W)"
    "stream_inv W (snd (ByteStream_read st len))"
    "bs_num_bytes_read (snd (ByteStream_read st len)) = n + m"
    "bs_size (snd (ByteStream_read st len)) = bs_size st - m"
    "bs_isInputEnd (snd (ByteStream_read st len)) = bs_isInputEnd st"
    "slice_at W n (take m (drop n W))" "length (take m (drop n W)) = m"
proof -
  have inv: "ByteStream_inv st" "n + bs_size st = length W" "bs_buf st = drop n W" "length W < 2 ^ 62"
    using assms(1) by (auto simp: stream_inv_def n_def)
  have "n + m < two64" using inv(2,4) by (intro two64_gt) (auto simp: m_def)
  then have rd: "add64 n m = n + m" by (rule add64_small)
  note pop = ByteStream_pop_inv_eq [OF inv(1), of len, folded m_def n_def, unfolded rd]
  have sz: "bs_size st - len = bs_size st - m" by (auto simp: m_def)
  have dr: "drop len (drop n W) = drop (n + m) W"
    using inv(2) by (auto simp: m_def min_def add.commute)
  show "fst (ByteStream_read st len) = take m (drop n W)"
    using inv by (auto simp: ByteStream_read_def ByteStream_peek_output_def m_def Let_def)
  show "stream_inv W (snd (ByteStream_read st len))"
    using inv bs.invar_pop [OF inv(1), of len] dr sz
    by (auto simp: stream_inv_def ByteStream_read_def pop m_def Let_def)
  show "bs_num_bytes_read (snd (ByteStream_read st len)) = n + m"
    "bs_size (snd (ByteStream_read st len)) = bs_size st - m"
    "bs_isInputEnd (snd (ByteStream_read st len)) = bs_isInputEnd st"
    using sz by (simp_all add: ByteStream_read_def pop Let_def)
  show len: "length (take m (drop n W)) = m" using inv(2) by (simp add: m_def)
  show "slice_at W n (take m (drop n W))" using inv(2) len by (simp add: slice_at_def m_def)
qed

text \<open>A data segment leaves: the queue grows by its bytes and the sequence number by its length.\<close>

lemma queue_inv_send:
  assumes "queue_inv W e n q" "uq_synAcked q" "\<not> uq_finSent q"
    and "slice_at W n d" "length d \<le> MAX_PAYLOAD_SIZE"
    and "fin \<Longrightarrow> e \<and> n + length d = length W"
    and "length d + of_bool fin + uq_next_seqno q \<le> uq_baseSqn q + uq_win_size q"
  shows "queue_inv W e (n + length d)
    (q\<lparr>uq_finSent := fin, uq_next_seqno := uq_next_seqno q + length d + of_bool fin,
       uq_unAcked := uq_unAcked q @ d,
       uq_unAckedPayloadSize := uq_unAckedPayloadSize q @ [length d]\<rparr>)"
proof -
  let ?u = "uq_unAcked q" and ?b = "uq_baseSqn q"
  have base: "?b + length ?u = 1 + n" "1 \<le> ?b" "uq_synSent q" "\<not> uq_finAcked q"
    using assms(1-3) by (auto simp: queue_inv_def split: if_splits)
  have "slice_at W (?b - 1) (?u @ d)"
  proof -
    have "?u = take (length ?u) (drop (?b - 1) W)"
      using assms(1) by (cases "?u = []") (auto simp: queue_inv_def slice_at_def)
    moreover have "d = take (length d) (drop (length ?u) (drop (?b - 1) W))"
      using assms(4) base by (simp add: slice_at_def add.commute)
    ultimately have "?u @ d = take (length ?u + length d) (drop (?b - 1) W)"
      by (metis take_add)
    then show ?thesis using assms(4) base by (auto simp: slice_at_def)
  qed
  then show ?thesis
    using assms base by (auto simp: queue_inv_def slice_at_def)
qed

lemma fillStep_eq:
  assumes inv: "sender_inv W s" and "0 < remainSpace s" "hasContentToPush s"
  defines "q \<equiv> sn_unAckQueue s" and "n \<equiv> bs_num_bytes_read (sn_stream s)"
  defines "m \<equiv> min (bs_size (sn_stream s)) (min (remainSpace s) MAX_PAYLOAD_SIZE)"
  defines "fin \<equiv> bs_isInputEnd (sn_stream s) \<and> n + m = length W \<and> m < remainSpace s"
  defines "d \<equiv> take m (drop n W)"
  defines "seg \<equiv> \<lparr>seg_header = TCPHeader_new\<lparr>th_seqno := wrap (uq_next_seqno q) (sn_isn s), th_fin := fin\<rparr>,
    seg_payload = Buffer_new d\<rparr>"
  shows "fillStep s = s\<lparr>sn_stream := snd (ByteStream_read (sn_stream s) (min (remainSpace s) MAX_PAYLOAD_SIZE)),
      sn_unAckQueue := q\<lparr>uq_finSent := fin, uq_next_seqno := uq_next_seqno q + length d + of_bool fin,
        uq_unAcked := uq_unAcked q @ d, uq_unAckedPayloadSize := uq_unAckedPayloadSize q @ [length d]\<rparr>,
      sn_segments_out := sn_segments_out s @ [seg],
      sn_timer := (if tm_isTimerRunning (sn_timer s) then sn_timer s else startTimer (sn_timer s))\<rparr>"
    and "\<not> uq_finSent q" "0 < m + of_bool fin"
proof -
  let ?st = "sn_stream s" and ?len = "min (remainSpace s) MAX_PAYLOAD_SIZE"
  have st: "stream_inv W ?st" and qi: "queue_inv W (bs_isInputEnd ?st) n q"
    using inv by (auto simp: sender_inv_def n_def q_def)
  note rd = stream_inv_read [OF st, of ?len, folded n_def m_def, folded d_def]
  have eq: "n + bs_size ?st = length W" "length W < 2 ^ 62" using st by (auto simp: stream_inv_def n_def)
  have nofin: "\<not> uq_finSent q"
    using assms(3) eq qi by (auto simp: hasContentToPush_def queue_inv_def q_def)
  have space: "remainSpace s < two64" by (simp add: remainSpace_def)
  have d: "length d = m" using rd by simp
  have m: "m \<le> remainSpace s" "m \<le> bs_size ?st" by (auto simp: m_def)
  have fin: "ByteStream_eof (snd (ByteStream_read ?st ?len)) \<and> 0 < sub64 (remainSpace s) (length d) \<longleftrightarrow> fin"
    using rd(4,5) m eq space by (auto simp: ByteStream_eof_def fin_def sub64_small d)
  have next_lt: "uq_next_seqno q + 1 + length d < two64"
    using queue_next_bound [OF qi eq(2)] by (intro two64_gt) (simp add: d m_def MAX_PAYLOAD_SIZE_def)
  then have nx: "add64 (uq_next_seqno q) (length d) = uq_next_seqno q + length d"
    "add64 (add64 (uq_next_seqno q) 1) (length d) = uq_next_seqno q + 1 + length d"
    by (simp_all add: add64_assoc add64_small)
  show "0 < m + of_bool fin"
    using assms(2,3) eq by (auto simp: hasContentToPush_def ByteStream_eof_def m_def fin_def
        MAX_PAYLOAD_SIZE_def)
  show "\<not> uq_finSent q" by (rule nofin)
  show "fillStep s = s\<lparr>sn_stream := snd (ByteStream_read ?st ?len),
      sn_unAckQueue := q\<lparr>uq_finSent := fin, uq_next_seqno := uq_next_seqno q + length d + of_bool fin,
        uq_unAcked := uq_unAcked q @ d, uq_unAckedPayloadSize := uq_unAckedPayloadSize q @ [length d]\<rparr>,
      sn_segments_out := sn_segments_out s @ [seg],
      sn_timer := (if tm_isTimerRunning (sn_timer s) then sn_timer s else startTimer (sn_timer s))\<rparr>"
  proof -
    have q: "sn_unAckQueue s = q" by (simp add: q_def)
    have nofin': "q\<lparr>uq_finSent := False\<rparr> = q" using nofin by (cases q) simp
    have hdr: "TCPHeader_new\<lparr>th_seqno := x, th_fin := False\<rparr> = TCPHeader_new\<lparr>th_seqno := x\<rparr>" for x
      by (simp add: TCPHeader_new_def)
    obtain st' where read: "ByteStream_read ?st ?len = (d, st')"
      using rd(1) by (metis prod.collapse)
    have mk: "makePayLoadSeg s = (seg, s\<lparr>sn_stream := st',
      sn_unAckQueue := q\<lparr>uq_finSent := fin, uq_next_seqno := uq_next_seqno q + length d + of_bool fin\<rparr>\<rparr>)"
    proof -
      have fin': "(ByteStream_eof st' \<and> 0 < sub64 (remainSpace s) (length d)) = fin"
        using fin by (simp add: read)
      show ?thesis
        unfolding makePayLoadSeg_def Let_def q read prod.case fin'
        using nx nofin' by (cases fin) (simp_all add: seg_def hdr)
    qed
    show ?thesis unfolding fillStep_def mk Let_def prod.case firstPush_def
      by (simp add: UnAckQueue_push_def seg_def read)
  qed
qed

lemma fillStep_inv:
  assumes inv: "sender_inv W s" and "0 < remainSpace s" "hasContentToPush s"
    and syn: "uq_synAcked (sn_unAckQueue s)"
  shows "sender_inv W (fillStep s) \<and> uq_synAcked (sn_unAckQueue (fillStep s))"
proof -
  let ?st = "sn_stream s" and ?q = "sn_unAckQueue s" and ?len = "min (remainSpace s) MAX_PAYLOAD_SIZE"
  define n where "n = bs_num_bytes_read ?st"
  define m where "m = min (bs_size ?st) ?len"
  define fin where "fin \<longleftrightarrow> bs_isInputEnd ?st \<and> n + m = length W \<and> m < remainSpace s"
  define d where "d = take m (drop n W)"
  note step = fillStep_eq [OF assms(1-3), folded n_def m_def, folded fin_def d_def]
  have st: "stream_inv W ?st" and qi: "queue_inv W (bs_isInputEnd ?st) n ?q"
    using inv by (auto simp: sender_inv_def n_def)
  note rd = stream_inv_read [OF st, of ?len, folded n_def m_def, folded d_def]
  have d: "length d = m" "length d \<le> MAX_PAYLOAD_SIZE" using rd(7) by (auto simp: m_def)
  have fits: "length d + of_bool fin + uq_next_seqno ?q \<le> uq_baseSqn ?q + uq_win_size ?q"
  proof -
    have "m + of_bool fin \<le> remainSpace s" by (auto simp: fin_def m_def)
    then show ?thesis using remainSpace_eq [OF inv] assms(2) d(1) by linarith
  qed
  have nx: "uq_next_seqno ?q = n + 1"
    using qi step(2) syn by (auto simp: queue_inv_def split: if_splits)
  have "queue_inv W (bs_isInputEnd ?st) (n + length d)
      (?q\<lparr>uq_finSent := fin, uq_next_seqno := uq_next_seqno ?q + length d + of_bool fin,
        uq_unAcked := uq_unAcked ?q @ d, uq_unAckedPayloadSize := uq_unAckedPayloadSize ?q @ [length d]\<rparr>)"
    by (rule queue_inv_send [OF qi syn step(2) _ d(2) _ fits]) (use rd(6) d in \<open>auto simp: fin_def\<close>)
  moreover have "seg_valid (sn_isn s) W (bs_isInputEnd ?st)
      \<lparr>seg_header = TCPHeader_new\<lparr>th_seqno := wrap (uq_next_seqno ?q) (sn_isn s), th_fin := fin\<rparr>,
       seg_payload = Buffer_new d\<rparr>"
    using rd(6) d nx by (auto simp: seg_valid_def TCPHeader_new_def fin_def)
  moreover have "uq_baseSqn ?q < uq_next_seqno ?q + length d + of_bool fin"
    using queue_base_le_next [OF qi] step(3) d(1) by linarith
  ultimately show ?thesis
    using inv rd syn d unfolding step(1) by (auto simp: sender_inv_def startTimer_def)
qed

lemma fillLoop_inv:
  "sender_inv W s \<Longrightarrow> uq_synAcked (sn_unAckQueue s) \<Longrightarrow> sender_inv W (fillLoop s)"
proof (induction s rule: fillLoop.induct)
  case (1 s)
  show ?case
  proof (cases "0 < remainSpace s \<and> hasContentToPush s")
    case True
    then show ?thesis using 1 fillStep_inv [of W s] by (simp add: fillLoop.simps [of s])
  next
    case False
    then show ?thesis using 1 by (subst fillLoop.simps) auto
  qed
qed

lemma syn_inv:
  assumes inv: "sender_inv W s" and "\<not> uq_synSent (sn_unAckQueue s)"
  shows "sender_inv W (let (seg, s) = makeSynSeg s in firstPush s seg)"
proof -
  let ?q = "sn_unAckQueue s" and ?n = "bs_num_bytes_read (sn_stream s)"
  have q: "\<not> uq_synAcked ?q" "\<not> uq_finSent ?q" "\<not> uq_finAcked ?q" "uq_next_seqno ?q = 0" "uq_baseSqn ?q = 0"
    "uq_win_size ?q = 1" "?n = 0" "uq_unAcked ?q = []"
    using inv assms(2) by (auto simp: sender_inv_def queue_inv_def split: if_splits)
  let ?h = "TCPHeader_new\<lparr>th_seqno := wrap 0 (sn_isn s), th_syn := True\<rparr>"
  let ?q' = "?q\<lparr>uq_synSent := True, uq_next_seqno := 1\<rparr>"
  have "add64 0 1 = 1" "sub64 1 1 = 0" "sub64 1 0 = 1" by (simp_all add: add64_def sub64_def two64_def)
  then have mk: "makeSynSeg s = (TCPSegment_new\<lparr>seg_header := ?h\<rparr>, s\<lparr>sn_unAckQueue := ?q'\<rparr>)"
    using q assms(2) by (simp add: makeSynSeg_def remainSpace_def bytesInFlight_def Let_def)
  have "queue_inv W (bs_isInputEnd (sn_stream s)) ?n ?q'"
    using inv q by (auto simp: sender_inv_def queue_inv_def)
  moreover have "seg_valid (sn_isn s) W (bs_isInputEnd (sn_stream s)) (TCPSegment_new\<lparr>seg_header := ?h\<rparr>)"
    by (simp add: seg_valid_def TCPHeader_new_def TCPSegment_new_def wrap_def WrappingInt32_plus_def)
  ultimately show ?thesis
    using inv q by (simp add: mk sender_inv_def firstPush_def startTimer_def)
qed

lemma first_fin_inv:
  assumes inv: "sender_inv W s" and "ByteStream_eof (sn_stream s)" "1 < remainSpace s"
    and "uq_synAcked (sn_unAckQueue s)" "\<not> uq_finSent (sn_unAckQueue s)"
  shows "sender_inv W (let (seg, s) = makeFirstFinSeg s in firstPush s seg)"
proof -
  let ?q = "sn_unAckQueue s" and ?n = "bs_num_bytes_read (sn_stream s)"
  have st: "stream_inv W (sn_stream s)" and qi: "queue_inv W (bs_isInputEnd (sn_stream s)) ?n ?q"
    using inv by (auto simp: sender_inv_def)
  have n: "?n = length W" "bs_isInputEnd (sn_stream s)" "length W < 2 ^ 62"
    using st assms(2) by (auto simp: stream_inv_def ByteStream_eof_def)
  have q: "uq_synSent ?q" "\<not> uq_finAcked ?q" "uq_next_seqno ?q = 1 + ?n"
    "uq_baseSqn ?q + length (uq_unAcked ?q) = 1 + ?n"
    using qi assms(4,5) by (auto simp: queue_inv_def split: if_splits)
  have "uq_next_seqno ?q + 1 < two64" using n q by (intro two64_gt) simp
  then have nx: "add64 (uq_next_seqno ?q) 1 = uq_next_seqno ?q + 1" by (rule add64_small)
  have "queue_inv W (bs_isInputEnd (sn_stream s)) ?n
      (?q\<lparr>uq_next_seqno := uq_next_seqno ?q + 1, uq_finSent := True\<rparr>)"
    using qi q n assms(3-5) remainSpace_eq [OF inv] by (auto simp: queue_inv_def)
  moreover have "seg_valid (sn_isn s) W (bs_isInputEnd (sn_stream s))
      (TCPSegment_new\<lparr>seg_header := TCPHeader_new\<lparr>th_seqno := wrap (uq_next_seqno ?q) (sn_isn s), th_fin := True\<rparr>\<rparr>)"
    using n q by (auto simp: seg_valid_def TCPHeader_new_def TCPSegment_new_def slice_at_def intro!: exI [of _ ?n])
  ultimately show ?thesis
    using inv q nx by (simp add: makeFirstFinSeg_def sender_inv_def firstPush_def startTimer_def Let_def)
qed

lemma fill_window_inv:
  assumes "sender_inv W s"
  shows "sender_inv W (fill_window s)"
proof -
  let ?q = "sn_unAckQueue s"
  consider (fin) "uq_finSent ?q \<or> uq_finAcked ?q"
    | (syn) "\<not> uq_finSent ?q" "\<not> uq_finAcked ?q" "\<not> uq_synSent ?q"
    | (wait) "\<not> uq_finSent ?q" "\<not> uq_finAcked ?q" "uq_synSent ?q" "\<not> uq_synAcked ?q"
    | (data) "\<not> uq_finSent ?q" "\<not> uq_finAcked ?q" "uq_synSent ?q" "uq_synAcked ?q" by blast
  then show ?thesis
  proof cases
    case fin
    then show ?thesis using assms by (auto simp: fill_window_def Let_def)
  next
    case syn
    then show ?thesis using syn_inv [OF assms] by (simp add: fill_window_def Let_def)
  next
    case wait
    then have "remainSpace s \<le> 1"
      using remainSpace_eq [OF assms] assms by (auto simp: sender_inv_def queue_inv_def)
    then show ?thesis using wait assms by (simp add: fill_window_def Let_def)
  next
    case data
    define t where "t = (if ByteStream_eof (sn_stream s) \<and> 1 < remainSpace s
      then (let (seg, s) = makeFirstFinSeg s in firstPush s seg) else s)"
    have "sender_inv W t" using assms data first_fin_inv by (simp add: t_def)
    moreover have "uq_synAcked (sn_unAckQueue t)"
      using data by (simp add: t_def makeFirstFinSeg_def firstPush_def Let_def)
    moreover have "fill_window s = fillLoop t"
      using data by (cases "ByteStream_eof (sn_stream s) \<and> 1 < remainSpace s")
        (auto simp: fill_window_def t_def makeFirstFinSeg_def firstPush_def Let_def)
    ultimately show ?thesis using fillLoop_inv by simp
  qed
qed

section \<open>Acknowledgments\<close>

text \<open>
  The places an acknowledgment may fall, as distances from the base: at the end of a recorded
  segment, or inside the oldest one.
\<close>

definition ack_boundary :: "size_t list \<Rightarrow> nat \<Rightarrow> bool" where
  "ack_boundary sizes k \<longleftrightarrow>
     list_ex (\<lambda>j. k = sum_list (take j sizes)) [0..<Suc (length sizes)] \<or>
     (case sizes of [] \<Rightarrow> False | sz # _ \<Rightarrow> k < sz)"

lemma eraseLoop_boundary:
  "j \<le> length sizes \<Longrightarrow> ackno = base + sum_list (drop i (take j sizes)) \<Longrightarrow> base < ackno \<Longrightarrow>
   ackno < two64 \<Longrightarrow> acc + (ackno - base) < two64 \<Longrightarrow>
   \<exists>m. eraseLoop ackno sizes i base acc = (drop m sizes, ackno, acc + (ackno - base)) \<and>
     m \<le> length sizes \<and> i \<le> m \<and> sum_list (drop i (take m sizes)) = ackno - base"
proof (induction ackno sizes i base acc rule: eraseLoop.induct)
  case (1 ackno sizes i base acc)
  have "i < j" using 1(3,4) by (cases "i < j") auto
  then have i: "i < length sizes" using 1(2) by simp
  have cut: "sum_list (drop i (take k sizes)) = sizes ! i + sum_list (drop (Suc i) (take k sizes))"
    if "i < k" for k
    using that i by (subst Cons_nth_drop_Suc [symmetric]) auto
  let ?nx = "base + sizes ! i"
  have le: "?nx \<le> ackno" using 1(3) cut [OF \<open>i < j\<close>] by simp
  have nx: "add64 base (sizes ! i) = ?nx" "add64 acc (sizes ! i) = acc + sizes ! i"
    using le 1(5,6) by (auto intro!: add64_small)
  show ?case
  proof (cases "?nx = ackno")
    case True
    then have "eraseLoop ackno sizes i base acc = (drop (Suc i) sizes, ackno, acc + (ackno - base))"
      using i nx by (auto simp: eraseLoop.simps Let_def)
    then show ?thesis using i True cut [of "Suc i"] by (intro exI [of _ "Suc i"]) auto
  next
    case False
    then have lt: "?nx < ackno" using le by simp
    have rec: "eraseLoop ackno sizes i base acc = eraseLoop ackno sizes (Suc i) ?nx (acc + sizes ! i)"
      using i nx lt by (subst eraseLoop.simps) (simp add: Let_def)
    have "\<not> length sizes \<le> i" "ackno = ?nx + sum_list (drop (Suc i) (take j sizes))"
      "acc + sizes ! i + (ackno - ?nx) < two64"
      using i 1(3,6) cut [OF \<open>i < j\<close>] lt by linarith+
    from 1(1) [OF this(1) refl refl, unfolded nx, OF False lt 1(2) this(2) lt 1(5) this(3)]
    obtain m where "eraseLoop ackno sizes (Suc i) ?nx (acc + sizes ! i) =
          (drop m sizes, ackno, acc + sizes ! i + (ackno - ?nx))"
        "m \<le> length sizes" "Suc i \<le> m" "sum_list (drop (Suc i) (take m sizes)) = ackno - ?nx"
      by blast
    then show ?thesis using rec lt cut [of m] by (intro exI [of _ m]) auto
  qed
qed

lemma eraseLoop_partial:
  assumes "base < ackno" "ackno < base + sz" "base + sz < two64"
  shows "eraseLoop ackno (sz # sizes) 0 base 0 = ((sz - (ackno - base)) # sizes, ackno, ackno - base)"
  using assms by (simp add: eraseLoop.simps Let_def add64_small sub64_small)

text \<open>Erasing a prefix that ends where an acknowledgment may fall.\<close>

lemma eraseLoop_ack:
  assumes "ack_boundary sizes (ackno - base)" "base < ackno" "base + sum_list sizes < two64"
    and "ackno \<le> base + sum_list sizes" "\<forall>x \<in> set sizes. x \<le> b"
  obtains sizes' where "eraseLoop ackno sizes 0 base 0 = (sizes', ackno, ackno - base)"
    "sum_list sizes' = sum_list sizes - (ackno - base)" "\<forall>x \<in> set sizes'. x \<le> b"
proof (cases "\<exists>j \<le> length sizes. ackno - base = sum_list (take j sizes)")
  case True
  then obtain j where j: "j \<le> length sizes" "ackno = base + sum_list (drop 0 (take j sizes))"
    using assms(2) by auto
  have "ackno < two64" "0 + (ackno - base) < two64" using assms(3,4) by linarith+
  from eraseLoop_boundary [OF j assms(2) this] obtain m where
    m: "eraseLoop ackno sizes 0 base 0 = (drop m sizes, ackno, ackno - base)"
    "sum_list (take m sizes) = ackno - base"
    by auto
  have "sum_list sizes = sum_list (take m sizes) + sum_list (drop m sizes)"
    by (metis append_take_drop_id sum_list_append)
  then show thesis using that [OF m(1)] m(2) assms(5) by (auto dest: in_set_dropD)
next
  case False
  then obtain sz rest where s: "sizes = sz # rest" "ackno - base < sz"
    using assms(1) by (auto simp: ack_boundary_def list_ex_iff Ball_def less_Suc_eq_le split: list.splits)
  then have "eraseLoop ackno sizes 0 base 0 = ((sz - (ackno - base)) # rest, ackno, ackno - base)"
    unfolding s(1) by (intro eraseLoop_partial) (use assms(2,3) s in auto)
  then show thesis using that s assms(5) by auto
qed

lemma updateBase_inv:
  assumes inv: "queue_inv W e n q" and "length W < 2 ^ 62"
    and a: "uq_baseSqn q < a" "a \<le> uq_next_seqno q"
    and ok: "\<not> uq_synAcked q \<or> uq_finSent q \<and> a = uq_next_seqno q \<or>
      ack_boundary (uq_unAckedPayloadSize q) (a - uq_baseSqn q)"
  shows "\<exists>q'. updateBase q a = Inr q' \<and> queue_inv W e n q' \<and> uq_baseSqn q' = a \<and>
    uq_next_seqno q' = uq_next_seqno q \<and> uq_synAcked q' \<and>
    ((\<not> UnAckQueue_empty q' \<or> uq_finSent q' \<and> \<not> uq_finAcked q') \<longleftrightarrow> a < uq_next_seqno q)"
proof -
  let ?u = "uq_unAcked q" and ?sz = "uq_unAckedPayloadSize q" and ?b = "uq_baseSqn q"
  have nb: "uq_next_seqno q < two64" using queue_next_bound [OF inv assms(2)] by (intro two64_gt) simp
  then have b1: "add64 ?b 1 = ?b + 1" using a by (intro add64_small) simp
  consider (syn) "\<not> uq_synAcked q"
    | (fin) "uq_synAcked q" "uq_finSent q" "a = uq_next_seqno q"
    | (data) "uq_synAcked q" "\<not> (uq_finSent q \<and> a = uq_next_seqno q)" by blast
  then show ?thesis
  proof cases
    case syn
    then have q: "?b = 0" "n = 0" "a = 1" "uq_next_seqno q = 1" "\<not> uq_finSent q" "uq_synSent q"
      "\<not> uq_finAcked q" "?u = []"
      using inv a by (cases "uq_synSent q"; auto simp: queue_inv_def split: if_splits)+
    let ?q' = "q\<lparr>uq_synAcked := True, uq_baseSqn := 1\<rparr>"
    have "updateBase q a = Inr ?q'" using q(1,3) b1 by (simp add: updateBase_def)
    moreover have "queue_inv W e n ?q'" using inv q by (simp add: queue_inv_def)
    ultimately show ?thesis using q by (intro exI [of _ ?q']) (simp add: UnAckQueue_empty_def)
  next
    case fin
    have nacked: "\<not> uq_finAcked q" using inv fin a by (auto simp: queue_inv_def)
    have q: "?b + length ?u = 1 + n" "a = 2 + n" "1 \<le> ?b" "uq_synSent q" "sum_list ?sz = length ?u"
      using inv fin nacked by (auto simp: queue_inv_def)
    let ?f = "q\<lparr>uq_finAcked := True\<rparr>"
    define q' where "q' = (if ?u = [] then ?f\<lparr>uq_baseSqn := ?b + 1\<rparr>
      else ?f\<lparr>uq_baseSqn := a, uq_unAcked := [], uq_unAckedPayloadSize := []\<rparr>)"
    have "updateBase q a = Inr q'"
      using fin q a b1 by (simp add: updateBase_def UnAckQueue_erase_def UnAckQueue_empty_def
          ackSqnForFin_def q'_def)
    moreover have "queue_inv W e n q'"
      using inv fin q by (cases "?u = []") (simp_all add: q'_def queue_inv_def)
    moreover have "uq_baseSqn q' = a" using q by (auto simp: q'_def)
    ultimately show ?thesis
      using fin by (intro exI [of _ q']) (auto simp: q'_def UnAckQueue_empty_def)
  next
    case data
    have q: "\<not> uq_finAcked q" "?b + length ?u = 1 + n" "1 \<le> ?b" "sum_list ?sz = length ?u"
      "\<forall>x \<in> set ?sz. x \<le> MAX_PAYLOAD_SIZE" "uq_next_seqno q = 1 + n + of_bool (uq_finSent q)"
      using inv data a by (auto simp: queue_inv_def split: if_splits)
    have le: "a \<le> ?b + sum_list ?sz" "?b + sum_list ?sz < two64"
      using data a q nb by (cases "uq_finSent q"; auto)+
    have ne: "?u \<noteq> []" "2 \<le> a" using le a q by auto
    obtain sizes' where er: "eraseLoop a ?sz 0 ?b 0 = (sizes', a, a - ?b)"
      "sum_list sizes' = sum_list ?sz - (a - ?b)" "\<forall>x \<in> set sizes'. x \<le> MAX_PAYLOAD_SIZE"
      using eraseLoop_ack [OF _ a(1) le(2) le(1) q(5)] ok data by blast
    let ?q' = "q\<lparr>uq_unAckedPayloadSize := sizes', uq_baseSqn := a, uq_unAcked := drop (a - ?b) ?u\<rparr>"
    have "updateBase q a = Inr ?q'"
      using data a ne er le q
      by (auto simp: updateBase_def UnAckQueue_erase_def UnAckQueue_empty_def ackSqnForFin_def Let_def)
    moreover have "slice_at W (a - 1) (drop (a - ?b) ?u)"
    proof -
      have "slice_at W (?b - 1 + (a - ?b)) (drop (a - ?b) ?u)"
      proof (rule slice_at_drop)
        show "slice_at W (?b - 1) ?u" using inv ne(1) by (simp add: queue_inv_open [OF data(1) q(1)])
        show "a - ?b \<le> length ?u" using le(1) q(4) by linarith
      qed
      then show ?thesis using a(1) q(3) by simp
    qed
    then have "queue_inv W e n ?q'"
    proof -
      have "a + length (drop (a - ?b) ?u) = 1 + n" using q(2,4) le(1) a(1) by auto
      moreover have "sum_list sizes' = length (drop (a - ?b) ?u)" using er(2) q(4) by simp
      moreover have "uq_next_seqno q \<le> a + uq_win_size q"
        using inv a(1) by (auto simp: queue_inv_def)
      ultimately show ?thesis
        using inv data(1) q(1) er(3) ne(2) \<open>slice_at W (a - 1) (drop (a - ?b) ?u)\<close>
        by (simp add: queue_inv_open)
    qed
    moreover have "drop (a - ?b) ?u = [] \<longleftrightarrow> a = 1 + n" using q le a by auto
    ultimately show ?thesis
      using q data a by (intro exI [of _ ?q']) (auto simp: UnAckQueue_empty_def)
  qed
qed

section \<open>Retransmission\<close>

lemma frontSeg_valid:
  assumes inv: "queue_inv W e n q" and "uq_unAcked q \<noteq> []" "length W < 2 ^ 62"
  shows "\<exists>seg. frontSeg q isn = Inr seg \<and> seg_valid isn W e seg \<and>
    th_seqno (seg_header seg) = wrap (uq_baseSqn q) isn"
proof -
  let ?u = "uq_unAcked q" and ?b = "uq_baseSqn q"
  obtain sz rest where sizes: "uq_unAckedPayloadSize q = sz # rest"
    using inv assms(2) by (cases "uq_unAckedPayloadSize q") (auto simp: queue_inv_def)
  have acked: "uq_synAcked q" "\<not> uq_finAcked q"
    using inv assms(2) by (auto simp: queue_inv_def split: if_splits)
  have q: "?b + length ?u = 1 + n" "1 \<le> ?b" "sz \<le> length ?u" "sz \<le> MAX_PAYLOAD_SIZE"
    "slice_at W (?b - 1) ?u" "uq_finSent q \<longrightarrow> e \<and> n = length W"
    "uq_next_seqno q = 1 + n + of_bool (uq_finSent q)"
    using inv assms(2) sizes unfolding queue_inv_open [OF acked] by auto
  define fin where "fin \<longleftrightarrow> uq_finSent q \<and> sub64 (uq_next_seqno q) 1 = add64 ?b sz"
  let ?seg = "\<lparr>seg_header = TCPHeader_new\<lparr>th_seqno := wrap ?b isn, th_fin := fin\<rparr>,
    seg_payload = Buffer_new (take sz ?u)\<rparr>"
  have "frontSeg q isn = Inr ?seg"
    using sizes q(3) by (simp add: frontSeg_def ackSqnForFin_def fin_def Let_def TCPHeader_new_def)
  moreover have "e \<and> ?b - 1 + sz = length W" if fin
  proof -
    have nb: "uq_next_seqno q < two64" using queue_next_bound [OF inv assms(3)] by (intro two64_gt) simp
    have "add64 ?b sz = ?b + sz" using q(1,3,7) nb by (intro add64_small) simp
    moreover have "sub64 (uq_next_seqno q) 1 = uq_next_seqno q - 1" using q(7) nb by (simp add: sub64_small)
    ultimately have "uq_next_seqno q - 1 = ?b + sz" "uq_finSent q" using that by (auto simp: fin_def)
    then show ?thesis using q(2,6,7) by simp
  qed
  moreover have "wrap ?b isn = wrap (?b - 1 + 1) isn" using q(2) by simp
  moreover have "length (take sz ?u) = sz" using q(3) by simp
  ultimately have "seg_valid isn W e ?seg"
    using q(4) slice_at_take [OF q(5), of sz]
    unfolding seg_valid_def Let_def
    by (simp add: TCPHeader_new_def) (intro disjI2 exI [of _ "?b - 1"], simp)
  with \<open>frontSeg q isn = Inr ?seg\<close> show ?thesis by auto
qed

lemma makeSynSeg_again:
  assumes "sender_inv W s" "uq_synSent (sn_unAckQueue s)" "\<not> uq_synAcked (sn_unAckQueue s)"
  shows "makeSynSeg s = (TCPSegment_new\<lparr>seg_header := TCPHeader_new\<lparr>th_seqno := sn_isn s, th_syn := True\<rparr>\<rparr>, s)"
proof -
  have "remainSpace s \<le> 1"
    using remainSpace_eq [OF assms(1)] assms by (auto simp: sender_inv_def queue_inv_def)
  then show ?thesis
    using assms(2) by (simp add: makeSynSeg_def Let_def wrap_def WrappingInt32_plus_def)
qed

text \<open>The segment a timeout puts on the wire.\<close>

definition retransmitSeg :: "TCPSender \<Rightarrow> (TCPSegment \<times> TCPSender) result" where
  "retransmitSeg s =
     (let q = sn_unAckQueue s
      in if uq_finSent q \<and> \<not> uq_finAcked q then
           (if UnAckQueue_empty q then Inr (makeNotFirstFinSeg s, s)
            else bind_result (frontSeg q (sn_isn s)) (\<lambda>seg. Inr (seg, s)))
         else if uq_synSent q \<and> \<not> uq_synAcked q then Inr (makeSynSeg s)
         else if \<not> UnAckQueue_empty q then
           bind_result (frontSeg q (sn_isn s)) (\<lambda>seg. Inr (seg, s))
         else Inr (TCPSegment_new, s))"

lemma retransmitSeg_valid:
  assumes inv: "sender_inv W s"
    and run: "uq_baseSqn (sn_unAckQueue s) < uq_next_seqno (sn_unAckQueue s)"
  shows "\<exists>seg. retransmitSeg s = Inr (seg, s) \<and>
    seg_valid (sn_isn s) W (bs_isInputEnd (sn_stream s)) seg \<and>
    th_seqno (seg_header seg) = wrap (uq_baseSqn (sn_unAckQueue s)) (sn_isn s)"
proof -
  let ?q = "sn_unAckQueue s" and ?n = "bs_num_bytes_read (sn_stream s)"
  have qi: "queue_inv W (bs_isInputEnd (sn_stream s)) ?n ?q" and len: "length W < 2 ^ 62"
    using inv by (auto simp: sender_inv_def stream_inv_def)
  have front: "\<exists>seg. frontSeg ?q (sn_isn s) = Inr seg \<and>
      seg_valid (sn_isn s) W (bs_isInputEnd (sn_stream s)) seg \<and>
      th_seqno (seg_header seg) = wrap (uq_baseSqn ?q) (sn_isn s)" if "uq_unAcked ?q \<noteq> []"
    using frontSeg_valid [OF qi that len] by blast
  note nfa = queue_outstanding(1) [OF qi run]
  consider (front) "uq_unAcked ?q \<noteq> []" | (fin) "uq_unAcked ?q = []" "uq_finSent ?q"
    | (syn) "uq_unAcked ?q = []" "\<not> uq_finSent ?q" "uq_synSent ?q" "\<not> uq_synAcked ?q"
    using queue_outstanding(2) [OF qi run] by blast
  then show ?thesis
  proof cases
    case front
    then have "uq_synAcked ?q" using qi by (auto simp: queue_inv_def split: if_splits)
    then show ?thesis
      using \<open>uq_unAcked ?q \<noteq> [] \<Longrightarrow> _\<close> [OF front] nfa front
      by (auto simp: retransmitSeg_def UnAckQueue_empty_def Let_def)
  next
    case fin
    have nx: "uq_next_seqno ?q = 2 + ?n" "?n = length W" "bs_isInputEnd (sn_stream s)" "uq_baseSqn ?q = ?n + 1"
      using qi fin nfa by (auto simp: queue_inv_def split: if_splits)
    have "uq_next_seqno ?q < two64" using queue_next_bound [OF qi len] by (intro two64_gt) simp
    then have pred: "sub64 (uq_next_seqno ?q) 1 = ?n + 1" using nx by (simp add: sub64_small)
    then have seqno: "th_seqno (seg_header (makeNotFirstFinSeg s)) = wrap (uq_baseSqn ?q) (sn_isn s)"
      using nx by (simp add: makeNotFirstFinSeg_def ackSqnForFin_def TCPSegment_new_def Let_def)
    from pred have "seg_valid (sn_isn s) W (bs_isInputEnd (sn_stream s)) (makeNotFirstFinSeg s)"
      using nx by (auto simp: makeNotFirstFinSeg_def ackSqnForFin_def seg_valid_def TCPSegment_new_def
          TCPHeader_new_def slice_at_def Let_def intro!: exI [of _ ?n])
    then show ?thesis using fin nfa seqno by (simp add: retransmitSeg_def UnAckQueue_empty_def)
  next
    case syn
    then have "uq_baseSqn ?q = 0" using qi by (simp add: queue_inv_def)
    then show ?thesis
      using syn makeSynSeg_again [OF inv] by (simp add: retransmitSeg_def UnAckQueue_empty_def
          seg_valid_def TCPSegment_new_def TCPHeader_new_def wrap_def WrappingInt32_plus_def)
  qed
qed

text \<open>What a timeout does to the timer.\<close>

definition retransmitTimer :: "Timer \<Rightarrow> Timer" where
  "retransmitTimer t =
     (let t = (if tm_doubleTimeout t then t\<lparr>tm_timeout := tm_timeout t * 2\<rparr> else t)
      in t\<lparr>tm_msSinceBaseSegSent := 0,
           tm_consecutive_retransmissions := tm_consecutive_retransmissions t + 1\<rparr>)"

lemma timeoutRetransmit_eq:
  assumes "sender_inv W s"
    and run: "uq_baseSqn (sn_unAckQueue s) < uq_next_seqno (sn_unAckQueue s)"
  shows "timeoutRetransmit s = bind_result (retransmitSeg s) (\<lambda>(seg, s).
    Inr (s\<lparr>sn_segments_out := sn_segments_out s @ [seg], sn_timer := retransmitTimer (sn_timer s)\<rparr>))"
proof -
  have "\<not> uq_finAcked (sn_unAckQueue s)"
    using assms(1) queue_outstanding(1) [OF _ run] by (auto simp: sender_inv_def)
  then show ?thesis
    by (simp add: timeoutRetransmit_def retransmitSeg_def retransmitTimer_def Let_def)
qed

lemma timeoutRetransmit_inv:
  assumes inv: "sender_inv W s"
    and run: "uq_baseSqn (sn_unAckQueue s) < uq_next_seqno (sn_unAckQueue s)"
  shows "\<exists>t. timeoutRetransmit s = Inr t \<and> sender_inv W t"
proof -
  obtain seg where seg: "retransmitSeg s = Inr (seg, s)"
    "seg_valid (sn_isn s) W (bs_isInputEnd (sn_stream s)) seg"
    using retransmitSeg_valid [OF assms] by blast
  then show ?thesis
    using inv by (auto simp: timeoutRetransmit_eq [OF assms] sender_inv_def retransmitTimer_def Let_def)
qed

lemma tick_inv:
  assumes "sender_inv W s"
  shows "\<exists>t. TCPSender_tick s ms = Inr t \<and> sender_inv W t"
proof (cases "tm_isTimerRunning (sn_timer s)")
  case True
  let ?s = "s\<lparr>sn_timer := (sn_timer s)\<lparr>tm_msSinceBaseSegSent :=
      add64 (tm_msSinceBaseSegSent (sn_timer s)) ms\<rparr>\<rparr>"
  have inv: "sender_inv W ?s" using assms by (simp add: sender_inv_def)
  have "uq_baseSqn (sn_unAckQueue ?s) < uq_next_seqno (sn_unAckQueue ?s)"
    using assms True by (simp add: sender_inv_def)
  from timeoutRetransmit_inv [OF inv this] show ?thesis
    using inv True by (simp add: TCPSender_tick_def Let_def)
next
  case False
  then show ?thesis using assms by (simp add: TCPSender_tick_def)
qed

end
