(* ===== verification/Sender_Runs.thy ===== *)
theory Sender_Runs
  imports Sender_Correct
begin

text \<open>
  \<open>TCPSender\<close> over whole executions. The state of an execution pairs the sender with the bytes \<open>W\<close>
  its stream has accepted so far. The interpretation of \<open>guarded_system\<close> gives the safety
  property; the last section shows what the code does when the peer breaks the contract.
\<close>

datatype send_op =
    SWrite bytes
  | SEnd
  | SFill
  | SAck WrappingInt32 uint16 nat
  | STick nat
  | SEmpty

definition with_sender :: "bytes \<Rightarrow> TCPSender result \<Rightarrow> (bytes \<times> TCPSender) result" where
  "with_sender W r = bind_result r (\<lambda>s. Inr (W, s))"

text \<open>The number in \<open>SAck\<close> is the absolute acknowledgment number; the code does not see it.\<close>

fun send_step :: "bytes \<times> TCPSender \<Rightarrow> send_op \<Rightarrow> (bytes \<times> TCPSender) result" where
  "send_step (W, s) (SWrite d) =
     (let (n, st) = ByteStream_write (sn_stream s) d in Inr (W @ take n d, s\<lparr>sn_stream := st\<rparr>))"
| "send_step (W, s) SEnd = Inr (W, s\<lparr>sn_stream := ByteStream_end_input (sn_stream s)\<rparr>)"
| "send_step (W, s) SFill = Inr (W, fill_window s)"
| "send_step (W, s) (SAck ackno win a) = with_sender W (ack_received s ackno win)"
| "send_step (W, s) (STick ms) = with_sender W (TCPSender_tick s ms)"
| "send_step (W, s) SEmpty = Inr (W, send_empty_segment s)"

text \<open>
  The peer's side: an acknowledgment is for something sent (the SYN at least), falls where one
  may fall, is not older than \<open>2 ^ 31\<close>, and its window covers what is in flight.
\<close>

fun send_ok :: "bytes \<times> TCPSender \<Rightarrow> send_op \<Rightarrow> bool" where
  "send_ok (W, s) (SWrite d) \<longleftrightarrow> length W + length d < 2 ^ 62"
| "send_ok (W, s) (SAck ackno win a) \<longleftrightarrow>
     (let q = sn_unAckQueue s
      in ackno = wrap a (sn_isn s) \<and> 1 \<le> a \<and> a \<le> uq_next_seqno q \<and> uq_baseSqn q < a + 2 ^ 31 \<and>
         (a \<le> uq_baseSqn q \<or> \<not> uq_synAcked q \<or> uq_finSent q \<and> a = uq_next_seqno q \<or>
            ack_boundary (uq_unAckedPayloadSize q) (a - uq_baseSqn q)) \<and>
         uq_next_seqno q \<le> max a (uq_baseSqn q) + max 1 (unat win))"
| "send_ok (W, s) _ \<longleftrightarrow> True"

definition send_inv :: "unit \<Rightarrow> bytes \<times> TCPSender \<Rightarrow> bool" where
  "send_inv u ws \<longleftrightarrow> sender_inv (fst ws) (snd ws)"

section \<open>Each operation keeps the invariant\<close>

lemma queue_inv_extend:
  assumes "queue_inv W e n q" "e \<Longrightarrow> e' \<and> w = []"
  shows "queue_inv (W @ w) e' n q"
  using assms slice_at_append [of W "uq_baseSqn q - 1" "uq_unAcked q" w]
  by (auto simp: queue_inv_def)

lemma write_law:
  assumes inv: "sender_inv W s" and "length W + length d < 2 ^ 62"
  shows "\<exists>t. send_step (W, s) (SWrite d) = Inr t \<and> send_inv () t"
proof -
  let ?st = "sn_stream s"
  define n where "n = min (write_room ?st) (length d)"
  have st: "stream_inv W ?st" and bs: "ByteStream_inv ?st"
    using inv by (auto simp: sender_inv_def stream_inv_def)
  note w = ByteStream_write_inv_eq [OF bs, of d, folded n_def, unfolded Let_def]
  have len: "length (take n d) = n" by (simp add: n_def)
  have end': "bs_isInputEnd ?st \<Longrightarrow> take n d = []" by (simp add: n_def write_room_def)
  have "stream_inv (W @ take n d) (snd (ByteStream_write ?st d))"
    using st ByteStream_write_inv [OF bs, of d] assms(2) len
    by (auto simp: stream_inv_def w n_def)
  then show ?thesis
    using inv queue_inv_extend [of W "bs_isInputEnd ?st" _ _ "bs_isInputEnd ?st" "take n d"] end'
      seg_valid_mono [of "sn_isn s" W "bs_isInputEnd ?st" _ "bs_isInputEnd ?st" "take n d"]
    by (auto simp: send_inv_def sender_inv_def w)
qed

lemma end_law:
  assumes "sender_inv W s"
  shows "sender_inv W (s\<lparr>sn_stream := ByteStream_end_input (sn_stream s)\<rparr>)"
proof -
  let ?st = "sn_stream s"
  have "stream_inv W (ByteStream_end_input ?st)"
    using assms by (auto simp: sender_inv_def stream_inv_def ByteStream_inv_def ByteStream_end_input_def)
  moreover have "queue_inv W True n q" if "queue_inv W (bs_isInputEnd ?st) n q" for n q
    using queue_inv_extend [OF that, of True "[]"] by simp
  moreover have "seg_valid i W True seg" if "seg_valid i W (bs_isInputEnd ?st) seg" for i seg
    using seg_valid_mono [OF that, of True "[]"] by simp
  ultimately show ?thesis using assms by (simp add: sender_inv_def ByteStream_end_input_def)
qed

lemma updateBase_win:
  "updateBase (q\<lparr>uq_win_size := w\<rparr>) a =
     bind_result (updateBase q a) (\<lambda>q'. Inr (q'\<lparr>uq_win_size := w\<rparr>))"
  by (simp add: updateBase_def UnAckQueue_erase_def UnAckQueue_empty_def ackSqnForFin_def
      split_beta Let_def)

lemma queue_inv_win:
  assumes "queue_inv W e n q" "uq_synAcked q" "1 \<le> w" "w < 2 ^ 16"
    "uq_next_seqno q \<le> uq_baseSqn q + w"
  shows "queue_inv W e n (q\<lparr>uq_win_size := w\<rparr>)"
  using assms by (simp add: queue_inv_def)

lemma ack_law:
  assumes inv: "sender_inv W s" and ok: "send_ok (W, s) (SAck ackno win a)"
  shows "\<exists>t. ack_received s ackno win = Inr t \<and> sender_inv W t"
proof -
  let ?q = "sn_unAckQueue s" and ?n = "bs_num_bytes_read (sn_stream s)" and ?e = "bs_isInputEnd (sn_stream s)"
  define w where "w = max 1 (unat win)"
  define t0 where "t0 = setWindowSize s win"
  have qi: "queue_inv W ?e ?n ?q" and len: "length W < 2 ^ 62"
    using inv by (auto simp: sender_inv_def stream_inv_def)
  have a: "ackno = wrap a (sn_isn s)" "1 \<le> a" "a \<le> uq_next_seqno ?q" "uq_baseSqn ?q < a + 2 ^ 31"
    "a \<le> uq_baseSqn ?q \<or> \<not> uq_synAcked ?q \<or> uq_finSent ?q \<and> a = uq_next_seqno ?q \<or>
       ack_boundary (uq_unAckedPayloadSize ?q) (a - uq_baseSqn ?q)"
    "uq_next_seqno ?q \<le> max a (uq_baseSqn ?q) + w"
    using ok by (auto simp: Let_def w_def)
  have w: "1 \<le> w" "w < 2 ^ 16" using unsigned_less [of win] by (auto simp: w_def)
  have weq: "(if win > 0 then unat win else 1) = w"
    by (cases "win = 0") (auto simp: w_def word_gt_0 unat_gt_0 Suc_le_eq max_def)
  have t0: "sn_unAckQueue t0 = ?q\<lparr>uq_win_size := w\<rparr>" "sn_isn t0 = sn_isn s" "sn_stream t0 = sn_stream s"
    "sn_segments_out t0 = sn_segments_out s" "tm_isTimerRunning (sn_timer t0) = tm_isTimerRunning (sn_timer s)"
    unfolding t0_def setWindowSize_def weq by simp_all
  have base: "uq_baseSqn ?q < 2 ^ 63 - 2 ^ 31"
    using queue_base_le_next [OF qi] queue_next_bound [OF qi len] by simp
  moreover have "\<bar>int a - int (uq_baseSqn ?q)\<bar> < 2 ^ 31"
    using a(3,4) qi by (auto simp: queue_inv_def)
  ultimately have abs: "unwrap ackno (sn_isn s) (uq_baseSqn ?q) = a"
    using unwrap_wrap_near a(1) by simp
  show ?thesis
  proof (cases "a \<le> uq_baseSqn ?q")
    case True
    have "uq_synAcked ?q" using True a(2) qi by (auto simp: queue_inv_def split: if_splits)
    then have "queue_inv W ?e ?n (?q\<lparr>uq_win_size := w\<rparr>)"
      by (rule queue_inv_win [OF qi _ w]) (use True a(6) in auto)
    then have "sender_inv W t0" using inv t0 by (simp add: sender_inv_def)
    moreover have "ack_received s ackno win = Inr t0"
      using True a(2,3) abs t0 by (auto simp: ack_received_def Let_def ackSqnForFin_def simp flip: t0_def)
    ultimately show ?thesis by blast
  next
    case False
    then have lt: "uq_baseSqn ?q < a" by simp
    from updateBase_inv [OF qi len lt a(3)] a(5) False obtain q' where
      q': "updateBase ?q a = Inr q'" "queue_inv W ?e ?n q'" "uq_baseSqn q' = a"
        "uq_next_seqno q' = uq_next_seqno ?q" "uq_synAcked q'"
        "(\<not> UnAckQueue_empty q' \<or> uq_finSent q' \<and> \<not> uq_finAcked q') \<longleftrightarrow> a < uq_next_seqno ?q" by auto
    let ?r = "q'\<lparr>uq_win_size := w\<rparr>"
    let ?t = "t0\<lparr>sn_unAckQueue := ?r,
      sn_timer := (if \<not> UnAckQueue_empty ?r \<or> uq_finSent ?r \<and> \<not> uq_finAcked ?r
        then startTimer (sn_timer t0) else stopTimer (sn_timer t0))\<rparr>"
    have "ack_received s ackno win = Inr ?t"
      using False a(2,3) abs t0(1,2) q'(1) updateBase_win [where q = ?q and w = w and a = a]
      by (simp add: ack_received_def Let_def ackSqnForFin_def flip: t0_def)
    moreover have "queue_inv W ?e ?n ?r"
      by (rule queue_inv_win [OF q'(2,5) w]) (use q'(3,4) a(6) False in auto)
    then have "sender_inv W ?t"
      using inv t0 q' by (auto simp: sender_inv_def startTimer_def stopTimer_def UnAckQueue_empty_def)
    ultimately show ?thesis by blast
  qed
qed

interpretation sn: guarded_system send_step send_inv "\<lambda>u e. u" send_ok
proof
  fix g :: unit and ws e
  assume inv: "send_inv g ws" and ok: "send_ok ws e"
  obtain W s where ws: "ws = (W, s)" by (cases ws)
  have si: "sender_inv W s" using inv by (simp add: ws send_inv_def)
  show "\<exists>t. send_step ws e = Inr t \<and> send_inv g t"
  proof (cases e)
    case (SWrite d)
    then show ?thesis using write_law [OF si, of d] ok by (simp add: ws)
  next
    case SEnd
    then show ?thesis using end_law [OF si] by (simp add: ws send_inv_def)
  next
    case SFill
    then show ?thesis using fill_window_inv [OF si] by (simp add: ws send_inv_def)
  next
    case (SAck ackno win a)
    then show ?thesis
      using ack_law [OF si, of ackno win a] ok by (auto simp: ws send_inv_def with_sender_def)
  next
    case (STick ms)
    then show ?thesis using tick_inv [OF si, of ms] by (auto simp: ws send_inv_def with_sender_def)
  next
    case SEmpty
    then show ?thesis
      using si seg_valid_bare by (auto simp: ws send_inv_def sender_inv_def send_empty_segment_def Let_def)
  qed
qed

section \<open>Properties\<close>

text \<open>
  Claim C11. Safety of the sender: write, close, fill the window, let time pass and acknowledge in
  any order, under the peer's side of the contract. No call faults; the sequence space in flight
  never exceeds the window; every segment ever queued is valid for the accepted bytes \<open>W\<close> (the
  right bytes at the right sequence number, at most \<open>MAX_PAYLOAD_SIZE\<close> of them, FIN only at the
  end); and the retransmission timer runs exactly while something is in flight.
\<close>

theorem sender_safe:
  assumes "capacity < two64"
    and "allowed send_step send_ok ([], TCPSender_new capacity rto fixed rand) ops"
  shows "\<exists>W s. run send_step ([], TCPSender_new capacity rto fixed rand) ops = Inr (W, s) \<and>
    TCPSender_bytes_in_flight s \<le> uq_win_size (sn_unAckQueue s) \<and>
    (\<forall>seg \<in> set (sn_segments_out s).
       seg_valid (sn_isn s) W (ByteStream_input_ended (sn_stream s)) seg) \<and>
    (tm_isTimerRunning (sn_timer s) \<longleftrightarrow> 0 < TCPSender_bytes_in_flight s)"
proof -
  have "send_inv () ([], TCPSender_new capacity rto fixed rand)"
    using sender_inv_new [OF assms(1)] by (simp add: send_inv_def)
  from sn.run_law [OF this assms(2)] obtain W s where
    run: "run send_step ([], TCPSender_new capacity rto fixed rand) ops = Inr (W, s)"
    and inv: "sender_inv W s" by (auto simp: send_inv_def)
  let ?q = "sn_unAckQueue s"
  have qi: "queue_inv W (bs_isInputEnd (sn_stream s)) (bs_num_bytes_read (sn_stream s)) ?q"
    and len: "length W < 2 ^ 62" using inv by (auto simp: sender_inv_def stream_inv_def)
  have fl: "TCPSender_bytes_in_flight s = uq_next_seqno ?q - uq_baseSqn ?q"
    using bytesInFlight_eq [OF qi len] by (simp add: TCPSender_bytes_in_flight_def)
  then have "TCPSender_bytes_in_flight s \<le> uq_win_size ?q"
    using qi by (auto simp: queue_inv_def)
  then show ?thesis using run inv fl by (auto simp: sender_inv_def)
qed

lemmas sender_eval =
  TCPSender_new_def ByteStream_new_def UnAckQueue_new_def Timer_new_def fill_window_def
  fillLoop.simps fillStep_def makeSynSeg_def makeFirstFinSeg_def makePayLoadSeg_def
  makeNotFirstFinSeg_def hasContentToPush_def remainSpace_def bytesInFlight_def firstPush_def
  startTimer_def stopTimer_def setWindowSize_def ack_received_def updateBase_def UnAckQueue_erase_def
  UnAckQueue_empty_def UnAckQueue_push_def ackSqnForFin_def eraseLoop.simps TCPSender_tick_def
  timeoutRetransmit_def frontSeg_def with_sender_def ByteStream_write_def ByteStream_read_def
  ByteStream_peek_output_def ByteStream_pop_output_def ByteStream_end_input_def ByteStream_eof_def
  MAX_PAYLOAD_SIZE_def TCPHeader_new_def TCPSegment_new_def add64_def sub64_def two64_def Let_def

lemma seqno_demo:
  "wrap (Suc 0) 5 = 6" "wrap 3 5 = 8" "wrap 4 5 = 9"
  "unwrap 6 5 0 = 1" "unwrap 8 5 (Suc 0) = 3" "unwrap 9 5 (Suc 0) = 4"
proof -
  show w: "wrap (Suc 0) 5 = 6" "wrap 3 5 = 8" "wrap 4 5 = 9"
    by (simp_all add: wrap_def WrappingInt32_plus_def)
  show "unwrap 6 5 0 = 1" "unwrap 8 5 (Suc 0) = 3" "unwrap 9 5 (Suc 0) = 4"
    using unwrap_wrap_near [of 0 1 5] unwrap_wrap_near [of 1 3 5] unwrap_wrap_near [of 1 4 5] w
    by simp_all
qed

theorem sender_safe_witness:
  "\<exists>W s. run send_step ([], TCPSender_new 100 1000 (Some 5) 0)
      [SFill, SAck 6 10 1, SWrite [1, 2], SFill, SWrite [3], SFill, SAck 8 10 3, STick 1000] = Inr (W, s) \<and>
    (\<forall>seg \<in> set (sn_segments_out s).
       seg_valid (sn_isn s) W (ByteStream_input_ended (sn_stream s)) seg)"
proof -
  let ?ops = "[SFill, SAck 6 10 1, SWrite [1, 2], SFill, SWrite [3], SFill, SAck 8 10 3, STick 1000]"
  have cap: "100 < two64" by (simp add: two64_def)
  have ok: "allowed send_step send_ok ([], TCPSender_new 100 1000 (Some 5) 0) ?ops"
    by (simp add: sender_eval seqno_demo ack_boundary_def)
  show ?thesis using sender_safe [OF cap ok] by blast
qed

lemma fill_window_stops:
  assumes "uq_synSent (sn_unAckQueue s)" "uq_synAcked (sn_unAckQueue s)"
    and "\<not> uq_finSent (sn_unAckQueue s)" "\<not> uq_finAcked (sn_unAckQueue s)"
  shows "remainSpace (fill_window s) = 0 \<or>
    ByteStream_buffer_size (sn_stream (fill_window s)) = 0 \<and>
    (ByteStream_input_ended (sn_stream (fill_window s)) \<longrightarrow> uq_finSent (sn_unAckQueue (fill_window s)))"
proof -
  have stop: "remainSpace (fillLoop t) = 0 \<or> \<not> hasContentToPush (fillLoop t)" for t
  proof (induction t rule: fillLoop.induct)
    case (1 t)
    then show ?case
      by (cases "0 < remainSpace t \<and> hasContentToPush t") (auto simp: fillLoop.simps [of t])
  qed
  have "\<exists>t. fill_window s = fillLoop t"
    using assms by (cases "ByteStream_eof (sn_stream s) \<and> 1 < remainSpace s")
      (auto simp: fill_window_def makeFirstFinSeg_def firstPush_def Let_def)
  then obtain t where t: "fill_window s = fillLoop t" ..
  show ?thesis using stop [of t] unfolding t by (auto simp: hasContentToPush_def ByteStream_eof_def)
qed

text \<open>
  Claim C16. \<open>fill_window\<close> is maximal and always returns: on an open connection whose SYN is
  acknowledged it stops only when the window is used up, or when the stream is drained and, if it
  has ended, the FIN is out. This holds in every state, with no invariant assumed.
\<close>

theorem fill_window_maximal:
  assumes "uq_synSent (sn_unAckQueue s)" "uq_synAcked (sn_unAckQueue s)"
    and "\<not> uq_finSent (sn_unAckQueue s)" "\<not> uq_finAcked (sn_unAckQueue s)"
  shows "remainSpace (fill_window s) = 0 \<or>
    ByteStream_buffer_size (sn_stream (fill_window s)) = 0 \<and>
    (ByteStream_input_ended (sn_stream (fill_window s)) \<longrightarrow> uq_finSent (sn_unAckQueue (fill_window s)))"
  by (rule fill_window_stops [OF assms])

theorem fill_window_maximal_witness:
  "\<exists>s. uq_synAcked (sn_unAckQueue s) \<and> ByteStream_buffer_size (sn_stream s) = 3 \<and>
     (remainSpace (fill_window s) = 0 \<or> ByteStream_buffer_size (sn_stream (fill_window s)) = 0)"
proof -
  let ?q = "UnAckQueue_new\<lparr>uq_synSent := True, uq_synAcked := True, uq_baseSqn := 1, uq_next_seqno := 1,
    uq_win_size := 2\<rparr>"
  let ?st = "(ByteStream_new 9)\<lparr>bs_buf := [1, 2, 3], bs_size := 3, bs_num_bytes_written := 3\<rparr>"
  let ?s = "(TCPSender_new 9 1000 None 0)\<lparr>sn_stream := ?st, sn_unAckQueue := ?q\<rparr>"
  have "remainSpace (fill_window ?s) = 0 \<or> ByteStream_buffer_size (sn_stream (fill_window ?s)) = 0 \<and>
      (ByteStream_input_ended (sn_stream (fill_window ?s)) \<longrightarrow> uq_finSent (sn_unAckQueue (fill_window ?s)))"
    by (rule fill_window_maximal) (simp_all add: UnAckQueue_new_def)
  then show ?thesis by (intro exI [of _ ?s]) auto
qed

text \<open>
  What is on the wire again: the SYN while it is unacknowledged, else the first recorded piece of
  the outstanding bytes, with the FIN if it comes right behind it.
\<close>

lemma frontSeg_content:
  assumes inv: "queue_inv W e n q" and "uq_unAcked q \<noteq> []" "length W < 2 ^ 62" and seg: "frontSeg q isn = Inr seg"
  shows "\<not> th_syn (seg_header seg) \<and>
    Buffer_str (seg_payload seg) = take (hd (uq_unAckedPayloadSize q)) (drop (uq_baseSqn q - 1) W) \<and>
    (th_fin (seg_header seg) \<longleftrightarrow>
       uq_finSent q \<and> uq_baseSqn q + length (Buffer_str (seg_payload seg)) + 1 = uq_next_seqno q)"
proof -
  let ?u = "uq_unAcked q" and ?b = "uq_baseSqn q"
  obtain sz rest where sizes: "uq_unAckedPayloadSize q = sz # rest"
    using inv assms(2) by (cases "uq_unAckedPayloadSize q") (auto simp: queue_inv_def)
  have acked: "uq_synAcked q" "\<not> uq_finAcked q"
    using inv assms(2) by (auto simp: queue_inv_def split: if_splits)
  have q: "?b + length ?u = 1 + n" "1 \<le> ?b" "sz \<le> length ?u" "slice_at W (?b - 1) ?u"
    "uq_next_seqno q = 1 + n + of_bool (uq_finSent q)"
    using inv assms(2) sizes unfolding queue_inv_open [OF acked] by auto
  have nb: "uq_next_seqno q < two64" using queue_next_bound [OF inv assms(3)] by (intro two64_gt) simp
  have "add64 ?b sz = ?b + sz" using q(1,3,5) nb by (intro add64_small) simp
  moreover have "sub64 (uq_next_seqno q) 1 = uq_next_seqno q - 1" using q(5) nb by (simp add: sub64_small)
  ultimately have fin: "sub64 (ackSqnForFin q) 1 = add64 ?b sz \<longleftrightarrow> ?b + sz + 1 = uq_next_seqno q"
    using q(5) by (auto simp: ackSqnForFin_def)
  have u: "?u = take (length ?u) (drop (?b - 1) W)" using q(4) by (simp add: slice_at_def)
  have "take sz ?u = take sz (drop (?b - 1) W)" using q(3) by (subst u) (simp add: min_absorb1)
  moreover have "Buffer_str (seg_payload seg) = take sz ?u" "\<not> th_syn (seg_header seg)"
    "th_fin (seg_header seg) \<longleftrightarrow> uq_finSent q \<and> sub64 (ackSqnForFin q) 1 = add64 ?b sz"
    using seg q(3) sizes by (auto simp: frontSeg_def TCPHeader_new_def Let_def split: if_splits)
  moreover have "length (take sz ?u) = sz" using q(3) by simp
  ultimately show ?thesis using fin sizes by simp
qed

lemma retransmitSeg_content:
  assumes inv: "sender_inv W s" and lt: "uq_baseSqn (sn_unAckQueue s) < uq_next_seqno (sn_unAckQueue s)"
    and seg: "retransmitSeg s = Inr (seg, s')"
  defines "q \<equiv> sn_unAckQueue s" and "payload \<equiv> Buffer_str (seg_payload seg)"
  shows "(th_syn (seg_header seg) \<longleftrightarrow> \<not> uq_synAcked q) \<and>
    payload = (case uq_unAckedPayloadSize q of [] \<Rightarrow> [] | n # _ \<Rightarrow> take n (drop (uq_baseSqn q - 1) W)) \<and>
    (th_fin (seg_header seg) \<longleftrightarrow> uq_finSent q \<and> uq_baseSqn q + length payload + 1 = uq_next_seqno q)"
proof -
  let ?n = "bs_num_bytes_read (sn_stream s)"
  have qi: "queue_inv W (bs_isInputEnd (sn_stream s)) ?n q" and len: "length W < 2 ^ 62"
    using inv by (auto simp: sender_inv_def stream_inv_def q_def)
  have nfa: "\<not> uq_finAcked q" using queue_outstanding(1) [OF qi] lt by (simp add: q_def)
  have none: "(case uq_unAckedPayloadSize q of [] \<Rightarrow> [] | n # _ \<Rightarrow> take n (drop (uq_baseSqn q - 1) W)) = []" if "uq_unAcked q = []"
    using qi that by (auto simp: queue_inv_def split: list.split)
  consider (front) "uq_unAcked q \<noteq> []" | (fin) "uq_unAcked q = []" "uq_finSent q"
    | (syn) "uq_unAcked q = []" "\<not> uq_finSent q" "uq_synSent q" "\<not> uq_synAcked q"
    using queue_outstanding(2) [OF qi] lt by (auto simp: q_def)
  then show ?thesis
  proof cases
    case front
    then have ack: "uq_synAcked q" and sizes: "uq_unAckedPayloadSize q \<noteq> []"
      using qi by (auto simp: queue_inv_def split: if_splits)
    have "frontSeg q (sn_isn s) = Inr seg"
      using seg front nfa ack by (auto simp: retransmitSeg_def UnAckQueue_empty_def Let_def bind_result_eq_Inr q_def split: if_splits)
    from frontSeg_content [OF qi front len this] ack sizes show ?thesis
      by (auto simp: payload_def split: list.split)
  next
    case fin
    then have ack: "uq_synAcked q" "uq_baseSqn q + 1 = uq_next_seqno q"
      using qi nfa by (auto simp: queue_inv_def split: if_splits)
    have "seg = makeNotFirstFinSeg s" using seg fin nfa by (auto simp: retransmitSeg_def UnAckQueue_empty_def Let_def q_def)
    then show ?thesis
      using none fin ack by (simp add: payload_def makeNotFirstFinSeg_def TCPSegment_new_def TCPHeader_new_def Buffer_default_def Buffer_str_def Let_def)
  next
    case syn
    then have "seg = TCPSegment_new\<lparr>seg_header := TCPHeader_new\<lparr>th_seqno := sn_isn s, th_syn := True\<rparr>\<rparr>"
      using seg makeSynSeg_again [OF inv] by (auto simp: retransmitSeg_def UnAckQueue_empty_def Let_def q_def)
    then show ?thesis
      using none syn by (simp add: payload_def TCPSegment_new_def TCPHeader_new_def Buffer_default_def Buffer_str_def)
  qed
qed

lemma expired_tick:
  assumes inv: "sender_inv W s" and run: "tm_isTimerRunning (sn_timer s)"
    and "unat (tm_timeout (sn_timer s)) \<le> add64 (tm_msSinceBaseSegSent (sn_timer s)) ms"
  shows "\<exists>seg t. TCPSender_tick s ms = Inr t \<and> sn_segments_out t = sn_segments_out s @ [seg] \<and>
    th_seqno (seg_header seg) = wrap (uq_baseSqn (sn_unAckQueue s)) (sn_isn s) \<and>
    seg_valid (sn_isn s) W (ByteStream_input_ended (sn_stream s)) seg \<and>
    (th_syn (seg_header seg) \<longleftrightarrow> \<not> uq_synAcked (sn_unAckQueue s)) \<and>
    Buffer_str (seg_payload seg) =
      (case uq_unAckedPayloadSize (sn_unAckQueue s) of [] \<Rightarrow> []
       | n # _ \<Rightarrow> take n (drop (uq_baseSqn (sn_unAckQueue s) - 1) W)) \<and>
    (th_fin (seg_header seg) \<longleftrightarrow> uq_finSent (sn_unAckQueue s) \<and>
       uq_baseSqn (sn_unAckQueue s) + length (Buffer_str (seg_payload seg)) + 1 = uq_next_seqno (sn_unAckQueue s)) \<and>
    sn_unAckQueue t = sn_unAckQueue s \<and> sn_isn t = sn_isn s \<and>
    consecutive_retransmissions t = consecutive_retransmissions s + 1 \<and>
    tm_timeout (sn_timer t) =
      (if tm_doubleTimeout (sn_timer s) then tm_timeout (sn_timer s) * 2 else tm_timeout (sn_timer s))"
proof -
  let ?t1 = "(sn_timer s)\<lparr>tm_msSinceBaseSegSent := add64 (tm_msSinceBaseSegSent (sn_timer s)) ms\<rparr>"
  let ?s = "s\<lparr>sn_timer := ?t1\<rparr>"
  have inv': "sender_inv W ?s" using inv by (simp add: sender_inv_def)
  have lt: "uq_baseSqn (sn_unAckQueue ?s) < uq_next_seqno (sn_unAckQueue ?s)"
    using inv run by (simp add: sender_inv_def)
  obtain seg where seg: "retransmitSeg ?s = Inr (seg, ?s)"
    "seg_valid (sn_isn s) W (bs_isInputEnd (sn_stream s)) seg"
    "th_seqno (seg_header seg) = wrap (uq_baseSqn (sn_unAckQueue s)) (sn_isn s)"
    using retransmitSeg_valid [OF inv' lt] by auto
  have tr: "timeoutRetransmit ?s = Inr (?s\<lparr>sn_segments_out := sn_segments_out s @ [seg],
      sn_timer := retransmitTimer ?t1\<rparr>)"
    using timeoutRetransmit_eq [OF inv' lt] seg(1) by simp
  then have tick: "TCPSender_tick s ms = Inr (?s\<lparr>sn_segments_out := sn_segments_out s @ [seg], sn_timer := retransmitTimer ?t1\<rparr>)"
    using run assms(3) by (simp add: TCPSender_tick_def Let_def)
  show ?thesis
    using seg(2,3) retransmitSeg_content [OF inv' lt seg(1)] unfolding tick
    by (simp add: Let_def consecutive_retransmissions_def retransmitTimer_def cong: list.case_cong)
qed

text \<open>
  Claim C15. Timeout: when the retransmission timer of a sender in its invariant expires, exactly
  one segment is queued; it is valid and starts at the oldest unacknowledged sequence number. It is
  the SYN exactly while the SYN is unacknowledged; its payload is the first recorded piece of the
  outstanding bytes of \<open>W\<close>; and it carries the FIN exactly when the FIN has been sent and comes
  right behind that payload. The counter of consecutive retransmissions goes up and the timeout
  doubles (in 32-bit arithmetic) unless the peer's window was zero; nothing else of the queue changes.
\<close>

theorem timeout_retransmits_oldest:
  assumes inv: "sender_inv W s" and run: "tm_isTimerRunning (sn_timer s)"
    and "unat (tm_timeout (sn_timer s)) \<le> add64 (tm_msSinceBaseSegSent (sn_timer s)) ms"
  shows "\<exists>seg t. TCPSender_tick s ms = Inr t \<and> sn_segments_out t = sn_segments_out s @ [seg] \<and>
    th_seqno (seg_header seg) = wrap (uq_baseSqn (sn_unAckQueue s)) (sn_isn s) \<and>
    seg_valid (sn_isn s) W (ByteStream_input_ended (sn_stream s)) seg \<and>
    (th_syn (seg_header seg) \<longleftrightarrow> \<not> uq_synAcked (sn_unAckQueue s)) \<and>
    Buffer_str (seg_payload seg) =
      (case uq_unAckedPayloadSize (sn_unAckQueue s) of [] \<Rightarrow> []
       | n # _ \<Rightarrow> take n (drop (uq_baseSqn (sn_unAckQueue s) - 1) W)) \<and>
    (th_fin (seg_header seg) \<longleftrightarrow> uq_finSent (sn_unAckQueue s) \<and>
       uq_baseSqn (sn_unAckQueue s) + length (Buffer_str (seg_payload seg)) + 1 = uq_next_seqno (sn_unAckQueue s)) \<and>
    sn_unAckQueue t = sn_unAckQueue s \<and>
    consecutive_retransmissions t = consecutive_retransmissions s + 1 \<and>
    tm_timeout (sn_timer t) =
      (if tm_doubleTimeout (sn_timer s) then tm_timeout (sn_timer s) * 2 else tm_timeout (sn_timer s))"
  using expired_tick [OF assms] by blast

theorem timeout_retransmits_oldest_witness:
  "\<exists>s seg t. run send_step ([], TCPSender_new 9 1000 (Some 5) 0) [SFill, SAck 6 10 1, SWrite [7, 8], SFill] = Inr ([7, 8], s) \<and>
     TCPSender_tick s 1000 = Inr t \<and> sn_segments_out t = sn_segments_out s @ [seg] \<and>
     Buffer_str (seg_payload seg) = [7, 8] \<and> \<not> th_syn (seg_header seg) \<and> consecutive_retransmissions t = 1"
proof -
  let ?ops = "[SFill, SAck 6 10 1, SWrite [7, 8], SFill]" and ?s0 = "TCPSender_new 9 1000 (Some 5) 0"
  have ok: "allowed send_step send_ok ([], ?s0) ?ops" by (simp add: sender_eval seqno_demo)
  obtain s where run: "run send_step ([], ?s0) ?ops = Inr ([7, 8], s)" and due: "tm_isTimerRunning (sn_timer s)"
    "unat (tm_timeout (sn_timer s)) \<le> add64 (tm_msSinceBaseSegSent (sn_timer s)) 1000"
    and q: "uq_unAckedPayloadSize (sn_unAckQueue s) = [2]" "uq_baseSqn (sn_unAckQueue s) = 1" "uq_synAcked (sn_unAckQueue s)"
    and zero: "consecutive_retransmissions s = 0"
    by (simp add: sender_eval seqno_demo consecutive_retransmissions_def)
  have "send_inv () ([], ?s0)" using sender_inv_new [of 9] by (simp add: send_inv_def two64_def)
  from sn.run_law [OF this ok] have inv: "sender_inv [7, 8] s" unfolding run by (simp add: send_inv_def)
  show ?thesis using timeout_retransmits_oldest [OF inv due] run q zero by auto
qed

section \<open>When the contract is broken\<close>

text \<open>
  An acknowledgment that covers the oldest segment and part of the next one corrupts the
  queue: the bytes are dropped but the size of the oldest segment stays recorded. If fewer bytes
  are left than that size, the next retransmission reads past the end of the queue.
\<close>

lemma partial_ack_leaves_stale_size:
  assumes inv: "queue_inv W e n q" and "length W < 2 ^ 62" "uq_synAcked q" "\<not> uq_finAcked q"
    and sizes: "uq_unAckedPayloadSize q = x # y # rest" and "0 < x" "0 < k" "k < y"
  shows "\<exists>q'. updateBase q (uq_baseSqn q + x + k) = Inr q' \<and>
    uq_unAckedPayloadSize q' = x # (y - k) # rest \<and>
    length (uq_unAcked q') = (y - k) + sum_list rest \<and>
    (y - k + sum_list rest < x \<longrightarrow> frontSeg q' isn = Inl PastEndAccess)"
proof -
  let ?b = "uq_baseSqn q" and ?a = "uq_baseSqn q + x + k"
  have q: "?b + length (uq_unAcked q) = 1 + n" "1 \<le> ?b" "x + (y + sum_list rest) = length (uq_unAcked q)"
    "uq_next_seqno q = 1 + n + of_bool (uq_finSent q)"
    using inv sizes unfolding queue_inv_open [OF assms(3,4)] by auto
  have nb: "uq_next_seqno q < two64" using queue_next_bound [OF inv assms(2)] by (intro two64_gt) simp
  then have lt: "?b + x + y < two64" using q by linarith
  have s: "add64 ?b x = ?b + x" "add64 0 x = x" "add64 (?b + x) y = ?b + x + y"
    "sub64 ?a (?b + x) = k" "sub64 y k = y - k" "add64 x k = x + k"
    using lt assms(7,8) by (simp_all add: add64_small sub64_small)
  have er: "eraseLoop ?a (uq_unAckedPayloadSize q) 0 ?b 0 = (x # (y - k) # rest, ?a, x + k)"
    using s assms(7,8) by (simp add: eraseLoop.simps sizes Let_def)
  have "uq_unAcked q \<noteq> []" "?a < uq_next_seqno q" using q assms(6,8) by auto
  then have "updateBase q ?a = Inr (q\<lparr>uq_unAckedPayloadSize := x # (y - k) # rest, uq_baseSqn := ?a,
      uq_unAcked := drop (x + k) (uq_unAcked q)\<rparr>)"
    using q assms(6-8) er by (simp add: updateBase_def UnAckQueue_erase_def UnAckQueue_empty_def ackSqnForFin_def)
  then show ?thesis using q(3) assms(8) by (auto simp: frontSeg_def)
qed

lemma partial_ack_leaves_stale_size_witness:
  "\<exists>q q'. uq_unAckedPayloadSize q = [2, 2] \<and> updateBase q 4 = Inr q' \<and>
     frontSeg q' 0 = Inl PastEndAccess"
proof -
  define q where "q = UnAckQueue_new\<lparr>uq_unAcked := [1, 2, 3, 4], uq_unAckedPayloadSize := [2, 2],
    uq_synSent := True, uq_synAcked := True, uq_baseSqn := 1, uq_next_seqno := 5, uq_win_size := 9\<rparr>"
  have inv: "queue_inv [1, 2, 3, 4] False 4 q"
    by (simp add: q_def queue_inv_def UnAckQueue_new_def slice_at_def MAX_PAYLOAD_SIZE_def)
  have q: "uq_synAcked q" "\<not> uq_finAcked q" "uq_unAckedPayloadSize q = 2 # 2 # []" "uq_baseSqn q = 1"
    by (simp_all add: q_def UnAckQueue_new_def)
  obtain q' where "updateBase q (uq_baseSqn q + 2 + 1) = Inr q'" "frontSeg q' 0 = Inl PastEndAccess"
    using partial_ack_leaves_stale_size [OF inv _ q(1,2,3), of 1 0] by auto
  moreover have "uq_baseSqn q + 2 + 1 = 4" using q(4) by simp
  ultimately show ?thesis using q(3) by metis
qed

text \<open>
  The unsigned subtraction in \<open>remainSpace\<close>: once less than what is in flight is allowed, it wraps
  to an enormous number and the loop of \<open>fill_window\<close> only stops when the stream is drained.
\<close>

definition flooding :: "TCPSender \<Rightarrow> bool" where
  "flooding s \<longleftrightarrow>
     ByteStream_inv (sn_stream s) \<and>
     uq_baseSqn (sn_unAckQueue s) + uq_win_size (sn_unAckQueue s) < uq_next_seqno (sn_unAckQueue s) \<and>
     uq_next_seqno (sn_unAckQueue s) + fillMeasure s < 2 ^ 63 \<and>
     (uq_finSent (sn_unAckQueue s) \<longrightarrow> bs_size (sn_stream s) = 0)"

lemma flooding_space:
  assumes "flooding s"
  shows "2 ^ 63 < remainSpace s" "remainSpace s < two64"
proof -
  let ?q = "sn_unAckQueue s"
  have q: "uq_baseSqn ?q + uq_win_size ?q < uq_next_seqno ?q" "uq_next_seqno ?q < 2 ^ 63"
    using assms by (auto simp: flooding_def)
  have fl: "bytesInFlight ?q = uq_next_seqno ?q - uq_baseSqn ?q"
    using q by (auto simp: bytesInFlight_def two64_def intro!: sub64_small)
  have "remainSpace s = two64 - (uq_next_seqno ?q - uq_baseSqn ?q - uq_win_size ?q)"
    unfolding remainSpace_def fl using q by (intro sub64_wraps) (auto simp: two64_def)
  then show "2 ^ 63 < remainSpace s" using q by (simp add: two64_def)
  show "remainSpace s < two64" by (simp add: remainSpace_def)
qed

lemma flooding_step:
  assumes fl: "flooding s" and "hasContentToPush s"
  shows "flooding (fillStep s)" "uq_baseSqn (sn_unAckQueue (fillStep s)) = uq_baseSqn (sn_unAckQueue s)"
    "uq_next_seqno (sn_unAckQueue s) + bs_size (sn_stream s) \<le>
       uq_next_seqno (sn_unAckQueue (fillStep s)) + bs_size (sn_stream (fillStep s))"
proof -
  let ?q = "sn_unAckQueue s" and ?st = "sn_stream s"
  define m where "m = min (bs_size ?st) MAX_PAYLOAD_SIZE"
  have inv: "ByteStream_inv ?st" and nx: "uq_next_seqno ?q + fillMeasure s < 2 ^ 63"
    and nofin: "\<not> uq_finSent ?q"
    using fl assms(2) by (auto simp: flooding_def hasContentToPush_def)
  note sp = flooding_space [OF fl]
  have len: "min (remainSpace s) MAX_PAYLOAD_SIZE = MAX_PAYLOAD_SIZE"
    using sp(1) by (simp add: MAX_PAYLOAD_SIZE_def)
  obtain st' d where read: "ByteStream_read ?st MAX_PAYLOAD_SIZE = (d, st')" by (cases "ByteStream_read ?st MAX_PAYLOAD_SIZE")
  have d: "length d = m" using read inv
    by (auto simp: ByteStream_read_def ByteStream_peek_output_def ByteStream_inv_def m_def Let_def)
  have st': "st' = ByteStream_pop_output ?st MAX_PAYLOAD_SIZE" using read by (simp add: ByteStream_read_def Let_def)
  have size': "bs_size st' = bs_size ?st - m" "ByteStream_inv st'"
    using bs.invar_pop [OF inv] by (auto simp: st' ByteStream_pop_inv_eq [OF inv] m_def)
  define fin where "fin \<longleftrightarrow> ByteStream_eof st' \<and> sub64 (remainSpace s) (length d) > 0"
  have m: "m \<le> bs_size ?st" by (simp add: m_def)
  have "uq_next_seqno ?q + 1 + m < two64" using nx m nofin by (simp add: fillMeasure_def two64_def)
  then have ar: "add64 (uq_next_seqno ?q) m = uq_next_seqno ?q + m"
    "add64 (add64 (uq_next_seqno ?q) 1) m = uq_next_seqno ?q + 1 + m"
    by (simp_all add: add64_assoc add64_small)
  have step: "sn_stream (fillStep s) = st'" "uq_baseSqn (sn_unAckQueue (fillStep s)) = uq_baseSqn ?q"
    "uq_win_size (sn_unAckQueue (fillStep s)) = uq_win_size ?q"
    "uq_finSent (sn_unAckQueue (fillStep s)) = fin"
    "uq_next_seqno (sn_unAckQueue (fillStep s)) = uq_next_seqno ?q + m + of_bool fin"
  proof -
    have nofin': "?q\<lparr>uq_finSent := False\<rparr> = ?q" using nofin by (cases ?q) simp
    obtain seg where mk: "makePayLoadSeg s = (seg, s\<lparr>sn_stream := st', sn_unAckQueue :=
        ?q\<lparr>uq_finSent := fin, uq_next_seqno := uq_next_seqno ?q + m + of_bool fin\<rparr>\<rparr>)"
      unfolding makePayLoadSeg_def Let_def len read prod.case fin_def [symmetric]
      using ar nofin' by (cases fin) (simp_all add: d)
    show "sn_stream (fillStep s) = st'" "uq_baseSqn (sn_unAckQueue (fillStep s)) = uq_baseSqn ?q"
      "uq_win_size (sn_unAckQueue (fillStep s)) = uq_win_size ?q"
      "uq_finSent (sn_unAckQueue (fillStep s)) = fin"
      "uq_next_seqno (sn_unAckQueue (fillStep s)) = uq_next_seqno ?q + m + of_bool fin"
      by (simp_all add: fillStep_def mk firstPush_def UnAckQueue_push_def Let_def)
  qed
  have "fin \<Longrightarrow> bs_size st' = 0" by (simp add: fin_def ByteStream_eof_def)
  then show "flooding (fillStep s)"
    using fl nofin m size' by (auto simp: flooding_def fillMeasure_def step)
  show "uq_baseSqn (sn_unAckQueue (fillStep s)) = uq_baseSqn ?q" by (rule step)
  show "uq_next_seqno ?q + bs_size ?st \<le>
      uq_next_seqno (sn_unAckQueue (fillStep s)) + bs_size (sn_stream (fillStep s))"
    using m size' by (simp add: step)
qed

lemma flooding_loop:
  "flooding s \<Longrightarrow> bs_size (sn_stream (fillLoop s)) = 0 \<and>
     uq_baseSqn (sn_unAckQueue (fillLoop s)) = uq_baseSqn (sn_unAckQueue s) \<and>
     uq_next_seqno (sn_unAckQueue s) + bs_size (sn_stream s) \<le> uq_next_seqno (sn_unAckQueue (fillLoop s)) \<and>
     uq_next_seqno (sn_unAckQueue (fillLoop s)) < two64"
proof (induction s rule: fillLoop.induct)
  case (1 s)
  show ?case
  proof (cases "hasContentToPush s")
    case True
    then have c: "0 < remainSpace s \<and> hasContentToPush s" using flooding_space(1) [OF 1(2)] by simp
    then have "fillLoop s = fillLoop (fillStep s)" by (simp add: fillLoop.simps [of s])
    then show ?thesis using 1(1) [OF c] flooding_step [OF 1(2) True] by simp
  next
    case False
    then have "fillLoop s = s" "bs_size (sn_stream s) = 0"
      by (auto simp: fillLoop.simps [of s] hasContentToPush_def)
    then show ?thesis using 1(2) by (simp add: flooding_def two64_def)
  qed
qed

text \<open>
  Claim C40. A window smaller than what is in flight makes the sender ignore the window altogether:
  a duplicate acknowledgment of the base that advertises such a window is processed, and the next
  \<open>fill_window\<close> sends the whole buffered stream, so that everything that was buffered is in flight
  on top of what already was.
\<close>

theorem shrunk_window_floods:
  assumes inv: "sender_inv W s" and "uq_synAcked (sn_unAckQueue s)" "\<not> uq_finSent (sn_unAckQueue s)"
    and win: "0 < win" "unat win < TCPSender_bytes_in_flight s"
    and data: "0 < ByteStream_buffer_size (sn_stream s)"
  shows "\<exists>t. ack_received s (wrap (uq_baseSqn (sn_unAckQueue s)) (sn_isn s)) win = Inr t \<and>
    ByteStream_buffer_size (sn_stream (fill_window t)) = 0 \<and>
    TCPSender_bytes_in_flight s + ByteStream_buffer_size (sn_stream s) \<le>
      TCPSender_bytes_in_flight (fill_window t)"
proof -
  let ?q = "sn_unAckQueue s" and ?st = "sn_stream s"
  have qi: "queue_inv W (bs_isInputEnd ?st) (bs_num_bytes_read ?st) ?q" and st: "stream_inv W ?st"
    using inv by (auto simp: sender_inv_def)
  have len: "length W < 2 ^ 62" using st by (simp add: stream_inv_def)
  have nfa: "\<not> uq_finAcked ?q" using qi assms(2,3) by (auto simp: queue_inv_def)
  have open': "uq_synSent ?q" "1 \<le> uq_baseSqn ?q" "uq_next_seqno ?q = 1 + bs_num_bytes_read ?st"
    using qi assms(3) by (simp_all add: queue_inv_open [OF assms(2) nfa])
  note nb = queue_next_bound [OF qi len] and bn = queue_base_le_next [OF qi]
  have fl: "TCPSender_bytes_in_flight s = uq_next_seqno ?q - uq_baseSqn ?q"
    using bytesInFlight_eq [OF qi len] by (simp add: TCPSender_bytes_in_flight_def)
  define t where "t = setWindowSize s win"
  have tq: "sn_unAckQueue t = ?q\<lparr>uq_win_size := unat win\<rparr>" "sn_stream t = ?st" "sn_isn t = sn_isn s"
    using win(1) by (simp_all add: t_def setWindowSize_def)
  have "unwrap (wrap (uq_baseSqn ?q) (sn_isn s)) (sn_isn s) (uq_baseSqn ?q) = uq_baseSqn ?q"
    using nb bn by (intro unwrap_wrap_near) auto
  then have ack: "ack_received s (wrap (uq_baseSqn ?q) (sn_isn s)) win = Inr t"
    using open'(2) tq bn by (simp add: ack_received_def Let_def ackSqnForFin_def flip: t_def)
  have "uq_next_seqno ?q + bs_size ?st = 1 + length W"
    using st open'(3) by (simp add: stream_inv_def)
  then have "flooding t"
    using st win(2) len fl assms(3) by (auto simp: flooding_def fillMeasure_def tq stream_inv_def)
  note loop = flooding_loop [OF this, unfolded tq, simplified]
  have "\<not> ByteStream_eof ?st" using data by (simp add: ByteStream_eof_def)
  then have fw: "fill_window t = fillLoop t"
    using assms(2,3) nfa open'(1) by (simp add: fill_window_def tq Let_def)
  have "TCPSender_bytes_in_flight (fill_window t) =
      uq_next_seqno (sn_unAckQueue (fillLoop t)) - uq_baseSqn ?q"
    unfolding fw TCPSender_bytes_in_flight_def bytesInFlight_def
    using loop bn by (simp add: sub64_small)
  then show ?thesis using ack loop fl bn by (intro exI [of _ t]) (simp add: fw diff_le_mono)
qed

theorem shrunk_window_floods_witness:
  "\<exists>s t. TCPSender_bytes_in_flight s = 3 \<and> ByteStream_buffer_size (sn_stream s) = 4 \<and>
     ack_received s (wrap 1 (sn_isn s)) 2 = Inr t \<and> 3 + 4 \<le> TCPSender_bytes_in_flight (fill_window t)"
proof -
  let ?W = "[1, 2, 3, 4, 5, 6, 7 :: byte]"
  define q where "q = UnAckQueue_new\<lparr>uq_unAcked := [1, 2, 3], uq_unAckedPayloadSize := [3],
    uq_synSent := True, uq_synAcked := True, uq_baseSqn := 1, uq_next_seqno := 4, uq_win_size := 3\<rparr>"
  define s where "s = (TCPSender_new 9 1000 (Some 5) 0)\<lparr>sn_unAckQueue := q,
    sn_timer := startTimer (Timer_new 1000),
    sn_stream := (ByteStream_new 9)\<lparr>bs_buf := [4, 5, 6, 7], bs_size := 4, bs_num_bytes_written := 7,
      bs_num_bytes_read := 3\<rparr>\<rparr>"
  have "queue_inv ?W False 3 q"
    by (simp add: q_def queue_inv_def UnAckQueue_new_def slice_at_def MAX_PAYLOAD_SIZE_def)
  then have inv: "sender_inv ?W s"
    by (simp add: s_def q_def sender_inv_def stream_inv_def ByteStream_inv_def TCPSender_new_def
        ByteStream_new_def UnAckQueue_new_def startTimer_def add64_def two64_def)
  have s: "uq_synAcked (sn_unAckQueue s)" "\<not> uq_finSent (sn_unAckQueue s)" "uq_baseSqn (sn_unAckQueue s) = 1"
    "TCPSender_bytes_in_flight s = 3" "ByteStream_buffer_size (sn_stream s) = 4"
    by (simp_all add: s_def q_def UnAckQueue_new_def TCPSender_bytes_in_flight_def bytesInFlight_def
        sub64_def two64_def)
  show ?thesis using shrunk_window_floods [OF inv s(1,2), of 2] s(3-5) by auto
qed

end
