(* ===== verification/Tcp_Connection.thy ===== *)
theory Tcp_Connection
  imports Tcp_Receiver Sender_Runs
begin

text \<open>
  \<open>TCPConnection\<close> (\<open>src/libsponge/tcp_connection.hh\<close>, \<open>tcp_connection.cc\<close>): a complete endpoint,
  made of a sender, a receiver, the queue of segments on their way out, and the flags that decide
  when the connection is over. One definition per member function, in the order of the source;
  \<open>_segQueueFromSender\<close> is a reference to the sender's queue and has no field of its own.
\<close>

record TCPConnection =
  cn_cfg :: TCPConfig
  cn_receiver :: TCPReceiver
  cn_sender :: TCPSender
  cn_segments_out :: "TCPSegment list"
  cn_linger_after_streams_finish :: bool
  cn_active :: bool
  cn_time_since_last_segment_received :: size_t
  cn_time_wait :: bool

definition TCPConnection_new :: "TCPConfig \<Rightarrow> WrappingInt32 \<Rightarrow> TCPConnection" where
  "TCPConnection_new cfg random =
     \<lparr>cn_cfg = cfg, cn_receiver = TCPReceiver_new (cfg_recv_capacity cfg),
      cn_sender = TCPSender_new (cfg_send_capacity cfg) (cfg_rt_timeout cfg) (cfg_fixed_isn cfg) random,
      cn_segments_out = [], cn_linger_after_streams_finish = True, cn_active = True,
      cn_time_since_last_segment_received = 0, cn_time_wait = False\<rparr>"

section \<open>Helpers\<close>

definition on_sender :: "(TCPSender \<Rightarrow> TCPSender) \<Rightarrow> TCPConnection \<Rightarrow> TCPConnection" where
  "on_sender f c = c\<lparr>cn_sender := f (cn_sender c)\<rparr>"

definition on_sender_result ::
  "(TCPSender \<Rightarrow> TCPSender result) \<Rightarrow> TCPConnection \<Rightarrow> TCPConnection result" where
  "on_sender_result f c = bind_result (f (cn_sender c)) (\<lambda>s. Inr (c\<lparr>cn_sender := s\<rparr>))"

definition uncleanShutdown :: "TCPConnection \<Rightarrow> TCPConnection" where
  "uncleanShutdown c =
     (let s = cn_sender c; r = cn_receiver c; re = rc_reassembler r
      in c\<lparr>cn_sender := s\<lparr>sn_stream := ByteStream_set_error (sn_stream s)\<rparr>,
           cn_receiver := r\<lparr>rc_reassembler := re\<lparr>sr_output := ByteStream_set_error (sr_output re)\<rparr>\<rparr>,
           cn_active := False\<rparr>)"

definition cleanShutdown :: "TCPConnection \<Rightarrow> TCPConnection" where
  "cleanShutdown c = c\<lparr>cn_active := False\<rparr>"

text \<open>The acknowledgment and window put on an outgoing segment; the window is cut to 16 bits.\<close>

definition stamp :: "TCPReceiver \<Rightarrow> TCPSegment \<Rightarrow> TCPSegment" where
  "stamp r seg =
     (let h = seg_header seg
      in case TCPReceiver_ackno r of
           None \<Rightarrow> seg
         | Some a \<Rightarrow>
             if th_rst h then seg
             else seg\<lparr>seg_header :=
               h\<lparr>th_ack := True, th_ackno := a, th_win := word_of_nat (TCPReceiver_window_size r)\<rparr>\<rparr>)"

fun updateOutput_loop :: "TCPReceiver \<Rightarrow> TCPSegment list \<Rightarrow> TCPSegment list \<Rightarrow> TCPSegment list" where
  "updateOutput_loop r [] out = out"
| "updateOutput_loop r (seg # queue) out = updateOutput_loop r queue (out @ [stamp r seg])"

definition updateOutput :: "TCPConnection \<Rightarrow> TCPConnection" where
  "updateOutput c =
     c\<lparr>cn_segments_out :=
         updateOutput_loop (cn_receiver c) (sn_segments_out (cn_sender c)) (cn_segments_out c),
       cn_sender := (cn_sender c)\<lparr>sn_segments_out := []\<rparr>\<rparr>"

text \<open>\<open>cleanSegQueue\<close> pops until the queue is empty.\<close>

fun cleanSegQueue :: "TCPSegment list \<Rightarrow> TCPSegment list" where
  "cleanSegQueue [] = []"
| "cleanSegQueue (seg # queue) = cleanSegQueue queue"

text \<open>Turning the first, or the last, segment of the sender's queue into the RST.\<close>

definition mark_front_rst :: "WrappingInt32 \<Rightarrow> TCPSender \<Rightarrow> TCPSender" where
  "mark_front_rst sqn s =
     (case sn_segments_out s of
        [] \<Rightarrow> s
      | seg # rest \<Rightarrow>
          s\<lparr>sn_segments_out :=
              seg\<lparr>seg_header := (seg_header seg)\<lparr>th_seqno := sqn, th_rst := True\<rparr>\<rparr> # rest\<rparr>)"

definition mark_back_rst :: "TCPSender \<Rightarrow> TCPSender" where
  "mark_back_rst s =
     (case sn_segments_out s of
        [] \<Rightarrow> s
      | queue \<Rightarrow>
          s\<lparr>sn_segments_out := butlast queue @
              [(last queue)\<lparr>seg_header := (seg_header (last queue))\<lparr>th_rst := True\<rparr>\<rparr>]\<rparr>)"

definition sendRSTSeg :: "TCPConnection \<Rightarrow> TCPConnection" where
  "sendRSTSeg c =
     (case cn_segments_out c of
        first # _ \<Rightarrow>
          (let sqn = th_seqno (seg_header first);
               c = c\<lparr>cn_segments_out := cleanSegQueue (cn_segments_out c)\<rparr>;
               c = on_sender (\<lambda>s. s\<lparr>sn_segments_out := cleanSegQueue (sn_segments_out s)\<rparr>) c;
               c = on_sender send_empty_segment c;
               c = on_sender (mark_front_rst sqn) c
           in updateOutput c)
      | [] \<Rightarrow>
          (case sn_segments_out (cn_sender c) of
             first # _ \<Rightarrow>
               (let sqn = th_seqno (seg_header first);
                    c = on_sender (\<lambda>s. s\<lparr>sn_segments_out := cleanSegQueue (sn_segments_out s)\<rparr>) c;
                    c = on_sender send_empty_segment c;
                    c = on_sender (mark_front_rst sqn) c
                in updateOutput c)
           | [] \<Rightarrow>
               (let c = on_sender send_empty_segment c;
                    c = on_sender mark_back_rst c
                in updateOutput c)))"

definition receiver_in_listen :: "TCPConnection \<Rightarrow> bool" where
  "receiver_in_listen c \<longleftrightarrow> TCPReceiver_ackno (cn_receiver c) = None"

definition receiver_FIN_recv :: "TCPConnection \<Rightarrow> bool" where
  "receiver_FIN_recv c = ByteStream_input_ended (TCPReceiver_stream_out (cn_receiver c))"

section \<open>Accessors\<close>

definition remaining_outbound_capacity :: "TCPConnection \<Rightarrow> size_t" where
  "remaining_outbound_capacity c = ByteStream_remaining_capacity (sn_stream (cn_sender c))"

definition TCPConnection_bytes_in_flight :: "TCPConnection \<Rightarrow> size_t" where
  "TCPConnection_bytes_in_flight c = TCPSender_bytes_in_flight (cn_sender c)"

definition TCPConnection_unassembled_bytes :: "TCPConnection \<Rightarrow> size_t" where
  "TCPConnection_unassembled_bytes c = TCPReceiver_unassembled_bytes (cn_receiver c)"

definition time_since_last_segment_received :: "TCPConnection \<Rightarrow> size_t" where
  "time_since_last_segment_received c = cn_time_since_last_segment_received c"

definition inbound_stream :: "TCPConnection \<Rightarrow> ByteStream" where
  "inbound_stream c = TCPReceiver_stream_out (cn_receiver c)"

definition TCPConnection_active :: "TCPConnection \<Rightarrow> bool" where
  "TCPConnection_active c = cn_active c"

section \<open>Inbound segments\<close>

definition to_receiver :: "TCPSegment \<Rightarrow> TCPConnection \<Rightarrow> TCPConnection result" where
  "to_receiver seg c =
     bind_result (TCPReceiver_segment_received (cn_receiver c) seg) (\<lambda>r. Inr (c\<lparr>cn_receiver := r\<rparr>))"

definition take_ack :: "TCPHeader \<Rightarrow> TCPConnection \<Rightarrow> TCPConnection result" where
  "take_ack h c =
     (if th_ack h then on_sender_result (\<lambda>s. ack_received s (th_ackno h) (th_win h)) c else Inr c)"

text \<open>The special case at the top: a short segment that is not at the expected sequence number.\<close>

definition recv_out_of_order :: "TCPSegment \<Rightarrow> TCPConnection \<Rightarrow> TCPConnection result" where
  "recv_out_of_order seg c =
     (let h = seg_header seg
      in bind_result (to_receiver seg c) (\<lambda>c.
         bind_result (take_ack h c) (\<lambda>c.
           let c = (if th_ack h then on_sender fill_window c else c);
               c = (if sn_segments_out (cn_sender c) = [] then on_sender send_empty_segment c else c)
           in Inr (updateOutput c))))"

text \<open>The receiver has the peer's FIN: CLOSE_WAIT, LAST_ACK, or lingering.\<close>

definition recv_after_fin :: "TCPSegment \<Rightarrow> TCPConnection \<Rightarrow> TCPConnection result" where
  "recv_after_fin seg c =
     (let h = seg_header seg
      in if th_syn h then Inr c
         else if \<not> cn_linger_after_streams_finish c then
           (let c = (if th_fin h then updateOutput (on_sender send_empty_segment c) else c)
            in if th_ack h then
                 bind_result (take_ack h c) (\<lambda>c.
                   if finAcked (cn_sender c) then Inr (cleanShutdown c)
                   else Inr (updateOutput (on_sender fill_window c)))
               else Inr c)
         else
           bind_result (take_ack h c) (\<lambda>c.
             Inr (if th_fin h then updateOutput (on_sender send_empty_segment c) else c)))"

text \<open>The receiver waits for the SYN.\<close>

definition recv_in_listen :: "TCPSegment \<Rightarrow> TCPConnection \<Rightarrow> TCPConnection result" where
  "recv_in_listen seg c =
     (let h = seg_header seg
      in if th_syn h then
           bind_result (to_receiver seg c) (\<lambda>c.
           bind_result (take_ack h c) (\<lambda>c.
             let c = updateOutput (on_sender fill_window c)
             in Inr (if cn_segments_out c = [] then updateOutput (on_sender send_empty_segment c) else c)))
         else Inr c)"

text \<open>The receiver is in the middle of the stream.\<close>

definition recv_in_stream :: "TCPSegment \<Rightarrow> TCPConnection \<Rightarrow> TCPConnection result" where
  "recv_in_stream seg c =
     (let h = seg_header seg; len = length_in_sequence_space seg
      in if th_syn h then Inr c
         else
           bind_result (if len \<noteq> 0 then to_receiver seg c else Inr c) (\<lambda>c.
           bind_result (take_ack h c) (\<lambda>c.
             let c = (if th_ack h then updateOutput (on_sender fill_window c) else c);
                 c = (if len > 0 \<and> cn_segments_out c = []
                      then updateOutput (on_sender send_empty_segment c) else c)
             in if receiver_FIN_recv c then
                  (let c = (if \<not> uq_finSent (sn_unAckQueue (cn_sender c))
                            then c\<lparr>cn_linger_after_streams_finish := False\<rparr>
                            else c\<lparr>cn_time_wait := True\<rparr>)
                   in Inr (if cn_segments_out c = [] then updateOutput (on_sender send_empty_segment c) else c))
                else Inr c)))"

definition TCPConnection_segment_received :: "TCPConnection \<Rightarrow> TCPSegment \<Rightarrow> TCPConnection result" where
  "TCPConnection_segment_received c seg =
     (if \<not> cn_active c then Inr c
      else
        let c = c\<lparr>cn_time_since_last_segment_received := 0\<rparr>;
            h = seg_header seg
        in if (case TCPReceiver_ackno (cn_receiver c) of
                 None \<Rightarrow> False
               | Some a \<Rightarrow> th_seqno h \<noteq> a \<and> length_in_sequence_space seg \<le> 1 \<and> \<not> th_syn h)
           then recv_out_of_order seg c
           else if th_rst h then Inr (uncleanShutdown c)
           else if receiver_FIN_recv c then recv_after_fin seg c
           else if receiver_in_listen c then recv_in_listen seg c
           else recv_in_stream seg c)"

section \<open>The owner's calls\<close>

definition TCPConnection_write :: "TCPConnection \<Rightarrow> bytes \<Rightarrow> size_t \<times> TCPConnection" where
  "TCPConnection_write c data =
     (if data = [] then (0, c)
      else
        let s = cn_sender c;
            (writen, st) = ByteStream_write (sn_stream s) data;
            c = c\<lparr>cn_sender := s\<lparr>sn_stream := st\<rparr>\<rparr>
        in (writen, updateOutput (on_sender fill_window c)))"

definition TCPConnection_tick :: "TCPConnection \<Rightarrow> size_t \<Rightarrow> TCPConnection result" where
  "TCPConnection_tick c ms_since_last_tick =
     (if \<not> cn_active c then Inr c
      else
        let c = c\<lparr>cn_time_since_last_segment_received :=
                    add64 (cn_time_since_last_segment_received c) ms_since_last_tick\<rparr>
        in bind_result (on_sender_result (\<lambda>s. TCPSender_tick s ms_since_last_tick) c) (\<lambda>c.
           let c = updateOutput c
           in if consecutive_retransmissions (cn_sender c) > MAX_RETX_ATTEMPTS
              then Inr (uncleanShutdown (sendRSTSeg c))
              else if cn_time_wait c \<and>
                cn_time_since_last_segment_received c \<ge> 10 * unat (cfg_rt_timeout (cn_cfg c))
              then Inr (cleanShutdown c)
              else Inr c))"

definition end_input_stream :: "TCPConnection \<Rightarrow> TCPConnection" where
  "end_input_stream c =
     updateOutput (on_sender fill_window
       (on_sender (\<lambda>s. s\<lparr>sn_stream := ByteStream_end_input (sn_stream s)\<rparr>) c))"

definition connect :: "TCPConnection \<Rightarrow> TCPConnection" where
  "connect c = updateOutput (on_sender fill_window c)"

text \<open>The destructor, up to the text it prints: an active connection leaves a RST behind.\<close>

definition TCPConnection_destroy :: "TCPConnection \<Rightarrow> TCPConnection" where
  "TCPConnection_destroy c = (if TCPConnection_active c then sendRSTSeg c else c)"

end
