(* ===== verification/Connection_Handlers.thy ===== *)
theory Connection_Handlers
  imports Tcp_State
begin

text \<open>
  How an invariant goes through the handlers of \<open>TCPConnection\<close>. Every handler is composed of a few
  calls: the receiver takes the segment, the sender takes its acknowledgment, fills the window or
  makes an empty segment, the queue is stamped and moved, the streams are put into error. The
  locale \<open>endpoint_laws\<close> asks for the law of each call and gives the laws of
  \<open>segment_received\<close>, \<open>tick\<close> and \<open>connect\<close>.
\<close>

section \<open>Results that keep a predicate\<close>

definition ok_result :: "('a \<Rightarrow> bool) \<Rightarrow> 'a result \<Rightarrow> bool" where
  "ok_result P r \<longleftrightarrow> (\<exists>x. r = Inr x \<and> P x)"

lemma ok_result_Inr [simp]: "ok_result P (Inr x) \<longleftrightarrow> P x"
  by (simp add: ok_result_def)

lemma ok_result_bind:
  assumes "ok_result P r" "\<And>x. P x \<Longrightarrow> ok_result Q (f x)"
  shows "ok_result Q (bind_result r f)"
  using assms by (auto simp: ok_result_def)

lemma ok_result_mono: "ok_result P r \<Longrightarrow> (\<And>x. P x \<Longrightarrow> Q x) \<Longrightarrow> ok_result Q r"
  by (auto simp: ok_result_def)

section \<open>The laws of an endpoint\<close>

text \<open>
  \<open>I\<close> is the invariant, \<open>Arr seg\<close> holds when the segment has arrived and neither half of it has been
  looked at, \<open>Ack seg\<close> while its acknowledgment may still be taken.
\<close>

locale endpoint_laws =
  fixes I :: "TCPConnection \<Rightarrow> bool"
    and Arr Ack :: "TCPSegment \<Rightarrow> TCPConnection \<Rightarrow> bool"
  assumes Arr_Ack: "Arr seg c \<Longrightarrow> Ack seg c"
    and Ack_I: "Ack seg c \<Longrightarrow> I c"
    and Arr_time: "Arr seg c \<Longrightarrow> Arr seg (c\<lparr>cn_time_since_last_segment_received := ms\<rparr>)"
    and flags: "I c \<Longrightarrow> I (c\<lparr>cn_active := v\<rparr>)" "I c \<Longrightarrow> I (c\<lparr>cn_time_wait := v\<rparr>)"
      "I c \<Longrightarrow> I (c\<lparr>cn_linger_after_streams_finish := v\<rparr>)"
      "I c \<Longrightarrow> I (c\<lparr>cn_time_since_last_segment_received := ms\<rparr>)"
    and outp: "I c \<Longrightarrow> I (updateOutput c)"
    and fill: "I c \<Longrightarrow> I (on_sender fill_window c)"
    and empty: "I c \<Longrightarrow> I (on_sender send_empty_segment c)"
    and Ack_empty: "Ack seg c \<Longrightarrow> Ack seg (updateOutput (on_sender send_empty_segment c))"
    and receive: "Arr seg c \<Longrightarrow> ok_result (Ack seg) (to_receiver seg c)"
    and ack: "Ack seg c \<Longrightarrow> ok_result I (take_ack (seg_header seg) c)"
    and unclean: "I c \<Longrightarrow> I (uncleanShutdown c)"
    and rst: "I c \<Longrightarrow> I (sendRSTSeg c)"
    and sender_tick: "I c \<Longrightarrow> ok_result I (on_sender_result (\<lambda>s. TCPSender_tick s ms) c)"
begin

lemmas steps = outp fill empty flags

lemma after_ack:
  "Ack seg c \<Longrightarrow> (\<And>c. I c \<Longrightarrow> ok_result I (f c)) \<Longrightarrow> ok_result I (bind_result (take_ack (seg_header seg) c) f)"
  by (blast intro: ok_result_bind [OF ack])

lemma out_of_order: "Arr seg c \<Longrightarrow> ok_result I (recv_out_of_order seg c)"
  unfolding recv_out_of_order_def Let_def
  by (rule ok_result_bind [OF receive], assumption, rule after_ack) (auto intro!: steps)

lemma after_fin:
  assumes "Arr seg c"
  shows "ok_result I (recv_after_fin seg c)"
proof -
  have a: "Ack seg c" by (rule Arr_Ack [OF assms])
  define c' where "c' = (if th_fin (seg_header seg) then updateOutput (on_sender send_empty_segment c) else c)"
  have c': "Ack seg c'" using a Ack_empty by (auto simp: c'_def)
  have "ok_result I (bind_result (take_ack (seg_header seg) c')
      (\<lambda>c. if finAcked (cn_sender c) then Inr (cleanShutdown c)
           else Inr (updateOutput (on_sender fill_window c))))"
    by (rule after_ack [OF c']) (auto simp: cleanShutdown_def intro!: steps)
  moreover have "ok_result I (bind_result (take_ack (seg_header seg) c)
      (\<lambda>c. Inr (if th_fin (seg_header seg) then updateOutput (on_sender send_empty_segment c) else c)))"
    by (rule after_ack [OF a]) (auto intro!: steps)
  ultimately show ?thesis
    using Ack_I [OF a] Ack_I [OF c'] unfolding recv_after_fin_def Let_def c'_def [symmetric] by simp
qed

lemma in_listen:
  assumes "Arr seg c"
  shows "ok_result I (recv_in_listen seg c)"
proof -
  have "ok_result I (bind_result (to_receiver seg c) (\<lambda>c.
      bind_result (take_ack (seg_header seg) c) (\<lambda>c.
        Inr (if cn_segments_out (updateOutput (on_sender fill_window c)) = []
             then updateOutput (on_sender send_empty_segment (updateOutput (on_sender fill_window c)))
             else updateOutput (on_sender fill_window c)))))"
    by (rule ok_result_bind [OF receive [OF assms]], rule after_ack) (auto intro!: steps)
  then show ?thesis using assms Arr_Ack Ack_I by (auto simp: recv_in_listen_def Let_def)
qed

lemma in_stream:
  assumes "Arr seg c"
  shows "ok_result I (recv_in_stream seg c)"
proof (cases "th_syn (seg_header seg)")
  case True
  then show ?thesis using assms Arr_Ack Ack_I by (auto simp: recv_in_stream_def)
next
  case False
  have first: "ok_result (Ack seg) (if length_in_sequence_space seg \<noteq> 0 then to_receiver seg c else Inr c)"
    using receive [OF assms] Arr_Ack [OF assms] by simp
  show ?thesis
    unfolding recv_in_stream_def Let_def if_not_P [OF False]
    by (rule ok_result_bind [OF first], rule after_ack) (auto intro!: steps)
qed

lemma segment_received:
  assumes "Arr seg c"
  shows "ok_result I (TCPConnection_segment_received c seg)"
proof -
  let ?c = "c\<lparr>cn_time_since_last_segment_received := 0\<rparr>"
  have c: "Arr seg ?c" by (rule Arr_time [OF assms])
  show ?thesis
    using Ack_I [OF Arr_Ack [OF assms]] unclean [OF Ack_I [OF Arr_Ack [OF c]]] out_of_order [OF c]
      after_fin [OF c] in_listen [OF c] in_stream [OF c]
    unfolding TCPConnection_segment_received_def Let_def by simp
qed

lemma tick:
  assumes "I c"
  shows "ok_result I (TCPConnection_tick c ms)"
proof -
  let ?c = "c\<lparr>cn_time_since_last_segment_received := add64 (cn_time_since_last_segment_received c) ms\<rparr>"
  have "ok_result I (bind_result (on_sender_result (\<lambda>s. TCPSender_tick s ms) ?c) (\<lambda>c.
      if consecutive_retransmissions (cn_sender (updateOutput c)) > MAX_RETX_ATTEMPTS
      then Inr (uncleanShutdown (sendRSTSeg (updateOutput c)))
      else if cn_time_wait (updateOutput c) \<and> cn_time_since_last_segment_received (updateOutput c)
          \<ge> 10 * unat (cfg_rt_timeout (cn_cfg (updateOutput c)))
      then Inr (cleanShutdown (updateOutput c)) else Inr (updateOutput c)))"
    by (rule ok_result_bind [OF sender_tick [OF flags(4) [OF assms]]])
      (auto simp: cleanShutdown_def intro!: unclean rst steps)
  then show ?thesis using assms by (simp add: TCPConnection_tick_def Let_def)
qed

lemma connect: "I c \<Longrightarrow> I (connect c)"
  by (simp add: connect_def steps)

end

end
