(* ===== verification/Connection_Correct.thy ===== *)
theory Connection_Correct
  imports Connection_Handlers
begin

text \<open>
  The endpoint as a whole: the sender's and the receiver's guarantees hold together through every
  handler of \<open>TCPConnection\<close>, in any interleaving of the owner's calls and inbound segments, as long
  as the peer keeps its side of both contracts. The rest of the theory states what the handlers
  for resets, retransmission limits and lingering do.
\<close>

section \<open>What the sender's operations leave alone\<close>

definition same_frame :: "TCPSender \<Rightarrow> TCPSender \<Rightarrow> bool" where
  "same_frame s t \<longleftrightarrow>
     sn_isn t = sn_isn s \<and> bs_isInputEnd (sn_stream t) = bs_isInputEnd (sn_stream s)"

lemma same_frame_refl [simp]: "same_frame s s"
  by (simp add: same_frame_def)

lemma fillStep_frame: "same_frame s (fillStep s)"
  by (simp add: same_frame_def fillStep_def makePayLoadSeg_def firstPush_def ByteStream_read_def
      ByteStream_pop_output_def Let_def)

lemma fillLoop_frame: "same_frame s (fillLoop s)"
proof (induction s rule: fillLoop.induct)
  case (1 s)
  then show ?case
    using fillStep_frame [of s]
    by (cases "0 < remainSpace s \<and> hasContentToPush s")
      (auto simp: fillLoop.simps [of s] same_frame_def)
qed

lemma fill_window_frame: "same_frame s (fill_window s)"
proof -
  have syn: "same_frame s (let (seg, s) = makeSynSeg s in firstPush s seg)"
    by (simp add: same_frame_def makeSynSeg_def firstPush_def Let_def)
  have fin: "same_frame s (let (seg, s) = makeFirstFinSeg s in firstPush s seg)"
    by (simp add: same_frame_def makeFirstFinSeg_def firstPush_def Let_def)
  define t where "t = (if \<not> uq_finSent (sn_unAckQueue s) \<and> ByteStream_eof (sn_stream s) \<and> remainSpace s > 1
    then (let (seg, s) = makeFirstFinSeg s in firstPush s seg) else s)"
  have t: "same_frame s t" using fin by (simp add: t_def)
  then have "same_frame s (if uq_synSent (sn_unAckQueue t) \<and> \<not> uq_synAcked (sn_unAckQueue t) then t else fillLoop t)"
    using fillLoop_frame [of t] by (auto simp: same_frame_def)
  then show ?thesis
    using syn unfolding fill_window_def Let_def t_def by auto
qed

lemma ack_received_frame: "ack_received s a w = Inr t \<Longrightarrow> same_frame s t"
  by (auto simp: ack_received_def setWindowSize_def same_frame_def bind_result_eq_Inr Let_def
      split: if_splits)

lemma timeoutRetransmit_frame: "timeoutRetransmit s = Inr t \<Longrightarrow> same_frame s t"
  by (auto simp: timeoutRetransmit_def makeSynSeg_def same_frame_def bind_result_eq_Inr Let_def
      split: if_splits)

lemma tick_frame: "TCPSender_tick s ms = Inr t \<Longrightarrow> same_frame s t"
  using timeoutRetransmit_frame
  by (fastforce simp: TCPSender_tick_def same_frame_def Let_def split: if_splits)

section \<open>The invariant of a connection\<close>

definition conn_inv :: "bytes \<Rightarrow> WrappingInt32 \<Rightarrow> bytes \<Rightarrow> TCPConnection \<Rightarrow> bool" where
  "conn_inv S isn W c \<longleftrightarrow>
     sender_inv W (cn_sender c) \<and> (\<exists>g. recv_inv S isn g (cn_receiver c)) \<and>
     (\<forall>seg \<in> set (cn_segments_out c).
        seg_valid (sn_isn (cn_sender c)) W (bs_isInputEnd (sn_stream (cn_sender c))) seg)"

lemma conn_inv_flags [simp]:
  "conn_inv S isn W (c\<lparr>cn_active := a\<rparr>) = conn_inv S isn W c"
  "conn_inv S isn W (c\<lparr>cn_time_wait := a\<rparr>) = conn_inv S isn W c"
  "conn_inv S isn W (c\<lparr>cn_linger_after_streams_finish := a\<rparr>) = conn_inv S isn W c"
  "conn_inv S isn W (c\<lparr>cn_time_since_last_segment_received := ms\<rparr>) = conn_inv S isn W c"
  by (simp_all add: conn_inv_def)

lemma conn_inv_new:
  assumes "length S + cfg_recv_capacity cfg < 2 ^ 62" "cfg_send_capacity cfg < two64"
  shows "conn_inv S isn [] (TCPConnection_new cfg rand)"
  using recv_inv_new [OF assms(1)] sender_inv_new [OF assms(2)]
  by (auto simp: conn_inv_def TCPConnection_new_def)

lemma seg_valid_stamp [simp]: "seg_valid isn W e (stamp r seg) = seg_valid isn W e seg"
  by (cases "TCPReceiver_ackno r") (auto simp: stamp_def seg_valid_def Let_def)

lemma updateOutput_loop_eq: "updateOutput_loop r queue out = out @ map (stamp r) queue"
  by (induction queue arbitrary: out) auto

lemma updateOutput_inv:
  "conn_inv S isn W c \<Longrightarrow> conn_inv S isn W (updateOutput c)"
  by (auto simp: conn_inv_def updateOutput_def updateOutput_loop_eq sender_inv_def)

lemma on_sender_inv:
  assumes "conn_inv S isn W c" "same_frame (cn_sender c) (f (cn_sender c))"
    and "sender_inv W (cn_sender c) \<Longrightarrow> sender_inv W (f (cn_sender c))"
  shows "conn_inv S isn W (on_sender f c)"
  using assms by (auto simp: conn_inv_def on_sender_def same_frame_def)

lemma fill_inv: "conn_inv S isn W c \<Longrightarrow> conn_inv S isn W (on_sender fill_window c)"
  by (rule on_sender_inv) (auto intro: fill_window_frame fill_window_inv)

lemma sender_inv_queue:
  assumes "sender_inv W s"
    and "\<forall>seg \<in> set q. seg_valid (sn_isn s) W (bs_isInputEnd (sn_stream s)) seg"
  shows "sender_inv W (s\<lparr>sn_segments_out := q\<rparr>)"
  using assms by (simp add: sender_inv_def)

lemma send_empty_inv: "sender_inv W s \<Longrightarrow> sender_inv W (send_empty_segment s)"
  unfolding send_empty_segment_def Let_def
  by (rule sender_inv_queue) (auto simp: seg_valid_bare sender_inv_def)

lemma send_empty_conn_inv: "conn_inv S isn W c \<Longrightarrow> conn_inv S isn W (on_sender send_empty_segment c)"
proof (rule on_sender_inv)
  show "same_frame (cn_sender c) (send_empty_segment (cn_sender c))"
    by (simp add: same_frame_def send_empty_segment_def Let_def)
qed (auto intro: send_empty_inv)

lemmas conn_inv_steps = updateOutput_inv fill_inv send_empty_conn_inv

lemma cleanSegQueue_eq [simp]: "cleanSegQueue q = []"
  by (induction q) auto

lemma seg_valid_rst:
  "seg_valid isn W e (TCPSegment_new\<lparr>seg_header := TCPHeader_new\<lparr>th_seqno := x, th_rst := True\<rparr>\<rparr>)"
  by (simp add: seg_valid_def TCPSegment_new_def TCPHeader_new_def)

text \<open>\<open>sendRSTSeg\<close> leaves exactly one segment to send, a RST.\<close>

definition rst_seg :: "WrappingInt32 \<Rightarrow> TCPSegment" where
  "rst_seg sqn = TCPSegment_new\<lparr>seg_header := TCPHeader_new\<lparr>th_seqno := sqn, th_rst := True\<rparr>\<rparr>"

lemma sendRSTSeg_eq:
  "sendRSTSeg c =
     c\<lparr>cn_segments_out :=
         [rst_seg (case cn_segments_out c @ sn_segments_out (cn_sender c) of
                     first # _ \<Rightarrow> th_seqno (seg_header first)
                   | [] \<Rightarrow> next_seqno (cn_sender c))],
       cn_sender := (cn_sender c)\<lparr>sn_segments_out := []\<rparr>\<rparr>"
proof -
  have stamp: "stamp r \<lparr>seg_header = TCPHeader_new\<lparr>th_seqno := x, th_rst := True\<rparr>,
      seg_payload = Buffer_default\<rparr> = rst_seg x" for r x
    by (simp add: stamp_def rst_seg_def TCPSegment_new_def Let_def split: option.split)
  show ?thesis
    by (auto simp: sendRSTSeg_def on_sender_def send_empty_segment_def mark_front_rst_def mark_back_rst_def
        updateOutput_def next_seqno_def TCPSegment_new_def stamp Let_def split: list.split)
qed

lemma sendRSTSeg_inv:
  assumes "conn_inv S isn W c"
  shows "conn_inv S isn W (sendRSTSeg c)"
  using assms sender_inv_queue [of W "cn_sender c" "[]"]
  by (simp add: sendRSTSeg_eq conn_inv_def rst_seg_def seg_valid_rst)

lemma ByteStream_set_error_fields [simp]:
  "ByteStream_inv (ByteStream_set_error st) = ByteStream_inv st"
  "bs_buf (ByteStream_set_error st) = bs_buf st" "bs_size (ByteStream_set_error st) = bs_size st"
  "bs_capacity (ByteStream_set_error st) = bs_capacity st"
  "bs_isInputEnd (ByteStream_set_error st) = bs_isInputEnd st"
  "bs_num_bytes_read (ByteStream_set_error st) = bs_num_bytes_read st"
  "bs_num_bytes_written (ByteStream_set_error st) = bs_num_bytes_written st"
  "bs_error (ByteStream_set_error st)"
  by (simp_all add: ByteStream_set_error_def ByteStream_inv_def)

lemma uncleanShutdown_inv: "conn_inv S isn W c \<Longrightarrow> conn_inv S isn W (uncleanShutdown c)"
  unfolding conn_inv_def
proof (elim conjE exE, intro conjI)
  fix g
  assume s: "sender_inv W (cn_sender c)" and r: "recv_inv S isn g (cn_receiver c)"
    and v: "\<forall>seg \<in> set (cn_segments_out c).
      seg_valid (sn_isn (cn_sender c)) W (bs_isInputEnd (sn_stream (cn_sender c))) seg"
  show "sender_inv W (cn_sender (uncleanShutdown c))"
    using s by (simp add: uncleanShutdown_def sender_inv_def stream_inv_def Let_def)
  show "\<exists>g. recv_inv S isn g (cn_receiver (uncleanShutdown c))"
    using r by (intro exI [of _ g]) (auto simp: uncleanShutdown_def recv_inv_def reasm_inv_def sr_inv_def
        TCPReceiver_stream_out_def Let_def)
  show "\<forall>seg \<in> set (cn_segments_out (uncleanShutdown c)).
      seg_valid (sn_isn (cn_sender (uncleanShutdown c))) W
        (bs_isInputEnd (sn_stream (cn_sender (uncleanShutdown c)))) seg"
    using v by (simp add: uncleanShutdown_def Let_def)
qed

section \<open>Inbound segments\<close>

text \<open>The peer's side for one segment, in the state it arrives in.\<close>

definition acks_ok :: "bytes \<Rightarrow> TCPHeader \<Rightarrow> nat \<Rightarrow> TCPConnection \<Rightarrow> bool" where
  "acks_ok W h a c \<longleftrightarrow> (th_ack h \<longrightarrow> send_ok (W, cn_sender c) (SAck (th_ackno h) (th_win h) a))"

definition peer_ok :: "bytes \<Rightarrow> WrappingInt32 \<Rightarrow> bytes \<Rightarrow> TCPSegment \<Rightarrow> nat \<Rightarrow> nat \<Rightarrow> TCPConnection \<Rightarrow> bool" where
  "peer_ok S isn W seg i a c \<longleftrightarrow>
     recv_ok S isn (cn_receiver c) (Arrive seg i) \<and> acks_ok W (seg_header seg) a c"

lemma acks_ok_flags [simp]:
  "acks_ok W h a (c\<lparr>cn_receiver := r\<rparr>) = acks_ok W h a c"
  "acks_ok W h a (c\<lparr>cn_time_since_last_segment_received := ms\<rparr>) = acks_ok W h a c"
  "acks_ok W h a (updateOutput (on_sender send_empty_segment c)) = acks_ok W h a c"
  by (simp_all add: acks_ok_def updateOutput_def on_sender_def send_empty_segment_def Let_def)

lemma to_receiver_inv:
  assumes "conn_inv S isn W c" "recv_ok S isn (cn_receiver c) (Arrive seg i)" "acks_ok W h a c"
  shows "ok_result (\<lambda>c'. conn_inv S isn W c' \<and> acks_ok W h a c') (to_receiver seg c)"
proof -
  obtain g where "recv_inv S isn g (cn_receiver c)" using assms(1) by (auto simp: conn_inv_def)
  from recv_arrive_law [OF this assms(2)] obtain r where
    "TCPReceiver_segment_received (cn_receiver c) seg = Inr r" "\<exists>g. recv_inv S isn g r" by blast
  then show ?thesis using assms by (auto simp: to_receiver_def ok_result_def conn_inv_def)
qed

lemma take_ack_inv:
  assumes inv: "conn_inv S isn W c" and ok: "acks_ok W h a c"
  shows "ok_result (conn_inv S isn W) (take_ack h c)"
proof (cases "th_ack h")
  case True
  have s: "sender_inv W (cn_sender c)" using inv by (simp add: conn_inv_def)
  have "send_ok (W, cn_sender c) (SAck (th_ackno h) (th_win h) a)" using ok True by (simp add: acks_ok_def)
  from ack_law [OF s this] obtain t where
    t: "ack_received (cn_sender c) (th_ackno h) (th_win h) = Inr t" "sender_inv W t" by blast
  then show ?thesis
    using inv True ack_received_frame [OF t(1)]
    by (auto simp: take_ack_def on_sender_result_def conn_inv_def same_frame_def)
next
  case False
  then show ?thesis using inv by (simp add: take_ack_def)
qed

lemma sender_tick_inv:
  assumes inv: "conn_inv S isn W c"
  shows "ok_result (conn_inv S isn W) (on_sender_result (\<lambda>s. TCPSender_tick s ms) c)"
proof -
  have "sender_inv W (cn_sender c)" using inv by (simp add: conn_inv_def)
  from tick_inv [OF this] obtain t where t: "TCPSender_tick (cn_sender c) ms = Inr t" "sender_inv W t" by blast
  then show ?thesis
    using inv tick_frame [OF t(1)] by (auto simp: on_sender_result_def conn_inv_def same_frame_def)
qed

interpretation ci: endpoint_laws "conn_inv S isn W" "\<lambda>seg c. conn_inv S isn W c \<and> (\<exists>i a. peer_ok S isn W seg i a c)"
    "\<lambda>seg c. conn_inv S isn W c \<and> (\<exists>a. acks_ok W (seg_header seg) a c)"
  for S isn W
proof
  fix seg c
  show "ok_result (\<lambda>c. conn_inv S isn W c \<and> (\<exists>a. acks_ok W (seg_header seg) a c)) (to_receiver seg c)"
    if "conn_inv S isn W c \<and> (\<exists>i a. peer_ok S isn W seg i a c)"
    using that to_receiver_inv unfolding peer_ok_def by (blast intro: ok_result_mono)
qed (auto simp: peer_ok_def simp del: recv_ok.simps intro: conn_inv_steps uncleanShutdown_inv sendRSTSeg_inv take_ack_inv sender_tick_inv)

lemma segment_received_inv:
  "conn_inv S isn W c \<Longrightarrow> peer_ok S isn W seg i a c \<Longrightarrow>
     ok_result (conn_inv S isn W) (TCPConnection_segment_received c seg)"
  by (rule ci.segment_received) blast

section \<open>The owner's calls\<close>

lemma write_inv:
  assumes inv: "conn_inv S isn W c" and len: "length W + length data < 2 ^ 62"
  shows "conn_inv S isn (W @ take (fst (TCPConnection_write c data)) data) (snd (TCPConnection_write c data))"
proof (cases "data = []")
  case True
  then show ?thesis using inv by (simp add: TCPConnection_write_def)
next
  case False
  let ?s = "cn_sender c"
  obtain n st where w: "ByteStream_write (sn_stream ?s) data = (n, st)" by (cases "ByteStream_write (sn_stream ?s) data")
  let ?W = "W @ take n data" and ?c = "c\<lparr>cn_sender := ?s\<lparr>sn_stream := st\<rparr>\<rparr>"
  have s: "sender_inv W ?s" using inv by (simp add: conn_inv_def)
  then have bs: "ByteStream_inv (sn_stream ?s)" by (simp add: sender_inv_def stream_inv_def)
  have "sender_inv ?W (?s\<lparr>sn_stream := st\<rparr>)" using write_law [OF s len] by (simp add: w send_inv_def)
  moreover have "bs_isInputEnd st = bs_isInputEnd (sn_stream ?s)"
    "bs_isInputEnd (sn_stream ?s) \<Longrightarrow> take n data = []"
    using w by (auto simp: ByteStream_write_inv_eq [OF bs] write_room_def Let_def)
  ultimately have "conn_inv S isn ?W ?c"
    using inv seg_valid_mono [of "sn_isn ?s" W "bs_isInputEnd (sn_stream ?s)" _ "bs_isInputEnd (sn_stream ?s)" "take n data"]
    by (auto simp: conn_inv_def)
  then show ?thesis
    using False by (simp add: TCPConnection_write_def w conn_inv_steps)
qed

lemma end_input_inv:
  assumes "conn_inv S isn W c"
  shows "conn_inv S isn W (end_input_stream c)"
proof -
  let ?e = "\<lambda>s. s\<lparr>sn_stream := ByteStream_end_input (sn_stream s)\<rparr>"
  have "seg_valid i W True seg" if "seg_valid i W e seg" for i e seg
    using seg_valid_mono [OF that, of True "[]"] by simp
  then have "conn_inv S isn W (on_sender ?e c)"
    using assms end_law [of W "cn_sender c"]
    by (auto simp: conn_inv_def on_sender_def ByteStream_end_input_def)
  then show ?thesis by (simp add: end_input_stream_def conn_inv_steps)
qed

section \<open>Executions\<close>

text \<open>
  \<open>CSegment seg i a\<close>: \<open>seg\<close> arrives; \<open>i\<close> and \<open>a\<close> record the stream index of its payload and the absolute
  acknowledgment number, which the code does not see. \<open>CRead\<close> is the application reading,
  \<open>CFlush\<close> the owner taking all outgoing segments.
\<close>

datatype conn_op =
    CConnect
  | CWrite bytes
  | CEnd
  | CSegment TCPSegment nat nat
  | CTick nat
  | CRead nat
  | CFlush

definition read_inbound :: "TCPConnection \<Rightarrow> nat \<Rightarrow> TCPConnection" where
  "read_inbound c n =
     (let r = cn_receiver c; re = rc_reassembler r
      in c\<lparr>cn_receiver := r\<lparr>rc_reassembler := re\<lparr>sr_output := ByteStream_pop_output (sr_output re) n\<rparr>\<rparr>\<rparr>)"

definition keeping :: "bytes \<Rightarrow> TCPConnection result \<Rightarrow> (bytes \<times> TCPConnection) result" where
  "keeping W r = bind_result r (\<lambda>c. Inr (W, c))"

fun conn_step :: "bytes \<times> TCPConnection \<Rightarrow> conn_op \<Rightarrow> (bytes \<times> TCPConnection) result" where
  "conn_step (W, c) CConnect = Inr (W, connect c)"
| "conn_step (W, c) (CWrite d) =
     Inr (W @ take (fst (TCPConnection_write c d)) d, snd (TCPConnection_write c d))"
| "conn_step (W, c) CEnd = Inr (W, end_input_stream c)"
| "conn_step (W, c) (CSegment seg i a) = keeping W (TCPConnection_segment_received c seg)"
| "conn_step (W, c) (CTick ms) = keeping W (TCPConnection_tick c ms)"
| "conn_step (W, c) (CRead n) = Inr (W, read_inbound c n)"
| "conn_step (W, c) CFlush = Inr (W, c\<lparr>cn_segments_out := []\<rparr>)"

fun conn_ok :: "bytes \<Rightarrow> WrappingInt32 \<Rightarrow> bytes \<times> TCPConnection \<Rightarrow> conn_op \<Rightarrow> bool" where
  "conn_ok S isn (W, c) (CWrite d) \<longleftrightarrow> length W + length d < 2 ^ 62"
| "conn_ok S isn (W, c) (CSegment seg i a) \<longleftrightarrow> peer_ok S isn W seg i a c"
| "conn_ok S isn (W, c) _ \<longleftrightarrow> True"

definition conn_run_inv :: "bytes \<Rightarrow> WrappingInt32 \<Rightarrow> unit \<Rightarrow> bytes \<times> TCPConnection \<Rightarrow> bool" where
  "conn_run_inv S isn u wc \<longleftrightarrow> conn_inv S isn (fst wc) (snd wc)"

lemma read_inbound_inv:
  assumes "conn_inv S isn W c"
  shows "conn_inv S isn W (read_inbound c n)"
proof -
  obtain g where "recv_inv S isn g (cn_receiver c)" using assms by (auto simp: conn_inv_def)
  then have "recv_inv S isn (recv_ghost g (Read n)) (cn_receiver (read_inbound c n))"
    using recv_read_law [of S isn g "cn_receiver c" n] by (simp add: read_inbound_def Let_def)
  moreover have "cn_sender (read_inbound c n) = cn_sender c"
    "cn_segments_out (read_inbound c n) = cn_segments_out c"
    by (simp_all add: read_inbound_def Let_def)
  ultimately show ?thesis using assms unfolding conn_inv_def by metis
qed

lemma keeping_inv:
  "ok_result (conn_inv S isn W) r \<Longrightarrow> \<exists>t. keeping W r = Inr t \<and> conn_run_inv S isn u t"
  by (auto simp: ok_result_def keeping_def conn_run_inv_def)

interpretation cn: guarded_system conn_step "conn_run_inv S isn" "\<lambda>u e. u" "conn_ok S isn"
  for S isn
proof
  fix g :: unit and wc e
  assume inv: "conn_run_inv S isn g wc" and ok: "conn_ok S isn wc e"
  obtain W c where wc: "wc = (W, c)" by (cases wc)
  have ci: "conn_inv S isn W c" using inv by (simp add: wc conn_run_inv_def)
  show "\<exists>t. conn_step wc e = Inr t \<and> conn_run_inv S isn g t"
  proof (cases e)
    case CConnect
    then show ?thesis using ci by (simp add: wc conn_run_inv_def connect_def conn_inv_steps)
  next
    case (CWrite d)
    then show ?thesis using write_inv [OF ci, of d] ok by (simp add: wc conn_run_inv_def)
  next
    case CEnd
    then show ?thesis using end_input_inv [OF ci] by (simp add: wc conn_run_inv_def)
  next
    case (CSegment seg i a)
    then show ?thesis
      using keeping_inv [OF segment_received_inv [OF ci, of seg i a]] ok by (simp add: wc)
  next
    case (CTick ms)
    then show ?thesis using keeping_inv [OF ci.tick [OF ci, of ms]] by (simp add: wc)
  next
    case (CRead n)
    then show ?thesis using read_inbound_inv [OF ci, of n] by (simp add: wc conn_run_inv_def)
  next
    case CFlush
    then show ?thesis using ci by (simp add: wc conn_run_inv_def conn_inv_def)
  qed
qed

section \<open>Properties\<close>

text \<open>
  Claim C5. Safety of an endpoint: connect, write, close, read, let time pass and receive segments
  of a peer that keeps its contract, in any order. No call faults (no undefined behaviour and
  no exception in the sender, the receiver or the reassembler). What the application has not read of
  the inbound stream is the next part of the peer's stream \<open>S\<close>; every segment waiting to be sent
  is valid for the bytes \<open>W\<close> accepted from the application; no more than the peer's window is in
  flight.
\<close>

theorem connection_safe:
  assumes "length S + cfg_recv_capacity cfg < 2 ^ 62" "cfg_send_capacity cfg < two64"
    and "allowed conn_step (conn_ok S isn) ([], TCPConnection_new cfg rand) ops"
  shows "\<exists>W c. run conn_step ([], TCPConnection_new cfg rand) ops = Inr (W, c) \<and>
    bs_buf (inbound_stream c) =
      drop (ByteStream_bytes_read (inbound_stream c))
        (take (ByteStream_bytes_written (inbound_stream c)) S) \<and>
    (\<forall>seg \<in> set (cn_segments_out c).
       seg_valid (sn_isn (cn_sender c)) W (ByteStream_input_ended (sn_stream (cn_sender c))) seg) \<and>
    TCPConnection_bytes_in_flight c \<le> uq_win_size (sn_unAckQueue (cn_sender c))"
proof -
  have "conn_run_inv S isn () ([], TCPConnection_new cfg rand)"
    using conn_inv_new [OF assms(1,2)] by (simp add: conn_run_inv_def)
  from cn.run_law [OF this assms(3)] obtain W c where
    run: "run conn_step ([], TCPConnection_new cfg rand) ops = Inr (W, c)"
    and inv: "conn_inv S isn W c" by (auto simp: conn_run_inv_def)
  let ?q = "sn_unAckQueue (cn_sender c)" and ?re = "rc_reassembler (cn_receiver c)"
  have qi: "queue_inv W (bs_isInputEnd (sn_stream (cn_sender c))) (bs_num_bytes_read (sn_stream (cn_sender c))) ?q"
    and len: "length W < 2 ^ 62"
    using inv by (auto simp: conn_inv_def sender_inv_def stream_inv_def)
  have "TCPConnection_bytes_in_flight c \<le> uq_win_size ?q"
    using bytesInFlight_eq [OF qi len] qi
    by (auto simp: TCPConnection_bytes_in_flight_def TCPSender_bytes_in_flight_def queue_inv_def)
  moreover obtain g where re: "reasm_inv S g ?re" using inv by (auto simp: conn_inv_def recv_inv_def)
  then have "bs_buf (inbound_stream c) = drop (ByteStream_bytes_read (inbound_stream c))
      (take (ByteStream_bytes_written (inbound_stream c)) S)"
    using reasm_inv_written [OF re]
    by (simp add: inbound_stream_def TCPReceiver_stream_out_def reasm_inv_def)
  ultimately show ?thesis using run inv by (auto simp: conn_inv_def)
qed

definition demo_cfg :: TCPConfig where
  "demo_cfg = \<lparr>cfg_rt_timeout = 1000, cfg_recv_capacity = 10, cfg_send_capacity = 10, cfg_fixed_isn = Some 5\<rparr>"

text \<open>The peer's SYN, with initial sequence number 9, acknowledging ours.\<close>

definition demo_synack :: TCPSegment where
  "demo_synack = TCPSegment_new\<lparr>seg_header :=
     TCPHeader_new\<lparr>th_seqno := 9, th_syn := True, th_ack := True, th_ackno := 6, th_win := 10\<rparr>\<rparr>"

definition demo_data :: TCPSegment where
  "demo_data = \<lparr>seg_header =
     TCPHeader_new\<lparr>th_seqno := 10, th_ack := True, th_ackno := 8, th_win := 10\<rparr>, seg_payload = Buffer_new [7]\<rparr>"

lemmas conn_eval =
  TCPConnection_new_def demo_cfg_def demo_synack_def demo_data_def connect_def on_sender_def
  on_sender_result_def updateOutput_def stamp_def TCPReceiver_ackno_def TCPReceiver_window_size_def
  TCPReceiver_stream_out_def TCPConnection_segment_received_def recv_in_listen_def recv_in_stream_def
  recv_out_of_order_def recv_after_fin_def to_receiver_def take_ack_def receiver_FIN_recv_def
  receiver_in_listen_def length_in_sequence_space_def TCPReceiver_new_def
  TCPReceiver_segment_received_def TCPReceiver_push_def Buffer_str_def Buffer_default_def Buffer_new_def
  Buffer_copy_def keeping_def TCPConnection_write_def end_input_stream_def TCPConnection_tick_def
  send_empty_segment_def cleanShutdown_def uncleanShutdown_def finAcked_def
  consecutive_retransmissions_def MAX_RETX_ATTEMPTS_def WrappingInt32_plus_def

lemma seqno_demo2: "wrap (Suc 0) 9 = 10" "wrap 2 9 = 11" "wrap 0 5 = 5" "unwrap 10 9 0 = 1"
proof -
  show w: "wrap (Suc 0) 9 = 10" "wrap 2 9 = 11" "wrap 0 5 = 5"
    by (simp_all add: wrap_def WrappingInt32_plus_def)
  show "unwrap 10 9 0 = 1" using unwrap_wrap_near [of 0 1 9] w by simp
qed

theorem connection_safe_witness:
  "\<exists>W c. run conn_step ([], TCPConnection_new demo_cfg 0)
      [CConnect, CSegment demo_synack 0 1, CWrite [1, 2], CSegment demo_data 0 3, CRead 1] = Inr (W, c) \<and>
    (\<forall>seg \<in> set (cn_segments_out c).
       seg_valid (sn_isn (cn_sender c)) W (ByteStream_input_ended (sn_stream (cn_sender c))) seg)"
proof -
  let ?ops = "[CConnect, CSegment demo_synack 0 1, CWrite [1, 2], CSegment demo_data 0 3, CRead 1]"
  have cfg: "length [7 :: byte] + cfg_recv_capacity demo_cfg < 2 ^ 62" "cfg_send_capacity demo_cfg < two64"
    by (simp_all add: demo_cfg_def two64_def)
  have ok: "allowed conn_step (conn_ok [7] 9) ([], TCPConnection_new demo_cfg 0) ?ops"
    by (simp add: conn_eval sender_eval reasm_eval seqno_demo seqno_demo2 peer_ok_def acks_ok_def
        push_of_def ack_boundary_def)
  show ?thesis using connection_safe [OF cfg ok] by blast
qed

end
