(* ===== verification/Connection_Behaviour.thy ===== *)
theory Connection_Behaviour
  imports Connection_Correct
begin

text \<open>
  What an endpoint does over time: the official TCP states it goes through when it opens and closes
  actively or passively, how it gives up and how it is reset, and where it departs from what a peer
  may expect.
\<close>

section \<open>The states of the two openings and closings\<close>

fun state_trace :: "TCPConnection \<Rightarrow> conn_op list \<Rightarrow> TCPState list result" where
  "state_trace c [] = Inr [TCPConnection_state c]"
| "state_trace c (e # es) =
     bind_result (conn_step ([], c) e) (\<lambda>(W, c').
       bind_result (state_trace c' es) (\<lambda>ts. Inr (TCPConnection_state c # ts)))"

text \<open>A segment without payload, as the peer sends it.\<close>

definition ctl_seg ::
  "WrappingInt32 \<Rightarrow> bool \<Rightarrow> bool \<Rightarrow> WrappingInt32 option \<Rightarrow> uint16 \<Rightarrow> TCPSegment" where
  "ctl_seg seqno syn fin ack win =
     TCPSegment_new\<lparr>seg_header :=
       TCPHeader_new\<lparr>th_seqno := seqno, th_syn := syn, th_fin := fin, th_ack := (ack \<noteq> None),
         th_ackno := (case ack of None \<Rightarrow> 0 | Some a \<Rightarrow> a), th_win := win\<rparr>\<rparr>"

lemma ctl_seg_simps [simp]:
  "th_seqno (seg_header (ctl_seg q s f a w)) = q" "th_syn (seg_header (ctl_seg q s f a w)) = s"
  "th_fin (seg_header (ctl_seg q s f a w)) = f" "th_rst (seg_header (ctl_seg q s f a w)) = False"
  "th_ack (seg_header (ctl_seg q s f a w)) = (a \<noteq> None)" "th_win (seg_header (ctl_seg q s f a w)) = w"
  "th_ackno (seg_header (ctl_seg q s f (Some x) w)) = x"
  "Buffer_str (seg_payload (ctl_seg q s f a w)) = []" "Buffer_copy (seg_payload (ctl_seg q s f a w)) = []"
  "length_in_sequence_space (ctl_seg q s f a w) = of_bool s + of_bool f"
  by (simp_all add: ctl_seg_def TCPSegment_new_def TCPHeader_new_def Buffer_copy_def
      length_in_sequence_space_def)

lemma rst_seg_simps [simp]:
  "th_seqno (seg_header (rst_seg q)) = q" "\<not> th_syn (seg_header (rst_seg q))"
  "\<not> th_fin (seg_header (rst_seg q))" "th_rst (seg_header (rst_seg q))" "\<not> th_ack (seg_header (rst_seg q))"
  "Buffer_str (seg_payload (rst_seg q)) = []" "Buffer_copy (seg_payload (rst_seg q)) = []"
  "length_in_sequence_space (rst_seg q) = 0"
  by (simp_all add: rst_seg_def TCPSegment_new_def TCPHeader_new_def Buffer_copy_def
      length_in_sequence_space_def)

lemma unwrap_wrap_small [simp]:
  "unwrap (wrap (Suc 0) isn) isn 0 = 1" "unwrap (wrap 2 isn) isn (Suc 0) = 2"
  "unwrap (wrap (Suc 0) isn) isn (Suc 0) = 1" "unwrap (wrap 2 isn) isn 0 = 2" "unwrap (wrap 2 isn) isn 2 = 2"
  "unwrap (wrap 2 isn) isn (Suc (Suc 0)) = 2"
  using unwrap_wrap_near [of 0 1 isn] unwrap_wrap_near [of 1 2 isn] unwrap_wrap_near [of 1 1 isn]
    unwrap_wrap_near [of 0 2 isn] unwrap_wrap_near [of 2 2 isn]
  by (simp_all flip: numeral_2_eq_2)

lemma wrap_small_neq [simp]:
  "wrap 2 isn \<noteq> wrap (Suc 0) isn" "wrap (Suc 0) isn \<noteq> wrap 2 isn" "wrap 2 isn \<noteq> wrap 0 isn" "wrap (Suc 0) isn \<noteq> wrap 0 isn"
  "wrap (Suc 0) isn + 1 = wrap 2 isn"
  using wrap_eq_iff [of 2 isn 1] wrap_eq_iff [of 2 isn 0] wrap_eq_iff [of 1 isn 0] wrap_plus_1 [of 1 isn]
  by (auto simp: WrappingInt32_plus_def numeral_2_eq_2)

lemma ten_timeouts [simp]: "10 * unat (rto :: uint16) mod 18446744073709551616 = 10 * unat rto"
proof -
  have "unat rto < 65536" using unsigned_less [of rto, where 'a = nat] by simp
  then show ?thesis by simp
qed

lemma wrap_0 [simp]: "wrap 0 isn = isn"
  by (simp add: wrap_def WrappingInt32_plus_def)

lemmas owner_eval =
  TCPConnection_new_def connect_def on_sender_def
  on_sender_result_def updateOutput_def stamp_def TCPReceiver_ackno_def TCPReceiver_window_size_def
  TCPReceiver_stream_out_def TCPConnection_segment_received_def recv_in_listen_def recv_in_stream_def
  recv_out_of_order_def recv_after_fin_def to_receiver_def take_ack_def receiver_FIN_recv_def
  receiver_in_listen_def TCPReceiver_new_def
  TCPReceiver_segment_received_def TCPReceiver_push_def
  keeping_def TCPConnection_write_def end_input_stream_def TCPConnection_tick_def
  send_empty_segment_def cleanShutdown_def uncleanShutdown_def finAcked_def
  consecutive_retransmissions_def MAX_RETX_ATTEMPTS_def WrappingInt32_plus_def

lemmas state_eval =
  TCPConnection_state_def TCPState_of_def state_summary_sender_def state_summary_receiver_def
  official_def next_seqno_absolute_def TCPSender_bytes_in_flight_def TCPConnection_active_def

text \<open>
  Claim C13. The active side: connect, receive the peer's SYN and acknowledgment, close, have the FIN
  acknowledged, receive the peer's FIN, and wait ten initial timeouts. For every configuration and
  every pair of initial sequence numbers the summaries of the connection are the official ones,
  LISTEN, SYN_SENT, ESTABLISHED, FIN_WAIT_1, FIN_WAIT_2, TIME_WAIT, CLOSED.
\<close>

theorem active_open_close:
  "state_trace (TCPConnection_new \<lparr>cfg_rt_timeout = rto, cfg_recv_capacity = rcap, cfg_send_capacity = scap,
        cfg_fixed_isn = Some isn\<rparr> rand)
     [CConnect, CSegment (ctl_seg pisn True False (Some (wrap 1 isn)) 10) 0 1, CEnd,
      CSegment (ctl_seg (wrap 1 pisn) False False (Some (wrap 2 isn)) 10) 0 2,
      CSegment (ctl_seg (wrap 1 pisn) False True (Some (wrap 2 isn)) 10) 0 2,
      CTick (10 * unat rto)] =
   Inr (map official [LISTEN, SYN_SENT, ESTABLISHED, FIN_WAIT_1, FIN_WAIT_2, TIME_WAIT, CLOSED])"
  by (simp add: owner_eval sender_eval reasm_eval state_eval)

text \<open>
  Claim C14. The passive side: receive a SYN, the acknowledgment of ours, the peer's FIN, close, and
  have the FIN acknowledged: LISTEN, SYN_RCVD, ESTABLISHED, CLOSE_WAIT, LAST_ACK, CLOSED, with no
  lingering.
\<close>

theorem passive_open_close:
  "state_trace (TCPConnection_new \<lparr>cfg_rt_timeout = rto, cfg_recv_capacity = rcap, cfg_send_capacity = scap,
        cfg_fixed_isn = Some isn\<rparr> rand)
     [CSegment (ctl_seg pisn True False None 10) 0 0,
      CSegment (ctl_seg (wrap 1 pisn) False False (Some (wrap 1 isn)) 10) 0 1,
      CSegment (ctl_seg (wrap 1 pisn) False True (Some (wrap 1 isn)) 10) 0 1, CEnd,
      CSegment (ctl_seg (wrap 2 pisn) False False (Some (wrap 2 isn)) 10) 0 2] =
   Inr (map official [LISTEN, SYN_RCVD, ESTABLISHED, CLOSE_WAIT, LAST_ACK, CLOSED])"
  by (simp add: owner_eval sender_eval reasm_eval state_eval)

text \<open>
  Both sides close at once: the peer's FIN arrives before our own is acknowledged, and the
  acknowledgment follows: FIN_WAIT_1, CLOSING, TIME_WAIT, CLOSED.
\<close>

lemma simultaneous_close:
  "state_trace (TCPConnection_new \<lparr>cfg_rt_timeout = rto, cfg_recv_capacity = rcap, cfg_send_capacity = scap,
        cfg_fixed_isn = Some isn\<rparr> rand)
     [CConnect, CSegment (ctl_seg pisn True False (Some (wrap 1 isn)) 10) 0 1, CEnd,
      CSegment (ctl_seg (wrap 1 pisn) False True (Some (wrap 1 isn)) 10) 0 1,
      CSegment (ctl_seg (wrap 2 pisn) False False (Some (wrap 2 isn)) 10) 0 2,
      CTick (10 * unat rto)] =
   Inr (map official [LISTEN, SYN_SENT, ESTABLISHED, FIN_WAIT_1, CLOSING, TIME_WAIT, CLOSED])"
  by (simp add: owner_eval sender_eval reasm_eval state_eval)

section \<open>Giving up\<close>

text \<open>
  In CLOSING the connection does not wait for its own FIN to be acknowledged: ten initial
  timeouts after the peer's FIN it shuts down as if the closing were complete, with the FIN still
  in flight.
\<close>

lemma closing_shuts_down_unacked:
  "\<exists>c. run conn_step ([], TCPConnection_new \<lparr>cfg_rt_timeout = rto, cfg_recv_capacity = rcap,
        cfg_send_capacity = scap, cfg_fixed_isn = Some isn\<rparr> rand)
     [CConnect, CSegment (ctl_seg pisn True False (Some (wrap 1 isn)) 10) 0 1, CEnd,
      CSegment (ctl_seg (wrap 1 pisn) False True (Some (wrap 1 isn)) 10) 0 1, CTick (10 * unat rto)] = Inr ([], c) \<and>
   \<not> TCPConnection_active c \<and> TCPConnection_bytes_in_flight c = 1 \<and>
   \<not> ByteStream_has_error (sn_stream (cn_sender c))"
  by (simp add: owner_eval sender_eval reasm_eval state_eval TCPConnection_bytes_in_flight_def)

text \<open>The summary after an unclean shutdown is the official RESET.\<close>

lemma uncleanShutdown_state: "TCPConnection_state (uncleanShutdown c) = official RESET"
  by (simp add: uncleanShutdown_def state_eval TCPReceiver_stream_out_def ByteStream_set_error_def Let_def)

lemma uncleanShutdown_out [simp]: "cn_segments_out (uncleanShutdown c) = cn_segments_out c"
  by (simp add: uncleanShutdown_def Let_def)

text \<open>
  Claim C35. Too many retransmissions: when the timer of an active connection expires after
  \<open>MAX_RETX_ATTEMPTS\<close> consecutive retransmissions, the connection is reset. Of everything that was
  still waiting to be sent only one RST remains; it carries the sequence number of the first
  segment it replaces, which is the oldest unacknowledged one when nothing else was waiting.
\<close>

theorem retx_limit_resets:
  assumes inv: "conn_inv S isn W c" and "cn_active c" "tm_isTimerRunning (sn_timer (cn_sender c))"
    and "unat (tm_timeout (sn_timer (cn_sender c))) \<le> add64 (tm_msSinceBaseSegSent (sn_timer (cn_sender c))) ms"
    and "consecutive_retransmissions (cn_sender c) = MAX_RETX_ATTEMPTS"
  shows "\<exists>c'. TCPConnection_tick c ms = Inr c' \<and> TCPConnection_state c' = official RESET \<and>
    cn_segments_out c' =
      [rst_seg (case cn_segments_out c @ sn_segments_out (cn_sender c) of
                  first # _ \<Rightarrow> th_seqno (seg_header first)
                | [] \<Rightarrow> wrap (uq_baseSqn (sn_unAckQueue (cn_sender c))) (sn_isn (cn_sender c)))]"
proof -
  have "sender_inv W (cn_sender c)" using inv by (simp add: conn_inv_def)
  from expired_tick [OF this assms(3,4)] obtain seg t where
    t: "TCPSender_tick (cn_sender c) ms = Inr t" "sn_segments_out t = sn_segments_out (cn_sender c) @ [seg]"
      "th_seqno (seg_header seg) = wrap (uq_baseSqn (sn_unAckQueue (cn_sender c))) (sn_isn (cn_sender c))"
      "consecutive_retransmissions t = 9"
    using assms(5) by (auto simp: MAX_RETX_ATTEMPTS_def)
  have stamp: "th_seqno (seg_header (stamp r sg)) = th_seqno (seg_header sg)" for r sg
    by (simp add: stamp_def Let_def split: option.split)
  have limit: "MAX_RETX_ATTEMPTS < consecutive_retransmissions (t\<lparr>sn_segments_out := []\<rparr>)"
    using t(4) by (simp add: MAX_RETX_ATTEMPTS_def consecutive_retransmissions_def)
  show ?thesis
    using assms(2) t(1,2,3) limit
    by (cases "cn_segments_out c"; cases "sn_segments_out (cn_sender c)")
      (simp_all add: TCPConnection_tick_def on_sender_result_def uncleanShutdown_state sendRSTSeg_eq
        updateOutput_def updateOutput_loop_eq stamp Let_def)
qed

text \<open>
  A peer that never answers: with the default configuration the SYN is retransmitted when
  1, 2, 4, ... 128 seconds have passed and the connection is reset when the ninth timeout, of 256
  seconds, expires; one RST is left to send, at the initial sequence number.
\<close>

lemma silent_peer_resets:
  "state_trace (TCPConnection_new TCPConfig_default isn)
     (CConnect # map (\<lambda>k. CTick (1000 * k)) [1, 2, 4, 8, 16, 32, 64, 128, 256]) =
   Inr (map official [LISTEN, SYN_SENT, SYN_SENT, SYN_SENT, SYN_SENT, SYN_SENT, SYN_SENT, SYN_SENT, SYN_SENT,
     SYN_SENT, RESET]) \<and>
   (\<exists>c. run conn_step ([], TCPConnection_new TCPConfig_default isn)
       (CConnect # map (\<lambda>k. CTick (1000 * k)) [1, 2, 4, 8, 16, 32, 64, 128, 256]) = Inr ([], c) \<and>
     cn_segments_out c = [rst_seg isn])"
  by (simp add: owner_eval sender_eval state_eval TCPConfig_default_def TIMEOUT_DFLT_def DEFAULT_CAPACITY_def
      sendRSTSeg_eq StreamReassembler_new_def)

theorem retx_limit_resets_witness:
  "\<exists>c c'. TCPConnection_tick c 1000 = Inr c' \<and> TCPConnection_state c = official SYN_SENT \<and>
     TCPConnection_state c' = official RESET \<and> cn_segments_out c' = [rst_seg 5]"
proof -
  define s where "s = TCPSender_new 10 1000 (Some 5) 0"
  define q where "q = UnAckQueue_new\<lparr>uq_synSent := True, uq_next_seqno := 1\<rparr>"
  define c where "c = (TCPConnection_new demo_cfg 0)\<lparr>cn_sender := s\<lparr>sn_unAckQueue := q,
    sn_timer := (startTimer (Timer_new 1000))\<lparr>tm_consecutive_retransmissions := 8\<rparr>\<rparr>\<rparr>"
  have "conn_inv [] 9 [] (TCPConnection_new demo_cfg 0)"
    by (rule conn_inv_new) (simp_all add: demo_cfg_def two64_def)
  then have inv: "conn_inv [] 9 [] c"
    by (simp add: c_def s_def q_def conn_inv_def sender_inv_def queue_inv_def stream_inv_def ByteStream_inv_def
        TCPConnection_new_def demo_cfg_def TCPSender_new_def ByteStream_new_def UnAckQueue_new_def
        startTimer_def two64_def add64_def)
  have f: "cn_active c" "tm_isTimerRunning (sn_timer (cn_sender c))"
    "unat (tm_timeout (sn_timer (cn_sender c))) \<le> add64 (tm_msSinceBaseSegSent (sn_timer (cn_sender c))) 1000"
    "consecutive_retransmissions (cn_sender c) = MAX_RETX_ATTEMPTS" "cn_segments_out c = []"
    "sn_segments_out (cn_sender c) = []" "uq_baseSqn (sn_unAckQueue (cn_sender c)) = 0" "sn_isn (cn_sender c) = 5"
    by (simp_all add: c_def s_def q_def TCPConnection_new_def TCPSender_new_def UnAckQueue_new_def Timer_new_def
        startTimer_def add64_def two64_def consecutive_retransmissions_def MAX_RETX_ATTEMPTS_def)
  have "TCPConnection_state c = official SYN_SENT"
    by (simp add: c_def s_def q_def state_eval sender_eval TCPConnection_new_def TCPReceiver_new_def
        StreamReassembler_new_def TCPReceiver_stream_out_def TCPReceiver_ackno_def)
  then show ?thesis using retx_limit_resets [OF inv f(1-4)] f(5-8) by auto
qed

section \<open>Being reset\<close>

text \<open>
  A RST at the expected sequence number, or any RST while the receiver still waits for a
  SYN, resets an active connection at once: both streams report an error, nothing is answered.
\<close>

lemma rst_received_resets:
  assumes "cn_active c" "th_rst (seg_header seg)"
    and "TCPReceiver_ackno (cn_receiver c) \<in> {None, Some (th_seqno (seg_header seg))}"
  shows "\<exists>c'. TCPConnection_segment_received c seg = Inr c' \<and> TCPConnection_state c' = official RESET \<and>
    cn_segments_out c' = cn_segments_out c \<and> \<not> TCPConnection_active c' \<and>
    ByteStream_has_error (inbound_stream c')"
proof -
  let ?c = "c\<lparr>cn_time_since_last_segment_received := 0\<rparr>"
  have "TCPConnection_segment_received c seg = Inr (uncleanShutdown ?c)"
    using assms by (auto simp: TCPConnection_segment_received_def Let_def)
  then show ?thesis
    by (simp add: uncleanShutdown_state)
      (simp add: uncleanShutdown_def TCPConnection_active_def inbound_stream_def TCPReceiver_stream_out_def
        ByteStream_set_error_def Let_def)
qed

lemma rst_received_resets_demo:
  "\<exists>c'. TCPConnection_segment_received (TCPConnection_new demo_cfg 0) (rst_seg 3) = Inr c' \<and>
     TCPConnection_state c' = official RESET"
proof -
  let ?c = "TCPConnection_new demo_cfg 0"
  have c: "cn_active ?c" "th_rst (seg_header (rst_seg 3))"
    "TCPReceiver_ackno (cn_receiver ?c) \<in> {None, Some (th_seqno (seg_header (rst_seg 3)))}"
    by (simp_all add: TCPConnection_new_def TCPReceiver_ackno_def TCPReceiver_new_def)
  show ?thesis using rst_received_resets [OF c] by blast
qed

lemma recv_out_of_order_answers:
  assumes "recv_out_of_order seg c = Inr c'"
  shows "cn_active c' = cn_active c \<and> (\<exists>out. cn_segments_out c' = cn_segments_out c @ out \<and> out \<noteq> [])"
proof -
  let ?fill = "\<lambda>d. if th_ack (seg_header seg) then on_sender fill_window d else d"
  let ?answer = "\<lambda>d. if sn_segments_out (cn_sender d) = [] then on_sender send_empty_segment d else d"
  obtain d e where d: "to_receiver seg c = Inr d" and e: "take_ack (seg_header seg) d = Inr e"
    and c': "c' = updateOutput (?answer (?fill e))"
    using assms by (auto simp: recv_out_of_order_def bind_result_eq_Inr Let_def)
  have "cn_active e = cn_active c \<and> cn_segments_out e = cn_segments_out c"
    using d e by (auto simp: to_receiver_def take_ack_def on_sender_result_def bind_result_eq_Inr
        split: if_splits)
  then show ?thesis
    unfolding c' by (simp add: on_sender_def updateOutput_def updateOutput_loop_eq send_empty_segment_def Let_def)
qed

text \<open>
  A RST that is not at the expected sequence number does not reset a connection that
  has seen the peer's SYN: it is treated like any other misplaced short segment, the connection
  stays active and at least one segment is sent in answer.
\<close>

lemma misplaced_rst_is_answered:
  assumes inv: "conn_inv S isn W c" and ok: "peer_ok S isn W seg i a c"
    and "cn_active c" "TCPReceiver_ackno (cn_receiver c) = Some x" "th_seqno (seg_header seg) \<noteq> x"
    and "th_rst (seg_header seg)" "length_in_sequence_space seg \<le> 1" "\<not> th_syn (seg_header seg)"
  shows "\<exists>c' out. TCPConnection_segment_received c seg = Inr c' \<and> TCPConnection_active c' \<and>
    cn_segments_out c' = cn_segments_out c @ out \<and> out \<noteq> []"
proof -
  let ?c = "c\<lparr>cn_time_since_last_segment_received := 0\<rparr>"
  have eq: "TCPConnection_segment_received c seg = recv_out_of_order seg ?c"
    using assms(3-8) by (simp add: TCPConnection_segment_received_def Let_def)
  from segment_received_inv [OF inv ok] obtain c' where c': "recv_out_of_order seg ?c = Inr c'"
    by (auto simp: ok_result_def eq)
  from recv_out_of_order_answers [OF this] show ?thesis
    using assms(3) by (simp add: eq c' TCPConnection_active_def)
qed

lemma misplaced_rst_is_answered_witness:
  "\<exists>c c' out. TCPConnection_segment_received c (rst_seg 3) = Inr c' \<and> TCPConnection_active c' \<and>
     cn_segments_out c' = cn_segments_out c @ out \<and> out \<noteq> []"
proof -
  let ?c0 = "TCPConnection_new demo_cfg 0"
  obtain c where run: "run conn_step ([], ?c0) [CSegment (ctl_seg 9 True False None 10) 0 0] = Inr ([], c)"
    and c: "cn_active c" "TCPReceiver_ackno (cn_receiver c) = Some 10"
      "recv_ok [] 9 (cn_receiver c) (Arrive (rst_seg 3) 0)"
    by (simp add: demo_cfg_def owner_eval sender_eval reasm_eval seqno_demo2 push_of_def)
  have "conn_inv [] 9 [] ?c0" by (rule conn_inv_new) (simp_all add: demo_cfg_def two64_def)
  moreover have "peer_ok [] 9 [] (ctl_seg 9 True False None 10) 0 0 ?c0"
    by (simp add: peer_ok_def acks_ok_def push_of_def TCPConnection_new_def TCPReceiver_new_def reasm_eval
        demo_cfg_def)
  ultimately have inv: "conn_inv [] 9 [] c"
    using segment_received_inv [of "[]" 9 "[]" ?c0 "ctl_seg 9 True False None 10" 0 0] run
    by (auto simp: ok_result_def keeping_def)
  have ok: "peer_ok [] 9 [] (rst_seg 3) 0 0 c"
    using c(3) by (simp add: peer_ok_def acks_ok_def del: recv_ok.simps)
  have r: "th_seqno (seg_header (rst_seg 3)) \<noteq> 10" "th_rst (seg_header (rst_seg 3))"
    "length_in_sequence_space (rst_seg 3) \<le> 1" "\<not> th_syn (seg_header (rst_seg 3))"
    by simp_all
  show ?thesis using misplaced_rst_is_answered [OF inv ok c(1,2) r] by blast
qed

section \<open>Departures\<close>

text \<open>
  The owner's calls do not look at the active flag: after the peer has reset the
  connection, bytes written are still accepted and sent.
\<close>

lemma write_after_reset_sends:
  "\<exists>c. run conn_step ([], TCPConnection_new \<lparr>cfg_rt_timeout = rto, cfg_recv_capacity = rcap,
        cfg_send_capacity = DEFAULT_CAPACITY, cfg_fixed_isn = Some isn\<rparr> rand)
     [CConnect, CSegment (ctl_seg pisn True False (Some (wrap 1 isn)) 10) 0 1,
      CSegment (rst_seg (wrap 1 pisn)) 0 0, CFlush, CWrite [b]] = Inr ([b], c) \<and>
   TCPConnection_state c = official RESET \<and>
   map (Buffer_str \<circ> seg_payload) (cn_segments_out c) = [[b]]"
  by (simp add: owner_eval sender_eval reasm_eval state_eval DEFAULT_CAPACITY_def)

text \<open>
  The advertised window is cut to 16 bits: an endpoint with a receiving capacity of
  65536 bytes answers a SYN with a window of 0, although all of its buffer is free.
\<close>

lemma large_window_advertised_as_zero:
  "\<exists>c out. run conn_step ([], TCPConnection_new \<lparr>cfg_rt_timeout = rto, cfg_recv_capacity = 65536,
        cfg_send_capacity = scap, cfg_fixed_isn = Some isn\<rparr> rand)
     [CSegment (ctl_seg pisn True False None 10) 0 0] = Inr ([], c) \<and>
   ByteStream_remaining_capacity (inbound_stream c) = 65536 \<and>
   cn_segments_out c = [out] \<and> th_syn (seg_header out) \<and> th_ack (seg_header out) \<and> th_win (seg_header out) = 0"
  by (simp add: owner_eval sender_eval reasm_eval state_eval inbound_stream_def ByteStream_remaining_capacity_def)

end
