(* ===== verification/Half_Connection.thy ===== *)
theory Half_Connection
  imports Sender_Runs Tcp_Receiver
begin

text \<open>
  One direction of a connection: a \<open>TCPSender\<close> and a \<open>TCPReceiver\<close> joined by a network that may lose,
  repeat and reorder the data segments, and lose acknowledgments but not reorder them. Neither side
  is given a contract here; each keeps the contract the other one's safety rests on, and this theory
  shows that the two contracts close: segments stay inside the window (a probe of a zero window is
  the one exception, and is shown to be ignored), and acknowledgments fall on segment boundaries and
  never take back a part of the window that is in use.

  The ghost data are the set \<open>C\<close> of stream indices at which the sender has ever cut the stream, and for
  every acknowledgment the index, the end flag and the number of bytes read when it was made.
\<close>

section \<open>Where the sender cuts the stream\<close>

abbreviation s_sizes :: "TCPSender \<Rightarrow> size_t list" where
  "s_sizes s \<equiv> uq_unAckedPayloadSize (sn_unAckQueue s)"

abbreviation s_base :: "TCPSender \<Rightarrow> nat" where
  "s_base s \<equiv> uq_baseSqn (sn_unAckQueue s)"

abbreviation s_next :: "TCPSender \<Rightarrow> nat" where
  "s_next s \<equiv> uq_next_seqno (sn_unAckQueue s)"

abbreviation s_sent :: "TCPSender \<Rightarrow> nat" where
  "s_sent s \<equiv> bs_num_bytes_read (sn_stream s)"

definition cut_at :: "nat \<Rightarrow> size_t list \<Rightarrow> nat \<Rightarrow> bool" where
  "cut_at base sizes c \<longleftrightarrow> (\<exists>j \<le> length sizes. c + 1 = base + sum_list (take j sizes))"

text \<open>
  While the connection is open, the cuts at or behind the acknowledged point are exactly the ends of
  the recorded segments.
\<close>

definition cuts_ok :: "nat set \<Rightarrow> TCPSender \<Rightarrow> bool" where
  "cuts_ok C s \<longleftrightarrow>
     s_sent s \<in> C \<and> (\<forall>c \<in> C. c \<le> s_sent s) \<and>
     (uq_synAcked (sn_unAckQueue s) \<and> \<not> uq_finAcked (sn_unAckQueue s) \<longrightarrow>
        (\<forall>c. c \<in> C \<and> s_base s \<le> c + 1 \<longleftrightarrow> cut_at (s_base s) (s_sizes s) c))"

text \<open>
  A segment of the stream between two cuts, inside a range of sequence numbers, or the SYN; no
  acknowledgment is stamped on it yet.
\<close>

definition wire_seg :: "WrappingInt32 \<Rightarrow> bytes \<Rightarrow> nat set \<Rightarrow> nat \<Rightarrow> nat \<Rightarrow> TCPSegment \<Rightarrow> bool" where
  "wire_seg isn W C lo hi seg \<longleftrightarrow>
     (let h = seg_header seg; d = Buffer_str (seg_payload seg)
      in \<not> th_ack h \<and>
         (if th_syn h then th_seqno h = isn \<and> d = [] \<and> \<not> th_fin h
          else \<exists>i. th_seqno h = wrap (i + 1) isn \<and> slice_at W i d \<and> i \<in> C \<and> i + length d \<in> C \<and>
                lo \<le> i + 1 \<and> i + 1 + length d + of_bool (th_fin h) \<le> hi \<and>
                (th_fin h \<longrightarrow> i + length d = length W)))"

lemma wire_seg_mono:
  "wire_seg isn W C lo hi seg \<Longrightarrow> C \<subseteq> C' \<Longrightarrow> hi \<le> hi' \<Longrightarrow> wire_seg isn W C' lo hi' seg"
  unfolding wire_seg_def Let_def by (auto split: if_splits)

text \<open>What an operation of the sender does that is not the arrival of an acknowledgment.\<close>

definition sends :: "bytes \<Rightarrow> nat set \<Rightarrow> TCPSender \<Rightarrow> nat set \<Rightarrow> TCPSender \<Rightarrow> bool" where
  "sends W C s C' t \<longleftrightarrow>
     C \<subseteq> C' \<and> cuts_ok C' t \<and> sn_isn t = sn_isn s \<and> s_base t = s_base s \<and>
     uq_win_size (sn_unAckQueue t) = uq_win_size (sn_unAckQueue s) \<and>
     uq_synAcked (sn_unAckQueue t) = uq_synAcked (sn_unAckQueue s) \<and>
     uq_finAcked (sn_unAckQueue t) = uq_finAcked (sn_unAckQueue s) \<and>
     bs_isInputEnd (sn_stream t) = bs_isInputEnd (sn_stream s) \<and>
     s_next s \<le> s_next t \<and> s_sent s \<le> s_sent t \<and>
     (uq_synSent (sn_unAckQueue s) \<longrightarrow> uq_synSent (sn_unAckQueue t)) \<and>
     (uq_finSent (sn_unAckQueue s) \<longrightarrow> uq_finSent (sn_unAckQueue t)) \<and>
     (\<exists>new. sn_segments_out t = sn_segments_out s @ new \<and>
        (\<forall>seg \<in> set new. wire_seg (sn_isn s) W C' (s_base s) (s_next t) seg \<and>
           (th_syn (seg_header seg) \<longrightarrow> uq_synSent (sn_unAckQueue t)) \<and>
           (th_fin (seg_header seg) \<longrightarrow> uq_finSent (sn_unAckQueue t))))"

lemma sends_refl: "cuts_ok C s \<Longrightarrow> sends W C s C s"
  by (simp add: sends_def)

lemma sends_trans:
  assumes "sends W C s C1 t1" "sends W C1 t1 C2 t2"
  shows "sends W C s C2 t2"
proof -
  obtain new1 new2 where n: "sn_segments_out t1 = sn_segments_out s @ new1"
    "sn_segments_out t2 = sn_segments_out t1 @ new2"
    "\<forall>seg \<in> set new1. wire_seg (sn_isn s) W C1 (s_base s) (s_next t1) seg \<and>
       (th_syn (seg_header seg) \<longrightarrow> uq_synSent (sn_unAckQueue t1)) \<and>
       (th_fin (seg_header seg) \<longrightarrow> uq_finSent (sn_unAckQueue t1))"
    "\<forall>seg \<in> set new2. wire_seg (sn_isn t1) W C2 (s_base t1) (s_next t2) seg \<and>
       (th_syn (seg_header seg) \<longrightarrow> uq_synSent (sn_unAckQueue t2)) \<and>
       (th_fin (seg_header seg) \<longrightarrow> uq_finSent (sn_unAckQueue t2))"
    using assms unfolding sends_def by blast
  have le: "C1 \<subseteq> C2" "s_next t1 \<le> s_next t2" "sn_isn t1 = sn_isn s" "s_base t1 = s_base s"
    using assms by (auto simp: sends_def)
  have "wire_seg (sn_isn s) W C2 (s_base s) (s_next t2) seg" if "seg \<in> set (new1 @ new2)" for seg
    using that n(3,4) le wire_seg_mono [OF _ le(1,2)] by auto
  then show ?thesis
    using assms n unfolding sends_def by (auto intro!: exI [of _ "new1 @ new2"])
qed

lemma cut_at_snoc:
  "cut_at base (sizes @ [m]) c \<longleftrightarrow> cut_at base sizes c \<or> c + 1 = base + sum_list sizes + m"
proof
  assume "cut_at base (sizes @ [m]) c"
  then obtain j where "j \<le> Suc (length sizes)" "c + 1 = base + sum_list (take j (sizes @ [m]))"
    by (auto simp: cut_at_def)
  then show "cut_at base sizes c \<or> c + 1 = base + sum_list sizes + m"
    by (cases "j \<le> length sizes") (auto simp: cut_at_def not_le)
next
  assume "cut_at base sizes c \<or> c + 1 = base + sum_list sizes + m"
  then show "cut_at base (sizes @ [m]) c"
  proof
    assume "cut_at base sizes c"
    then obtain j where "j \<le> length sizes" "c + 1 = base + sum_list (take j sizes)" by (auto simp: cut_at_def)
    then show ?thesis by (auto simp: cut_at_def intro!: exI [of _ j])
  next
    assume "c + 1 = base + sum_list sizes + m"
    then show ?thesis by (auto simp: cut_at_def intro!: exI [of _ "Suc (length sizes)"])
  qed
qed

lemma fillStep_sends:
  assumes inv: "sender_inv W s" and "0 < remainSpace s" "hasContentToPush s"
    and syn: "uq_synAcked (sn_unAckQueue s)" and C: "cuts_ok C s"
  shows "\<exists>C'. sends W C s C' (fillStep s)"
proof -
  let ?st = "sn_stream s" and ?q = "sn_unAckQueue s" and ?len = "min (remainSpace s) MAX_PAYLOAD_SIZE"
  define n where "n = bs_num_bytes_read ?st"
  define m where "m = min (bs_size ?st) ?len"
  define fin where "fin \<longleftrightarrow> bs_isInputEnd ?st \<and> n + m = length W \<and> m < remainSpace s"
  define d where "d = take m (drop n W)"
  note step = fillStep_eq [OF assms(1-3), folded n_def m_def, folded fin_def d_def]
  have st: "stream_inv W ?st" and qi: "queue_inv W (bs_isInputEnd ?st) n ?q"
    using inv by (auto simp: sender_inv_def n_def)
  note rd = stream_inv_read [OF st, of ?len, folded n_def m_def, folded d_def]
  have q: "uq_next_seqno ?q = n + 1" "s_base s + sum_list (s_sizes s) = 1 + n" "\<not> uq_finAcked ?q" "1 \<le> s_base s"
    using qi step(2) syn by (auto simp: queue_inv_def split: if_splits)
  let ?C = "insert (n + m) C"
  have nC: "n \<in> C" "\<forall>c\<in>C. c \<le> n" and cuts: "c \<in> C \<and> s_base s \<le> c + 1 \<longleftrightarrow> cut_at (s_base s) (s_sizes s) c" for c
    using C syn q(3) by (simp_all add: cuts_ok_def n_def)
  have "cuts_ok ?C (fillStep s)"
    unfolding step(1) cuts_ok_def using nC cuts rd(3,7) q syn by (auto simp: cut_at_snoc)
  moreover have "wire_seg (sn_isn s) W ?C (s_base s) (n + 1 + length d + of_bool fin)
      \<lparr>seg_header = TCPHeader_new\<lparr>th_seqno := wrap (uq_next_seqno ?q) (sn_isn s), th_fin := fin\<rparr>,
       seg_payload = Buffer_new d\<rparr>"
    unfolding wire_seg_def Let_def
    using rd(6,7) nC q by (auto simp: TCPHeader_new_def fin_def intro!: exI [of _ n])
  ultimately have "sends W C s ?C (fillStep s)"
    using q rd(3,5,7) step(2) unfolding sends_def step(1) by (auto simp: n_def TCPHeader_new_def)
  then show ?thesis ..
qed

lemma fillLoop_sends:
  "sender_inv W s \<Longrightarrow> uq_synAcked (sn_unAckQueue s) \<Longrightarrow> cuts_ok C s \<Longrightarrow> \<exists>C'. sends W C s C' (fillLoop s)"
proof (induction s arbitrary: C rule: fillLoop.induct)
  case (1 s)
  show ?case
  proof (cases "0 < remainSpace s \<and> hasContentToPush s")
    case True
    obtain C1 where C1: "sends W C s C1 (fillStep s)"
      using fillStep_sends [OF 1(2) _ _ 1(3,4)] True by auto
    then have "cuts_ok C1 (fillStep s)" by (simp add: sends_def)
    then obtain C2 where "sends W C1 (fillStep s) C2 (fillLoop (fillStep s))"
      using 1(1) [OF True, of C1] fillStep_inv [OF 1(2) _ _ 1(3)] True by auto
    then show ?thesis using sends_trans [OF C1] True by (auto simp: fillLoop.simps [of s])
  next
    case False
    then show ?thesis using 1(4) sends_refl by (subst fillLoop.simps) auto
  qed
qed

lemma firstPush_fields [simp]:
  "sn_unAckQueue (firstPush s seg) = sn_unAckQueue s" "sn_stream (firstPush s seg) = sn_stream s"
  "sn_isn (firstPush s seg) = sn_isn s" "sn_segments_out (firstPush s seg) = sn_segments_out s @ [seg]"
  by (simp_all add: firstPush_def Let_def)

lemma syn_sends:
  assumes inv: "sender_inv W s" and "\<not> uq_synSent (sn_unAckQueue s)" and C: "cuts_ok C s"
  shows "sends W C s C (let (seg, s) = makeSynSeg s in firstPush s seg)"
proof -
  let ?q = "sn_unAckQueue s"
  have q: "\<not> uq_synAcked ?q" "\<not> uq_finSent ?q" "uq_next_seqno ?q = 0" "uq_baseSqn ?q = 0" "uq_win_size ?q = 1"
    using inv assms(2) by (auto simp: sender_inv_def queue_inv_def split: if_splits)
  have "add64 0 1 = 1" "sub64 1 1 = 0" "sub64 1 0 = 1" by (simp_all add: add64_def sub64_def two64_def)
  then have mk: "makeSynSeg s =
      (TCPSegment_new\<lparr>seg_header := TCPHeader_new\<lparr>th_seqno := wrap 0 (sn_isn s), th_syn := True\<rparr>\<rparr>,
       s\<lparr>sn_unAckQueue := ?q\<lparr>uq_synSent := True, uq_next_seqno := 1\<rparr>\<rparr>)"
    using q assms(2) by (simp add: makeSynSeg_def remainSpace_def bytesInFlight_def Let_def)
  show ?thesis
    using q C by (simp add: mk sends_def cuts_ok_def wire_seg_def TCPSegment_new_def
        TCPHeader_new_def wrap_def WrappingInt32_plus_def)
qed

lemma first_fin_sends:
  assumes inv: "sender_inv W s" and "ByteStream_eof (sn_stream s)" "1 < remainSpace s"
    and "uq_synAcked (sn_unAckQueue s)" "\<not> uq_finSent (sn_unAckQueue s)" and C: "cuts_ok C s"
  shows "sends W C s C (let (seg, s) = makeFirstFinSeg s in firstPush s seg)"
proof -
  let ?q = "sn_unAckQueue s" and ?n = "s_sent s"
  have st: "stream_inv W (sn_stream s)" and qi: "queue_inv W (bs_isInputEnd (sn_stream s)) ?n ?q"
    using inv by (auto simp: sender_inv_def)
  have n: "?n = length W" "length W < 2 ^ 62" using st assms(2) by (auto simp: stream_inv_def ByteStream_eof_def)
  have q: "\<not> uq_finAcked ?q" "uq_next_seqno ?q = 1 + ?n" "s_base s + length (uq_unAcked ?q) = 1 + ?n"
    using qi assms(4,5) by (auto simp: queue_inv_def split: if_splits)
  have "uq_next_seqno ?q + 1 < two64" using n q by (intro two64_gt) simp
  then have nx: "add64 (uq_next_seqno ?q) 1 = uq_next_seqno ?q + 1" by (rule add64_small)
  have "wire_seg (sn_isn s) W C (s_base s) (s_next s + 1)
      (TCPSegment_new\<lparr>seg_header := TCPHeader_new\<lparr>th_seqno := wrap (s_next s) (sn_isn s), th_fin := True\<rparr>\<rparr>)"
    unfolding wire_seg_def Let_def
    using C n q by (auto simp: TCPSegment_new_def TCPHeader_new_def slice_at_def cuts_ok_def intro!: exI [of _ ?n])
  then show ?thesis
    using C q nx by (simp add: makeFirstFinSeg_def sends_def cuts_ok_def Let_def TCPSegment_new_def
        TCPHeader_new_def)
qed

lemma fill_window_sends:
  assumes "sender_inv W s" "cuts_ok C s"
  shows "\<exists>C'. sends W C s C' (fill_window s)"
proof -
  let ?q = "sn_unAckQueue s"
  consider (fin) "uq_finSent ?q \<or> uq_finAcked ?q"
    | (syn) "\<not> uq_finSent ?q" "\<not> uq_finAcked ?q" "\<not> uq_synSent ?q"
    | (wait) "\<not> uq_finSent ?q" "\<not> uq_finAcked ?q" "uq_synSent ?q" "\<not> uq_synAcked ?q"
    | (data) "\<not> uq_finSent ?q" "\<not> uq_finAcked ?q" "uq_synSent ?q" "uq_synAcked ?q" by blast
  then show ?thesis
  proof cases
    case fin
    then show ?thesis using sends_refl [OF assms(2)] by (auto simp: fill_window_def Let_def)
  next
    case syn
    then show ?thesis using syn_sends [OF assms(1) _ assms(2)] by (auto simp: fill_window_def Let_def)
  next
    case wait
    then have "remainSpace s \<le> 1"
      using remainSpace_eq [OF assms(1)] assms(1) by (auto simp: sender_inv_def queue_inv_def)
    then show ?thesis using wait sends_refl [OF assms(2)] by (auto simp: fill_window_def Let_def)
  next
    case data
    define t where "t = (if ByteStream_eof (sn_stream s) \<and> 1 < remainSpace s
      then (let (seg, s) = makeFirstFinSeg s in firstPush s seg) else s)"
    have t: "sender_inv W t" "sends W C s C t"
      using assms data first_fin_inv first_fin_sends sends_refl by (simp_all add: t_def)
    then have "uq_synAcked (sn_unAckQueue t)" "cuts_ok C t" using data by (simp_all add: sends_def)
    then obtain C' where "sends W C t C' (fillLoop t)" using fillLoop_sends [OF t(1)] by blast
    moreover have "fill_window s = fillLoop t"
      using data by (cases "ByteStream_eof (sn_stream s) \<and> 1 < remainSpace s")
        (auto simp: fill_window_def t_def makeFirstFinSeg_def firstPush_def Let_def)
    ultimately show ?thesis using sends_trans [OF t(2)] by auto
  qed
qed

text \<open>A retransmission starts at the oldest unacknowledged byte and ends at a recorded cut.\<close>

lemma retransmit_wire:
  assumes inv: "sender_inv W s" and C: "cuts_ok C s" and run: "s_base s < s_next s"
  shows "\<exists>seg. retransmitSeg s = Inr (seg, s) \<and> wire_seg (sn_isn s) W C (s_base s) (s_next s) seg \<and>
    (th_syn (seg_header seg) \<longrightarrow> uq_synSent (sn_unAckQueue s)) \<and>
    (th_fin (seg_header seg) \<longrightarrow> uq_finSent (sn_unAckQueue s))"
proof -
  let ?q = "sn_unAckQueue s" and ?n = "s_sent s" and ?u = "uq_unAcked (sn_unAckQueue s)"
  have qi: "queue_inv W (bs_isInputEnd (sn_stream s)) ?n ?q" and len: "length W < 2 ^ 62"
    using inv by (auto simp: sender_inv_def stream_inv_def)
  note nfa = queue_outstanding(1) [OF qi run]
  have nb: "s_next s < two64" using queue_next_bound [OF qi len] by (intro two64_gt) simp
  consider (front) "?u \<noteq> []" | (fin) "?u = []" "uq_finSent ?q"
    | (syn) "?u = []" "\<not> uq_finSent ?q" "uq_synSent ?q" "\<not> uq_synAcked ?q"
    using queue_outstanding(2) [OF qi run] by blast
  then show ?thesis
  proof cases
    case front
    have acked: "uq_synAcked ?q" using qi front by (auto simp: queue_inv_def split: if_splits)
    obtain sz rest where sizes: "s_sizes s = sz # rest"
      using qi front by (cases "s_sizes s") (auto simp: queue_inv_def)
    have q: "s_base s + length ?u = 1 + ?n" "1 \<le> s_base s" "sz \<le> length ?u" "slice_at W (s_base s - 1) ?u"
      "uq_finSent ?q \<longrightarrow> ?n = length W" "s_next s = 1 + ?n + of_bool (uq_finSent ?q)"
      using qi front sizes unfolding queue_inv_open [OF acked nfa] by auto
    define fin where "fin \<longleftrightarrow> uq_finSent ?q \<and> sub64 (s_next s) 1 = add64 (s_base s) sz"
    let ?seg = "\<lparr>seg_header = TCPHeader_new\<lparr>th_seqno := wrap (s_base s) (sn_isn s), th_fin := fin\<rparr>,
      seg_payload = Buffer_new (take sz ?u)\<rparr>"
    have front': "frontSeg ?q (sn_isn s) = Inr ?seg"
      using sizes q(3) by (simp add: frontSeg_def ackSqnForFin_def fin_def Let_def TCPHeader_new_def)
    have ends: "s_base s + sz + 1 = s_next s \<and> uq_finSent ?q" if fin
    proof -
      have "add64 (s_base s) sz = s_base s + sz" using q(1,3,6) nb by (intro add64_small) simp
      moreover have "sub64 (s_next s) 1 = s_next s - 1" using q(6) nb by (simp add: sub64_small)
      ultimately show ?thesis using that q(6) by (auto simp: fin_def)
    qed
    have cuts: "c \<in> C \<and> s_base s \<le> c + 1 \<longleftrightarrow> cut_at (s_base s) (s_sizes s) c" for c
      using C acked nfa by (simp add: cuts_ok_def)
    have "cut_at (s_base s) (s_sizes s) (s_base s - 1)" "cut_at (s_base s) (s_sizes s) (s_base s - 1 + sz)"
      using q(2) by (auto simp: cut_at_def sizes intro: exI [of _ 0] exI [of _ 1])
    then have "s_base s - 1 \<in> C" "s_base s - 1 + sz \<in> C" using cuts by blast+
    then have "wire_seg (sn_isn s) W C (s_base s) (s_next s) ?seg"
      unfolding wire_seg_def Let_def
      using q slice_at_take [OF q(4), of sz] ends
      by (auto simp: TCPHeader_new_def intro!: exI [of _ "s_base s - 1"])
    then show ?thesis
      using front front' ends nfa acked
      by (auto simp: retransmitSeg_def UnAckQueue_empty_def Let_def TCPHeader_new_def)
  next
    case fin
    have nx: "s_next s = 2 + ?n" "?n = length W" "s_base s = ?n + 1"
      using qi fin nfa by (auto simp: queue_inv_def split: if_splits)
    then have "sub64 (s_next s) 1 = ?n + 1" using nb by (simp add: sub64_small)
    then have "wire_seg (sn_isn s) W C (s_base s) (s_next s) (makeNotFirstFinSeg s)"
      unfolding wire_seg_def Let_def
      using nx C by (auto simp: makeNotFirstFinSeg_def ackSqnForFin_def TCPSegment_new_def
          TCPHeader_new_def slice_at_def cuts_ok_def Let_def intro!: exI [of _ ?n])
    then show ?thesis
      using fin nfa by (auto simp: retransmitSeg_def UnAckQueue_empty_def makeNotFirstFinSeg_def TCPSegment_new_def
          TCPHeader_new_def Let_def)
  next
    case syn
    then show ?thesis
      using makeSynSeg_again [OF inv] by (simp add: retransmitSeg_def UnAckQueue_empty_def
          wire_seg_def TCPSegment_new_def TCPHeader_new_def)
  qed
qed

lemma tick_sends:
  assumes inv: "sender_inv W s" and C: "cuts_ok C s"
  shows "\<exists>t. TCPSender_tick s ms = Inr t \<and> sends W C s C t"
proof (cases "tm_isTimerRunning (sn_timer s)")
  case True
  let ?s = "s\<lparr>sn_timer := (sn_timer s)\<lparr>tm_msSinceBaseSegSent :=
      add64 (tm_msSinceBaseSegSent (sn_timer s)) ms\<rparr>\<rparr>"
  have s: "sender_inv W ?s" "cuts_ok C ?s" "s_base ?s < s_next ?s"
    using inv C True by (simp_all add: sender_inv_def cuts_ok_def)
  obtain seg where seg: "retransmitSeg ?s = Inr (seg, ?s)" "wire_seg (sn_isn s) W C (s_base s) (s_next s) seg"
    "th_syn (seg_header seg) \<longrightarrow> uq_synSent (sn_unAckQueue s)" "th_fin (seg_header seg) \<longrightarrow> uq_finSent (sn_unAckQueue s)"
    using retransmit_wire [OF s] by auto
  have "timeoutRetransmit ?s = Inr (?s\<lparr>sn_segments_out := sn_segments_out s @ [seg],
      sn_timer := retransmitTimer (sn_timer ?s)\<rparr>)"
    using timeoutRetransmit_eq [OF s(1,3)] seg(1) by simp
  then show ?thesis
    using True C seg(2-4) by (auto simp: TCPSender_tick_def Let_def sends_def cuts_ok_def)
next
  case False
  then show ?thesis using sends_refl [OF C] by (simp add: TCPSender_tick_def)
qed

section \<open>Acknowledgments at a cut\<close>

lemma sum_list_take_le: "j \<le> m \<Longrightarrow> sum_list (take j xs) \<le> sum_list (take m xs)" for xs :: "nat list"
  by (metis le_add1 le_iff_add sum_list_append take_add)

lemma cut_at_drop:
  assumes "m \<le> length sizes" "a = base + sum_list (take m sizes)"
  shows "cut_at a (drop m sizes) c \<longleftrightarrow> cut_at base sizes c \<and> a \<le> c + 1"
proof
  assume "cut_at a (drop m sizes) c"
  then obtain j where j: "j \<le> length sizes - m" "c + 1 = a + sum_list (take j (drop m sizes))"
    by (auto simp: cut_at_def)
  then have "c + 1 = base + sum_list (take (m + j) sizes)" using assms(2) by (simp add: take_add)
  then show "cut_at base sizes c \<and> a \<le> c + 1"
    using j assms(1) by (auto simp: cut_at_def intro!: exI [of _ "m + j"])
next
  assume "cut_at base sizes c \<and> a \<le> c + 1"
  then obtain j where j: "j \<le> length sizes" "c + 1 = base + sum_list (take j sizes)" "a \<le> c + 1"
    by (auto simp: cut_at_def)
  show "cut_at a (drop m sizes) c"
  proof (cases "m \<le> j")
    case True
    then have "take j sizes = take m sizes @ take (j - m) (drop m sizes)"
      by (metis le_add_diff_inverse take_add)
    then show ?thesis using j assms True by (auto simp: cut_at_def intro!: exI [of _ "j - m"])
  next
    case False
    then have "c + 1 = a" using j assms(2) sum_list_take_le [of j m sizes] by simp
    then show ?thesis by (auto simp: cut_at_def intro!: exI [of _ 0])
  qed
qed

lemma cut_at_zero: "sum_list sizes = 0 \<Longrightarrow> cut_at base sizes c \<longleftrightarrow> c + 1 = base"
proof -
  assume zero: "sum_list sizes = 0"
  have "sum_list (take j sizes) = 0" if "j \<le> length sizes" for j
    using sum_list_take_le [OF that, of sizes] zero by (simp del: sum_list_eq_0_iff)
  then show ?thesis by (auto simp: cut_at_def)
qed

lemma cut_boundary: "cut_at base sizes c \<Longrightarrow> ack_boundary sizes (c + 1 - base)"
proof -
  assume "cut_at base sizes c"
  then obtain j where j: "j \<le> length sizes" "c + 1 = base + sum_list (take j sizes)"
    by (auto simp: cut_at_def)
  then have "j \<in> set [0..<Suc (length sizes)]" "c + 1 - base = sum_list (take j sizes)" by auto
  then show ?thesis unfolding ack_boundary_def list_ex_iff by blast
qed

lemma updateBase_cuts:
  assumes inv: "queue_inv W e n q" and "length W < 2 ^ 62"
    and a: "uq_baseSqn q < a" "a \<le> uq_next_seqno q" and q': "updateBase q a = Inr q'"
    and ok: "\<not> uq_synAcked q \<or> uq_finSent q \<and> a = uq_next_seqno q \<or> cut_at (uq_baseSqn q) (uq_unAckedPayloadSize q) (a - 1)"
  shows "uq_synSent q' = uq_synSent q" "uq_finSent q' = uq_finSent q"
    "\<not> uq_finAcked q' \<Longrightarrow> uq_synAcked q \<Longrightarrow>
       cut_at a (uq_unAckedPayloadSize q') c \<longleftrightarrow> cut_at (uq_baseSqn q) (uq_unAckedPayloadSize q) c \<and> a \<le> c + 1"
    "\<not> uq_synAcked q \<Longrightarrow> cut_at a (uq_unAckedPayloadSize q') c \<longleftrightarrow> c = 0"
proof -
  let ?sz = "uq_unAckedPayloadSize q" and ?b = "uq_baseSqn q"
  show "uq_synSent q' = uq_synSent q" "uq_finSent q' = uq_finSent q"
    using q' by (auto simp: updateBase_def UnAckQueue_erase_def Let_def split_beta split: if_splits)
  show "cut_at a (uq_unAckedPayloadSize q') c \<longleftrightarrow> c = 0" if "\<not> uq_synAcked q"
  proof -
    have z: "?b = 0" "a = 1" "sum_list ?sz = 0"
      using inv a that by (cases "uq_synSent q"; auto simp: queue_inv_def split: if_splits)+
    then have "uq_unAckedPayloadSize q' = ?sz" using q' by (auto simp: updateBase_def)
    then show ?thesis using z cut_at_zero by simp
  qed
  show "cut_at a (uq_unAckedPayloadSize q') c \<longleftrightarrow> cut_at ?b ?sz c \<and> a \<le> c + 1"
    if "\<not> uq_finAcked q'" "uq_synAcked q"
  proof -
    have nfin: "\<not> (uq_finSent q \<and> a = uq_next_seqno q)" and one: "a \<noteq> 1" "1 \<le> ?b"
      using that q' a inv by (auto simp: updateBase_def UnAckQueue_erase_def Let_def ackSqnForFin_def queue_inv_def
          split: if_splits)
    have syn: "uq_synAcked q" by (rule that(2))
    have nfa: "\<not> uq_finAcked q" using inv a syn by (auto simp: queue_inv_def)
    have q: "?b + length (uq_unAcked q) = 1 + n" "sum_list ?sz = length (uq_unAcked q)"
      using inv nfa that(2) by (auto simp: queue_inv_def)
    obtain j where j: "j \<le> length ?sz" "a = ?b + sum_list (drop 0 (take j ?sz))"
      using ok nfin syn a(1) by (auto simp: cut_at_def)
    have nb: "a < two64" "0 + (a - ?b) < two64"
      using queue_next_bound [OF inv assms(2)] a(2) by (auto simp: two64_def)
    obtain m where m: "eraseLoop a ?sz 0 ?b 0 = (drop m ?sz, a, 0 + (a - ?b))" "m \<le> length ?sz"
      "sum_list (drop 0 (take m ?sz)) = a - ?b"
      using eraseLoop_boundary [OF j a(1) nb] by blast
    have "0 < sum_list (take j ?sz)" using j(2) a(1) unfolding drop_0 by linarith
    then have "0 < length (uq_unAcked q)"
      using q(2) sum_list_take_le [of j "length ?sz" ?sz] j(1) unfolding take_all [OF order_refl] by linarith
    then have "uq_unAcked q \<noteq> []" by simp
    then have "uq_unAckedPayloadSize q' = drop m ?sz"
      using q' nfin one a m(1)
      by (auto simp: updateBase_def UnAckQueue_erase_def UnAckQueue_empty_def ackSqnForFin_def split: if_splits)
    then show ?thesis using cut_at_drop [OF m(2), of a ?b c] m(3) a(1) by simp
  qed
qed

text \<open>
  An acknowledgment of a prefix that ends at a cut, in order: the base moves there, the window is
  the one advertised, and the cuts stay the ends of the recorded segments.
\<close>

lemma ack_at_cut:
  assumes inv: "sender_inv W s" and C: "cuts_ok C s" and len: "length W < 2 ^ 31 - 2"
    and x: "x \<in> C" and f: "f \<Longrightarrow> uq_finSent (sn_unAckQueue s) \<and> x = s_sent s"
    and a: "a = x + 1 + of_bool f" "s_base s \<le> a" and syn: "uq_synSent (sn_unAckQueue s)"
    and win: "s_next s \<le> a + max 1 (unat win)"
  shows "\<exists>t. ack_received s (wrap a (sn_isn s)) win = Inr t \<and> sender_inv W t \<and> cuts_ok C t \<and>
    s_base t = a \<and> s_next t = s_next s \<and> uq_win_size (sn_unAckQueue t) = max 1 (unat win) \<and>
    uq_synAcked (sn_unAckQueue t) \<and> (uq_finAcked (sn_unAckQueue t) \<longleftrightarrow> f) \<and>
    uq_synSent (sn_unAckQueue t) \<and> uq_finSent (sn_unAckQueue t) = uq_finSent (sn_unAckQueue s) \<and>
    sn_stream t = sn_stream s \<and> sn_isn t = sn_isn s \<and> sn_segments_out t = sn_segments_out s"
proof -
  let ?q = "sn_unAckQueue s" and ?n = "s_sent s" and ?e = "bs_isInputEnd (sn_stream s)"
  define t0 where "t0 = setWindowSize s win"
  have qi: "queue_inv W ?e ?n ?q" and l62: "length W < 2 ^ 62" using inv len by (auto simp: sender_inv_def)
  have nx: "s_next s = 1 + ?n + of_bool (uq_finSent ?q)" "?n \<le> length W"
    using qi syn by (auto simp: queue_inv_def)
  have xn: "x \<le> ?n" using C x by (auto simp: cuts_ok_def)
  have an: "a \<le> s_next s" using a(1) nx f xn by (cases f) auto
  have fin: "f \<longleftrightarrow> uq_finSent ?q \<and> a = s_next s" using a(1) nx f xn by (cases f) auto
  have bound: "s_next s < 2 ^ 31" using nx len by (cases "uq_finSent ?q") auto
  have acked: "uq_synAcked ?q" if "s_base s \<noteq> 0"
    using that qi by (cases "uq_synAcked ?q") (auto simp: queue_inv_def)
  have cut: "\<not> uq_synAcked ?q \<or> uq_finSent ?q \<and> a = s_next s \<or> cut_at (s_base s) (s_sizes s) (a - 1)"
    if lt: "s_base s < a"
  proof (cases "uq_synAcked ?q \<and> \<not> f")
    case True
    have "\<not> uq_finAcked ?q" using lt an True qi by (auto simp: queue_inv_def)
    then have "cut_at (s_base s) (s_sizes s) x" using C x True a by (auto simp: cuts_ok_def)
    then show ?thesis using a(1) True by simp
  qed (use fin in auto)
  have "send_ok (W, s) (SAck (wrap a (sn_isn s)) win a)"
    using an a win bound cut cut_boundary [of "s_base s" "s_sizes s" "a - 1"] queue_base_le_next [OF qi]
    by (auto simp: Let_def max_def)
  from ack_law [OF inv this] obtain t where t: "ack_received s (wrap a (sn_isn s)) win = Inr t" "sender_inv W t"
    by blast
  have weq: "(if win > 0 then unat win else 1) = max 1 (unat win)"
    by (cases "win = 0") (auto simp: word_gt_0 unat_gt_0 Suc_le_eq max_def)
  have t0: "sn_unAckQueue t0 = ?q\<lparr>uq_win_size := max 1 (unat win)\<rparr>" "sn_isn t0 = sn_isn s"
    "sn_stream t0 = sn_stream s" "sn_segments_out t0 = sn_segments_out s"
    unfolding t0_def setWindowSize_def weq by simp_all
  have abs: "unwrap (wrap a (sn_isn s)) (sn_isn s) (s_base s) = a"
    using an a(2) bound by (intro unwrap_wrap_near) auto
  show ?thesis
  proof (cases "s_base s = a")
    case True
    then have "t = t0"
      using t(1) an abs t0 a(1) by (auto simp: ack_received_def Let_def ackSqnForFin_def simp flip: t0_def)
    have sa: "uq_synAcked ?q" using acked True a(1) by simp
    then have "uq_finAcked ?q \<Longrightarrow> uq_finSent ?q \<and> s_base s = s_next s"
      "\<not> uq_finAcked ?q \<Longrightarrow> s_base s \<le> 1 + ?n"
      using qi by (auto simp: queue_inv_def)
    then have "uq_finAcked ?q \<longleftrightarrow> f" using True fin nx(1) by (cases "uq_finAcked ?q") auto
    moreover note \<open>t = t0\<close> sa
    ultimately show ?thesis using t t0 True C syn by (simp add: cuts_ok_def)
  next
    case False
    then have lt: "s_base s < a" using a(2) by simp
    obtain q' where q': "updateBase ?q a = Inr q'" "queue_inv W ?e ?n q'" "uq_baseSqn q' = a"
        "uq_next_seqno q' = s_next s" "uq_synAcked q'"
        "(\<not> UnAckQueue_empty q' \<or> uq_finSent q' \<and> \<not> uq_finAcked q') \<longleftrightarrow> a < s_next s"
      using updateBase_inv [OF qi l62 lt an] cut [OF lt] cut_boundary [of "s_base s" "s_sizes s" "a - 1"] a(1)
      by auto
    note cuts = updateBase_cuts [OF qi l62 lt an q'(1) cut [OF lt]]
    have t': "sn_unAckQueue t = q'\<lparr>uq_win_size := max 1 (unat win)\<rparr>" "sn_stream t = sn_stream s"
      "sn_isn t = sn_isn s" "sn_segments_out t = sn_segments_out s"
      using t(1) lt an abs t0 q'(1) updateBase_win [where q = ?q and w = "max 1 (unat win)" and a = a] a(1)
      by (auto simp: ack_received_def Let_def ackSqnForFin_def simp flip: t0_def)
    have fa: "uq_finAcked q' \<longleftrightarrow> f"
      using q'(2-6) cuts(2) fin an by (auto simp: queue_inv_def split: if_splits)
    have nfa: "\<not> uq_finAcked ?q" using lt an qi by (auto simp: queue_inv_def split: if_splits)
    have "c \<in> C \<and> a \<le> c + 1 \<longleftrightarrow> cut_at a (uq_unAckedPayloadSize q') c" if "\<not> uq_finAcked q'" for c
    proof (cases "uq_synAcked ?q")
      case True
      then have "c \<in> C \<and> s_base s \<le> c + 1 \<longleftrightarrow> cut_at (s_base s) (s_sizes s) c" using C nfa by (simp add: cuts_ok_def)
      then show ?thesis using cuts(3) [OF that True, of c] lt by auto
    next
      case False
      then have "?n = 0" using qi by (simp add: queue_inv_def)
      then have "c \<in> C \<longleftrightarrow> c = 0" using C by (auto simp: cuts_ok_def)
      moreover have "a = 1" using False xn a(1) f \<open>?n = 0\<close> qi by (cases f) (auto simp: queue_inv_def)
      ultimately show ?thesis using cuts(4) [OF False, of c] by simp
    qed
    then have "cuts_ok C t" using C q'(3) by (simp add: cuts_ok_def t')
    then show ?thesis using t t' q' cuts(1,2) fa syn by auto
  qed
qed

end
