(* ===== verification/Endpoint_Streams.thy ===== *)
theory Endpoint_Streams
  imports Connection_Correct
begin

text \<open>
  What goes through an endpoint as its owner sees it: the bytes the owner reads along a run of
  \<open>TCPConnection\<close>'s operations, and the contract of the peer with the positions that only an
  observer knows (the index of a segment's payload and of its acknowledgment) left open.
\<close>

section \<open>Reads of the owner\<close>

text \<open>The bytes the owner reads along a run of the connection's operations.\<close>

fun conn_read :: "bytes \<times> TCPConnection \<Rightarrow> conn_op \<Rightarrow> bytes" where
  "conn_read (W, c) (CRead n) = ByteStream_peek_output (inbound_stream c) n"
| "conn_read (W, c) _ = []"

fun conn_reads :: "bytes \<times> TCPConnection \<Rightarrow> conn_op list \<Rightarrow> bytes" where
  "conn_reads wc [] = []"
| "conn_reads wc (e # es) =
     conn_read wc e @ (case conn_step wc e of Inl _ \<Rightarrow> [] | Inr wc' \<Rightarrow> conn_reads wc' es)"

lemma conn_reads_snoc:
  "run conn_step wc es = Inr wc' \<Longrightarrow> conn_reads wc (es @ [e]) = conn_reads wc es @ conn_read wc' e"
proof (induction es arbitrary: wc)
  case Nil
  then show ?case by (cases "conn_step wc e") auto
next
  case (Cons f es)
  then show ?case by (cases "conn_step wc f") auto
qed

section \<open>The peer's contract, without ghost positions\<close>

fun peer_contract :: "bytes \<Rightarrow> WrappingInt32 \<Rightarrow> bytes \<times> TCPConnection \<Rightarrow> conn_op \<Rightarrow> bool" where
  "peer_contract S isn (W, c) (CWrite d) \<longleftrightarrow> length W + length d < 2 ^ 62"
| "peer_contract S isn (W, c) (CSegment seg _ _) \<longleftrightarrow> (\<exists>i a. peer_ok S isn W seg i a c)"
| "peer_contract S isn (W, c) _ \<longleftrightarrow> True"

interpretation ep: guarded_system conn_step "conn_run_inv S isn" "\<lambda>u e. u" "peer_contract S isn"
  for S isn
proof
  fix g :: unit and wc e
  assume inv: "conn_run_inv S isn g wc" and ok: "peer_contract S isn wc e"
  obtain W c where wc: "wc = (W, c)" by (cases wc)
  show "\<exists>t. conn_step wc e = Inr t \<and> conn_run_inv S isn g t"
  proof (cases "\<exists>seg i a. e = CSegment seg i a")
    case True
    then obtain seg i a j b where e: "e = CSegment seg i a" and "peer_ok S isn W seg j b c" using ok by (auto simp: wc)
    then have "conn_ok S isn wc (CSegment seg j b)" by (simp add: wc)
    from cn.step_law [OF inv this] show ?thesis by (simp add: wc e)
  next
    case False
    then have "conn_ok S isn wc e" using ok by (cases e) (auto simp: wc)
    from cn.step_law [OF inv this] show ?thesis .
  qed
qed

section \<open>Only the owner's reads move the read position\<close>

definition read_position :: "TCPConnection \<Rightarrow> nat" where
  "read_position c = bs_num_bytes_read (inbound_stream c)"

lemma write_position [simp]:
  "bs_num_bytes_read (snd (ByteStream_write s d)) = bs_num_bytes_read s"
  "bs_num_bytes_read (ByteStream_end_input s) = bs_num_bytes_read s"
  by (simp_all add: ByteStream_write_def ByteStream_end_input_def Let_def)

lemma pushLoop_position:
  "pushLoop e ei m ex us out = Inr (m', ex', us', out') \<Longrightarrow> bs_num_bytes_read out' = bs_num_bytes_read out"
proof (induction m arbitrary: ex us out)
  case Nil
  then show ?case by simp
next
  case (Cons id m)
  then show ?case by (cases id) (auto simp: Let_def split_beta dest!: Cons.IH split: if_splits)
qed

lemma cutTail_output: "sr_output (snd (snd (snd (cutTail r i d)))) = sr_output r"
  by (simp add: cutTail_def split_beta)

lemma cutData_output: "sr_output (snd (snd (snd (cutData r i d)))) = sr_output r"
  by (simp add: cutData_def cutTail_output Let_def split_beta)

lemma pushTry_position:
  "pushTry r = Inr r' \<Longrightarrow> bs_num_bytes_read (sr_output r') = bs_num_bytes_read (sr_output r)"
  by (auto simp: pushTry_def bind_result_eq_Inr dest: pushLoop_position split: if_splits)

lemma push_substring_position:
  assumes "push_substring r d i e = Inr r'"
  shows "bs_num_bytes_read (sr_output r') = bs_num_bytes_read (sr_output r)"
  using assms cutData_output [of _ i d]
  by (auto simp: push_substring_def Let_def split_beta dest!: pushTry_position split: if_splits)

lemma receiver_position:
  assumes "TCPReceiver_segment_received r seg = Inr r'"
  shows "bs_num_bytes_read (TCPReceiver_stream_out r') = bs_num_bytes_read (TCPReceiver_stream_out r)"
  using assms
  by (auto simp: TCPReceiver_segment_received_def TCPReceiver_push_def TCPReceiver_stream_out_def bind_result_eq_Inr
      Let_def dest!: push_substring_position split: if_splits)

lemma to_receiver_position [dest!]: "to_receiver seg c = Inr c' \<Longrightarrow> read_position c' = read_position c"
  by (auto simp: to_receiver_def bind_result_eq_Inr read_position_def inbound_stream_def dest: receiver_position)

lemma take_ack_position [dest!]: "take_ack h c = Inr c' \<Longrightarrow> read_position c' = read_position c"
  by (auto simp: take_ack_def on_sender_result_def bind_result_eq_Inr read_position_def inbound_stream_def split: if_splits)

lemma position_simps [simp]:
  "read_position (on_sender f c) = read_position c"
  "read_position (updateOutput c) = read_position c"
  "read_position (uncleanShutdown c) = read_position c"
  "read_position (cleanShutdown c) = read_position c"
  "read_position (sendRSTSeg c) = read_position c"
  "read_position (c\<lparr>cn_time_since_last_segment_received := ms\<rparr>) = read_position c"
  "read_position (c\<lparr>cn_linger_after_streams_finish := l\<rparr>) = read_position c"
  "read_position (c\<lparr>cn_time_wait := l\<rparr>) = read_position c"
  "read_position (c\<lparr>cn_segments_out := q\<rparr>) = read_position c"
  "read_position (c\<lparr>cn_sender := s\<rparr>) = read_position c"
  by (simp_all add: read_position_def inbound_stream_def on_sender_def updateOutput_def uncleanShutdown_def
      cleanShutdown_def sendRSTSeg_eq TCPReceiver_stream_out_def ByteStream_set_error_def Let_def)

lemma segment_received_position:
  assumes "TCPConnection_segment_received c seg = Inr c'"
  shows "read_position c' = read_position c"
  using assms
  by (auto simp: TCPConnection_segment_received_def recv_out_of_order_def recv_after_fin_def recv_in_listen_def
      recv_in_stream_def bind_result_eq_Inr Let_def split: if_splits)

lemma conn_step_position:
  assumes "conn_step (W, c) e = Inr (W', c')" "\<forall>n. e \<noteq> CRead n"
  shows "read_position c' = read_position c"
proof (cases e)
  case (CSegment seg i a)
  then show ?thesis using assms by (auto simp: keeping_def bind_result_eq_Inr dest: segment_received_position)
next
  case (CTick ms)
  then show ?thesis
    using assms by (auto simp: keeping_def bind_result_eq_Inr TCPConnection_tick_def on_sender_result_def Let_def split: if_splits)
qed (use assms in \<open>auto simp: connect_def end_input_stream_def TCPConnection_write_def Let_def split_beta\<close>)

lemma inbound_stream_inv:
  assumes "conn_inv S isn W c"
  shows "bs_buf (inbound_stream c) = drop (read_position c) (take (read_position c + bs_size (inbound_stream c)) S)"
    and "read_position c + bs_size (inbound_stream c) \<le> length S" "length S < 2 ^ 62"
proof -
  obtain g where r: "recv_inv S isn g (cn_receiver c)" using assms by (auto simp: conn_inv_def)
  then have re: "reasm_inv S (snd g) (rc_reassembler (cn_receiver c))" and len: "length S < 2 ^ 62"
    by (auto simp: recv_inv_def)
  show "length S < 2 ^ 62" by (rule len)
  show "bs_buf (inbound_stream c) = drop (read_position c) (take (read_position c + bs_size (inbound_stream c)) S)"
    "read_position c + bs_size (inbound_stream c) \<le> length S"
    using re reasm_inv_written [OF re]
    by (simp_all add: reasm_inv_def read_position_def inbound_stream_def TCPReceiver_stream_out_def)
qed

lemma read_position_read_inbound:
  assumes "conn_inv S isn W c"
  shows "read_position (read_inbound c n) = read_position c + min (bs_size (inbound_stream c)) n"
    and "ByteStream_peek_output (inbound_stream c) n =
      drop (read_position c) (take (read_position c + min (bs_size (inbound_stream c)) n) S)"
proof -
  note i = inbound_stream_inv [OF assms]
  let ?m = "min (bs_size (inbound_stream c)) n"
  have "read_position c + ?m < two64" using i(2,3) by (simp add: two64_def min_def)
  then show "read_position (read_inbound c n) = read_position c + ?m"
    by (simp add: read_position_def inbound_stream_def read_inbound_def TCPReceiver_stream_out_def
        ByteStream_pop_output_def add64_def Let_def)
  have "ByteStream_peek_output (inbound_stream c) n = take ?m (bs_buf (inbound_stream c))"
    by (simp add: ByteStream_peek_output_def)
  also have "\<dots> = drop (read_position c) (take (read_position c + ?m) S)"
    by (subst i(1)) (simp add: take_drop min_def add.commute)
  finally show "ByteStream_peek_output (inbound_stream c) n = drop (read_position c) (take (read_position c + ?m) S)" .
qed

lemma drop_take_append:
  "i \<le> j \<Longrightarrow> j \<le> k \<Longrightarrow> k \<le> length xs \<Longrightarrow> drop i (take j xs) @ drop j (take k xs) = drop i (take k xs)"
  by (metis append_take_drop_id drop_append drop_take length_take min.absorb2 min.absorb_iff1 le_add_diff_inverse
      diff_is_0_eq drop0 take_add order_trans)

text \<open>Under the contract, the owner reads exactly the stretch of the peer's stream it has moved over.\<close>

lemma conn_reads_stream:
  assumes "conn_inv S isn W c" "allowed conn_step (peer_contract S isn) (W, c) es"
    and "run conn_step (W, c) es = Inr (W', c')"
  shows "read_position c \<le> read_position c' \<and> read_position c' \<le> length S \<and>
    conn_reads (W, c) es = drop (read_position c) (take (read_position c') S) \<and> conn_inv S isn W' c'"
  using assms
proof (induction es arbitrary: W c)
  case Nil
  then show ?case using inbound_stream_inv(2) [OF Nil.prems(1)] by simp
next
  case (Cons e es)
  from Cons.prems(3) obtain W1 c1 where st: "conn_step (W, c) e = Inr (W1, c1)"
    and rest: "run conn_step (W1, c1) es = Inr (W', c')"
    by (auto simp: bind_result_eq_Inr)
  have ok: "peer_contract S isn (W, c) e" "allowed conn_step (peer_contract S isn) (W1, c1) es"
    using Cons.prems(2) st by auto
  have "conn_run_inv S isn () (W, c)" using Cons.prems(1) by (simp add: conn_run_inv_def)
  from ep.step_law [OF this ok(1)] have inv1: "conn_inv S isn W1 c1" using st by (auto simp: conn_run_inv_def)
  have here: "read_position c \<le> read_position c1 \<and> conn_read (W, c) e = drop (read_position c) (take (read_position c1) S)"
  proof (cases "\<exists>n. e = CRead n")
    case True
    then obtain n where e: "e = CRead n" by blast
    then have "c1 = read_inbound c n" using st by simp
    then show ?thesis using read_position_read_inbound [OF Cons.prems(1), of n] by (simp add: e)
  next
    case False
    then have "read_position c1 = read_position c" using conn_step_position [OF st] by blast
    moreover have "conn_read (W, c) e = []" using False by (cases e) auto
    ultimately show ?thesis by simp
  qed
  note ih = Cons.IH [OF inv1 ok(2) rest]
  have "conn_reads (W, c) (e # es) = conn_read (W, c) e @ conn_reads (W1, c1) es" using st by simp
  also have "\<dots> = drop (read_position c) (take (read_position c1) S) @ drop (read_position c1) (take (read_position c') S)"
    using here ih by simp
  also have "\<dots> = drop (read_position c) (take (read_position c') S)"
    using here ih by (intro drop_take_append) auto
  finally show ?case using here ih by simp
qed

end
