(* ===== verification/Closed_Loop.thy ===== *)
theory Closed_Loop
  imports Half_Connection Endpoint_Streams
begin

text \<open>
  A \<open>TCPSender\<close> and a \<open>TCPReceiver\<close> connected to each other. The system has no environment that has to
  be trusted: whatever the application, the clock and the network do, both components are only ever
  called inside their contracts.
\<close>

section \<open>The receiver's side\<close>

text \<open>
  Where the receiver is: the bytes assembled, whether the stream has ended, the bytes read. An
  acknowledgment made there announces \<open>rd + cap - x\<close> bytes of window.
\<close>

type_synonym point = "nat \<times> bool \<times> nat"

definition recv_point :: "TCPReceiver \<Rightarrow> point" where
  "recv_point r =
     (sr_exIdx (rc_reassembler r), bs_isInputEnd (TCPReceiver_stream_out r),
      bs_num_bytes_read (TCPReceiver_stream_out r))"

fun older :: "point \<Rightarrow> point \<Rightarrow> bool" where
  "older (x, f, rd) (x', f', rd') \<longleftrightarrow> x \<le> x' \<and> (f \<longrightarrow> f') \<and> rd \<le> rd'"

lemma older_refl [simp]: "older p p"
  by (cases p) simp

lemma older_trans: "older p q \<Longrightarrow> older q u \<Longrightarrow> older p u"
  by (cases p; cases q; cases u) auto

fun ack_of :: "WrappingInt32 \<Rightarrow> nat \<Rightarrow> point \<Rightarrow> WrappingInt32 \<times> uint16" where
  "ack_of isn cap (x, f, rd) = (wrap (x + 1 + of_bool f) isn, word_of_nat (rd + cap - x))"

lemma recv_point_facts:
  assumes "recv_inv S isn (sy, R, f) r" "recv_point r = (x, e, rd)"
  shows "x = (LEAST k. k \<notin> R)" "x \<le> length S" "rd \<le> x" "x \<le> rd + rc_capacity r"
    "e \<longleftrightarrow> f \<and> x = length S" "{..<x} \<subseteq> R" "x \<notin> R"
    "x + out_room (rc_reassembler r) = rd + rc_capacity r"
    "bs_buf (TCPReceiver_stream_out r) = drop rd (take x S)"
    "TCPReceiver_window_size r = rd + rc_capacity r - x"
    "sy \<Longrightarrow> TCPReceiver_ackno r = Some (wrap (x + 1 + of_bool e) isn)"
proof -
  have re: "reasm_inv S (R, f) (rc_reassembler r)" and cap: "sr_capacity (rc_reassembler r) = rc_capacity r"
    using assms(1) by (simp_all add: recv_inv_def)
  note w = reasm_inv_written [OF re]
  have out: "ByteStream_inv (sr_output (rc_reassembler r))" "bs_capacity (sr_output (rc_reassembler r)) = rc_capacity r"
    and gap: "seg_map (sr_unassembledStrs (rc_reassembler r)) (sr_exIdx (rc_reassembler r)) = None"
    using re cap by (auto simp: reasm_inv_def sr_inv_def)
  have R: "{..<x} \<union> dom (seg_map (sr_unassembledStrs (rc_reassembler r))) = R"
    and sum: "rd + bs_size (sr_output (rc_reassembler r)) = x"
    using re assms(2) by (auto simp: reasm_inv_def recv_point_def TCPReceiver_stream_out_def)
  show "x = (LEAST k. k \<notin> R)" "x \<le> length S"
    using reasm_inv_least [OF re] w assms(2) by (auto simp: recv_point_def)
  show "{..<x} \<subseteq> R" "x \<notin> R" using R gap assms(2) by (auto simp: recv_point_def)
  show "rd \<le> x" "x \<le> rd + rc_capacity r" "x + out_room (rc_reassembler r) = rd + rc_capacity r"
    using sum out ByteStream_inv_size_le [OF out(1)] by auto
  show "e \<longleftrightarrow> f \<and> x = length S" "bs_buf (TCPReceiver_stream_out r) = drop rd (take x S)"
    using re assms(2) by (auto simp: reasm_inv_def sr_inv_def recv_point_def TCPReceiver_stream_out_def)
  show "TCPReceiver_window_size r = rd + rc_capacity r - x"
    using out sum by (simp add: TCPReceiver_window_size_def TCPReceiver_stream_out_def ByteStream_inv_def sub64_small)
  show "TCPReceiver_ackno r = Some (wrap (x + 1 + of_bool e) isn)" if sy
    using assms that by (auto simp: recv_inv_def TCPReceiver_ackno_def recv_point_def)
qed

text \<open>A byte that does not fit, because nothing fits, leaves the reassembler as it is.\<close>

lemma push_full:
  assumes inv: "reasm_inv S g r" and full: "out_room r = 0" and len: "sr_exIdx r < length S"
  shows "push_substring r [b] (sr_exIdx r) False = Inr r"
proof -
  have sr: "sr_inv (length S) r" using inv by (simp add: reasm_inv_def)
  have "segs (sr_exIdx r) (sr_exIdx r) (sr_unassembledStrs r)"
    using sr full len by (auto simp: sr_inv_def min_def)
  then have m: "sr_unassembledStrs r = []"
    using segs_total [of "sr_exIdx r" "sr_exIdx r" "sr_unassembledStrs r"]
    by (cases "sr_unassembledStrs r") auto
  have live: "\<not> bs_isInputEnd (sr_output r)" using sr len by (auto simp: sr_inv_def)
  have lim: "firstUnacceptableIdx r = sr_exIdx r" using firstUnacceptableIdx_eq [OF sr] full by simp
  have "r\<lparr>sr_unassembledStrs := [], sr_unassembledSize := sr_unassembledSize r\<rparr> = r"
    using m by (cases r) simp
  then have "cutData r (sr_exIdx r) [b] = (False, sr_exIdx r, [b], r)"
    using m by (simp add: cutData_def cutTail_def getFrontItr_def map_lower_bound_def cutBack.simps [of _ _ _ "[]"] Let_def)
  moreover have "pushTry r = Inr r" using m by (cases r) (simp add: pushTry_def)
  ultimately show ?thesis using live lim by (simp add: push_substring_def Let_def)
qed

text \<open>
  The bytes received lie between cuts: a cut-free position is received exactly when its
  predecessor is.
\<close>

definition between_cuts :: "nat set \<Rightarrow> nat set \<Rightarrow> bool" where
  "between_cuts C R \<longleftrightarrow> (\<forall>k. Suc k \<notin> C \<longrightarrow> (k \<in> R \<longleftrightarrow> Suc k \<in> R))"

lemma between_cuts_mono: "between_cuts C R \<Longrightarrow> C \<subseteq> C' \<Longrightarrow> between_cuts C' R"
  by (auto simp: between_cuts_def)

lemma between_cuts_Un:
  assumes "between_cuts C R" "i \<in> C" "i + l \<in> C"
  shows "between_cuts C (R \<union> {i..<i + l})"
  unfolding between_cuts_def
proof (intro allI impI)
  fix k
  assume k: "Suc k \<notin> C"
  then have "Suc k \<noteq> i" "Suc k \<noteq> i + l" using assms by auto
  then have "k \<in> {i..<i + l} \<longleftrightarrow> Suc k \<in> {i..<i + l}" by auto
  then show "k \<in> R \<union> {i..<i + l} \<longleftrightarrow> Suc k \<in> R \<union> {i..<i + l}"
    using assms(1) k by (auto simp: between_cuts_def)
qed

lemma between_cuts_first_gap:
  assumes "between_cuts C R" "0 \<in> C" "{..<x} \<subseteq> R" "x \<notin> R"
  shows "x \<in> C"
proof (cases x)
  case (Suc k)
  then show ?thesis using assms by (auto simp: between_cuts_def)
qed (use assms in simp)

text \<open>
  A segment on the wire, as the receiver will meet it: inside the window, or one byte that was sent
  to probe a closed window. \<open>lim\<close> is the end of the window, \<open>ex\<close> the index expected, \<open>ss\<close> and \<open>fs\<close> say
  that SYN and FIN have been sent.
\<close>

definition in_transit ::
  "bytes \<Rightarrow> WrappingInt32 \<Rightarrow> nat set \<Rightarrow> bool \<Rightarrow> bool \<Rightarrow> nat \<Rightarrow> nat \<Rightarrow> nat \<Rightarrow> TCPSegment \<Rightarrow> bool" where
  "in_transit S isn C ss fs n lim ex seg \<longleftrightarrow>
     (let h = seg_header seg; d = Buffer_str (seg_payload seg)
      in if th_syn h then th_seqno h = isn \<and> d = [] \<and> \<not> th_fin h \<and> ss
         else \<exists>i. th_seqno h = wrap (i + 1) isn \<and> slice_at S i d \<and> i \<in> C \<and> i + length d \<in> C \<and>
           i + length d \<le> n \<and> (th_fin h \<longrightarrow> fs \<and> i + length d = length S) \<and>
           (i + length d \<le> lim \<or> length d \<le> 1 \<and> \<not> th_fin h \<and> i + length d \<le> Suc ex))"

lemma in_transit_mono:
  assumes "in_transit S isn C ss fs n lim ex seg" "C \<subseteq> C'" "ss \<longrightarrow> ss'" "fs \<longrightarrow> fs'" "n \<le> n'" "lim \<le> lim'" "ex \<le> ex'"
  shows "in_transit S isn C' ss' fs' n' lim' ex' seg"
proof (cases "th_syn (seg_header seg)")
  case False
  then obtain i where "th_seqno (seg_header seg) = wrap (i + 1) isn" "slice_at S i (Buffer_str (seg_payload seg))"
    "i \<in> C'" "i + length (Buffer_str (seg_payload seg)) \<in> C'" "i + length (Buffer_str (seg_payload seg)) \<le> n'"
    "th_fin (seg_header seg) \<longrightarrow> fs' \<and> i + length (Buffer_str (seg_payload seg)) = length S"
    "i + length (Buffer_str (seg_payload seg)) \<le> lim' \<or>
       length (Buffer_str (seg_payload seg)) \<le> 1 \<and> \<not> th_fin (seg_header seg) \<and>
       i + length (Buffer_str (seg_payload seg)) \<le> Suc ex'"
    using assms unfolding in_transit_def Let_def if_not_P [OF False]
    by (meson Suc_le_mono le_trans subset_iff)
  then show ?thesis unfolding in_transit_def Let_def if_not_P [OF False] by blast
qed (use assms in \<open>simp add: in_transit_def Let_def\<close>)

text \<open>
  What the receiver has got, at the point \<open>(x, e, rd)\<close>, from a sender that has sent \<open>n\<close> bytes: pieces
  between cuts.
\<close>

definition recv_loop ::
  "bytes \<Rightarrow> WrappingInt32 \<Rightarrow> nat set \<Rightarrow> bool \<Rightarrow> bool \<Rightarrow> nat \<Rightarrow> TCPReceiver \<Rightarrow> bool" where
  "recv_loop S isn C ss fs n r \<longleftrightarrow>
     (\<exists>sy R f. recv_inv S isn (sy, R, f) r \<and> between_cuts C R \<and> R \<subseteq> {..<n} \<and> (f \<longrightarrow> fs) \<and> (sy \<longrightarrow> ss))"

lemma recv_loop_mono:
  "recv_loop S isn C ss fs n r \<Longrightarrow> C \<subseteq> C' \<Longrightarrow> ss \<longrightarrow> ss' \<Longrightarrow> fs \<longrightarrow> fs' \<Longrightarrow> n \<le> n' \<Longrightarrow>
     recv_loop S isn C' ss' fs' n' r"
  unfolding recv_loop_def
  by (elim exE conjE, intro exI conjI, assumption, erule (1) between_cuts_mono) auto

lemma recv_capacity_kept:
  "TCPReceiver_segment_received r seg = Inr t \<Longrightarrow> rc_capacity t = rc_capacity r"
  by (auto simp: TCPReceiver_segment_received_def TCPReceiver_push_def bind_result_eq_Inr Let_def split: if_splits)

lemma recv_point_older:
  assumes "recv_inv S isn (sy, R, f) r" "recv_inv S isn (sy', R', f') t" "R \<subseteq> R'" "f \<longrightarrow> f'"
    and "bs_num_bytes_read (TCPReceiver_stream_out r) \<le> bs_num_bytes_read (TCPReceiver_stream_out t)"
  shows "older (recv_point r) (recv_point t)"
proof -
  obtain x e rd x' e' rd' where p: "recv_point r = (x, e, rd)" "recv_point t = (x', e', rd')"
    by (metis prod_cases3)
  note r = recv_point_facts [OF assms(1) p(1)] and t = recv_point_facts [OF assms(2) p(2)]
  have "x \<le> x'" using r(6) t(7) assms(3) by (meson in_mono lessThan_iff not_le)
  moreover have "e \<longrightarrow> e'" using r(5) t(2,5) \<open>x \<le> x'\<close> assms(4) by auto
  moreover have "rd \<le> rd'" using p assms(5) by (simp add: recv_point_def)
  ultimately show ?thesis using p by simp
qed

text \<open>A segment that lies inside the window is taken in.\<close>

lemma deliver_in_window:
  assumes inv: "recv_inv S isn (True, R, f) r" and p: "recv_point r = (x, e, rd)" and len: "length S < 2 ^ 31 - 2"
    and h: "\<not> th_syn (seg_header seg)" "th_seqno (seg_header seg) = wrap (i + 1) isn"
    and d: "slice_at S i (Buffer_str (seg_payload seg))" "i + length (Buffer_str (seg_payload seg)) \<le> rd + rc_capacity r"
      "th_fin (seg_header seg) \<longrightarrow> i + length (Buffer_str (seg_payload seg)) = length S"
  shows "\<exists>t. TCPReceiver_segment_received r seg = Inr t \<and>
    recv_inv S isn (True, R \<union> {i..<i + length (Buffer_str (seg_payload seg))}, f \<or> th_fin (seg_header seg)) t"
proof -
  have re: "reasm_inv S (R, f) (rc_reassembler r)" using inv by (simp add: recv_inv_def)
  have x: "sr_exIdx (rc_reassembler r) = x" using p by (simp add: recv_point_def)
  have near: "\<bar>int (i + 1) - int (ByteStream_bytes_written (TCPReceiver_stream_out r))\<bar> < 2 ^ 31"
    using d(1) reasm_inv_written [OF re] len by (auto simp: slice_at_def TCPReceiver_stream_out_def)
  have "reasm_ok S (rc_reassembler r) (push_of seg i)"
    using d recv_point_facts(8) [OF inv p] x by (auto simp: push_of_def push_ok_def slice_at_def)
  then have "recv_ok S isn r (Arrive seg i)" using h near by simp
  from recv_arrive_law [OF inv this] show ?thesis using h by (auto simp: push_of_def)
qed

text \<open>The cases of an arrival: the ghost state grows by the segment, or nothing happens.\<close>

lemma deliver_cases:
  assumes inv: "recv_inv S isn (sy, R, f) r" and p: "recv_point r = (x, e, rd)"
    and seg: "in_transit S isn C ss fs n (rd + rc_capacity r) x seg" and len: "length S < 2 ^ 31 - 2"
  shows "(\<exists>t. TCPReceiver_segment_received r seg = Inr t \<and> th_syn (seg_header seg) \<and> ss \<and> recv_inv S isn (True, R, f) t) \<or>
    TCPReceiver_segment_received r seg = Inr r \<or>
    (\<exists>t i l. TCPReceiver_segment_received r seg = Inr t \<and> sy \<and> i \<in> C \<and> i + l \<in> C \<and> i + l \<le> n \<and>
       (th_fin (seg_header seg) \<longrightarrow> fs) \<and>
       recv_inv S isn (True, R \<union> {i..<i + l}, f \<or> th_fin (seg_header seg)) t)"
proof -
  let ?d = "Buffer_str (seg_payload seg)" and ?h = "seg_header seg" and ?re = "rc_reassembler r"
  note facts = recv_point_facts [OF inv p]
  have sy: "rc_synRecv r = sy" and re: "reasm_inv S (R, f) ?re" using inv by (simp_all add: recv_inv_def)
  have x: "sr_exIdx ?re = x" using p by (simp add: recv_point_def)
  note w = reasm_inv_written [OF re]
  consider (syn) "th_syn ?h" | (early) "\<not> th_syn ?h" "\<not> sy" | (data) "\<not> th_syn ?h" sy by blast
  then show ?thesis
  proof cases
    case syn
    then have d: "?d = []" "th_seqno ?h = isn" "\<not> th_fin ?h" ss using seg by (simp_all add: in_transit_def Let_def)
    then have "recv_ok S isn r (Arrive seg 0)" using syn by (simp add: push_of_def push_ok_def)
    moreover have "recv_ghost (sy, R, f) (Arrive seg 0) = (True, R, f)"
      using syn d by (simp add: push_of_def)
    ultimately show ?thesis using recv_arrive_law [OF inv, of seg 0] syn d(4) by auto
  next
    case early
    then show ?thesis using sy by (simp add: TCPReceiver_segment_received_def)
  next
    case data
    then obtain i where i: "th_seqno ?h = wrap (i + 1) isn" "slice_at S i ?d" "i \<in> C" "i + length ?d \<in> C"
      "i + length ?d \<le> n" "th_fin ?h \<longrightarrow> fs \<and> i + length ?d = length S"
      "i + length ?d \<le> rd + rc_capacity r \<or> length ?d \<le> 1 \<and> \<not> th_fin ?h \<and> i + length ?d \<le> Suc x"
      using seg by (auto simp: in_transit_def Let_def)
    have near: "\<bar>int (i + 1) - int (ByteStream_bytes_written (TCPReceiver_stream_out r))\<bar> < 2 ^ 31"
      using i(2) w len by (auto simp: slice_at_def TCPReceiver_stream_out_def)
    show ?thesis
    proof (cases "i + length ?d \<le> rd + rc_capacity r")
      case True
      have "recv_inv S isn (True, R, f) r" using inv data by simp
      from deliver_in_window [OF this p len data(1) i(1,2) True] show ?thesis using data i(3-6) by blast
    next
      case False
      then have room: "out_room ?re = 0" "\<not> th_fin ?h" "i + length ?d = Suc x" "length ?d \<le> 1"
        using i(7) facts(4,8) by auto
      have "push_substring ?re ?d i (th_fin ?h) = Inr ?re"
      proof (cases ?d)
        case Nil
        then show ?thesis using room(2) by (simp add: push_substring_def)
      next
        case (Cons b bs)
        then have d: "?d = [b]" "i = sr_exIdx ?re" "th_fin ?h = False" using room x by auto
        then have "sr_exIdx ?re < length S" using i(2) by (auto simp: slice_at_def)
        from push_full [OF re room(1) this] show ?thesis unfolding d .
      qed
      moreover have inv': "recv_inv S isn (True, R, f) r" using inv data by simp
      ultimately have "TCPReceiver_push r seg i = Inr r" by (intro recv_push_same)
      then show ?thesis using recv_finds_place [OF inv' data(1) i(1) near] by simp
    qed
  qed
qed

lemma recv_deliver:
  assumes loop: "recv_loop S isn C ss fs n r" and p: "recv_point r = (x, e, rd)"
    and seg: "in_transit S isn C ss fs n (rd + rc_capacity r) x seg" and len: "length S < 2 ^ 31 - 2"
  shows "\<exists>t x' e'. TCPReceiver_segment_received r seg = Inr t \<and> recv_loop S isn C ss fs n t \<and>
    recv_point t = (x', e', rd) \<and> older (x, e, rd) (x', e', rd) \<and> rc_capacity t = rc_capacity r"
proof -
  obtain sy R f where inv: "recv_inv S isn (sy, R, f) r" and b: "between_cuts C R" "R \<subseteq> {..<n}"
    "f \<longrightarrow> fs" "sy \<longrightarrow> ss" using loop by (auto simp: recv_loop_def)
  obtain t sy' R' f' where t: "TCPReceiver_segment_received r seg = Inr t" "recv_inv S isn (sy', R', f') t"
    "R \<subseteq> R'" "f \<longrightarrow> f'" "between_cuts C R'" "R' \<subseteq> {..<n}" "f' \<longrightarrow> fs" "sy' \<longrightarrow> ss"
    using deliver_cases [OF inv p seg len]
  proof (elim disjE exE conjE, goal_cases)
    case (1 t)
    then show ?case using b by blast
  next
    case 2
    then show ?case using b inv by blast
  next
    case (3 t i l)
    have "between_cuts C (R \<union> {i..<i + l})" "R \<union> {i..<i + l} \<subseteq> {..<n}" using 3 b between_cuts_Un by auto
    with b 3 show ?case by (intro 3(1) [of t True "R \<union> {i..<i + l}" "f \<or> th_fin (seg_header seg)"]) blast+
  qed
  have "recv_loop S isn C ss fs n t" using t(2,5-8) unfolding recv_loop_def by blast
  moreover have "older (recv_point r) (recv_point t)"
    using recv_point_older [OF inv t(2-4)] receiver_position [OF t(1)] by simp
  moreover obtain x' e' where "recv_point t = (x', e', rd)"
    using p receiver_position [OF t(1)] by (simp add: recv_point_def)
  ultimately show ?thesis using t(1) p recv_capacity_kept by auto
qed

section \<open>The system\<close>

text \<open>
  \<open>nt_accepted\<close> is what the sending application has got into the outbound stream, \<open>nt_data\<close> every segment
  ever sent, \<open>nt_acks\<close> the acknowledgments that can still arrive, \<open>nt_read\<close> what the receiving
  application has read.
\<close>

record net =
  nt_accepted :: bytes
  nt_sender :: TCPSender
  nt_receiver :: TCPReceiver
  nt_data :: "TCPSegment list"
  nt_acks :: "(WrappingInt32 \<times> uint16) list"
  nt_read :: bytes

definition net_new :: "size_t \<Rightarrow> size_t \<Rightarrow> uint16 \<Rightarrow> WrappingInt32 option \<Rightarrow> WrappingInt32 \<Rightarrow> net" where
  "net_new send_capacity recv_capacity timeout fixed_isn random =
     \<lparr>nt_accepted = [], nt_sender = TCPSender_new send_capacity timeout fixed_isn random,
      nt_receiver = TCPReceiver_new recv_capacity, nt_data = [], nt_acks = [], nt_read = []\<rparr>"

text \<open>
  The application writes the next bytes of \<open>S\<close>, as many as it likes, and closes after the last one.
  \<open>NDeliver i\<close> delivers the \<open>i\<close>-th segment ever sent: a segment that is never named is lost, one named
  twice is duplicated, and the order is free. \<open>NEmit\<close> sends the current acknowledgment. \<open>NAck k\<close> loses
  the first \<open>k\<close> acknowledgments on the way and delivers the next, which may arrive again.
\<close>

datatype net_op =
    NWrite nat
  | NClose
  | NFill
  | NTick nat
  | NDeliver nat
  | NEmit
  | NAck nat
  | NRead nat

definition transmit :: "net \<Rightarrow> TCPSender \<Rightarrow> net" where
  "transmit st s =
     st\<lparr>nt_data := nt_data st @ sn_segments_out s, nt_sender := s\<lparr>sn_segments_out := []\<rparr>\<rparr>"

fun net_step :: "bytes \<Rightarrow> net \<Rightarrow> net_op \<Rightarrow> net result" where
  "net_step S st (NWrite n) =
     bind_result (send_step (nt_accepted st, nt_sender st) (SWrite (take n (drop (length (nt_accepted st)) S))))
       (\<lambda>(W, s). Inr (st\<lparr>nt_accepted := W, nt_sender := s\<rparr>))"
| "net_step S st NClose =
     Inr (if nt_accepted st = S
          then st\<lparr>nt_sender := (nt_sender st)\<lparr>sn_stream := ByteStream_end_input (sn_stream (nt_sender st))\<rparr>\<rparr>
          else st)"
| "net_step S st NFill = Inr (transmit st (fill_window (nt_sender st)))"
| "net_step S st (NTick ms) =
     bind_result (TCPSender_tick (nt_sender st) ms) (\<lambda>s. Inr (transmit st s))"
| "net_step S st (NDeliver i) =
     (if i < length (nt_data st)
      then bind_result (TCPReceiver_segment_received (nt_receiver st) (nt_data st ! i))
             (\<lambda>r. Inr (st\<lparr>nt_receiver := r\<rparr>))
      else Inr st)"
| "net_step S st NEmit =
     Inr (case TCPReceiver_ackno (nt_receiver st) of
            None \<Rightarrow> st
          | Some a \<Rightarrow> st\<lparr>nt_acks := nt_acks st @ [(a, word_of_nat (TCPReceiver_window_size (nt_receiver st)))]\<rparr>)"
| "net_step S st (NAck k) =
     (if k < length (nt_acks st)
      then bind_result (ack_received (nt_sender st) (fst (nt_acks st ! k)) (snd (nt_acks st ! k)))
             (\<lambda>s. Inr (st\<lparr>nt_sender := s, nt_acks := drop k (nt_acks st)\<rparr>))
      else Inr st)"
| "net_step S st (NRead n) =
     bind_result (recv_step (nt_receiver st) (Read n))
       (\<lambda>r. Inr (st\<lparr>nt_receiver := r,
                    nt_read := nt_read st @ ByteStream_peek_output (TCPReceiver_stream_out (nt_receiver st)) n\<rparr>))"

section \<open>The invariant of the system\<close>

abbreviation syn_sent :: "TCPSender \<Rightarrow> bool" where
  "syn_sent s \<equiv> uq_synSent (sn_unAckQueue s)"

abbreviation fin_sent :: "TCPSender \<Rightarrow> bool" where
  "fin_sent s \<equiv> uq_finSent (sn_unAckQueue s)"

fun good_point :: "nat set \<Rightarrow> bool \<Rightarrow> nat \<Rightarrow> nat \<Rightarrow> point \<Rightarrow> bool" where
  "good_point C fs L cap (x, f, rd) \<longleftrightarrow> x \<in> C \<and> rd \<le> x \<and> x \<le> rd + cap \<and> (f \<longrightarrow> fs \<and> x = L)"

lemma good_point_mono: "good_point C fs L cap g \<Longrightarrow> C \<subseteq> C' \<Longrightarrow> fs \<longrightarrow> fs' \<Longrightarrow> good_point C' fs' L cap g"
  by (cases g) auto

text \<open>Nothing is acknowledged yet, or the sender stands where the acknowledgment made at \<open>p\<close> has put it.\<close>

fun sender_at :: "nat \<Rightarrow> point \<Rightarrow> TCPSender \<Rightarrow> bool" where
  "sender_at cap (x, f, rd) s \<longleftrightarrow>
     s_base s = 0 \<or> s_base s = x + 1 + of_bool f \<and> uq_win_size (sn_unAckQueue s) = max 1 (rd + cap - x)"

definition send_loop :: "bytes \<Rightarrow> WrappingInt32 \<Rightarrow> nat \<Rightarrow> nat set \<Rightarrow> point \<Rightarrow> bytes \<Rightarrow> TCPSender \<Rightarrow> bool" where
  "send_loop S isn cap C p W s \<longleftrightarrow>
     sender_inv W s \<and> cuts_ok C s \<and> 0 \<in> C \<and> sn_isn s = isn \<and> (\<exists>w. S = W @ w) \<and>
     (bs_isInputEnd (sn_stream s) \<longrightarrow> W = S) \<and> sender_at cap p s"

definition wire_loop :: "bytes \<Rightarrow> WrappingInt32 \<Rightarrow> nat set \<Rightarrow> TCPSender \<Rightarrow> nat \<Rightarrow> point \<Rightarrow> TCPSegment list \<Rightarrow> bool" where
  "wire_loop S isn C s cap p sent \<longleftrightarrow>
     (\<forall>seg \<in> set sent. in_transit S isn C (syn_sent s) (fin_sent s) (s_sent s) (snd (snd p) + cap) (fst p) seg)"

definition loop_inv :: "bytes \<Rightarrow> WrappingInt32 \<Rightarrow> nat \<Rightarrow> nat set \<Rightarrow> point \<Rightarrow> point list \<Rightarrow> net \<Rightarrow> bool" where
  "loop_inv S isn cap C p G st \<longleftrightarrow>
     (let s = nt_sender st; r = nt_receiver st
      in send_loop S isn cap C p (nt_accepted st) s \<and> sn_segments_out s = [] \<and>
         recv_loop S isn C (syn_sent s) (fin_sent s) (s_sent s) r \<and> rc_capacity r = cap \<and>
         wire_loop S isn C s cap (recv_point r) (nt_data st) \<and>
         nt_acks st = map (ack_of isn cap) G \<and> (G \<noteq> [] \<longrightarrow> syn_sent s) \<and>
         sorted_wrt older (p # G @ [recv_point r]) \<and>
         (\<forall>g \<in> set (p # G @ [recv_point r]). good_point C (fin_sent s) (length S) cap g) \<and>
         nt_read st = take (snd (snd (recv_point r))) S)"

definition net_inv :: "bytes \<Rightarrow> WrappingInt32 \<Rightarrow> nat \<Rightarrow> unit \<Rightarrow> net \<Rightarrow> bool" where
  "net_inv S isn cap u st \<longleftrightarrow> (\<exists>C p G. loop_inv S isn cap C p G st)"

lemma sorted_older_last:
  "sorted_wrt older (xs @ [a]) \<Longrightarrow> older a b \<Longrightarrow> sorted_wrt older (xs @ [b]) \<and> sorted_wrt older ((xs @ [a]) @ [b])"
  unfolding sorted_wrt_append using older_trans [of _ a b] by simp

lemma sorted_older_hd: "sorted_wrt older (a # xs) \<Longrightarrow> sorted_wrt older (a # a # xs)"
  by simp

lemma recv_loop_point:
  assumes "recv_loop S isn C ss fs n r" "0 \<in> C"
  shows "good_point C fs (length S) (rc_capacity r) (recv_point r)"
proof -
  obtain sy R f where inv: "recv_inv S isn (sy, R, f) r" and b: "between_cuts C R" "f \<longrightarrow> fs"
    using assms(1) by (auto simp: recv_loop_def)
  obtain x e rd where p: "recv_point r = (x, e, rd)" by (cases "recv_point r")
  note facts = recv_point_facts [OF inv p]
  have "x \<in> C" by (rule between_cuts_first_gap [OF b(1) assms(2) facts(6,7)])
  then show ?thesis using p facts(3-5) b(2) by simp
qed

subsection \<open>What the sender sends reaches the receiver inside its window\<close>

lemma wire_in_transit:
  assumes t: "sender_inv W t" "cuts_ok C t" and S: "S = W @ w" "fin_sent t \<longrightarrow> W = S"
    and p: "sender_at cap p t" "good_point C (fin_sent t) (length S) cap p" "older p (x', e', rd')"
    and seg: "wire_seg isn W C (s_base t) (s_next t) seg"
      "th_syn (seg_header seg) \<longrightarrow> syn_sent t" "th_fin (seg_header seg) \<longrightarrow> fin_sent t"
  shows "in_transit S isn C (syn_sent t) (fin_sent t) (s_sent t) (rd' + cap) x' seg"
proof (cases "th_syn (seg_header seg)")
  case True
  then show ?thesis using seg by (simp add: in_transit_def wire_seg_def Let_def)
next
  case False
  let ?d = "Buffer_str (seg_payload seg)" and ?h = "seg_header seg" and ?q = "sn_unAckQueue t"
  obtain x f rd where pe: "p = (x, f, rd)" by (cases p)
  obtain i where i: "th_seqno ?h = wrap (i + 1) isn" "slice_at W i ?d" "i \<in> C" "i + length ?d \<in> C"
    "s_base t \<le> i + 1" "i + 1 + length ?d + of_bool (th_fin ?h) \<le> s_next t"
    "th_fin ?h \<longrightarrow> i + length ?d = length W"
    using seg(1) False by (auto simp: wire_seg_def Let_def)
  have qi: "queue_inv W (bs_isInputEnd (sn_stream t)) (s_sent t) ?q" using t(1) by (simp add: sender_inv_def)
  have "i + length ?d \<le> rd' + cap \<or> length ?d \<le> 1 \<and> \<not> th_fin ?h \<and> i + length ?d \<le> Suc x'"
  proof (cases "s_base t = 0")
    case True
    then have "s_next t \<le> 1" using qi by (cases "uq_synAcked ?q") (auto simp: queue_inv_def)
    then show ?thesis using i(6) by simp
  next
    case False
    then have b: "s_base t = x + 1 + of_bool f" "uq_win_size ?q = max 1 (rd + cap - x)" using p(1) pe by auto
    have "\<not> f" using i(2,5) b(1) p(2) pe S(1) by (auto simp: slice_at_def)
    moreover have "s_next t \<le> s_base t + uq_win_size ?q" using qi by (simp add: queue_inv_def)
    ultimately have lim: "i + length ?d + of_bool (th_fin ?h) \<le> x + max 1 (rd + cap - x)" "x \<le> i" "x \<le> x'" "rd \<le> rd'"
      using i(5,6) b p(3) pe by auto
    show ?thesis
    proof (cases "x < rd + cap")
      case True
      then show ?thesis using lim by auto
    next
      case False
      then have "rd + cap = x" using p(2) pe by auto
      then show ?thesis using lim by (cases "th_fin ?h") auto
    qed
  qed
  moreover have "i + length ?d \<le> s_sent t" using t(2) i(4) by (auto simp: cuts_ok_def)
  moreover have "slice_at S i ?d" using slice_at_append [OF i(2)] S(1) by simp
  moreover have "th_fin ?h \<longrightarrow> fin_sent t \<and> i + length ?d = length S" using i(7) S(2) seg(3) by auto
  ultimately show ?thesis
    unfolding in_transit_def Let_def if_not_P [OF False] using i(1,3,4) by (intro exI [of _ i] conjI)
qed

lemma emit_keeps:
  assumes inv: "loop_inv S isn cap C p G st" and t: "sender_inv (nt_accepted st) t"
    and sends: "sends (nt_accepted st) C (nt_sender st) C' t"
  shows "loop_inv S isn cap C' p G (transmit st t)"
proof -
  let ?s = "nt_sender st" and ?r = "nt_receiver st" and ?W = "nt_accepted st"
  let ?t = "t\<lparr>sn_segments_out := []\<rparr>"
  note i = inv [unfolded loop_inv_def Let_def]
  have sl: "send_loop S isn cap C p ?W ?s" using i by simp
  then obtain w where w: "S = ?W @ w" by (auto simp: send_loop_def)
  have s: "C \<subseteq> C'" "cuts_ok C' t" "sn_isn t = isn" "s_base t = s_base ?s"
    "uq_win_size (sn_unAckQueue t) = uq_win_size (sn_unAckQueue ?s)"
    "bs_isInputEnd (sn_stream t) = bs_isInputEnd (sn_stream ?s)" "s_sent ?s \<le> s_sent t"
    "syn_sent ?s \<longrightarrow> syn_sent t" "fin_sent ?s \<longrightarrow> fin_sent t"
    using sends sl by (simp_all add: sends_def send_loop_def)
  have new: "\<forall>seg \<in> set (sn_segments_out t). wire_seg isn ?W C' (s_base t) (s_next t) seg \<and>
      (th_syn (seg_header seg) \<longrightarrow> syn_sent t) \<and> (th_fin (seg_header seg) \<longrightarrow> fin_sent t)"
    using sends i by (auto simp: sends_def send_loop_def)
  have sat: "sender_at cap p t" using sl s(4,5) by (cases p) (simp add: send_loop_def)
  have endW: "fin_sent t \<longrightarrow> ?W = S" using t sl s(6) by (auto simp: sender_inv_def queue_inv_def send_loop_def)
  have pts: "\<forall>g \<in> set (p # G @ [recv_point ?r]). good_point C' (fin_sent t) (length S) cap g"
    using i good_point_mono [OF _ s(1,9)] by blast
  obtain x e rd where pt: "recv_point ?r = (x, e, rd)" by (cases "recv_point ?r")
  have op: "older p (x, e, rd)" using i pt by simp
  have gp: "good_point C' (fin_sent t) (length S) cap p" using pts by simp
  have "\<forall>seg \<in> set (sn_segments_out t). in_transit S isn C' (syn_sent t) (fin_sent t) (s_sent t) (rd + cap) x seg"
    using new wire_in_transit [OF t s(2) w endW sat gp op] by blast
  moreover have "\<forall>seg \<in> set (nt_data st). in_transit S isn C' (syn_sent t) (fin_sent t) (s_sent t) (rd + cap) x seg"
    using i in_transit_mono [OF _ s(1,8,9,7) order_refl order_refl] by (simp add: wire_loop_def pt)
  ultimately have wl: "wire_loop S isn C' ?t cap (recv_point ?r) (nt_data st @ sn_segments_out t)"
    by (auto simp: wire_loop_def pt)
  have "sender_inv ?W ?t" "cuts_ok C' ?t" "sender_at cap p ?t"
    using t s(2) sat by (cases p; simp add: sender_inv_def cuts_ok_def)+
  then have "send_loop S isn cap C' p ?W ?t"
    using sl s by (auto simp: send_loop_def)
  moreover have "recv_loop S isn C' (syn_sent t) (fin_sent t) (s_sent t) ?r"
    using i recv_loop_mono [OF _ s(1,8,9,7)] by blast
  ultimately show ?thesis
    using i s(8) wl pts unfolding loop_inv_def Let_def by (simp add: transmit_def)
qed

subsection \<open>Each step keeps the invariant\<close>

lemma deliver_keeps:
  assumes inv: "loop_inv S isn cap C p G st" and len: "length S < 2 ^ 31 - 2" and i: "i < length (nt_data st)"
  shows "\<exists>r. TCPReceiver_segment_received (nt_receiver st) (nt_data st ! i) = Inr r \<and>
    loop_inv S isn cap C p G (st\<lparr>nt_receiver := r\<rparr>)"
proof -
  let ?s = "nt_sender st" and ?r = "nt_receiver st"
  note v = inv [unfolded loop_inv_def Let_def]
  obtain x e rd where pt: "recv_point ?r = (x, e, rd)" by (cases "recv_point ?r")
  have loop: "recv_loop S isn C (syn_sent ?s) (fin_sent ?s) (s_sent ?s) ?r" and cap: "rc_capacity ?r = cap"
    and zero: "0 \<in> C" using v by (simp_all add: send_loop_def)
  have "in_transit S isn C (syn_sent ?s) (fin_sent ?s) (s_sent ?s) (rd + rc_capacity ?r) x (nt_data st ! i)"
    using v i pt by (simp add: wire_loop_def)
  from recv_deliver [OF loop pt this len] obtain t x' e' where
    t: "TCPReceiver_segment_received ?r (nt_data st ! i) = Inr t"
    "recv_loop S isn C (syn_sent ?s) (fin_sent ?s) (s_sent ?s) t" "recv_point t = (x', e', rd)"
    "older (x, e, rd) (x', e', rd)" "rc_capacity t = cap" using cap by auto
  have "good_point C (fin_sent ?s) (length S) cap (recv_point t)" using recv_loop_point [OF t(2) zero] t(5) by simp
  moreover have "sorted_wrt older ((p # G) @ [recv_point t])"
    using sorted_older_last [of "p # G" "recv_point ?r" "recv_point t"] v t(3,4) pt by simp
  moreover have "wire_loop S isn C ?s cap (recv_point t) (nt_data st)"
    using v t(3,4) pt in_transit_mono [OF _ order_refl imp_refl imp_refl order_refl order_refl, of _ _ _ _ _ _ _ x _ x']
    by (auto simp: wire_loop_def)
  ultimately have "loop_inv S isn cap C p G (st\<lparr>nt_receiver := t\<rparr>)"
    using v t pt unfolding loop_inv_def Let_def by simp
  then show ?thesis using t(1) by blast
qed

lemma emit_ack_keeps:
  assumes inv: "loop_inv S isn cap C p G st" and a: "TCPReceiver_ackno (nt_receiver st) = Some a"
  shows "loop_inv S isn cap C p (G @ [recv_point (nt_receiver st)])
    (st\<lparr>nt_acks := nt_acks st @ [(a, word_of_nat (TCPReceiver_window_size (nt_receiver st)))]\<rparr>)"
proof -
  let ?s = "nt_sender st" and ?r = "nt_receiver st"
  note v = inv [unfolded loop_inv_def Let_def]
  obtain x e rd where pt: "recv_point ?r = (x, e, rd)" by (cases "recv_point ?r")
  obtain sy R f where r: "recv_inv S isn (sy, R, f) ?r" "sy \<longrightarrow> syn_sent ?s" using v by (auto simp: recv_loop_def)
  have sy: sy using r(1) a by (auto simp: recv_inv_def TCPReceiver_ackno_def split: if_splits)
  note facts = recv_point_facts [OF r(1) pt]
  have "ack_of isn cap (recv_point ?r) = (a, word_of_nat (TCPReceiver_window_size ?r))"
    using facts(10,11) sy a v pt by simp
  moreover have "sorted_wrt older (((p # G) @ [recv_point ?r]) @ [recv_point ?r])"
    using sorted_older_last [of "p # G" "recv_point ?r" "recv_point ?r"] v by simp
  ultimately show ?thesis using v r(2) sy unfolding loop_inv_def Let_def by (simp add: wire_loop_def)
qed

text \<open>A later acknowledgment covers whatever an earlier one has let out.\<close>

lemma window_never_shrinks:
  fixes x x0 rd rd0 cap :: nat
  assumes "x0 \<le> x" "f0 \<longrightarrow> f" "rd0 \<le> rd" "next \<le> x0 + 1 + of_bool f0 + max 1 (rd0 + cap - x0)"
  shows "next \<le> x + 1 + of_bool f + max 1 (rd + cap - x)"
  using assms by (cases f0; cases f; cases "x0 < rd0 + cap"; cases "x < rd + cap") auto

lemma ack_received_same:
  "ack_received s a w = Inr t \<Longrightarrow> sn_stream t = sn_stream s \<and> sn_segments_out t = sn_segments_out s \<and>
     sn_isn t = sn_isn s \<and> syn_sent t = syn_sent s \<and> fin_sent t = fin_sent s"
  by (auto simp: ack_received_def setWindowSize_def updateBase_def UnAckQueue_erase_def bind_result_eq_Inr Let_def
      split_beta split: if_splits)

lemma ack_taken:
  assumes sl: "send_loop S isn cap C p W s" and len: "length S < 2 ^ 31 - 2" and cap: "cap < 2 ^ 16"
    and gp: "good_point C (fin_sent s) (length S) cap g" and old: "older p g" and syn: "syn_sent s"
  shows "\<exists>t. ack_received s (fst (ack_of isn cap g)) (snd (ack_of isn cap g)) = Inr t \<and>
    send_loop S isn cap C g W t \<and> syn_sent t \<and> fin_sent t = fin_sent s \<and> sn_stream t = sn_stream s \<and>
    sn_segments_out t = sn_segments_out s \<and> s_base t = fst g + 1 + of_bool (fst (snd g))"
proof -
  let ?q = "sn_unAckQueue s"
  obtain x0 f0 rd0 where p: "p = (x0, f0, rd0)" by (cases p)
  obtain x f rd where g: "g = (x, f, rd)" by (cases g)
  have win: "unat (word_of_nat (rd + cap - x) :: uint16) = rd + cap - x"
  proof -
    have "rd + cap - x < 2 ^ 16" using gp g cap by auto
    then show ?thesis by (simp only: unsigned_of_nat) (simp add: take_bit_nat_eq_self)
  qed
  have qi: "queue_inv W (bs_isInputEnd (sn_stream s)) (s_sent s) ?q" and W: "length W \<le> length S"
    and isn: "isn = sn_isn s"
    using sl by (auto simp: send_loop_def sender_inv_def)
  have fin: "fin_sent s \<Longrightarrow> s_sent s = length S" using qi sl by (auto simp: queue_inv_def send_loop_def)
  have inflight: "s_next s \<le> x + 1 + of_bool f + max 1 (rd + cap - x)" "s_base s \<le> x + 1 + of_bool f"
  proof -
    have "s_next s \<le> 1" if "s_base s = 0" using that qi by (cases "uq_synAcked ?q") (auto simp: queue_inv_def)
    moreover have "s_next s \<le> s_base s + uq_win_size ?q" using qi by (simp add: queue_inv_def)
    moreover have "sender_at cap p s" using sl by (simp add: send_loop_def)
    moreover have old': "x0 \<le> x" "f0 \<longrightarrow> f" "rd0 \<le> rd" using old p g by simp_all
    ultimately show "s_next s \<le> x + 1 + of_bool f + max 1 (rd + cap - x)" "s_base s \<le> x + 1 + of_bool f"
      using window_never_shrinks [OF old', of "s_next s" cap] p by (cases "s_base s = 0"; force)+
  qed
  have W31: "length W < 2 ^ 31 - 2" using W len by simp
  have si: "sender_inv W s" "cuts_ok C s" using sl by (simp_all add: send_loop_def)
  have fits: "s_next s \<le> x + 1 + of_bool f + max 1 (unat (word_of_nat (rd + cap - x) :: uint16))"
    unfolding win by (rule inflight(1))
  have x: "x \<in> C" and f: "f \<Longrightarrow> fin_sent s \<and> x = s_sent s" using gp g fin by auto
  obtain t where t: "ack_received s (wrap (x + 1 + of_bool f) (sn_isn s)) (word_of_nat (rd + cap - x)) = Inr t"
    "sender_inv W t" "cuts_ok C t" "s_base t = x + 1 + of_bool f"
    "uq_win_size (sn_unAckQueue t) = max 1 (rd + cap - x)" "syn_sent t" "fin_sent t = fin_sent s"
    "sn_stream t = sn_stream s" "sn_isn t = sn_isn s" "sn_segments_out t = sn_segments_out s"
    using ack_at_cut [OF si W31 x f refl inflight(2) syn fits] unfolding win by blast
  have "send_loop S isn cap C g W t" using sl t(2-5,8,9) g by (simp add: send_loop_def)
  then show ?thesis using t isn g by simp
qed

lemma ack_keeps:
  assumes inv: "loop_inv S isn cap C p G st" and len: "length S < 2 ^ 31 - 2" and cap: "cap < 2 ^ 16"
    and k: "k < length (nt_acks st)"
  shows "\<exists>s. ack_received (nt_sender st) (fst (nt_acks st ! k)) (snd (nt_acks st ! k)) = Inr s \<and>
    loop_inv S isn cap C (G ! k) (drop k G) (st\<lparr>nt_sender := s, nt_acks := drop k (nt_acks st)\<rparr>) \<and>
    s_base s = fst (G ! k) + 1 + of_bool (fst (snd (G ! k)))"
proof -
  let ?s = "nt_sender st" and ?r = "nt_receiver st" and ?W = "nt_accepted st"
  note v = inv [unfolded loop_inv_def Let_def]
  have kG: "k < length G" using k v by simp
  have sl: "send_loop S isn cap C p ?W ?s" and gp: "good_point C (fin_sent ?s) (length S) cap (G ! k)"
    and old: "older p (G ! k)" and syn: "syn_sent ?s" and ackk: "nt_acks st ! k = ack_of isn cap (G ! k)"
    using v kG by auto
  obtain t where t: "ack_received ?s (fst (nt_acks st ! k)) (snd (nt_acks st ! k)) = Inr t"
    "send_loop S isn cap C (G ! k) ?W t" "syn_sent t" "fin_sent t = fin_sent ?s" "sn_stream t = sn_stream ?s"
    "sn_segments_out t = sn_segments_out ?s" "s_base t = fst (G ! k) + 1 + of_bool (fst (snd (G ! k)))"
    using ack_taken [OF sl len cap gp old syn] ackk by auto
  have srt: "sorted_wrt older (G ! k # drop k G @ [recv_point ?r])"
  proof -
    have "sorted_wrt older (drop k (G @ [recv_point ?r]))" using v by (intro sorted_wrt_drop) simp
    then show ?thesis using sorted_older_hd kG by (simp flip: Cons_nth_drop_Suc)
  qed
  have "recv_loop S isn C (syn_sent t) (fin_sent t) (s_sent t) ?r" "wire_loop S isn C t cap (recv_point ?r) (nt_data st)"
    using v t(3-5) syn by (auto simp: wire_loop_def)
  moreover have "set (drop k G) \<subseteq> set G" by (rule set_drop_subset)
  ultimately have "loop_inv S isn cap C (G ! k) (drop k G) (st\<lparr>nt_sender := t, nt_acks := drop k (nt_acks st)\<rparr>)"
    using v t srt gp unfolding loop_inv_def Let_def by (auto simp: drop_map)
  then show ?thesis using t(1,7) by blast
qed

lemma recv_loop_read:
  fixes n :: nat
  assumes loop: "recv_loop S isn C ss fs k r" and pt: "recv_point r = (x, e, rd)"
  defines "m \<equiv> min (bs_size (TCPReceiver_stream_out r)) n"
  shows "\<exists>t. recv_step r (Read n) = Inr t \<and> recv_loop S isn C ss fs k t \<and> recv_point t = (x, e, rd + m) \<and>
    rc_capacity t = rc_capacity r \<and>
    take rd S @ ByteStream_peek_output (TCPReceiver_stream_out r) n = take (rd + m) S"
proof -
  let ?o = "TCPReceiver_stream_out r"
  obtain sy R f where r: "recv_inv S isn (sy, R, f) r" and b: "between_cuts C R" "R \<subseteq> {..<k}" "f \<longrightarrow> fs" "sy \<longrightarrow> ss"
    using loop by (auto simp: recv_loop_def)
  from recv_read_law [OF r, of n] obtain t where
    t: "recv_step r (Read n) = Inr t" "recv_inv S isn (sy, R, f) t" by auto
  have t': "t = r\<lparr>rc_reassembler := (rc_reassembler r)\<lparr>sr_output := ByteStream_pop_output ?o n\<rparr>\<rparr>"
    using t(1) by (simp add: TCPReceiver_stream_out_def)
  have re: "reasm_inv S (R, f) (rc_reassembler r)" and len: "length S < two64"
    using r by (auto simp: recv_inv_def two64_def)
  have o: "rd + bs_size ?o = x" "x \<le> length S"
    using re pt reasm_inv_written [OF re] by (auto simp: reasm_inv_def recv_point_def TCPReceiver_stream_out_def)
  have rd: "bs_num_bytes_read ?o = rd" using pt by (simp add: recv_point_def)
  have "rd + m < two64" using o len by (simp add: m_def)
  then have pt': "recv_point t = (x, e, rd + m)"
    using pt rd by (simp add: recv_point_def t' TCPReceiver_stream_out_def ByteStream_pop_output_def Let_def m_def
        add64_small)
  have "m \<le> x - rd" using o(1) by (auto simp: m_def)
  then have "ByteStream_peek_output ?o n = take m (drop rd S)"
    unfolding ByteStream_peek_output_def Let_def m_def [symmetric] recv_point_facts(9) [OF r pt]
    by (simp add: drop_take min_absorb1)
  moreover have "recv_loop S isn C ss fs k t" using t(2) b unfolding recv_loop_def by blast
  ultimately show ?thesis using t(1) pt' t' by (simp add: take_add)
qed

lemma read_keeps:
  assumes inv: "loop_inv S isn cap C p G st"
  shows "\<exists>r. recv_step (nt_receiver st) (Read n) = Inr r \<and>
    loop_inv S isn cap C p G (st\<lparr>nt_receiver := r,
      nt_read := nt_read st @ ByteStream_peek_output (TCPReceiver_stream_out (nt_receiver st)) n\<rparr>)"
proof -
  let ?s = "nt_sender st" and ?r = "nt_receiver st" and ?o = "TCPReceiver_stream_out (nt_receiver st)"
  note v = inv [unfolded loop_inv_def Let_def]
  obtain x e rd where pt: "recv_point ?r = (x, e, rd)" by (cases "recv_point ?r")
  have "recv_loop S isn C (syn_sent ?s) (fin_sent ?s) (s_sent ?s) ?r" using v by simp
  from recv_loop_read [OF this pt, of n] obtain t m where
    t: "recv_step ?r (Read n) = Inr t" "recv_loop S isn C (syn_sent ?s) (fin_sent ?s) (s_sent ?s) t"
    "recv_point t = (x, e, rd + m)" "rc_capacity t = cap" "nt_read st @ ByteStream_peek_output ?o n = take (rd + m) S"
    using v pt by auto
  have "good_point C (fin_sent ?s) (length S) cap (recv_point t)"
    using recv_loop_point [OF t(2)] v t(4) by (simp add: send_loop_def)
  moreover have "sorted_wrt older ((p # G) @ [recv_point t])"
    using sorted_older_last [of "p # G" "recv_point ?r" "recv_point t"] v pt t(3) by simp
  moreover have "wire_loop S isn C ?s cap (recv_point t) (nt_data st)"
    using v pt t(3) in_transit_mono [OF _ order_refl imp_refl imp_refl order_refl _ order_refl, of _ _ _ _ _ _ "rd + cap" _ _ "rd + m + cap"]
    by (auto simp: wire_loop_def)
  ultimately have "loop_inv S isn cap C p G (st\<lparr>nt_receiver := t, nt_read := nt_read st @ ByteStream_peek_output ?o n\<rparr>)"
    using v t unfolding loop_inv_def Let_def by simp
  then show ?thesis using t(1) by blast
qed

text \<open>Operations of the sending application only touch the outbound stream.\<close>

lemma stream_keeps:
  assumes inv: "loop_inv S isn cap C p G st" and t: "sender_inv W (nt_sender st\<lparr>sn_stream := o'\<rparr>)"
    and S: "S = W @ w" "bs_isInputEnd o' \<longrightarrow> W = S" and read: "bs_num_bytes_read o' = s_sent (nt_sender st)"
  shows "loop_inv S isn cap C p G (st\<lparr>nt_accepted := W, nt_sender := (nt_sender st)\<lparr>sn_stream := o'\<rparr>\<rparr>)"
proof -
  have "send_loop S isn cap C p W (nt_sender st\<lparr>sn_stream := o'\<rparr>)"
    using inv t S read by (cases p) (auto simp: loop_inv_def send_loop_def cuts_ok_def Let_def)
  then show ?thesis using inv read unfolding loop_inv_def Let_def by (simp add: wire_loop_def)
qed

lemma net_write_keeps:
  assumes inv: "loop_inv S isn cap C p G st" and len: "length S < 2 ^ 31 - 2"
  shows "\<exists>st'. net_step S st (NWrite n) = Inr st' \<and> loop_inv S isn cap C p G st'"
proof -
  let ?W = "nt_accepted st" and ?s = "nt_sender st"
  define d where "d = take n (drop (length ?W) S)"
  obtain k o' where k: "ByteStream_write (sn_stream ?s) d = (k, o')" by (cases "ByteStream_write (sn_stream ?s) d")
  obtain w where w: "S = ?W @ w" and fin: "bs_isInputEnd (sn_stream ?s) \<longrightarrow> ?W = S" and si: "sender_inv ?W ?s"
    using inv by (auto simp: loop_inv_def send_loop_def Let_def)
  have "length ?W + length d < 2 ^ 62" using w len arg_cong [OF w, of length] by (auto simp: d_def)
  from write_law [OF si this] have t: "sender_inv (?W @ take k d) (?s\<lparr>sn_stream := o'\<rparr>)"
    using k by (simp add: send_inv_def)
  have dw: "d = take n w" unfolding d_def by (subst w) simp
  have ended: "bs_isInputEnd o' = bs_isInputEnd (sn_stream ?s)"
    using k by (auto simp: ByteStream_write_def Let_def split: if_splits)
  obtain u where "S = (?W @ take k d) @ u" "bs_isInputEnd o' \<longrightarrow> ?W @ take k d = S"
  proof
    show "S = (?W @ take k d) @ drop (min k n) w" unfolding dw by (subst w) (simp add: take_drop)
    show "bs_isInputEnd o' \<longrightarrow> ?W @ take k d = S" using ended fin w dw by auto
  qed
  from stream_keeps [OF inv t this] have "loop_inv S isn cap C p G
      (st\<lparr>nt_accepted := ?W @ take k d, nt_sender := ?s\<lparr>sn_stream := o'\<rparr>\<rparr>)"
    using write_position(1) [of "sn_stream ?s" d] k by simp
  moreover have "net_step S st (NWrite n) =
      Inr (st\<lparr>nt_accepted := ?W @ take k d, nt_sender := ?s\<lparr>sn_stream := o'\<rparr>\<rparr>)"
    using k by (simp flip: d_def)
  ultimately show ?thesis by blast
qed

lemma net_close_keeps:
  assumes "loop_inv S isn cap C p G st"
  shows "\<exists>st'. net_step S st NClose = Inr st' \<and> loop_inv S isn cap C p G st'"
proof (cases "nt_accepted st = S")
  case True
  have "sender_inv S (nt_sender st)" using assms True by (simp add: loop_inv_def send_loop_def Let_def)
  from stream_keeps [OF assms end_law [OF this], of "[]"] show ?thesis
    using True by (auto simp: ByteStream_end_input_def)
qed (use assms in simp)

lemma net_invI: "loop_inv S isn cap C p G st \<Longrightarrow> net_inv S isn cap u st"
  unfolding net_inv_def by blast

lemma net_step_keeps:
  assumes len: "length S < 2 ^ 31 - 2" and cap: "cap < 2 ^ 16" and inv: "net_inv S isn cap u st"
  shows "\<exists>st'. net_step S st e = Inr st' \<and> net_inv S isn cap u st'"
proof -
  obtain C p G where v: "loop_inv S isn cap C p G st" using inv by (auto simp: net_inv_def)
  have si: "sender_inv (nt_accepted st) (nt_sender st)" "cuts_ok C (nt_sender st)"
    using v by (simp_all add: loop_inv_def send_loop_def Let_def)
  show ?thesis
  proof (cases e)
    case (NWrite n)
    then show ?thesis using net_write_keeps [OF v len] net_invI by blast
  next
    case NClose
    then show ?thesis using net_close_keeps [OF v] net_invI by blast
  next
    case NFill
    obtain C' where "sends (nt_accepted st) C (nt_sender st) C' (fill_window (nt_sender st))"
      using fill_window_sends [OF si] by blast
    from emit_keeps [OF v fill_window_inv [OF si(1)] this] show ?thesis using NFill by (auto intro: net_invI)
  next
    case (NTick ms)
    obtain t where t: "TCPSender_tick (nt_sender st) ms = Inr t" "sends (nt_accepted st) C (nt_sender st) C t"
      using tick_sends [OF si] by blast
    moreover have "sender_inv (nt_accepted st) t" using tick_inv [OF si(1), of ms] t(1) by auto
    ultimately have "loop_inv S isn cap C p G (transmit st t)" using emit_keeps [OF v] by blast
    then show ?thesis using NTick t(1) by (auto intro: net_invI)
  next
    case (NDeliver i)
    then show ?thesis using deliver_keeps [OF v len, of i] v by (cases "i < length (nt_data st)") (auto intro: net_invI)
  next
    case NEmit
    then show ?thesis using emit_ack_keeps [OF v] v by (auto split: option.split intro: net_invI)
  next
    case (NAck k)
    then show ?thesis using ack_keeps [OF v len cap, of k] v by (cases "k < length (nt_acks st)") (auto intro: net_invI)
  next
    case (NRead n)
    then show ?thesis using read_keeps [OF v, of n] by (auto simp del: recv_step.simps intro: net_invI)
  qed
qed

interpretation nt: guarded_system "net_step S" "\<lambda>u st. length S < 2 ^ 31 - 2 \<and> cap < 2 ^ 16 \<and> net_inv S isn cap u st"
    "\<lambda>u e. u" "\<lambda>st e. True"
  for S isn cap
  by unfold_locales (use net_step_keeps in blast)

lemma allowed_always: "allowed step (\<lambda>st e. True) st es"
  by (induction es arbitrary: st) (auto split: sum.split)

lemma recv_point_new: "recv_point (TCPReceiver_new capacity) = (0, False, 0)"
  by (simp add: recv_point_def TCPReceiver_new_def TCPReceiver_stream_out_def StreamReassembler_new_def ByteStream_new_def)

lemma recv_loop_new:
  assumes "length S + capacity < 2 ^ 62"
  shows "recv_loop S isn {0} False False 0 (TCPReceiver_new capacity)"
  unfolding recv_loop_def using recv_inv_new [OF assms]
  by (intro exI [of _ False] exI [of _ "{}"]) (auto simp: between_cuts_def)

lemma net_inv_new:
  assumes "length S < 2 ^ 31 - 2" "recv_capacity < 2 ^ 16" "send_capacity < two64"
  shows "\<exists>isn. net_inv S isn recv_capacity u (net_new send_capacity recv_capacity timeout fixed_isn random)"
proof -
  let ?st = "net_new send_capacity recv_capacity timeout fixed_isn random"
  let ?isn = "sn_isn (nt_sender ?st)"
  have s: "nt_sender ?st = TCPSender_new send_capacity timeout fixed_isn random" "nt_accepted ?st = []"
    "nt_receiver ?st = TCPReceiver_new recv_capacity" by (simp_all add: net_new_def)
  have "send_loop S ?isn recv_capacity {0} (0, False, 0) [] (nt_sender ?st)"
    using sender_inv_new [OF assms(3)] unfolding s
    by (simp add: send_loop_def cuts_ok_def TCPSender_new_def UnAckQueue_new_def ByteStream_new_def)
  moreover have "recv_loop S ?isn {0} False False 0 (nt_receiver ?st)"
    unfolding s(3) using assms by (intro recv_loop_new) auto
  ultimately have "loop_inv S ?isn recv_capacity {0} (0, False, 0) [] ?st"
    using recv_point_new [of recv_capacity] unfolding loop_inv_def Let_def
    by (simp add: net_new_def wire_loop_def TCPSender_new_def UnAckQueue_new_def ByteStream_new_def TCPReceiver_new_def)
  then show ?thesis by (blast intro: net_invI)
qed

text \<open>What the receiver's application sees of the stream, and what the sender believes.\<close>

lemma recv_loop_observable:
  assumes loop: "recv_loop S isn C ss fs n r" and W: "S = W @ u" "n \<le> length W"
    and R: "R = take (snd (snd (recv_point r))) S"
  defines "out \<equiv> TCPReceiver_stream_out r"
  shows "R @ bs_buf out = take (ByteStream_bytes_written out) W" "ByteStream_bytes_written out \<le> length W"
    "ByteStream_eof out \<Longrightarrow> R = S" "ByteStream_bytes_written out = fst (recv_point r)"
    "ByteStream_input_ended out = fst (snd (recv_point r))"
    "fst (snd (recv_point r)) \<Longrightarrow> fst (recv_point r) = length S"
proof -
  obtain x e rd where pt: "recv_point r = (x, e, rd)" by (cases "recv_point r")
  obtain sy Rc f where r: "recv_inv S isn (sy, Rc, f) r" and b: "Rc \<subseteq> {..<n}"
    using loop by (auto simp: recv_loop_def)
  note facts = recv_point_facts [OF r pt]
  have re: "reasm_inv S (Rc, f) (rc_reassembler r)" using r by (simp add: recv_inv_def)
  have w: "ByteStream_bytes_written out = x" and e: "ByteStream_input_ended out = e"
    using reasm_inv_written [OF re] pt by (simp_all add: out_def recv_point_def TCPReceiver_stream_out_def)
  have sum: "rd + bs_size out = x"
    using re pt by (simp add: reasm_inv_def recv_point_def TCPReceiver_stream_out_def out_def)
  have "{..<x} \<subseteq> {..<n}" by (rule order_trans [OF facts(6) b])
  then have xW: "x \<le> length W" using W(2) by auto
  then show "ByteStream_bytes_written out \<le> length W" using w by simp
  have "R @ bs_buf out = take x S"
    using R pt facts(3,9) by (simp add: out_def flip: take_add [of rd "x - rd"]) (simp add: drop_take flip: take_add)
  then show "R @ bs_buf out = take (ByteStream_bytes_written out) W" using W(1) xW w by simp
  show "R = S" if "ByteStream_eof out"
  proof -
    have "rd = x" "e" using that sum e by (auto simp: ByteStream_eof_def)
    then show ?thesis using facts(5) R pt by simp
  qed
  show "ByteStream_bytes_written out = fst (recv_point r)" "ByteStream_input_ended out = fst (snd (recv_point r))"
    "fst (snd (recv_point r)) \<Longrightarrow> fst (recv_point r) = length S"
    using w e pt facts(5) by simp_all
qed

lemma send_loop_observable:
  assumes sl: "send_loop S isn cap C p W s" and old: "older p (x, e, rd)"
    and gp: "good_point C (fin_sent s) (length S) cap p"
  shows "s_base s \<le> x + 1 + of_bool e" "finAcked s \<Longrightarrow> e"
proof -
  obtain x0 f0 rd0 where p: "p = (x0, f0, rd0)" by (cases p)
  have at: "s_base s = 0 \<or> s_base s = x0 + 1 + of_bool f0" using sl p by (auto simp: send_loop_def)
  then show "s_base s \<le> x + 1 + of_bool e" using old p by (cases f0) auto
  show e if "finAcked s"
  proof -
    have "queue_inv W (bs_isInputEnd (sn_stream s)) (s_sent s) (sn_unAckQueue s)" "uq_finAcked (sn_unAckQueue s)"
      using sl that by (simp_all add: send_loop_def sender_inv_def finAcked_def)
    then have "s_base s = s_sent s + 2" by (auto simp: queue_inv_def split: if_splits)
    moreover have "x0 \<le> s_sent s" using sl gp p by (auto simp: send_loop_def cuts_ok_def)
    ultimately have f0 using at by (cases f0) auto
    then show ?thesis using old p by simp
  qed
qed

lemma loop_inv_observable:
  assumes inv: "loop_inv S isn cap C p G st"
  defines "out \<equiv> TCPReceiver_stream_out (nt_receiver st)"
  shows "nt_read st @ bs_buf out = take (ByteStream_bytes_written out) (nt_accepted st)"
    and "ByteStream_bytes_written out \<le> length (nt_accepted st)"
    and "ByteStream_eof out \<Longrightarrow> nt_read st = S"
    and "s_base (nt_sender st) \<le> ByteStream_bytes_written out + 1 + of_bool (ByteStream_input_ended out)"
    and "finAcked (nt_sender st) \<Longrightarrow> ByteStream_input_ended out \<and> ByteStream_bytes_written out = length S"
proof -
  let ?s = "nt_sender st" and ?r = "nt_receiver st" and ?W = "nt_accepted st"
  note v = inv [unfolded loop_inv_def Let_def]
  have sl: "send_loop S isn cap C p ?W ?s" using v by simp
  then obtain u where u: "S = ?W @ u" and sent: "s_sent ?s \<le> length ?W"
    by (auto simp: send_loop_def sender_inv_def stream_inv_def)
  have loop: "recv_loop S isn C (syn_sent ?s) (fin_sent ?s) (s_sent ?s) ?r" and "nt_read st = take (snd (snd (recv_point ?r))) S"
    using v by simp_all
  note out = recv_loop_observable [OF loop u sent this(2), folded out_def]
  show "nt_read st @ bs_buf out = take (ByteStream_bytes_written out) ?W" "ByteStream_bytes_written out \<le> length ?W"
    "ByteStream_eof out \<Longrightarrow> nt_read st = S" by (fact out(1-3))+
  have "older p (fst (recv_point ?r), fst (snd (recv_point ?r)), snd (snd (recv_point ?r)))"
    "good_point C (fin_sent ?s) (length S) cap p" using v by simp_all
  note at = send_loop_observable [OF sl this]
  show "s_base ?s \<le> ByteStream_bytes_written out + 1 + of_bool (ByteStream_input_ended out)" using at(1) out(4,5) by simp
  show "ByteStream_input_ended out \<and> ByteStream_bytes_written out = length S" if "finAcked ?s"
    using at(2) [OF that] out(4-6) by simp
qed

section \<open>Properties\<close>

text \<open>
  Claim C1. A fresh sender and a fresh receiver are connected. For every sequence of writes,
  closing, window fills, clock ticks, reads, deliveries of segments (lost, repeated, in any order)
  and acknowledgments (lost or repeated), no operation faults. What the receiving application has
  read and can still read is always a prefix of what the sender has accepted; when the receiver's
  stream is at its end, the whole of \<open>S\<close> has been read. The sender never believes more acknowledged
  than the receiver has: its base is at most one past the SYN, the assembled bytes and the FIN, and
  once it takes its FIN as acknowledged the receiver's stream is complete and ended.
\<close>

theorem closed_loop_delivers:
  assumes "length S < 2 ^ 31 - 2" "recv_capacity < 2 ^ 16" "send_capacity < two64"
  shows "\<exists>st. run (net_step S) (net_new send_capacity recv_capacity timeout fixed_isn random) ops = Inr st \<and>
    (let out = TCPReceiver_stream_out (nt_receiver st)
     in nt_read st @ bs_buf out = take (ByteStream_bytes_written out) (nt_accepted st) \<and>
        ByteStream_bytes_written out \<le> length (nt_accepted st) \<and>
        (ByteStream_eof out \<longrightarrow> nt_read st = S) \<and>
        uq_baseSqn (sn_unAckQueue (nt_sender st)) \<le>
          ByteStream_bytes_written out + 1 + of_bool (ByteStream_input_ended out) \<and>
        (finAcked (nt_sender st) \<longrightarrow> ByteStream_input_ended out \<and> ByteStream_bytes_written out = length S))"
proof -
  obtain isn where "net_inv S isn recv_capacity () (net_new send_capacity recv_capacity timeout fixed_isn random)"
    using net_inv_new [OF assms] by blast
  then obtain st where st: "run (net_step S) (net_new send_capacity recv_capacity timeout fixed_isn random) ops = Inr st"
    "net_inv S isn recv_capacity () st"
    using nt.run_law [of S recv_capacity isn "()" "net_new send_capacity recv_capacity timeout fixed_isn random" ops,
        OF _ allowed_always] assms(1,2) by auto
  then obtain C p G where "loop_inv S isn recv_capacity C p G st" by (auto simp: net_inv_def)
  from loop_inv_observable [OF this] st(1) show ?thesis by (simp add: Let_def)
qed

theorem closed_loop_delivers_witness:
  "\<exists>st. run (net_step [1, 2, 3]) (net_new 8 2 1000 (Some 0xFFFFFFFE) 0)
      [NWrite 3, NClose, NFill, NDeliver 0, NTick 1000, NEmit, NAck 0, NFill, NDeliver 2, NDeliver 1, NRead 1, NEmit,
       NAck 1, NFill, NDeliver 3, NDeliver 2] = Inr st \<and>
    (let out = TCPReceiver_stream_out (nt_receiver st)
     in nt_read st @ bs_buf out = take (ByteStream_bytes_written out) (nt_accepted st))"
proof -
  have "length [1, 2, 3 :: byte] < 2 ^ 31 - 2" "(2 :: nat) < 2 ^ 16" "(8 :: nat) < two64" by (simp_all add: two64_def)
  from closed_loop_delivers [OF this, of 1000 "Some 0xFFFFFFFE" 0] show ?thesis unfolding Let_def by blast
qed

end
