(* ===== verification/Loop_Progress.thy ===== *)
theory Loop_Progress
  imports Closed_Loop
begin

text \<open>
  The connected sender and receiver of \<open>Closed_Loop\<close> never get stuck: from every state they can reach, the
  network can complete the transfer by delivering what the sender retransmits and the
  acknowledgments it causes. The two facts behind it are that a retransmission always carries
  something (a recorded size is zero only for a FIN on its own) and that a receiver whose
  application reads has room for it.
\<close>

section \<open>What the sender has recorded\<close>

text \<open>Every recorded segment has a payload, up to the last one when it is the FIN.\<close>

definition pos_list :: "bool \<Rightarrow> nat list \<Rightarrow> bool" where
  "pos_list fin sizes \<longleftrightarrow> 0 \<notin> set (butlast sizes) \<and> (0 \<in> set sizes \<longrightarrow> fin)"

definition sizes_ok :: "UnAckQueue \<Rightarrow> bool" where
  "sizes_ok q \<longleftrightarrow> pos_list (uq_finSent q) (uq_unAckedPayloadSize q)"

lemma sizes_ok_same:
  "sizes_ok q \<Longrightarrow> uq_unAckedPayloadSize q' = uq_unAckedPayloadSize q \<Longrightarrow> uq_finSent q \<longrightarrow> uq_finSent q' \<Longrightarrow> sizes_ok q'"
  by (simp add: sizes_ok_def pos_list_def)

lemma sizes_ok_front:
  assumes "sizes_ok q" "sum_list (uq_unAckedPayloadSize q) = length (uq_unAcked q)" "uq_unAcked q \<noteq> []"
  obtains sz rest where "uq_unAckedPayloadSize q = sz # rest" "0 < sz"
proof (cases "uq_unAckedPayloadSize q")
  case (Cons sz rest)
  then have "0 < sz" using assms by (cases rest) (auto simp: sizes_ok_def pos_list_def)
  then show thesis using that Cons by blast
qed (use assms in auto)

lemma sizes_ok_fillStep:
  assumes inv: "sender_inv W s" and "0 < remainSpace s" "hasContentToPush s" "sizes_ok (sn_unAckQueue s)"
  shows "sizes_ok (sn_unAckQueue (fillStep s))"
proof -
  let ?n = "bs_num_bytes_read (sn_stream s)" and ?len = "min (remainSpace s) MAX_PAYLOAD_SIZE"
  define m where "m = min (bs_size (sn_stream s)) ?len"
  define fin where "fin \<longleftrightarrow> bs_isInputEnd (sn_stream s) \<and> ?n + m = length W \<and> m < remainSpace s"
  note step = fillStep_eq [OF assms(1-3), folded m_def, folded fin_def]
  have nz: "0 \<notin> set (s_sizes s)" using assms(4) step(2) by (simp add: sizes_ok_def pos_list_def)
  have "stream_inv W (sn_stream s)" using inv by (simp add: sender_inv_def)
  from stream_inv_read(7) [OF this, of ?len, folded m_def] show ?thesis
    using nz step(3) by (auto simp: step(1) sizes_ok_def pos_list_def simp del: length_take length_drop)
qed

lemma sizes_ok_fillLoop:
  "sender_inv W s \<Longrightarrow> uq_synAcked (sn_unAckQueue s) \<Longrightarrow> sizes_ok (sn_unAckQueue s) \<Longrightarrow> sizes_ok (sn_unAckQueue (fillLoop s))"
proof (induction s rule: fillLoop.induct)
  case (1 s)
  show ?case
  proof (cases "0 < remainSpace s \<and> hasContentToPush s")
    case True
    then show ?thesis
      using 1 sizes_ok_fillStep [OF 1(2)] fillStep_inv [OF 1(2)] by (simp add: fillLoop.simps [of s])
  next
    case False
    then show ?thesis using 1(4) by (subst fillLoop.simps) auto
  qed
qed

lemma sizes_ok_fill_window:
  assumes inv: "sender_inv W s" and q: "sizes_ok (sn_unAckQueue s)"
  shows "sizes_ok (sn_unAckQueue (fill_window s))"
proof -
  have syn: "sizes_ok (sn_unAckQueue (let (seg, s) = makeSynSeg s in firstPush s seg))"
    by (rule sizes_ok_same [OF q]) (auto simp: makeSynSeg_def Let_def)
  let ?t = "if ByteStream_eof (sn_stream s) \<and> remainSpace s > 1 then (let (seg, s) = makeFirstFinSeg s in firstPush s seg) else s"
  have t: "sizes_ok (sn_unAckQueue ?t)" by (rule sizes_ok_same [OF q]) (auto simp: makeFirstFinSeg_def Let_def)
  have "sizes_ok (sn_unAckQueue (fillLoop ?t))"
    if "uq_synAcked (sn_unAckQueue s)" "\<not> uq_finSent (sn_unAckQueue s)"
    by (rule sizes_ok_fillLoop [OF _ _ t])
      (use that inv first_fin_inv [OF inv] in \<open>auto simp: makeFirstFinSeg_def Let_def\<close>)
  moreover have "syn_sent (snd (makeFirstFinSeg s)) = syn_sent s"
    "uq_synAcked (sn_unAckQueue (snd (makeFirstFinSeg s))) = uq_synAcked (sn_unAckQueue s)"
    by (simp_all add: makeFirstFinSeg_def Let_def)
  ultimately show ?thesis using q syn t by (auto simp: fill_window_def Let_def split_beta)
qed

lemma int_sub64: "int (sub64 a b) = (int a - int b) mod int two64"
proof -
  have "int (two64 - b mod two64) = int two64 - int b mod int two64" by (simp add: of_nat_diff zmod_int less_imp_le)
  then have "int (sub64 a b) = (int a + (int two64 - int b mod int two64)) mod int two64"
    by (simp only: sub64_def zmod_int of_nat_add)
  also have "\<dots> = (int a - int b) mod int two64"
    using mod_add_self2 [of "int a - int b" "int two64"] by (simp add: mod_simps algebra_simps)
  finally show ?thesis .
qed

lemma sub64_pos:
  assumes "ackno < two64" "add64 base sz \<noteq> ackno"
  shows "sub64 sz (sub64 ackno base) \<noteq> 0"
proof
  assume "sub64 sz (sub64 ackno base) = 0"
  then have "(int sz - (int ackno - int base)) mod int two64 = 0"
    using int_sub64 [of sz "sub64 ackno base"] by (simp only: int_sub64 mod_simps)
  then have "(int base + int sz) mod int two64 = int ackno mod int two64" by (simp add: mod_eq_dvd_iff dvd_eq_mod_eq_0 algebra_simps)
  then have "add64 base sz = ackno" using assms(1) by (simp add: add64_def flip: of_nat_add zmod_int)
  then show False using assms(2) by simp
qed

lemma pos_list_drop: "pos_list fin sizes \<Longrightarrow> pos_list fin (drop k sizes)"
  by (auto simp: pos_list_def butlast_drop dest: in_set_dropD)

lemma pos_list_update: "pos_list fin sizes \<Longrightarrow> v \<noteq> 0 \<Longrightarrow> pos_list fin (sizes[i := v])"
  by (auto simp: pos_list_def butlast_list_update dest!: set_update_subset_insert [THEN subsetD])

lemma eraseLoop_pos:
  "ackno < two64 \<Longrightarrow> pos_list fin sizes \<Longrightarrow> pos_list fin (fst (eraseLoop ackno sizes i base n))"
proof (induction ackno sizes i base n rule: eraseLoop.induct)
  case (1 ackno sizes i base n)
  then show ?case
    using pos_list_drop pos_list_update [OF 1(3)] sub64_pos [OF 1(2)]
    by (subst eraseLoop.simps) (auto simp: Let_def)
qed

lemma sizes_ok_updateBase:
  assumes "updateBase q ackno = Inr q'" "ackno < two64" "sizes_ok q"
  shows "sizes_ok q'"
proof -
  have erase: "sizes_ok e'" if "UnAckQueue_erase e ackno = Inr e'" "uq_unAckedPayloadSize e = uq_unAckedPayloadSize q"
    "uq_finSent e = uq_finSent q" for e e'
    using that assms(3) eraseLoop_pos [OF assms(2), of "uq_finSent q" "uq_unAckedPayloadSize q" 0 "uq_baseSqn e" 0]
    by (auto simp: UnAckQueue_erase_def sizes_ok_def pos_list_def [of _ "[]"] Let_def split_beta split: if_splits)
  show ?thesis
    using assms(1,3) erase [of q q'] erase [of "q\<lparr>uq_finAcked := True\<rparr>" q']
    by (auto simp: updateBase_def sizes_ok_def Let_def split: if_splits)
qed

lemma sizes_ok_ack:
  assumes ack: "ack_received s ackno win = Inr t" and q: "sizes_ok (sn_unAckQueue s)"
  shows "sizes_ok (sn_unAckQueue t)"
proof -
  define a where "a = unwrap ackno (sn_isn s) (s_base s)"
  have a: "a < two64" by (simp add: a_def unwrap_def to_uint64_def two64_def nat_less_iff Let_def)
  let ?s = "setWindowSize s win"
  have s: "sizes_ok (sn_unAckQueue ?s)" "sn_isn ?s = sn_isn s" "s_base ?s = s_base s"
    using q by (simp_all add: setWindowSize_def sizes_ok_def)
  show ?thesis
    using ack s(1) sizes_ok_updateBase [OF _ a s(1)] unfolding ack_received_def Let_def s(2,3) a_def [symmetric]
    by (auto simp: bind_result_eq_Inr split: if_splits)
qed

lemma tick_same:
  assumes inv: "sender_inv W s" and tick: "TCPSender_tick s ms = Inr t"
  shows "sn_unAckQueue t = sn_unAckQueue s" "sn_stream t = sn_stream s"
proof -
  let ?s = "s\<lparr>sn_timer := (sn_timer s)\<lparr>tm_msSinceBaseSegSent := add64 (tm_msSinceBaseSegSent (sn_timer s)) ms\<rparr>\<rparr>"
  have inv': "sender_inv W ?s" using inv by (simp add: sender_inv_def)
  have "sn_unAckQueue t = sn_unAckQueue s \<and> sn_stream t = sn_stream s" if "s_base s < s_next s" "timeoutRetransmit ?s = Inr t"
    using that timeoutRetransmit_eq [OF inv'] retransmitSeg_valid [OF inv'] by auto
  then show "sn_unAckQueue t = sn_unAckQueue s" "sn_stream t = sn_stream s"
    using tick inv by (auto simp: TCPSender_tick_def sender_inv_def Let_def split: if_splits)
qed

text \<open>A retransmission is the SYN, or starts at the oldest unacknowledged byte and is not empty.\<close>

definition oldest_seg :: "TCPSender \<Rightarrow> TCPSegment \<Rightarrow> bool" where
  "oldest_seg s seg \<longleftrightarrow> th_seqno (seg_header seg) = wrap (s_base s) (sn_isn s) \<and>
     (th_syn (seg_header seg) \<longleftrightarrow> s_base s = 0) \<and>
     (0 < s_base s \<longrightarrow> Buffer_str (seg_payload seg) \<noteq> [] \<or> th_fin (seg_header seg))"

lemma retransmit_oldest:
  assumes inv: "sender_inv W s" and q: "sizes_ok (sn_unAckQueue s)" and run: "s_base s < s_next s"
  shows "\<exists>seg. retransmitSeg s = Inr (seg, s) \<and> oldest_seg s seg"
proof -
  let ?q = "sn_unAckQueue s" and ?u = "uq_unAcked (sn_unAckQueue s)"
  obtain seg where seg: "retransmitSeg s = Inr (seg, s)" "th_seqno (seg_header seg) = wrap (s_base s) (sn_isn s)"
    using retransmitSeg_valid [OF inv run] by auto
  have qi: "queue_inv W (bs_isInputEnd (sn_stream s)) (s_sent s) ?q" using inv by (simp add: sender_inv_def)
  note nfa = queue_outstanding(1) [OF qi run]
  have base: "uq_synAcked ?q \<longleftrightarrow> 0 < s_base s" using qi by (auto simp: queue_inv_def split: if_splits)
  consider (front) "?u \<noteq> []" | (fin) "?u = []" "uq_finSent ?q"
    | (syn) "?u = []" "\<not> uq_finSent ?q" "uq_synSent ?q" "\<not> uq_synAcked ?q"
    using queue_outstanding(2) [OF qi run] by blast
  then have "oldest_seg s seg"
  proof cases
    case front
    have acked: "uq_synAcked ?q" and total: "sum_list (s_sizes s) = length ?u"
      using qi front by (auto simp: queue_inv_def split: if_splits)
    obtain sz rest where "s_sizes s = sz # rest" "0 < sz" using sizes_ok_front [OF q total front] .
    then show ?thesis using seg front acked base nfa
      by (auto simp: oldest_seg_def retransmitSeg_def frontSeg_def bind_result_eq_Inr TCPHeader_new_def
          UnAckQueue_empty_def Let_def split: if_splits)
  next
    case fin
    have "uq_synAcked ?q" using qi fin by (auto simp: queue_inv_def split: if_splits)
    then show ?thesis using seg fin base nfa
      by (auto simp: oldest_seg_def retransmitSeg_def UnAckQueue_empty_def makeNotFirstFinSeg_def TCPSegment_new_def
          TCPHeader_new_def Let_def)
  next
    case syn
    then show ?thesis using seg base makeSynSeg_again [OF inv]
      by (auto simp: oldest_seg_def retransmitSeg_def UnAckQueue_empty_def TCPSegment_new_def TCPHeader_new_def)
  qed
  then show ?thesis using seg(1) by blast
qed

text \<open>Whatever the timer has counted, it can be made to expire.\<close>

lemma add64_reaches: "T < two64 \<Longrightarrow> add64 a (sub64 T a) = T"
proof -
  assume "T < two64"
  then have "int (add64 a (sub64 T a)) = int T"
    by (simp add: add64_def zmod_int int_sub64 mod_simps)
  then show ?thesis by simp
qed

lemma due_tick:
  assumes inv: "sender_inv W s" and q: "sizes_ok (sn_unAckQueue s)" and run: "s_base s < s_next s"
  shows "\<exists>ms < two64. \<exists>t seg. TCPSender_tick s ms = Inr t \<and> sn_segments_out t = sn_segments_out s @ [seg] \<and> oldest_seg s seg"
proof -
  let ?T = "unat (tm_timeout (sn_timer s))" and ?a = "tm_msSinceBaseSegSent (sn_timer s)"
  have "?T < two64" using unsigned_less [of "tm_timeout (sn_timer s)", where ?'a = nat] by (simp add: two64_def)
  then have due: "add64 ?a (sub64 ?T ?a) = ?T" by (rule add64_reaches)
  let ?s = "s\<lparr>sn_timer := (sn_timer s)\<lparr>tm_msSinceBaseSegSent := ?T\<rparr>\<rparr>"
  have s: "sender_inv W ?s" "sizes_ok (sn_unAckQueue ?s)" "s_base ?s < s_next ?s" using assms by (simp_all add: sender_inv_def)
  obtain seg where seg: "retransmitSeg ?s = Inr (seg, ?s)" "oldest_seg s seg"
    using retransmit_oldest [OF s] by (auto simp: oldest_seg_def)
  have "tm_isTimerRunning (sn_timer s)" using inv run by (simp add: sender_inv_def)
  then show ?thesis using due timeoutRetransmit_eq [OF s(1,3)] seg
    by (intro exI [of _ "sub64 ?T ?a"]) (simp add: TCPSender_tick_def Let_def)
qed

section \<open>What holds in every state of the system\<close>

definition lively :: "net \<Rightarrow> bool" where
  "lively st \<longleftrightarrow> sizes_ok (sn_unAckQueue (nt_sender st)) \<and> 0 < bs_capacity (sn_stream (nt_sender st)) \<and>
     (nt_acks st \<noteq> [] \<or> 0 < s_base (nt_sender st) \<longrightarrow> rc_synRecv (nt_receiver st))"

lemma fillStep_capacity: "bs_capacity (sn_stream (fillStep s)) = bs_capacity (sn_stream s)"
  by (simp add: fillStep_def makePayLoadSeg_def ByteStream_read_def ByteStream_pop_output_def Let_def)

lemma fillLoop_capacity: "bs_capacity (sn_stream (fillLoop s)) = bs_capacity (sn_stream s)"
proof (induction s rule: fillLoop.induct)
  case (1 s)
  then show ?case
    by (cases "0 < remainSpace s \<and> hasContentToPush s") (auto simp: fillLoop.simps [of s] fillStep_capacity)
qed

lemma fill_window_capacity: "bs_capacity (sn_stream (fill_window s)) = bs_capacity (sn_stream s)"
  by (auto simp: fill_window_def makeSynSeg_def makeFirstFinSeg_def fillLoop_capacity Let_def)

lemma synRecv_kept: "TCPReceiver_segment_received r seg = Inr t \<Longrightarrow> rc_synRecv r \<Longrightarrow> rc_synRecv t"
  by (auto simp: TCPReceiver_segment_received_def TCPReceiver_push_def bind_result_eq_Inr Let_def split: if_splits)

lemma lively_step:
  assumes inv: "loop_inv S isn cap C p G st" and l: "lively st" and step: "net_step S st e = Inr st'"
  shows "lively st'"
proof -
  have si: "sender_inv (nt_accepted st) (nt_sender st)" "cuts_ok C (nt_sender st)"
    using inv by (simp_all add: loop_inv_def send_loop_def Let_def)
  show ?thesis
  proof (cases e)
    case NFill
    obtain C' where "sends (nt_accepted st) C (nt_sender st) C' (fill_window (nt_sender st))"
      using fill_window_sends [OF si] by blast
    then have "s_base (fill_window (nt_sender st)) = s_base (nt_sender st)" by (simp add: sends_def)
    then show ?thesis using NFill l step sizes_ok_fill_window [OF si(1)] by (auto simp: lively_def transmit_def fill_window_capacity)
  next
    case (NTick ms)
    then show ?thesis using l step tick_same [OF si(1)] by (auto simp: lively_def transmit_def bind_result_eq_Inr)
  next
    case (NDeliver i)
    then show ?thesis using l step synRecv_kept by (auto simp: lively_def bind_result_eq_Inr split: if_splits)
  next
    case NEmit
    then show ?thesis using l step by (auto simp: lively_def TCPReceiver_ackno_def split: option.splits if_splits)
  next
    case (NAck k)
    then show ?thesis using l step sizes_ok_ack by (auto simp: lively_def bind_result_eq_Inr ack_received_same split: if_splits)
  next
    case (NWrite n)
    have "bs_capacity (snd (ByteStream_write b d)) = bs_capacity b" for b d by (simp add: ByteStream_write_def Let_def)
    then show ?thesis using NWrite l step by (auto simp: lively_def split_beta)
  next
    case NClose
    then show ?thesis using l step by (auto simp: lively_def ByteStream_end_input_def split: if_splits)
  next
    case (NRead n)
    then show ?thesis using l step by (auto simp: lively_def)
  qed
qed

definition loop_state :: "bytes \<Rightarrow> WrappingInt32 \<Rightarrow> nat \<Rightarrow> net \<Rightarrow> bool" where
  "loop_state S isn cap st \<longleftrightarrow> length S < 2 ^ 31 - 2 \<and> 0 < cap \<and> cap < 2 ^ 16 \<and> net_inv S isn cap () st \<and> lively st"

interpretation lv: guarded_system "net_step S" "\<lambda>u :: unit. loop_state S isn cap" "\<lambda>u e. u" "\<lambda>st e. True"
  for S isn cap
proof
  fix g :: unit and st :: net and e
  assume st: "loop_state S isn cap st"
  then obtain t where t: "net_step S st e = Inr t" "net_inv S isn cap () t"
    using net_step_keeps [of S cap isn "()" st e] by (auto simp: loop_state_def)
  moreover have "lively t" using st lively_step [OF _ _ t(1)] by (auto simp: loop_state_def net_inv_def)
  ultimately show "\<exists>t. net_step S st e = Inr t \<and> loop_state S isn cap t" using st by (auto simp: loop_state_def)
qed

section \<open>Something is in flight\<close>

lemma fill_outstanding:
  assumes inv: "sender_inv W s" "cuts_ok C s" and q: "uq_synAcked (sn_unAckQueue s)" "\<not> fin_sent s" "\<not> finAcked s"
    and content: "0 < bs_size (sn_stream s) \<or> bs_isInputEnd (sn_stream s)"
  shows "s_base s < s_next (fill_window s)"
proof -
  let ?t = "fill_window s"
  obtain C' where "sends W C s C' ?t" using fill_window_sends [OF inv] by blast
  then have t: "s_base ?t = s_base s" "uq_synAcked (sn_unAckQueue ?t)" "bs_isInputEnd (sn_stream ?t) = bs_isInputEnd (sn_stream s)"
    using q(1) by (simp_all add: sends_def)
  have ti: "sender_inv W ?t" by (rule fill_window_inv [OF inv(1)])
  have qt: "queue_inv W (bs_isInputEnd (sn_stream ?t)) (s_sent ?t) (sn_unAckQueue ?t)" "s_sent ?t + bs_size (sn_stream ?t) = length W"
    using ti by (simp_all add: sender_inv_def stream_inv_def)
  have qs: "s_base s \<le> 1 + s_sent s" "syn_sent s" "s_sent s + bs_size (sn_stream s) = length W"
    using inv(1) q by (auto simp: sender_inv_def stream_inv_def queue_inv_def finAcked_def)
  have "\<not> uq_finAcked (sn_unAckQueue s)" using q(3) by (simp add: finAcked_def)
  from fill_window_stops [OF qs(2) q(1,2) this] show ?thesis
  proof
    assume "remainSpace ?t = 0"
    then show ?thesis using remainSpace_eq [OF ti] qt(1) t(1) by (auto simp: queue_inv_def)
  next
    assume drained: "ByteStream_buffer_size (sn_stream ?t) = 0 \<and> (ByteStream_input_ended (sn_stream ?t) \<longrightarrow> fin_sent ?t)"
    then have "s_sent ?t = length W" using qt(2) by simp
    moreover have "s_next ?t = 1 + s_sent ?t + of_bool (fin_sent ?t)" using qt(1) t(2) by (simp add: queue_inv_def)
    ultimately show ?thesis using content drained qs t(3) by auto
  qed
qed

lemma fill_syn:
  assumes inv: "sender_inv W s" and "\<not> syn_sent s"
  shows "s_base s < s_next (fill_window s)"
proof -
  have "\<not> fin_sent s" "\<not> uq_finAcked (sn_unAckQueue s)" "s_base s = 0" "s_next s = 0"
    using assms by (auto simp: sender_inv_def queue_inv_def split: if_splits)
  then show ?thesis using assms(2)
    by (auto simp: fill_window_def makeSynSeg_def Let_def add64_def two64_def)
qed

text \<open>A write of one byte and a close give the sender something to send, whatever it had.\<close>

lemma write_close:
  assumes inv: "loop_inv S isn cap C p G st" and room: "0 < bs_capacity (sn_stream (nt_sender st))"
  shows "\<exists>st'. run (net_step S) st [NWrite 1, NClose] = Inr st' \<and>
    sn_unAckQueue (nt_sender st') = sn_unAckQueue (nt_sender st) \<and>
    (0 < bs_size (sn_stream (nt_sender st')) \<or> bs_isInputEnd (sn_stream (nt_sender st')))"
proof -
  let ?s = "nt_sender st" and ?W = "nt_accepted st"
  obtain w where w: "S = ?W @ w" and live: "bs_isInputEnd (sn_stream ?s) \<longrightarrow> w = []"
    and bi: "ByteStream_inv (sn_stream ?s)"
    using inv by (auto simp: loop_inv_def send_loop_def sender_inv_def stream_inv_def Let_def)
  show ?thesis
  proof (cases w)
    case Nil
    then have "?W = S" using w by simp
    then show ?thesis by (simp add: ByteStream_write_def ByteStream_end_input_def Let_def split_beta)
  next
    case (Cons b bs)
    have d: "take 1 (drop (length ?W) S) = [b]" unfolding w Cons by simp
    have o: "\<not> bs_isInputEnd (sn_stream ?s)" using live Cons by simp
    then show ?thesis using room bi d
      by (auto simp: ByteStream_write_def ByteStream_end_input_def Let_def split_beta ByteStream_inv_def sub64_small add64_def)
  qed
qed

lemma refill:
  assumes st: "loop_state S isn cap st" and idle: "\<not> finAcked (nt_sender st)" "\<not> s_base (nt_sender st) < s_next (nt_sender st)"
  shows "\<exists>ops st'. run (net_step S) st ops = Inr st' \<and> loop_state S isn cap st' \<and>
    s_base (nt_sender st') = s_base (nt_sender st) \<and> s_base (nt_sender st') < s_next (nt_sender st')"
proof -
  let ?s = "nt_sender st" and ?q = "sn_unAckQueue (nt_sender st)"
  obtain C p G where inv: "loop_inv S isn cap C p G st" using st by (auto simp: loop_state_def net_inv_def)
  then have si: "sender_inv (nt_accepted st) ?s" "cuts_ok C ?s" by (simp_all add: loop_inv_def send_loop_def Let_def)
  then have qi: "queue_inv (nt_accepted st) (bs_isInputEnd (sn_stream ?s)) (s_sent ?s) ?q" by (simp add: sender_inv_def)
  obtain st1 where st1: "run (net_step S) st [NWrite 1, NClose] = Inr st1" "sn_unAckQueue (nt_sender st1) = ?q"
    "0 < bs_size (sn_stream (nt_sender st1)) \<or> bs_isInputEnd (sn_stream (nt_sender st1))"
    using write_close [OF inv] st by (auto simp: loop_state_def lively_def)
  have ls1: "loop_state S isn cap st1"
    using lv.run_invar [OF st allowed_always st1(1)] by simp
  then obtain C1 p1 G1 where "loop_inv S isn cap C1 p1 G1 st1" by (auto simp: loop_state_def net_inv_def)
  then have si1: "sender_inv (nt_accepted st1) (nt_sender st1)" "cuts_ok C1 (nt_sender st1)"
    by (simp_all add: loop_inv_def send_loop_def Let_def)
  have fill: "s_base (nt_sender st1) < s_next (fill_window (nt_sender st1))"
  proof (cases "syn_sent ?s")
    case True
    have "uq_synAcked ?q" "\<not> fin_sent ?s"
      using True qi idle by (auto simp: queue_inv_def finAcked_def split: if_splits)
    then show ?thesis using fill_outstanding [OF si1] st1(2,3) idle(1) by (simp add: finAcked_def)
  next
    case False
    then show ?thesis using fill_syn [OF si1(1)] st1(2) by simp
  qed
  have "s_base (fill_window (nt_sender st1)) = s_base (nt_sender st1)"
    using fill_window_sends [OF si1] by (auto simp: sends_def)
  then have "run (net_step S) st ([NWrite 1, NClose] @ [NFill]) = Inr (transmit st1 (fill_window (nt_sender st1)))"
    "s_base (nt_sender (transmit st1 (fill_window (nt_sender st1)))) = s_base ?s"
    "s_next (nt_sender (transmit st1 (fill_window (nt_sender st1)))) = s_next (fill_window (nt_sender st1))"
    using st1(1,2) unfolding run_append by (simp_all add: transmit_def)
  moreover have "loop_state S isn cap (transmit st1 (fill_window (nt_sender st1)))"
    using lv.run_invar [OF st allowed_always calculation(1)] by simp
  ultimately show ?thesis using fill st1(2) by metis
qed

section \<open>The oldest segment gets through\<close>

lemma syn_received: "TCPReceiver_segment_received r seg = Inr t \<Longrightarrow> th_syn (seg_header seg) \<Longrightarrow> rc_synRecv t"
  by (auto simp: TCPReceiver_segment_received_def TCPReceiver_push_def bind_result_eq_Inr Let_def split: if_splits)

lemma wrap_inj_near: "wrap x isn = wrap y isn \<Longrightarrow> x < 2 ^ 32 \<Longrightarrow> y < 2 ^ 32 \<Longrightarrow> x = y"
  by (simp add: wrap_eq_iff)

text \<open>
  The receiver has read everything, so the oldest unacknowledged segment fits, and the
  acknowledgment that answers it is one the sender has not seen.
\<close>

lemma deliver_oldest:
  assumes inv: "loop_inv S isn cap C p G st" and len: "length S < 2 ^ 31 - 2" and cap: "0 < cap"
    and pt: "recv_point (nt_receiver st) = (x, e, x)" and run: "s_base (nt_sender st) < s_next (nt_sender st)"
    and seg: "seg \<in> set (nt_data st)" "oldest_seg (nt_sender st) seg"
    and syn: "0 < s_base (nt_sender st) \<longrightarrow> rc_synRecv (nt_receiver st)"
    and t: "TCPReceiver_segment_received (nt_receiver st) seg = Inr t"
  shows "s_base (nt_sender st) < fst (recv_point t) + 1 + of_bool (fst (snd (recv_point t)))"
proof (cases "s_base (nt_sender st) = 0")
  case False
  let ?s = "nt_sender st" and ?r = "nt_receiver st" and ?h = "seg_header seg" and ?d = "Buffer_str (seg_payload seg)"
  note v = inv [unfolded loop_inv_def Let_def]
  obtain x0 f0 rd0 where p: "p = (x0, f0, rd0)" by (cases p)
  obtain R f where r: "recv_inv S isn (True, R, f) ?r" and rc: "rc_capacity ?r = cap"
    using v syn False by (auto simp: recv_loop_def recv_inv_def)
  note facts = recv_point_facts [OF r pt]
  have h: "\<not> th_syn ?h" "?d \<noteq> [] \<or> th_fin ?h" "th_seqno ?h = wrap (s_base ?s) isn"
    using seg(2) False v by (auto simp: oldest_seg_def send_loop_def)
  have "in_transit S isn C (syn_sent ?s) (fin_sent ?s) (s_sent ?s) (x + cap) x seg"
    using v seg(1) pt by (simp add: wire_loop_def)
  then obtain i where i: "th_seqno ?h = wrap (i + 1) isn" "slice_at S i ?d" "th_fin ?h \<longrightarrow> i + length ?d = length S"
    "i + length ?d \<le> x + cap \<or> i + length ?d \<le> Suc x"
    using h(1) unfolding in_transit_def Let_def by auto
  have next_le: "s_next ?s \<le> length S + 2"
  proof -
    have "queue_inv (nt_accepted st) (bs_isInputEnd (sn_stream ?s)) (s_sent ?s) (sn_unAckQueue ?s)"
      "length (nt_accepted st) \<le> length S" using v by (auto simp: send_loop_def sender_inv_def)
    then show ?thesis by (cases "syn_sent ?s"; cases "fin_sent ?s") (auto simp: queue_inv_def)
  qed
  have "wrap (i + 1) isn = wrap (s_base ?s) isn" using i(1) h(3) by simp
  then have base: "s_base ?s = i + 1"
    using wrap_inj_near [of "i + 1" isn "s_base ?s"] i(2) len next_le run by (simp add: slice_at_def)
  have "i \<le> x"
  proof -
    have "s_base ?s = x0 + 1 + of_bool f0" "older p (x, e, x)" "good_point C (fin_sent ?s) (length S) cap p"
      using v p pt False by (auto simp: send_loop_def)
    then show ?thesis using p base run next_le by (cases f0) auto
  qed
  have room: "i + length ?d \<le> x + rc_capacity ?r" using i(4) cap rc by auto
  obtain t' where t': "TCPReceiver_segment_received ?r seg = Inr t'"
    "recv_inv S isn (True, R \<union> {i..<i + length ?d}, f \<or> th_fin ?h) t'"
    using deliver_in_window [OF r pt len h(1) i(1,2) room i(3)] by blast
  obtain x' e' rd' where pt': "recv_point t = (x', e', rd')" by (cases "recv_point t")
  have "t' = t" using t'(1) t by simp
  note facts' = recv_point_facts [OF t'(2) [unfolded this] pt']
  have "x \<le> x'" using facts(6) facts'(7) by (metis UnI1 lessThan_iff not_le subset_iff)
  show ?thesis
  proof (cases "?d = []")
    case True
    then have "th_fin ?h" "i = length S" using h(2) i(3) by auto
    then have "e'" using facts'(2,5) \<open>x \<le> x'\<close> \<open>i \<le> x\<close> by auto
    then show ?thesis using base pt' \<open>x \<le> x'\<close> \<open>i \<le> x\<close> by simp
  next
    case False
    then have "x' \<noteq> i" using facts'(7) by auto
    then show ?thesis using base pt' \<open>x \<le> x'\<close> \<open>i \<le> x\<close> by simp
  qed
qed simp

lemma read_all:
  assumes inv: "loop_inv S isn cap C p G st" and pt: "recv_point (nt_receiver st) = (x, e, rd)"
  shows "\<exists>st'. net_step S st (NRead (bs_size (TCPReceiver_stream_out (nt_receiver st)))) = Inr st' \<and>
    loop_inv S isn cap C p G st' \<and> recv_point (nt_receiver st') = (x, e, x) \<and> nt_sender st' = nt_sender st \<and>
    nt_data st' = nt_data st \<and> rc_synRecv (nt_receiver st') = rc_synRecv (nt_receiver st)"
proof -
  let ?s = "nt_sender st" and ?r = "nt_receiver st" and ?n = "bs_size (TCPReceiver_stream_out (nt_receiver st))"
  have loop: "recv_loop S isn C (syn_sent ?s) (fin_sent ?s) (s_sent ?s) ?r" using inv by (simp add: loop_inv_def Let_def)
  then obtain sy R f where r: "recv_inv S isn (sy, R, f) ?r" by (auto simp: recv_loop_def)
  have "rd + ?n = x"
    using r pt by (simp add: recv_inv_def reasm_inv_def recv_point_def TCPReceiver_stream_out_def)
  moreover obtain t where t: "recv_step ?r (Read ?n) = Inr t" "recv_point t = (x, e, rd + min ?n ?n)"
    using recv_loop_read [OF loop pt, of ?n] by blast
  moreover have "rc_synRecv t = rc_synRecv ?r" using t(1) by auto
  moreover obtain t' where "recv_step ?r (Read ?n) = Inr t'" "loop_inv S isn cap C p G (st\<lparr>nt_receiver := t',
      nt_read := nt_read st @ ByteStream_peek_output (TCPReceiver_stream_out ?r) ?n\<rparr>)"
    using read_keeps [OF inv, of ?n] by blast
  ultimately show ?thesis by (simp del: recv_step.simps)
qed

lemma answer:
  assumes inv: "loop_inv S isn cap C p G st" and len: "length S < 2 ^ 31 - 2" and cap: "cap < 2 ^ 16"
    and syn: "rc_synRecv (nt_receiver st)"
  shows "\<exists>st'. run (net_step S) st [NEmit, NAck (length (nt_acks st))] = Inr st' \<and>
    s_base (nt_sender st') = fst (recv_point (nt_receiver st)) + 1 + of_bool (fst (snd (recv_point (nt_receiver st))))"
proof -
  let ?r = "nt_receiver st"
  obtain a where a: "TCPReceiver_ackno ?r = Some a" using syn by (simp add: TCPReceiver_ackno_def)
  define st' where "st' = st\<lparr>nt_acks := nt_acks st @ [(a, word_of_nat (TCPReceiver_window_size ?r))]\<rparr>"
  have inv': "loop_inv S isn cap C p (G @ [recv_point ?r]) st'"
    using emit_ack_keeps [OF inv a] by (simp add: st'_def)
  have k: "length (nt_acks st) < length (nt_acks st')" "length (nt_acks st) = length G"
    using inv by (simp_all add: st'_def loop_inv_def Let_def)
  obtain t where t: "ack_received (nt_sender st') (fst (nt_acks st' ! length (nt_acks st))) (snd (nt_acks st' ! length (nt_acks st))) = Inr t"
    "s_base t = fst (recv_point ?r) + 1 + of_bool (fst (snd (recv_point ?r)))"
    using ack_keeps [OF inv' len cap k(1)] k(2) by auto
  have "net_step S st NEmit = Inr st'" using a by (simp add: st'_def)
  then have "run (net_step S) st [NEmit, NAck (length (nt_acks st))] =
      Inr (st'\<lparr>nt_sender := t, nt_acks := drop (length (nt_acks st)) (nt_acks st')\<rparr>)"
    using t(1) k(1) by (simp del: net_step.simps(6))
  then show ?thesis using t(2) by simp
qed

text \<open>One round: the timer expires, the receiver reads, takes the segment and answers.\<close>

lemma retransmit_step:
  assumes inv: "loop_inv S isn cap C p G st" and run: "s_base (nt_sender st) < s_next (nt_sender st)" and l: "lively st"
  shows "\<exists>ms st' seg. net_step S st (NTick ms) = Inr st' \<and> loop_inv S isn cap C p G st' \<and>
    nt_data st' = nt_data st @ [seg] \<and> oldest_seg (nt_sender st') seg \<and>
    sn_unAckQueue (nt_sender st') = sn_unAckQueue (nt_sender st) \<and> nt_receiver st' = nt_receiver st"
proof -
  let ?s = "nt_sender st"
  have si: "sender_inv (nt_accepted st) ?s" "cuts_ok C ?s" and out: "sn_segments_out ?s = []"
    using inv by (simp_all add: loop_inv_def send_loop_def Let_def)
  obtain ms t seg where tick: "TCPSender_tick ?s ms = Inr t" "sn_segments_out t = [seg]" "oldest_seg ?s seg"
    using due_tick [OF si(1) _ run] l out by (auto simp: lively_def)
  have "sends (nt_accepted st) C ?s C t" "sender_inv (nt_accepted st) t"
    using tick_sends [OF si, of ms] tick_inv [OF si(1), of ms] tick(1) by auto
  then have "loop_inv S isn cap C p G (transmit st t)" "sn_isn t = sn_isn ?s"
    using emit_keeps [OF inv] by (simp_all add: sends_def)
  then show ?thesis using tick tick_same [OF si(1) tick(1)]
    by (intro exI [of _ ms] exI [of _ "transmit st t"]) (auto simp: transmit_def oldest_seg_def)
qed

lemma advance:
  assumes st: "loop_state S isn cap st" and run: "s_base (nt_sender st) < s_next (nt_sender st)"
  shows "\<exists>ops st'. run (net_step S) st ops = Inr st' \<and> loop_state S isn cap st' \<and>
    s_base (nt_sender st) < s_base (nt_sender st')"
proof -
  have len: "length S < 2 ^ 31 - 2" and cap: "0 < cap" "cap < 2 ^ 16" and l: "lively st"
    using st by (simp_all add: loop_state_def)
  obtain C p G where inv: "loop_inv S isn cap C p G st" using st by (auto simp: loop_state_def net_inv_def)
  obtain ms st1 seg where st1: "net_step S st (NTick ms) = Inr st1" "loop_inv S isn cap C p G st1"
    "nt_data st1 = nt_data st @ [seg]" "oldest_seg (nt_sender st1) seg"
    "sn_unAckQueue (nt_sender st1) = sn_unAckQueue (nt_sender st)" "nt_receiver st1 = nt_receiver st"
    using retransmit_step [OF inv run l] by blast
  obtain x e rd where pt: "recv_point (nt_receiver st1) = (x, e, rd)" by (cases "recv_point (nt_receiver st1)")
  obtain n st2 where st2: "net_step S st1 (NRead n) = Inr st2" "loop_inv S isn cap C p G st2"
    "recv_point (nt_receiver st2) = (x, e, x)" "nt_sender st2 = nt_sender st1" "nt_data st2 = nt_data st1"
    "rc_synRecv (nt_receiver st2) = rc_synRecv (nt_receiver st1)"
    using read_all [OF st1(2) pt] by blast
  have i: "length (nt_data st) < length (nt_data st2)" "nt_data st2 ! length (nt_data st) = seg" "seg \<in> set (nt_data st2)"
    using st1(3) st2(5) by simp_all
  obtain r where r: "TCPReceiver_segment_received (nt_receiver st2) seg = Inr r"
    and inv3: "loop_inv S isn cap C p G (st2\<lparr>nt_receiver := r\<rparr>)"
    using deliver_keeps [OF st2(2) len i(1)] i(2) by auto
  have syn: "0 < s_base (nt_sender st2) \<longrightarrow> rc_synRecv (nt_receiver st2)"
    using l st1(5,6) st2(4,6) by (simp add: lively_def)
  have "s_base (nt_sender st2) < s_next (nt_sender st2)" "oldest_seg (nt_sender st2) seg" using run st1(4,5) st2(4) by simp_all
  from deliver_oldest [OF st2(2) len cap(1) st2(3) this(1) i(3) this(2) syn r]
  have more: "s_base (nt_sender st) < fst (recv_point r) + 1 + of_bool (fst (snd (recv_point r)))"
    using st1(5) st2(4) by simp
  have synr: "rc_synRecv r"
    using syn synRecv_kept [OF r] syn_received [OF r] st1(4) st2(4) by (auto simp: oldest_seg_def)
  obtain st5 where st5: "run (net_step S) (st2\<lparr>nt_receiver := r\<rparr>) [NEmit, NAck (length (nt_acks st2))] = Inr st5"
    "s_base (nt_sender st5) = fst (recv_point r) + 1 + of_bool (fst (snd (recv_point r)))"
    using answer [OF inv3 len cap(2)] synr by auto
  let ?ops = "[NTick ms, NRead n, NDeliver (length (nt_data st))] @ [NEmit, NAck (length (nt_acks st2))]"
  have "net_step S st2 (NDeliver (length (nt_data st))) = Inr (st2\<lparr>nt_receiver := r\<rparr>)" using r i(1,2) by simp
  then have "run (net_step S) st [NTick ms, NRead n, NDeliver (length (nt_data st))] = Inr (st2\<lparr>nt_receiver := r\<rparr>)"
    using st1(1) st2(1) by (simp del: net_step.simps)
  then have ops: "run (net_step S) st ?ops = Inr st5" using st5(1) by (simp only: run_append bind_result_simps)
  have "loop_state S isn cap st5" using lv.run_invar [OF st allowed_always ops] by simp
  then show ?thesis using more st5(2) ops by (intro exI [of _ ?ops] exI [of _ st5]) (simp del: net_step.simps)
qed

section \<open>The transfer can always be completed\<close>

lemma reaches_fin:
  assumes "loop_state S isn cap st"
  shows "\<exists>ops st'. run (net_step S) st ops = Inr st' \<and> loop_state S isn cap st' \<and> finAcked (nt_sender st')"
  using assms
proof (induction "length S + 2 - s_base (nt_sender st)" arbitrary: st rule: less_induct)
  case (less st)
  show ?case
  proof (cases "finAcked (nt_sender st)")
    case True
    then show ?thesis using less.prems by (intro exI [of _ "[]"]) auto
  next
    case False
    obtain ops1 st1 where st1: "run (net_step S) st ops1 = Inr st1" "loop_state S isn cap st1"
      "s_base (nt_sender st1) = s_base (nt_sender st)" "s_base (nt_sender st1) < s_next (nt_sender st1)"
    proof (cases "s_base (nt_sender st) < s_next (nt_sender st)")
      case True
      then show thesis using that [of "[]" st] less.prems by simp
    next
      case idle: False
      then show thesis using that refill [OF less.prems False idle] by blast
    qed
    obtain ops2 st2 where st2: "run (net_step S) st1 ops2 = Inr st2" "loop_state S isn cap st2"
      "s_base (nt_sender st1) < s_base (nt_sender st2)" using advance [OF st1(2,4)] by blast
    have "s_base (nt_sender st2) \<le> length S + 2"
    proof -
      obtain C p G where "loop_inv S isn cap C p G st2" using st2(2) by (auto simp: loop_state_def net_inv_def)
      note obs = loop_inv_observable [OF this]
      have "length (nt_accepted st2) \<le> length S"
        using \<open>loop_inv S isn cap C p G st2\<close> by (auto simp: loop_inv_def send_loop_def Let_def)
      then show ?thesis using obs(2,4) by (cases "ByteStream_input_ended (TCPReceiver_stream_out (nt_receiver st2))") auto
    qed
    then have "length S + 2 - s_base (nt_sender st2) < length S + 2 - s_base (nt_sender st)" using st1(3) st2(3) by simp
    from less.hyps [OF this st2(2)] obtain ops3 st3 where
      st3: "run (net_step S) st2 ops3 = Inr st3" "loop_state S isn cap st3" "finAcked (nt_sender st3)" by blast
    have "run (net_step S) st (ops1 @ ops2 @ ops3) = Inr st3"
      using st1(1) st2(1) st3(1) by (simp only: run_append bind_result_simps)
    then show ?thesis using st3(2,3) by blast
  qed
qed

lemma completes:
  assumes "loop_state S isn cap st"
  shows "\<exists>ops st'. run (net_step S) st ops = Inr st' \<and> finAcked (nt_sender st') \<and> nt_read st' = S \<and>
    ByteStream_eof (TCPReceiver_stream_out (nt_receiver st'))"
proof -
  obtain ops st1 where st1: "run (net_step S) st ops = Inr st1" "loop_state S isn cap st1" "finAcked (nt_sender st1)"
    using reaches_fin [OF assms] by blast
  obtain C p G where inv: "loop_inv S isn cap C p G st1" using st1(2) by (auto simp: loop_state_def net_inv_def)
  obtain x e rd where pt: "recv_point (nt_receiver st1) = (x, e, rd)" by (cases "recv_point (nt_receiver st1)")
  obtain n st2 where st2: "net_step S st1 (NRead n) = Inr st2" "loop_inv S isn cap C p G st2"
    "recv_point (nt_receiver st2) = (x, e, x)" "nt_sender st2 = nt_sender st1"
    using read_all [OF inv pt] by blast
  let ?out = "TCPReceiver_stream_out (nt_receiver st2)"
  have fin: "ByteStream_input_ended ?out" "finAcked (nt_sender st2)"
    using loop_inv_observable(5) [OF st2(2)] st1(3) st2(4) by simp_all
  have "recv_loop S isn C (syn_sent (nt_sender st2)) (fin_sent (nt_sender st2)) (s_sent (nt_sender st2)) (nt_receiver st2)"
    using st2(2) by (simp add: loop_inv_def Let_def)
  then obtain sy R f where r: "recv_inv S isn (sy, R, f) (nt_receiver st2)" by (auto simp: recv_loop_def)
  have "x + bs_size ?out = x" using r st2(3) by (simp add: recv_inv_def reasm_inv_def recv_point_def TCPReceiver_stream_out_def)
  then have "ByteStream_eof ?out" using fin(1) by (simp add: ByteStream_eof_def)
  moreover from this have "nt_read st2 = S" by (rule loop_inv_observable(3) [OF st2(2)])
  moreover have "run (net_step S) st (ops @ [NRead n]) = Inr st2"
    using st1(1) st2(1) by (simp only: run_append bind_result_simps run.simps)
  ultimately show ?thesis using fin(2) by blast
qed

lemma loop_state_new:
  assumes "length S < 2 ^ 31 - 2" "0 < recv_capacity" "recv_capacity < 2 ^ 16" "0 < send_capacity" "send_capacity < two64"
  shows "\<exists>isn. loop_state S isn recv_capacity (net_new send_capacity recv_capacity timeout fixed_isn random)"
  using net_inv_new [OF assms(1,3,5), of "()" timeout fixed_isn random] assms
  by (auto simp: loop_state_def lively_def net_new_def TCPSender_new_def ByteStream_new_def UnAckQueue_new_def
      sizes_ok_def pos_list_def)

section \<open>Properties\<close>

text \<open>
  Claim C3. A connected sender and receiver, with buffers of at least one byte, never get stuck: whatever
  writes, ticks, losses, repetitions and reorderings have happened, there is a continuation after
  which the whole stream has been read, the receiver's stream is at its end, and the sender's FIN
  is acknowledged.
\<close>

theorem closed_loop_can_finish:
  assumes "length S < 2 ^ 31 - 2" "0 < recv_capacity" "recv_capacity < 2 ^ 16" "0 < send_capacity" "send_capacity < two64"
    and "run (net_step S) (net_new send_capacity recv_capacity timeout fixed_isn random) ops = Inr st"
  shows "\<exists>more st'. run (net_step S) st more = Inr st' \<and> finAcked (nt_sender st') \<and> nt_read st' = S \<and>
    ByteStream_eof (TCPReceiver_stream_out (nt_receiver st'))"
proof -
  obtain isn where "loop_state S isn recv_capacity (net_new send_capacity recv_capacity timeout fixed_isn random)"
    using loop_state_new [OF assms(1-5)] by blast
  from lv.run_invar [OF this allowed_always assms(6)] have "loop_state S isn recv_capacity st" by simp
  then show ?thesis by (rule completes)
qed

theorem closed_loop_can_finish_witness:
  "\<exists>st more st'. run (net_step [1, 2, 3]) (net_new 1 1 1000 (Some 0xFFFFFFFE) 0) [NWrite 3, NFill, NTick 500] = Inr st \<and>
    run (net_step [1, 2, 3]) st more = Inr st' \<and> finAcked (nt_sender st') \<and> nt_read st' = [1, 2, 3]"
proof -
  have h: "length [1, 2, 3 :: byte] < 2 ^ 31 - 2" "0 < (1 :: nat)" "(1 :: nat) < 2 ^ 16" "0 < (1 :: nat)" "(1 :: nat) < two64"
    by (simp_all add: two64_def)
  obtain isn where "loop_state [1, 2, 3] isn 1 (net_new 1 1 1000 (Some 0xFFFFFFFE) 0)" using loop_state_new [OF h] by blast
  from lv.run_law [OF this allowed_always, of "[NWrite 3, NFill, NTick 500]"] obtain st where
    st: "run (net_step [1, 2, 3]) (net_new 1 1 1000 (Some 0xFFFFFFFE) 0) [NWrite 3, NFill, NTick 500] = Inr st" by blast
  from closed_loop_can_finish [OF h st] st show ?thesis by blast
qed

end
