(* ===== verification/Duplex.thy ===== *)
theory Duplex
  imports Closed_Loop
begin

text \<open>
  One direction of a connection as two endpoints share it: the sender of one, the receiver of the
  other, the segments that carry the data, and the segments of the opposite direction that carry
  the acknowledgments. The laws say what each call inside an endpoint does to the direction it
  sends on and to the one it receives on.
\<close>

section \<open>Segments with data and acknowledgment\<close>

definition bare :: "TCPSegment \<Rightarrow> bool" where
  "bare seg \<longleftrightarrow> \<not> th_syn (seg_header seg) \<and> \<not> th_fin (seg_header seg) \<and> Buffer_str (seg_payload seg) = []"

definition carried :: "bytes \<Rightarrow> WrappingInt32 \<Rightarrow> nat set \<Rightarrow> TCPSender \<Rightarrow> nat \<Rightarrow> point \<Rightarrow> TCPSegment \<Rightarrow> bool" where
  "carried S isn C s cap p seg \<longleftrightarrow>
     bare seg \<or> in_transit S isn C (syn_sent s) (fin_sent s) (s_sent s) (snd (snd p) + cap) (fst p) seg"

lemma stamp_fields [simp]:
  "th_syn (seg_header (stamp r seg)) = th_syn (seg_header seg)"
  "th_fin (seg_header (stamp r seg)) = th_fin (seg_header seg)"
  "th_seqno (seg_header (stamp r seg)) = th_seqno (seg_header seg)"
  "seg_payload (stamp r seg) = seg_payload seg"
  by (cases "TCPReceiver_ackno r"; simp add: stamp_def Let_def)+

lemma carried_stamp [simp]: "carried S isn C s cap p (stamp r seg) = carried S isn C s cap p seg"
  by (simp add: carried_def bare_def in_transit_def Let_def)

lemma bare_carried: "bare seg \<Longrightarrow> carried S isn C s cap p seg"
  by (simp add: carried_def)

text \<open>The point at which the acknowledgment of a segment was made, if it has one.\<close>

fun ack_matches :: "WrappingInt32 \<Rightarrow> nat \<Rightarrow> point option \<Rightarrow> TCPSegment \<Rightarrow> bool" where
  "ack_matches isn cap None seg \<longleftrightarrow> \<not> th_ack (seg_header seg)"
| "ack_matches isn cap (Some p) seg \<longleftrightarrow>
     th_ack (seg_header seg) \<and> (th_ackno (seg_header seg), th_win (seg_header seg)) = ack_of isn cap p"

definition points :: "point option list \<Rightarrow> point list" where
  "points G = List.map_filter id G"

lemma points_simps [simp]:
  "points [] = []" "points (Some p # G) = p # points G" "points (None # G) = points G"
  "points (G @ G') = points G @ points G'"
  by (simp_all add: points_def List.map_filter_def del: split_paired_Ex)

lemma set_points: "set (points G) = {p. Some p \<in> set G}"
  by (force simp: points_def List.map_filter_def)

section \<open>One direction\<close>

definition send_half :: "bytes \<Rightarrow> WrappingInt32 \<Rightarrow> nat set \<Rightarrow> bytes \<Rightarrow> TCPSender \<Rightarrow> bool" where
  "send_half S isn C W s \<longleftrightarrow>
     sender_inv W s \<and> cuts_ok C s \<and> 0 \<in> C \<and> sn_isn s = isn \<and> (\<exists>w. S = W @ w) \<and>
     (bs_isInputEnd (sn_stream s) \<longrightarrow> W = S)"

text \<open>
  Acknowledgments are in order and the sender stands at the last one taken. On a direction without
  data (\<open>S = []\<close>) order does not matter, since only SYN and FIN are ever in flight.
\<close>

definition in_order :: "nat \<Rightarrow> point \<Rightarrow> point list \<Rightarrow> point \<Rightarrow> TCPSender \<Rightarrow> bool" where
  "in_order cap p ps now s \<longleftrightarrow> sorted_wrt older (p # ps @ [now]) \<and> sender_at cap p s"

definition half ::
  "bool \<Rightarrow> bytes \<Rightarrow> WrappingInt32 \<Rightarrow> nat \<Rightarrow> nat set \<Rightarrow> point \<Rightarrow> point option list \<Rightarrow>
   bytes \<Rightarrow> TCPSender \<Rightarrow> TCPSegment set \<Rightarrow> TCPReceiver \<Rightarrow> TCPSegment list \<Rightarrow> bytes \<Rightarrow> bool" where
  "half ord S isn cap C p G W s D r A R \<longleftrightarrow>
     length S < 2 ^ 31 - 2 \<and> cap < 2 ^ 16 \<and> send_half S isn C W s \<and>
     recv_loop S isn C (syn_sent s) (fin_sent s) (s_sent s) r \<and> rc_capacity r = cap \<and>
     (\<forall>seg \<in> D. carried S isn C s cap (recv_point r) seg) \<and>
     list_all2 (ack_matches isn cap) G A \<and> (points G \<noteq> [] \<longrightarrow> syn_sent s) \<and>
     (\<forall>g \<in> set (points G). older g (recv_point r)) \<and>
     (\<forall>g \<in> set (p # points G). good_point C (fin_sent s) (length S) cap g) \<and>
     (if ord then in_order cap p (points G) (recv_point r) s else S = []) \<and>
     R = take (snd (snd (recv_point r))) S"

lemma halfD:
  assumes "half ord S isn cap C p G W s D r A R"
  shows "length S < 2 ^ 31 - 2" "cap < 2 ^ 16" "send_half S isn C W s"
    "recv_loop S isn C (syn_sent s) (fin_sent s) (s_sent s) r" "rc_capacity r = cap"
    "\<forall>seg \<in> D. carried S isn C s cap (recv_point r) seg"
    "list_all2 (ack_matches isn cap) G A" "points G \<noteq> [] \<longrightarrow> syn_sent s"
    "\<forall>g \<in> set (points G). older g (recv_point r)"
    "\<forall>g \<in> set (p # points G). good_point C (fin_sent s) (length S) cap g"
    "if ord then in_order cap p (points G) (recv_point r) s else S = []"
    "R = take (snd (snd (recv_point r))) S"
  using assms unfolding half_def by blast+

definition linked ::
  "bool \<Rightarrow> bytes \<Rightarrow> WrappingInt32 \<Rightarrow> nat \<Rightarrow>
   bytes \<Rightarrow> TCPSender \<Rightarrow> TCPSegment set \<Rightarrow> TCPReceiver \<Rightarrow> TCPSegment list \<Rightarrow> bytes \<Rightarrow> bool" where
  "linked ord S isn cap W s D r A R \<longleftrightarrow> (\<exists>C p G. half ord S isn cap C p G W s D r A R)"

lemma linkedI: "half ord S isn cap C p G W s D r A R \<Longrightarrow> linked ord S isn cap W s D r A R"
  unfolding linked_def by blast

lemma linked_wire:
  assumes "linked ord S isn cap W s D r A R" "D' \<subseteq> D \<union> stamp q ` D \<union> Collect bare"
  shows "linked ord S isn cap W s D' r A R"
proof -
  obtain C p G where h: "half ord S isn cap C p G W s D r A R" using assms(1) by (auto simp: linked_def)
  have "\<forall>seg \<in> D \<union> stamp q ` D \<union> Collect bare. carried S isn C s cap (recv_point r) seg"
    using halfD(6) [OF h] by (auto intro: bare_carried)
  then have "\<forall>seg \<in> D'. carried S isn C s cap (recv_point r) seg" using assms(2) by blast
  then show ?thesis using h by (intro linkedI [of _ _ _ _ C p G]) (simp add: half_def)
qed

subsection \<open>The sender\<close>

lemma carried_mono:
  assumes "carried S isn C s cap p seg" "C \<subseteq> C'" "syn_sent s \<longrightarrow> syn_sent t" "fin_sent s \<longrightarrow> fin_sent t"
    "s_sent s \<le> s_sent t" "older p q"
  shows "carried S isn C' t cap q seg"
proof -
  have "fst p \<le> fst q" "snd (snd p) + cap \<le> snd (snd q) + cap" using assms(6) by (cases p; cases q; simp)+
  then show ?thesis using assms in_transit_mono unfolding carried_def by blast
qed

text \<open>A sender that differs in its queue, its timer or the error flag only.\<close>

lemma linked_same_sender:
  assumes "linked ord S isn cap W s D r A R" "sender_inv W t" "sn_unAckQueue t = sn_unAckQueue s"
    "s_sent t = s_sent s" "bs_isInputEnd (sn_stream t) = bs_isInputEnd (sn_stream s)" "sn_isn t = sn_isn s"
  shows "linked ord S isn cap W t D r A R"
proof -
  obtain C p G where h: "half ord S isn cap C p G W s D r A R" using assms(1) by (auto simp: linked_def)
  have "in_order cap p (points G) (recv_point r) t = in_order cap p (points G) (recv_point r) s"
    using assms(3) by (cases p) (simp add: in_order_def)
  then have "half ord S isn cap C p G W t D r A R"
    using h assms(2-6) by (simp add: half_def send_half_def carried_def cuts_ok_def)
  then show ?thesis by (rule linkedI)
qed

lemma wire_carried:
  assumes t: "send_half S isn C W t" "fin_sent t \<longrightarrow> W = S"
    and p: "if ord then sender_at cap p t \<and> older p now else S = []"
      "good_point C (fin_sent t) (length S) cap p"
    and seg: "wire_seg isn W C (s_base t) (s_next t) seg"
      "th_syn (seg_header seg) \<longrightarrow> syn_sent t" "th_fin (seg_header seg) \<longrightarrow> fin_sent t"
  shows "carried S isn C t cap now seg"
proof -
  obtain x e rd where now: "now = (x, e, rd)" by (cases now)
  obtain w where w: "S = W @ w" and t': "sender_inv W t" "cuts_ok C t" using t(1) by (auto simp: send_half_def)
  show ?thesis
  proof (cases ord)
    case True
    then have "sender_at cap p t" "older p (x, e, rd)" using p(1) now by simp_all
    from wire_in_transit [OF t' w t(2) this(1) p(2) this(2) seg] show ?thesis using now by (simp add: carried_def)
  next
    case False
    then have "S = []" "W = []" using p(1) w by auto
    then show ?thesis
      using seg by (auto simp: carried_def wire_seg_def in_transit_def slice_at_def Let_def split: if_splits)
  qed
qed

lemma linked_sends:
  assumes linked: "linked ord S isn cap W s D r A R"
    and sends: "\<And>C. cuts_ok C s \<Longrightarrow> \<exists>C'. sends W C s C' t" and t: "sender_inv W t"
    and D: "set (sn_segments_out s) \<subseteq> D" "D' \<subseteq> D \<union> set (sn_segments_out t)"
  shows "linked ord S isn cap W t D' r A R"
proof -
  obtain C p G where h: "half ord S isn cap C p G W s D r A R" using linked by (auto simp: linked_def)
  note v = halfD [OF h] and sh = halfD(3) [OF h]
  have "cuts_ok C s" using sh by (simp add: send_half_def)
  then obtain C' where s: "sends W C s C' t" using sends by blast
  note m = s [unfolded sends_def]
  have mono: "C \<subseteq> C'" "syn_sent s \<longrightarrow> syn_sent t" "fin_sent s \<longrightarrow> fin_sent t" "s_sent s \<le> s_sent t"
    using m by simp_all
  have eqs: "cuts_ok C' t" "sn_isn t = sn_isn s" "s_base t = s_base s"
    "uq_win_size (sn_unAckQueue t) = uq_win_size (sn_unAckQueue s)"
    "bs_isInputEnd (sn_stream t) = bs_isInputEnd (sn_stream s)"
    using m by simp_all
  have sh': "send_half S isn C' W t" using sh eqs t mono(1) by (auto simp: send_half_def)
  have endW: "fin_sent t \<longrightarrow> W = S" using t sh' by (auto simp: send_half_def sender_inv_def queue_inv_def)
  have gp: "\<forall>g \<in> set (p # points G). good_point C' (fin_sent t) (length S) cap g"
    using v(10) good_point_mono [OF _ mono(1,3)] by blast
  have pos: "if ord then sender_at cap p t \<and> older p (recv_point r) else S = []"
    using v(11) eqs(3,4) by (cases p) (auto simp: in_order_def)
  have new: "carried S isn C' t cap (recv_point r) seg" if "seg \<in> set (sn_segments_out t) - set (sn_segments_out s)" for seg
  proof -
    have "wire_seg isn W C' (s_base t) (s_next t) seg" "th_syn (seg_header seg) \<longrightarrow> syn_sent t"
      "th_fin (seg_header seg) \<longrightarrow> fin_sent t"
      using that m sh by (auto simp: send_half_def)
    then show ?thesis using wire_carried [OF sh' endW pos] gp by simp
  qed
  have "\<forall>seg \<in> D'. carried S isn C' t cap (recv_point r) seg"
  proof
    fix seg
    assume "seg \<in> D'"
    then consider "seg \<in> D" | "seg \<in> set (sn_segments_out t) - set (sn_segments_out s)" using D by blast
    then show "carried S isn C' t cap (recv_point r) seg"
      by cases (use new v(6) carried_mono [OF _ mono older_refl] in blast)+
  qed
  moreover have "recv_loop S isn C' (syn_sent t) (fin_sent t) (s_sent t) r" by (rule recv_loop_mono [OF v(4) mono])
  ultimately have "half ord S isn cap C' p G W t D' r A R"
    unfolding half_def
  proof (intro conjI)
    show "if ord then in_order cap p (points G) (recv_point r) t else S = []"
      using v(11) pos by (auto simp: in_order_def)
  qed (use v(1,2,5,7-9,12) mono(2) sh' gp in blast)+
  then show ?thesis by (rule linkedI)
qed

subsection \<open>The receiver\<close>

lemma half_receiver:
  assumes h: "half ord S isn cap C p G W s D r A R"
    and t: "recv_loop S isn C (syn_sent s) (fin_sent s) (s_sent s) t" "older (recv_point r) (recv_point t)"
      "rc_capacity t = cap" "R' = take (snd (snd (recv_point t))) S"
  shows "half ord S isn cap C p G W s D t A R'"
proof -
  note v = halfD [OF h]
  have "\<forall>seg \<in> D. carried S isn C s cap (recv_point t) seg"
    using v(6) carried_mono [OF _ order_refl imp_refl imp_refl order_refl t(2)] by blast
  moreover have "\<forall>g \<in> set (points G). older g (recv_point t)" using v(9) older_trans [OF _ t(2)] by blast
  moreover have "if ord then in_order cap p (points G) (recv_point t) s else S = []"
    using v(11) sorted_older_last [of "p # points G", OF _ t(2)] by (simp add: in_order_def split: if_splits)
  ultimately show ?thesis using v(1-3,7,8,10) t(1,3,4) unfolding half_def by blast
qed

text \<open>A receiver that differs in the error flag of its stream only.\<close>

lemma linked_same_receiver:
  assumes "linked ord S isn cap W s D r A R" "\<And>g. recv_inv S isn g r \<Longrightarrow> recv_inv S isn g t"
    "recv_point t = recv_point r" "rc_capacity t = rc_capacity r"
  shows "linked ord S isn cap W s D t A R"
proof -
  obtain C p G where h: "half ord S isn cap C p G W s D r A R" using assms(1) by (auto simp: linked_def)
  note v = halfD [OF h]
  have "recv_loop S isn C (syn_sent s) (fin_sent s) (s_sent s) t" using v(4) assms(2) unfolding recv_loop_def by blast
  from half_receiver [OF h this] show ?thesis using v(5,12) assms(3,4) by (auto intro: linkedI)
qed

lemma recv_bare:
  assumes "recv_inv S isn g r" "bare seg"
  shows "TCPReceiver_segment_received r seg = Inr r"
proof (cases "rc_synRecv r")
  case True
  then have "recv_inv S isn (True, snd g) r" using assms(1) by (cases g) (simp add: recv_inv_def)
  from recv_push_same [OF this] have "TCPReceiver_push r seg k = Inr r" for k
    using assms(2) by (simp add: bare_def push_substring_def)
  then show ?thesis using assms(2) True by (simp add: TCPReceiver_segment_received_def bare_def Let_def)
next
  case False
  then show ?thesis using assms(2) by (simp add: TCPReceiver_segment_received_def bare_def)
qed

lemma linked_deliver:
  assumes "linked ord S isn cap W s D r A R" "seg \<in> D"
  shows "\<exists>t. TCPReceiver_segment_received r seg = Inr t \<and> linked ord S isn cap W s D t A R"
proof -
  obtain C p G where h: "half ord S isn cap C p G W s D r A R" using assms(1) by (auto simp: linked_def)
  note v = halfD [OF h]
  show ?thesis
  proof (cases "bare seg")
    case True
    then show ?thesis using v(4) recv_bare assms(1) unfolding recv_loop_def by blast
  next
    case False
    obtain x e rd where pt: "recv_point r = (x, e, rd)" by (cases "recv_point r")
    have "in_transit S isn C (syn_sent s) (fin_sent s) (s_sent s) (rd + rc_capacity r) x seg"
      using v(5,6) assms(2) False pt by (auto simp: carried_def)
    from recv_deliver [OF v(4) pt this v(1)] obtain t x' e' where
      t: "TCPReceiver_segment_received r seg = Inr t" "recv_loop S isn C (syn_sent s) (fin_sent s) (s_sent s) t"
      "recv_point t = (x', e', rd)" "older (x, e, rd) (x', e', rd)" "rc_capacity t = rc_capacity r" by blast
    then show ?thesis using half_receiver [OF h t(2)] v(5,12) pt by (auto intro: linkedI)
  qed
qed

lemma linked_read:
  assumes "linked ord S isn cap W s D r A R"
  shows "\<exists>t. recv_step r (Read n) = Inr t \<and>
    linked ord S isn cap W s D t A (R @ ByteStream_peek_output (TCPReceiver_stream_out r) n)"
proof -
  obtain C p G where h: "half ord S isn cap C p G W s D r A R" using assms(1) by (auto simp: linked_def)
  note v = halfD [OF h]
  obtain x e rd where pt: "recv_point r = (x, e, rd)" by (cases "recv_point r")
  from recv_loop_read [OF v(4) pt, of n] obtain t m where
    t: "recv_step r (Read n) = Inr t" "recv_loop S isn C (syn_sent s) (fin_sent s) (s_sent s) t"
      "recv_point t = (x, e, rd + m)" "rc_capacity t = rc_capacity r"
      "take rd S @ ByteStream_peek_output (TCPReceiver_stream_out r) n = take (rd + m) S" by blast
  then have "half ord S isn cap C p G W s D t A (R @ ByteStream_peek_output (TCPReceiver_stream_out r) n)"
    using half_receiver [OF h t(2)] v(5,12) pt by simp
  then show ?thesis using t(1) linkedI by blast
qed

subsection \<open>Acknowledgments\<close>

lemma linked_drop:
  assumes "linked ord S isn cap W s D r A R"
  shows "linked ord S isn cap W s D r (drop k A) R"
proof -
  obtain C p G where h: "half ord S isn cap C p G W s D r A R" using assms(1) by (auto simp: linked_def)
  note v = halfD [OF h]
  have G: "points G = points (take k G) @ points (drop k G)" by (simp flip: points_simps(4))
  then have "in_order cap p (points (drop k G)) (recv_point r) s" if "in_order cap p (points G) (recv_point r) s"
    using that by (auto simp: in_order_def sorted_wrt_append)
  moreover have "set (points (drop k G)) \<subseteq> set (points G)" unfolding G by simp
  moreover have "list_all2 (ack_matches isn cap) (drop k G) (drop k A)" using v(7) by (rule list_all2_dropI)
  ultimately have "half ord S isn cap C p (drop k G) W s D r (drop k A) R"
    using v(1-6,8-12) unfolding half_def by (cases ord) auto
  then show ?thesis by (rule linkedI)
qed

lemma linked_take:
  assumes "linked ord S isn cap W s D r A R"
  shows "linked ord S isn cap W s D r (take k A) R"
proof -
  obtain C p G where h: "half ord S isn cap C p G W s D r A R" using assms(1) by (auto simp: linked_def)
  note v = halfD [OF h]
  have G: "points G = points (take k G) @ points (drop k G)" by (simp flip: points_simps(4))
  then have "in_order cap p (points (take k G)) (recv_point r) s" if "in_order cap p (points G) (recv_point r) s"
    using that by (auto simp: in_order_def sorted_wrt_append)
  moreover have "set (points (take k G)) \<subseteq> set (points G)" unfolding G by simp
  moreover have "list_all2 (ack_matches isn cap) (take k G) (take k A)" using v(7) by (rule list_all2_takeI)
  ultimately have "half ord S isn cap C p (take k G) W s D r (take k A) R"
    using v(1-6,8-12) unfolding half_def by (cases ord) auto
  then show ?thesis by (rule linkedI)
qed

lemma linked_stamp:
  assumes "linked ord S isn cap W s D r A R" "\<not> th_ack (seg_header seg)"
  shows "linked ord S isn cap W s D r (A @ [stamp r seg]) R"
proof -
  obtain C p G where h: "half ord S isn cap C p G W s D r A R" using assms(1) by (auto simp: linked_def)
  note v = halfD [OF h]
  show ?thesis
  proof (cases "TCPReceiver_ackno r = None \<or> th_rst (seg_header seg)")
    case True
    then have "stamp r seg = seg" by (auto simp: stamp_def Let_def split: option.split)
    then have "list_all2 (ack_matches isn cap) (G @ [None]) (A @ [stamp r seg])"
      using v(7) assms(2) by (simp add: list_all2_appendI)
    then have "half ord S isn cap C p (G @ [None]) W s D r (A @ [stamp r seg]) R"
      using v unfolding half_def by simp
    then show ?thesis by (rule linkedI)
  next
    case False
    then obtain a where a: "TCPReceiver_ackno r = Some a" "\<not> th_rst (seg_header seg)" by auto
    obtain x e rd where pt: "recv_point r = (x, e, rd)" by (cases "recv_point r")
    obtain sy Rc f where r: "recv_inv S isn (sy, Rc, f) r" "sy \<longrightarrow> syn_sent s" using v(4) by (auto simp: recv_loop_def)
    have sy: sy using r(1) a(1) by (auto simp: recv_inv_def TCPReceiver_ackno_def split: if_splits)
    note facts = recv_point_facts [OF r(1) pt]
    have "ack_matches isn cap (Some (recv_point r)) (stamp r seg)"
      using facts(10,11) sy a v(5) pt by (simp add: stamp_def Let_def)
    then have "list_all2 (ack_matches isn cap) (G @ [Some (recv_point r)]) (A @ [stamp r seg])"
      using v(7) by (simp add: list_all2_appendI)
    moreover have "good_point C (fin_sent s) (length S) cap (recv_point r)"
      using recv_loop_point [OF v(4)] v(3,5) by (simp add: send_half_def)
    moreover have "in_order cap p (points G @ [recv_point r]) (recv_point r) s"
      if "in_order cap p (points G) (recv_point r) s"
      using that sorted_older_last [of "p # points G" "recv_point r" "recv_point r"] by (simp add: in_order_def)
    ultimately have "half ord S isn cap C p (G @ [Some (recv_point r)]) W s D r (A @ [stamp r seg]) R"
      using v r(2) sy unfolding half_def by (cases ord) auto
    then show ?thesis by (rule linkedI)
  qed
qed

lemma linked_stamps:
  "linked ord S isn cap W s D r A R \<Longrightarrow> \<forall>seg \<in> set q. \<not> th_ack (seg_header seg) \<Longrightarrow>
     linked ord S isn cap W s D r (A @ map (stamp r) q) R"
proof (induction q arbitrary: A)
  case (Cons seg q)
  then show ?case using Cons.IH [of "A @ [stamp r seg]"] linked_stamp by simp
qed simp

lemma send_loop_half: "send_loop S isn cap C p W s \<longleftrightarrow> send_half S isn C W s \<and> sender_at cap p s"
  by (auto simp: send_loop_def send_half_def)

text \<open>Without data the only cut is at the start, and any acknowledgment fits.\<close>

lemma cuts_ok_empty:
  assumes "sender_inv [] s"
  shows "cuts_ok {0} s"
proof -
  let ?q = "sn_unAckQueue s"
  have q: "queue_inv [] (bs_isInputEnd (sn_stream s)) (s_sent s) ?q" using assms by (simp add: sender_inv_def)
  then have n: "s_sent s = 0" by (simp add: queue_inv_def)
  have "c = 0 \<and> s_base s \<le> c + 1 \<longleftrightarrow> cut_at (s_base s) (s_sizes s) c" if a: "uq_synAcked ?q" "\<not> uq_finAcked ?q" for c
  proof -
    have "1 \<le> s_base s" "s_base s + length (uq_unAcked ?q) = 1" "sum_list (s_sizes s) = length (uq_unAcked ?q)"
      using q n unfolding queue_inv_open [OF a] by auto
    then have b: "s_base s = 1" "sum_list (s_sizes s) = 0" by linarith+
    show ?thesis unfolding cut_at_zero [OF b(2)] using b(1) by auto
  qed
  then show ?thesis using n by (simp add: cuts_ok_def)
qed

lemma ack_taken_empty:
  assumes sh: "send_half [] isn C W s" and gp: "good_point C (fin_sent s) 0 cap g" and syn: "syn_sent s"
  shows "\<exists>t. ack_received s (fst (ack_of isn cap g)) (snd (ack_of isn cap g)) = Inr t \<and> send_half [] isn C W t"
proof -
  let ?q = "sn_unAckQueue s"
  obtain x f rd where g: "g = (x, f, rd)" by (cases g)
  have W: "W = []" and si: "sender_inv [] s" and isn: "sn_isn s = isn" using sh by (auto simp: send_half_def)
  have q: "queue_inv [] (bs_isInputEnd (sn_stream s)) (s_sent s) ?q" using si by (simp add: sender_inv_def)
  then have n: "s_sent s = 0" by (simp add: queue_inv_def)
  then have C: "C = {0}" using sh by (auto simp: send_half_def cuts_ok_def)
  have x: "x = 0" and fin: "f \<longrightarrow> fin_sent s" using gp g C by auto
  have nx: "s_next s = 1 + of_bool (fin_sent s)" using q n syn by (simp add: queue_inv_def)
  have base: "s_base s \<le> s_next s" by (rule queue_base_le_next [OF q])
  have "\<not> uq_synAcked ?q \<or> 1 \<le> s_base s" using q by (auto simp: queue_inv_def)
  then have "send_ok ([], s) (SAck (wrap (x + 1 + of_bool f) isn) (word_of_nat (rd + cap - x)) (x + 1 + of_bool f))"
    using x fin nx base isn by (cases f) (auto simp: Let_def)
  from ack_law [OF si this] obtain t where
    t: "ack_received s (wrap (x + 1 + of_bool f) isn) (word_of_nat (rd + cap - x)) = Inr t" "sender_inv [] t" by blast
  then have "send_half [] isn C W t"
    using W C isn cuts_ok_empty [OF t(2)] ack_received_same [OF t(1)] by (simp add: send_half_def)
  then show ?thesis using t(1) g by auto
qed

lemma linked_ack:
  assumes linked: "linked ord S isn cap W s D r A R" and ack: "th_ack (seg_header seg)"
    and seg: "if ord then \<exists>A'. A = seg # A' else seg \<in> set A"
  shows "\<exists>t. ack_received s (th_ackno (seg_header seg)) (th_win (seg_header seg)) = Inr t \<and>
    linked ord S isn cap W t D r A R"
proof -
  obtain C p G where h: "half ord S isn cap C p G W s D r A R" using linked by (auto simp: linked_def)
  note v = halfD [OF h]
  obtain g where g: "Some g \<in> set G" "ack_matches isn cap (Some g) seg" "ord \<longrightarrow> (\<exists>G'. G = Some g # G')"
  proof (cases ord)
    case True
    then obtain A' z G' where "A = seg # A'" "G = z # G'" "ack_matches isn cap z seg"
      using seg v(7) by (auto simp: list_all2_Cons2)
    then show ?thesis using that ack by (cases z) auto
  next
    case False
    then obtain z where "z \<in> set G" "ack_matches isn cap z seg"
      using seg v(7) by (metis in_set_conv_nth list_all2_conv_all_nth)
    moreover obtain g where "z = Some g" using \<open>ack_matches isn cap z seg\<close> ack by (cases z) auto
    ultimately show ?thesis using that [of g] False by blast
  qed
  have ack: "ack_of isn cap g = (th_ackno (seg_header seg), th_win (seg_header seg))" using g(2) by simp
  have gG: "g \<in> set (points G)" using g(1) by (simp add: set_points)
  then have gp: "good_point C (fin_sent s) (length S) cap g" and syn: "syn_sent s"
    using v(8,10) by (auto intro: bspec [OF v(10)])
  obtain t where t: "ack_received s (th_ackno (seg_header seg)) (th_win (seg_header seg)) = Inr t" "send_half S isn C W t"
    and pos: "ord \<longrightarrow> sender_at cap g t"
  proof (cases ord)
    case True
    then have "send_loop S isn cap C p W s" "older p g" using v(3,11) g(3) by (auto simp: send_loop_half in_order_def)
    from ack_taken [OF this(1) v(1,2) gp this(2) syn] show ?thesis using that ack by (auto simp: send_loop_half)
  next
    case False
    then have "S = []" using v(11) by simp
    then show ?thesis using ack_taken_empty [OF _ _ syn, of isn C W cap g] v(3) gp ack that False by auto
  qed
  note same = ack_received_same [OF t(1)]
  define p' where "p' = (if ord then g else p)"
  have "if ord then in_order cap p' (points G) (recv_point r) t else S = []"
    using v(11) pos g(3) by (auto simp: in_order_def p'_def)
  moreover have "\<forall>q \<in> set (p' # points G). good_point C (fin_sent s) (length S) cap q" using v(10) gp by (simp add: p'_def)
  ultimately have "half ord S isn cap C p' G W t D r A R"
    using v same t(2) unfolding half_def carried_def by simp
  then show ?thesis using t(1) by (blast intro: linkedI)
qed

subsection \<open>The application of the sender\<close>

lemma linked_stream:
  assumes linked: "linked ord S isn cap W s D r A R" and t: "sender_inv W' (s\<lparr>sn_stream := o'\<rparr>)"
    and S: "S = W' @ w" "bs_isInputEnd o' \<longrightarrow> W' = S" and read: "bs_num_bytes_read o' = s_sent s"
  shows "linked ord S isn cap W' (s\<lparr>sn_stream := o'\<rparr>) D r A R"
proof -
  obtain C p G where h: "half ord S isn cap C p G W s D r A R" using linked by (auto simp: linked_def)
  note v = halfD [OF h]
  have "send_half S isn C W' (s\<lparr>sn_stream := o'\<rparr>)"
    using v(3) t S read by (auto simp: send_half_def cuts_ok_def)
  moreover have "in_order cap p (points G) (recv_point r) (s\<lparr>sn_stream := o'\<rparr>) = in_order cap p (points G) (recv_point r) s"
    by (cases p) (simp add: in_order_def)
  ultimately have "half ord S isn cap C p G W' (s\<lparr>sn_stream := o'\<rparr>) D r A R"
    using v read unfolding half_def carried_def by simp
  then show ?thesis by (rule linkedI)
qed

end
