(* ===== verification/Two_Endpoints.thy ===== *)
theory Two_Endpoints
  imports Duplex
begin

text \<open>
  Two \<open>TCPConnection\<close>s and the network between them. Every call of either owner, the clock and the
  delivery of segments keep an invariant that contains the contract each endpoint needs of the
  other (\<open>peer_ok\<close> in \<open>Connection_Correct\<close>), so nothing is assumed of the peer any more.
\<close>

section \<open>Endpoints\<close>

text \<open>
  \<open>ep_accepted\<close> and \<open>ep_read\<close> are what the application has written and read so far, \<open>ep_out\<close> the segments
  its owner has taken from \<open>segments_out()\<close> and put on the network.
\<close>

record endpoint =
  ep_conn :: TCPConnection
  ep_accepted :: bytes
  ep_read :: bytes
  ep_out :: "TCPSegment list"

text \<open>A direction: whether the way back keeps order, the stream, its initial number, the receiver's capacity.\<close>

type_synonym way = "bool \<times> bytes \<times> WrappingInt32 \<times> nat"

definition wires :: "endpoint \<Rightarrow> TCPSegment set" where
  "wires e = set (ep_out e) \<union> set (cn_segments_out (ep_conn e)) \<union> set (sn_segments_out (cn_sender (ep_conn e)))"

definition acks :: "endpoint \<Rightarrow> TCPSegment list" where
  "acks e = ep_out e @ cn_segments_out (ep_conn e)"

fun dir :: "way \<Rightarrow> endpoint \<Rightarrow> endpoint \<Rightarrow> bool" where
  "dir (ord, S, isn, cap) a b \<longleftrightarrow>
     linked ord S isn cap (ep_accepted a) (cn_sender (ep_conn a)) (wires a)
       (cn_receiver (ep_conn b)) (acks b) (ep_read b)"

definition plain :: "TCPSender \<Rightarrow> bool" where
  "plain s \<longleftrightarrow> (\<forall>seg \<in> set (sn_segments_out s). \<not> th_ack (seg_header seg))"

definition pair_inv :: "way \<Rightarrow> way \<Rightarrow> endpoint \<Rightarrow> endpoint \<Rightarrow> bool" where
  "pair_inv u v a b \<longleftrightarrow> dir u a b \<and> dir v b a \<and> plain (cn_sender (ep_conn a)) \<and> plain (cn_sender (ep_conn b))"

lemma pair_inv_swap: "pair_inv u v a b \<longleftrightarrow> pair_inv v u b a"
  by (auto simp: pair_inv_def)

lemma sends_plain: "sends W C s C' t \<Longrightarrow> plain s \<Longrightarrow> plain t"
  by (auto simp: sends_def plain_def wire_seg_def Let_def)

section \<open>Calls inside an endpoint\<close>

text \<open>A call that changes only the sender affects the direction the endpoint sends on.\<close>

lemma pair_inv_sender:
  assumes inv: "pair_inv u v a b" and u: "u = (ord, S, isn, cap)"
    and t: "plain t" "cn_receiver c = cn_receiver (ep_conn a)" "cn_segments_out c = cn_segments_out (ep_conn a)" "cn_sender c = t"
    and l: "linked ord S isn cap (ep_accepted a) t (set (ep_out a) \<union> set (cn_segments_out c) \<union> set (sn_segments_out t))
      (cn_receiver (ep_conn b)) (acks b) (ep_read b)"
  shows "pair_inv u v (a\<lparr>ep_conn := c\<rparr>) b"
  using assms by (cases v) (simp add: pair_inv_def wires_def acks_def)

lemma fill_pair:
  assumes "pair_inv u v a b"
  shows "pair_inv u v (a\<lparr>ep_conn := on_sender fill_window (ep_conn a)\<rparr>) b"
proof -
  let ?s = "cn_sender (ep_conn a)"
  obtain ord S isn cap where u: "u = (ord, S, isn, cap)" by (cases u)
  have l: "linked ord S isn cap (ep_accepted a) ?s (wires a) (cn_receiver (ep_conn b)) (acks b) (ep_read b)"
    and p: "plain ?s" using assms by (simp_all add: pair_inv_def u)
  obtain C where si: "sender_inv (ep_accepted a) ?s" "cuts_ok C ?s" using l by (auto simp: linked_def half_def send_half_def)
  have "plain (fill_window ?s)" using fill_window_sends [OF si] sends_plain p by blast
  moreover have "linked ord S isn cap (ep_accepted a) (fill_window ?s)
      (set (ep_out a) \<union> set (cn_segments_out (ep_conn a)) \<union> set (sn_segments_out (fill_window ?s)))
      (cn_receiver (ep_conn b)) (acks b) (ep_read b)"
    by (rule linked_sends [OF l fill_window_sends [OF si(1)] fill_window_inv [OF si(1)]]) (auto simp: wires_def)
  ultimately show ?thesis
    by (intro pair_inv_sender [OF assms u, where t = "fill_window ?s"]) (auto simp: on_sender_def)
qed

lemma tick_pair:
  assumes "pair_inv u v a b"
  shows "ok_result (\<lambda>c. pair_inv u v (a\<lparr>ep_conn := c\<rparr>) b) (on_sender_result (\<lambda>s. TCPSender_tick s ms) (ep_conn a))"
proof -
  let ?s = "cn_sender (ep_conn a)"
  obtain ord S isn cap where u: "u = (ord, S, isn, cap)" by (cases u)
  have l: "linked ord S isn cap (ep_accepted a) ?s (wires a) (cn_receiver (ep_conn b)) (acks b) (ep_read b)"
    and p: "plain ?s" using assms by (simp_all add: pair_inv_def u)
  obtain C where si: "sender_inv (ep_accepted a) ?s" "cuts_ok C ?s" using l by (auto simp: linked_def half_def send_half_def)
  obtain t where t: "TCPSender_tick ?s ms = Inr t" "sender_inv (ep_accepted a) t" using tick_inv [OF si(1)] by blast
  have sends: "\<exists>C'. sends (ep_accepted a) C ?s C' t" if "cuts_ok C ?s" for C
    using tick_sends [OF si(1) that, of ms] t(1) by auto
  have "plain t" using sends [OF si(2)] sends_plain p by blast
  moreover have "linked ord S isn cap (ep_accepted a) t
      (set (ep_out a) \<union> set (cn_segments_out (ep_conn a)) \<union> set (sn_segments_out t))
      (cn_receiver (ep_conn b)) (acks b) (ep_read b)"
    by (rule linked_sends [OF l sends t(2)]) (auto simp: wires_def)
  ultimately have "pair_inv u v (a\<lparr>ep_conn := (ep_conn a)\<lparr>cn_sender := t\<rparr>\<rparr>) b"
    by (intro pair_inv_sender [OF assms u, where t = t]) auto
  then show ?thesis using t(1) by (simp add: on_sender_result_def)
qed

lemma empty_pair:
  assumes "pair_inv u v a b"
  shows "pair_inv u v (a\<lparr>ep_conn := on_sender send_empty_segment (ep_conn a)\<rparr>) b"
proof -
  let ?s = "cn_sender (ep_conn a)" and ?t = "send_empty_segment (cn_sender (ep_conn a))"
  obtain ord S isn cap where u: "u = (ord, S, isn, cap)" by (cases u)
  have l: "linked ord S isn cap (ep_accepted a) ?s (wires a) (cn_receiver (ep_conn b)) (acks b) (ep_read b)"
    and p: "plain ?s" using assms by (simp_all add: pair_inv_def u)
  have si: "sender_inv (ep_accepted a) ?s" using l by (auto simp: linked_def half_def send_half_def)
  have "linked ord S isn cap (ep_accepted a) ?t (wires a) (cn_receiver (ep_conn b)) (acks b) (ep_read b)"
    by (rule linked_same_sender [OF l send_empty_inv [OF si]]) (simp_all add: send_empty_segment_def Let_def)
  then have "linked ord S isn cap (ep_accepted a) ?t
      (set (ep_out a) \<union> set (cn_segments_out (ep_conn a)) \<union> set (sn_segments_out ?t))
      (cn_receiver (ep_conn b)) (acks b) (ep_read b)"
    by (rule linked_wire [where q = "cn_receiver (ep_conn a)"])
      (auto simp: wires_def send_empty_segment_def Let_def bare_def TCPSegment_new_def TCPHeader_new_def)
  moreover have "plain ?t"
    using p by (simp add: plain_def send_empty_segment_def Let_def TCPSegment_new_def TCPHeader_new_def)
  ultimately show ?thesis
    by (intro pair_inv_sender [OF assms u, where t = ?t]) (auto simp: on_sender_def)
qed

text \<open>Moving the sender's queue out, with the acknowledgment of the moment.\<close>

lemma output_pair:
  assumes "pair_inv u v a b"
  shows "pair_inv u v (a\<lparr>ep_conn := updateOutput (ep_conn a)\<rparr>) b"
proof -
  let ?c = "ep_conn a" and ?s = "cn_sender (ep_conn a)" and ?r = "cn_receiver (ep_conn a)"
  let ?t = "?s\<lparr>sn_segments_out := []\<rparr>" and ?q = "sn_segments_out (cn_sender (ep_conn a))"
  obtain ord S isn cap where u: "u = (ord, S, isn, cap)" by (cases u)
  obtain ord' S' isn' cap' where v: "v = (ord', S', isn', cap')" by (cases v)
  have l: "linked ord S isn cap (ep_accepted a) ?s (wires a) (cn_receiver (ep_conn b)) (acks b) (ep_read b)"
    and l': "linked ord' S' isn' cap' (ep_accepted b) (cn_sender (ep_conn b)) (wires b) ?r (acks a) (ep_read a)"
    and p: "plain ?s" using assms by (simp_all add: pair_inv_def u v)
  have "sender_inv (ep_accepted a) ?t"
    using l sender_inv_queue [of "ep_accepted a" ?s "[]"] by (auto simp: linked_def half_def send_half_def)
  then have "linked ord S isn cap (ep_accepted a) ?t (wires a) (cn_receiver (ep_conn b)) (acks b) (ep_read b)"
    by (rule linked_same_sender [OF l]) simp_all
  then have "linked ord S isn cap (ep_accepted a) ?t (set (ep_out a) \<union> set (cn_segments_out ?c) \<union> stamp ?r ` set ?q)
      (cn_receiver (ep_conn b)) (acks b) (ep_read b)"
    by (rule linked_wire [where q = ?r]) (auto simp: wires_def)
  moreover have "linked ord' S' isn' cap' (ep_accepted b) (cn_sender (ep_conn b)) (wires b) ?r (acks a @ map (stamp ?r) ?q) (ep_read a)"
    using linked_stamps [OF l'] p by (simp add: plain_def)
  ultimately show ?thesis
    using assms by (simp add: pair_inv_def u v updateOutput_def updateOutput_loop_eq wires_def acks_def plain_def Un_assoc)
qed

lemma shutdown_pair:
  assumes "pair_inv u v a b"
  shows "pair_inv u v (a\<lparr>ep_conn := uncleanShutdown (ep_conn a)\<rparr>) b"
proof -
  let ?c = "uncleanShutdown (ep_conn a)"
  obtain ord S isn cap where u: "u = (ord, S, isn, cap)" by (cases u)
  obtain ord' S' isn' cap' where v: "v = (ord', S', isn', cap')" by (cases v)
  have l: "linked ord S isn cap (ep_accepted a) (cn_sender (ep_conn a)) (wires a) (cn_receiver (ep_conn b)) (acks b) (ep_read b)"
    and l': "linked ord' S' isn' cap' (ep_accepted b) (cn_sender (ep_conn b)) (wires b) (cn_receiver (ep_conn a)) (acks a) (ep_read a)"
    using assms by (simp_all add: pair_inv_def u v)
  have "sender_inv (ep_accepted a) (cn_sender ?c)"
    using l by (auto simp: linked_def half_def send_half_def uncleanShutdown_def sender_inv_def stream_inv_def Let_def)
  then have "linked ord S isn cap (ep_accepted a) (cn_sender ?c) (wires a) (cn_receiver (ep_conn b)) (acks b) (ep_read b)"
    by (rule linked_same_sender [OF l]) (simp_all add: uncleanShutdown_def Let_def)
  moreover have "linked ord' S' isn' cap' (ep_accepted b) (cn_sender (ep_conn b)) (wires b) (cn_receiver ?c) (acks a) (ep_read a)"
    by (rule linked_same_receiver [OF l'])
      (auto simp: uncleanShutdown_def recv_inv_def reasm_inv_def sr_inv_def TCPReceiver_stream_out_def recv_point_def Let_def)
  ultimately show ?thesis
    using assms by (simp add: pair_inv_def u v wires_def acks_def plain_def uncleanShutdown_def Let_def)
qed

lemma rst_pair:
  assumes "pair_inv u v a b"
  shows "pair_inv u v (a\<lparr>ep_conn := sendRSTSeg (ep_conn a)\<rparr>) b"
proof -
  let ?s = "cn_sender (ep_conn a)" and ?r = "cn_receiver (ep_conn a)" and ?t = "(cn_sender (ep_conn a))\<lparr>sn_segments_out := []\<rparr>"
  obtain ord S isn cap where u: "u = (ord, S, isn, cap)" by (cases u)
  obtain ord' S' isn' cap' where v: "v = (ord', S', isn', cap')" by (cases v)
  obtain sqn where c: "sendRSTSeg (ep_conn a) = (ep_conn a)\<lparr>cn_segments_out := [rst_seg sqn], cn_sender := ?t\<rparr>"
    by (simp add: sendRSTSeg_eq)
  have l: "linked ord S isn cap (ep_accepted a) ?s (wires a) (cn_receiver (ep_conn b)) (acks b) (ep_read b)"
    and l': "linked ord' S' isn' cap' (ep_accepted b) (cn_sender (ep_conn b)) (wires b) ?r (acks a) (ep_read a)"
    using assms by (simp_all add: pair_inv_def u v)
  have rst: "bare (rst_seg sqn)" "\<not> th_ack (seg_header (rst_seg sqn))" "stamp ?r (rst_seg sqn) = rst_seg sqn"
    by (auto simp: bare_def rst_seg_def TCPSegment_new_def TCPHeader_new_def stamp_def Let_def split: option.split)
  have "sender_inv (ep_accepted a) ?t"
    using l sender_inv_queue [of "ep_accepted a" ?s "[]"] by (auto simp: linked_def half_def send_half_def)
  then have "linked ord S isn cap (ep_accepted a) ?t (wires a) (cn_receiver (ep_conn b)) (acks b) (ep_read b)"
    by (rule linked_same_sender [OF l]) simp_all
  then have "linked ord S isn cap (ep_accepted a) ?t (insert (rst_seg sqn) (set (ep_out a))) (cn_receiver (ep_conn b)) (acks b) (ep_read b)"
    by (rule linked_wire [where q = ?r]) (auto simp: wires_def rst)
  moreover have "linked ord' S' isn' cap' (ep_accepted b) (cn_sender (ep_conn b)) (wires b) ?r (ep_out a @ [rst_seg sqn]) (ep_read a)"
    using linked_stamp [OF linked_take [OF l', of "length (ep_out a)"] rst(2)] rst(3) by (simp add: acks_def)
  ultimately show ?thesis
    using assms by (simp add: pair_inv_def u v c wires_def acks_def plain_def)
qed

text \<open>A segment that waits on the network, and where it has to wait.\<close>

definition waiting :: "way \<Rightarrow> endpoint \<Rightarrow> TCPSegment \<Rightarrow> bool" where
  "waiting u b seg \<longleftrightarrow> (if fst u then \<exists>rest. ep_out b = seg # rest else seg \<in> set (ep_out b))"

lemma receive_pair:
  assumes "pair_inv u v a b" "waiting u b seg"
  shows "ok_result (\<lambda>c. pair_inv u v (a\<lparr>ep_conn := c\<rparr>) b) (to_receiver seg (ep_conn a))"
proof -
  obtain ord S isn cap where v: "v = (ord, S, isn, cap)" by (cases v)
  have "seg \<in> wires b" using assms(2) by (auto simp: waiting_def wires_def split: if_splits)
  moreover have "linked ord S isn cap (ep_accepted b) (cn_sender (ep_conn b)) (wires b) (cn_receiver (ep_conn a)) (acks a) (ep_read a)"
    using assms(1) by (simp add: pair_inv_def v)
  ultimately obtain t where t: "TCPReceiver_segment_received (cn_receiver (ep_conn a)) seg = Inr t"
    "linked ord S isn cap (ep_accepted b) (cn_sender (ep_conn b)) (wires b) t (acks a) (ep_read a)"
    using linked_deliver by blast
  then have "pair_inv u v (a\<lparr>ep_conn := (ep_conn a)\<lparr>cn_receiver := t\<rparr>\<rparr>) b"
    using assms(1) by (cases u) (simp add: pair_inv_def v wires_def acks_def)
  then show ?thesis using t(1) by (simp add: to_receiver_def)
qed

lemma ack_pair:
  assumes "pair_inv u v a b" "waiting u b seg"
  shows "ok_result (\<lambda>c. pair_inv u v (a\<lparr>ep_conn := c\<rparr>) b) (take_ack (seg_header seg) (ep_conn a))"
proof (cases "th_ack (seg_header seg)")
  case True
  let ?s = "cn_sender (ep_conn a)"
  obtain ord S isn cap where u: "u = (ord, S, isn, cap)" by (cases u)
  have l: "linked ord S isn cap (ep_accepted a) ?s (wires a) (cn_receiver (ep_conn b)) (acks b) (ep_read b)"
    using assms by (simp add: pair_inv_def u)
  have "if ord then \<exists>A'. acks b = seg # A' else seg \<in> set (acks b)"
    using assms(2) by (auto simp: waiting_def acks_def u)
  from linked_ack [OF l True this] obtain t where
    t: "ack_received ?s (th_ackno (seg_header seg)) (th_win (seg_header seg)) = Inr t"
    "linked ord S isn cap (ep_accepted a) t (wires a) (cn_receiver (ep_conn b)) (acks b) (ep_read b)" by blast
  note same = ack_received_same [OF t(1)]
  have "pair_inv u v (a\<lparr>ep_conn := (ep_conn a)\<lparr>cn_sender := t\<rparr>\<rparr>) b"
    using assms(1) t(2) same by (cases v) (simp add: pair_inv_def u wires_def acks_def plain_def)
  then show ?thesis using t(1) True by (simp add: take_ack_def on_sender_result_def)
next
  case False
  then show ?thesis using assms(1) by (simp add: take_ack_def)
qed

interpretation lw: endpoint_laws "\<lambda>c. pair_inv u v (a\<lparr>ep_conn := c\<rparr>) b"
    "\<lambda>seg c. pair_inv u v (a\<lparr>ep_conn := c\<rparr>) b \<and> waiting u b seg"
    "\<lambda>seg c. pair_inv u v (a\<lparr>ep_conn := c\<rparr>) b \<and> waiting u b seg"
  for u v a b
proof
  fix c seg ms flag
  let ?I = "\<lambda>c. pair_inv u v (a\<lparr>ep_conn := c\<rparr>) b"
  let ?W = "\<lambda>c. ?I c \<and> waiting u b seg"
  have frame: "?I c' = ?I c"
    if "cn_sender c' = cn_sender c" "cn_receiver c' = cn_receiver c" "cn_segments_out c' = cn_segments_out c" for c'
    using that by (cases u; cases v) (simp add: pair_inv_def wires_def acks_def)
  show time: "?I c \<Longrightarrow> ?I (c\<lparr>cn_time_since_last_segment_received := ms\<rparr>)"
    using frame [of "c\<lparr>cn_time_since_last_segment_received := ms\<rparr>"] by simp
  then show "?W c \<Longrightarrow> ?W (c\<lparr>cn_time_since_last_segment_received := ms\<rparr>)" by blast
  show "?I c \<Longrightarrow> ?I (c\<lparr>cn_active := flag\<rparr>)" using frame [of "c\<lparr>cn_active := flag\<rparr>"] by simp
  show "?I c \<Longrightarrow> ?I (c\<lparr>cn_time_wait := flag\<rparr>)" using frame [of "c\<lparr>cn_time_wait := flag\<rparr>"] by simp
  show "?I c \<Longrightarrow> ?I (c\<lparr>cn_linger_after_streams_finish := flag\<rparr>)"
    using frame [of "c\<lparr>cn_linger_after_streams_finish := flag\<rparr>"] by simp
  show fill: "?I c \<Longrightarrow> ?I (on_sender fill_window c)" using fill_pair [of u v "a\<lparr>ep_conn := c\<rparr>" b] by simp
  show emp: "?I c \<Longrightarrow> ?I (on_sender send_empty_segment c)" for c using empty_pair [of u v "a\<lparr>ep_conn := c\<rparr>" b] by simp
  show outp: "?I c \<Longrightarrow> ?I (updateOutput c)" for c using output_pair [of u v "a\<lparr>ep_conn := c\<rparr>" b] by simp
  show "?W c \<Longrightarrow> ?W (updateOutput (on_sender send_empty_segment c))" using outp emp by blast
  show "?W c \<Longrightarrow> ok_result ?W (to_receiver seg c)"
    using receive_pair [of u v "a\<lparr>ep_conn := c\<rparr>" b seg] by (auto simp: ok_result_def)
  show "?W c \<Longrightarrow> ok_result ?I (take_ack (seg_header seg) c)"
    using ack_pair [of u v "a\<lparr>ep_conn := c\<rparr>" b seg] by simp
  show "?I c \<Longrightarrow> ?I (uncleanShutdown c)" using shutdown_pair [of u v "a\<lparr>ep_conn := c\<rparr>" b] by simp
  show "?I c \<Longrightarrow> ?I (sendRSTSeg c)" using rst_pair [of u v "a\<lparr>ep_conn := c\<rparr>" b] by simp
  show "?I c \<Longrightarrow> ok_result ?I (on_sender_result (\<lambda>s. TCPSender_tick s ms) c)"
    using tick_pair [of u v "a\<lparr>ep_conn := c\<rparr>" b ms] by simp
qed auto

section \<open>The system\<close>

text \<open>
  What can happen at one endpoint. The application writes the next bytes of its stream \<open>S\<close>, as many as
  it likes, closes after the last one, and reads. \<open>DSend\<close> puts the waiting segments on the network.
  \<open>DReceive k\<close> delivers a segment of the peer: on a way that keeps order the \<open>k\<close> before it are lost and
  it may be delivered again; on one that does not, any segment may be delivered at any time.
\<close>

datatype side_op =
    DConnect
  | DWrite nat
  | DEnd
  | DTick nat
  | DRead nat
  | DSend
  | DReceive nat

fun act :: "bool \<Rightarrow> bytes \<Rightarrow> endpoint \<Rightarrow> endpoint \<Rightarrow> side_op \<Rightarrow> (endpoint \<times> endpoint) result" where
  "act ord S a b DConnect = Inr (a\<lparr>ep_conn := connect (ep_conn a)\<rparr>, b)"
| "act ord S a b (DWrite n) =
     (let d = take n (drop (length (ep_accepted a)) S); (k, c) = TCPConnection_write (ep_conn a) d
      in Inr (a\<lparr>ep_accepted := ep_accepted a @ take k d, ep_conn := c\<rparr>, b))"
| "act ord S a b DEnd =
     Inr (if ep_accepted a = S then a\<lparr>ep_conn := end_input_stream (ep_conn a)\<rparr> else a, b)"
| "act ord S a b (DTick ms) =
     bind_result (TCPConnection_tick (ep_conn a) ms) (\<lambda>c. Inr (a\<lparr>ep_conn := c\<rparr>, b))"
| "act ord S a b (DRead n) =
     Inr (a\<lparr>ep_conn := read_inbound (ep_conn a) n,
            ep_read := ep_read a @ ByteStream_peek_output (inbound_stream (ep_conn a)) n\<rparr>, b)"
| "act ord S a b DSend =
     Inr (a\<lparr>ep_out := ep_out a @ cn_segments_out (ep_conn a),
            ep_conn := (ep_conn a)\<lparr>cn_segments_out := []\<rparr>\<rparr>, b)"
| "act ord S a b (DReceive k) =
     (if k < length (ep_out b)
      then bind_result (TCPConnection_segment_received (ep_conn a) (ep_out b ! k))
             (\<lambda>c. Inr (a\<lparr>ep_conn := c\<rparr>, if ord then b\<lparr>ep_out := drop k (ep_out b)\<rparr> else b))
      else Inr (a, b))"

text \<open>\<open>OpX\<close> and \<open>OpY\<close> say at which endpoint an operation happens.\<close>

datatype pair_op = OpX side_op | OpY side_op

fun pair_step :: "bool \<Rightarrow> bool \<Rightarrow> bytes \<Rightarrow> bytes \<Rightarrow> endpoint \<times> endpoint \<Rightarrow> pair_op \<Rightarrow> (endpoint \<times> endpoint) result" where
  "pair_step ordx ordy Sx Sy (x, y) (OpX e) = act ordx Sx x y e"
| "pair_step ordx ordy Sx Sy (x, y) (OpY e) = bind_result (act ordy Sy y x e) (\<lambda>(y, x). Inr (x, y))"

definition endpoint_new :: "TCPConfig \<Rightarrow> WrappingInt32 \<Rightarrow> endpoint" where
  "endpoint_new cfg rand =
     \<lparr>ep_conn = TCPConnection_new cfg rand, ep_accepted = [], ep_read = [], ep_out = []\<rparr>"

section \<open>Every operation keeps the invariant\<close>

lemma write_pair:
  assumes inv: "pair_inv u v a b" and u: "u = (ord, S, isn, cap)"
  shows "\<exists>a'. act ord S a b (DWrite n) = Inr (a', b) \<and> pair_inv u v a' b"
proof -
  let ?W = "ep_accepted a" and ?s = "cn_sender (ep_conn a)"
  define d where "d = take n (drop (length ?W) S)"
  show ?thesis
  proof (cases "d = []")
    case True
    then show ?thesis using inv unfolding act.simps d_def [symmetric] by (simp add: TCPConnection_write_def)
  next
    case False
    obtain k o' where k: "ByteStream_write (sn_stream ?s) d = (k, o')" by (cases "ByteStream_write (sn_stream ?s) d")
    have l: "linked ord S isn cap ?W ?s (wires a) (cn_receiver (ep_conn b)) (acks b) (ep_read b)"
      using inv by (simp add: pair_inv_def u)
    then obtain w where w: "S = ?W @ w" and fin: "bs_isInputEnd (sn_stream ?s) \<longrightarrow> ?W = S" and si: "sender_inv ?W ?s"
      and len: "length S < 2 ^ 31 - 2" by (auto simp: linked_def half_def send_half_def)
    have "length ?W + length d < 2 ^ 62" using w len arg_cong [OF w, of length] by (auto simp: d_def)
    from write_law [OF si this] have t: "sender_inv (?W @ take k d) (?s\<lparr>sn_stream := o'\<rparr>)"
      using k by (simp add: send_inv_def)
    have dw: "d = take n w" unfolding d_def by (subst w) simp
    have ended: "bs_isInputEnd o' = bs_isInputEnd (sn_stream ?s)"
      using k by (auto simp: ByteStream_write_def Let_def split: if_splits)
    have "S = (?W @ take k d) @ drop (min k n) w" unfolding dw by (subst w) (simp add: take_drop)
    moreover have "bs_isInputEnd o' \<longrightarrow> ?W @ take k d = S" using ended fin w dw by auto
    ultimately have "linked ord S isn cap (?W @ take k d) (?s\<lparr>sn_stream := o'\<rparr>) (wires a) (cn_receiver (ep_conn b)) (acks b) (ep_read b)"
      by (rule linked_stream [OF l t]) (use write_position(1) [of "sn_stream ?s" d] k in simp)
    then have "pair_inv u v (a\<lparr>ep_conn := (ep_conn a)\<lparr>cn_sender := ?s\<lparr>sn_stream := o'\<rparr>\<rparr>, ep_accepted := ?W @ take k d\<rparr>) b"
      using inv by (cases v) (simp add: pair_inv_def u wires_def acks_def plain_def)
    from output_pair [OF fill_pair [OF this]]
    have "pair_inv u v (a\<lparr>ep_accepted := ?W @ take k d,
        ep_conn := updateOutput (on_sender fill_window ((ep_conn a)\<lparr>cn_sender := ?s\<lparr>sn_stream := o'\<rparr>\<rparr>))\<rparr>) b" by simp
    then show ?thesis
      using False k unfolding act.simps d_def [symmetric] by (simp add: TCPConnection_write_def)
  qed
qed

lemma end_pair:
  assumes inv: "pair_inv u v a b" and u: "u = (ord, S, isn, cap)"
  shows "\<exists>a'. act ord S a b DEnd = Inr (a', b) \<and> pair_inv u v a' b"
proof (cases "ep_accepted a = S")
  case True
  let ?s = "cn_sender (ep_conn a)" and ?e = "\<lambda>s. s\<lparr>sn_stream := ByteStream_end_input (sn_stream s)\<rparr>"
  have l: "linked ord S isn cap S ?s (wires a) (cn_receiver (ep_conn b)) (acks b) (ep_read b)"
    using inv True by (simp add: pair_inv_def u)
  have "sender_inv S ?s" using l by (auto simp: linked_def half_def send_half_def)
  from linked_stream [OF l end_law [OF this], of "[]"]
  have "linked ord S isn cap S (?e ?s) (wires a) (cn_receiver (ep_conn b)) (acks b) (ep_read b)" by simp
  then have "pair_inv u v (a\<lparr>ep_conn := on_sender ?e (ep_conn a)\<rparr>) b"
    using inv True by (cases v) (simp add: pair_inv_def u wires_def acks_def plain_def on_sender_def)
  from output_pair [OF fill_pair [OF this]] show ?thesis using True by (simp add: end_input_stream_def)
qed (use inv in simp)

lemma read_pair:
  assumes "pair_inv u v a b"
  shows "\<exists>a'. act ord S a b (DRead n) = Inr (a', b) \<and> pair_inv u v a' b"
proof -
  obtain ord S isn cap where v: "v = (ord, S, isn, cap)" by (cases v)
  have "linked ord S isn cap (ep_accepted b) (cn_sender (ep_conn b)) (wires b) (cn_receiver (ep_conn a)) (acks a) (ep_read a)"
    using assms by (simp add: pair_inv_def v)
  from linked_read [OF this, of n] have "linked ord S isn cap (ep_accepted b) (cn_sender (ep_conn b)) (wires b)
      (cn_receiver (read_inbound (ep_conn a) n)) (acks a)
      (ep_read a @ ByteStream_peek_output (inbound_stream (ep_conn a)) n)"
    by (simp add: read_inbound_def inbound_stream_def Let_def)
  moreover have "cn_sender (read_inbound (ep_conn a) n) = cn_sender (ep_conn a)"
    "cn_segments_out (read_inbound (ep_conn a) n) = cn_segments_out (ep_conn a)"
    by (simp_all add: read_inbound_def Let_def)
  ultimately show ?thesis using assms by (cases u) (simp add: pair_inv_def v wires_def acks_def)
qed

lemma send_pair:
  "pair_inv u v a b \<Longrightarrow> pair_inv u v (a\<lparr>ep_out := ep_out a @ cn_segments_out (ep_conn a),
     ep_conn := (ep_conn a)\<lparr>cn_segments_out := []\<rparr>\<rparr>) b"
  by (cases u; cases v) (simp add: pair_inv_def wires_def acks_def)

lemma lose_pair:
  assumes "pair_inv u v a b"
  shows "pair_inv u v a (b\<lparr>ep_out := drop k (ep_out b)\<rparr>)"
proof -
  obtain ord S isn cap where u: "u = (ord, S, isn, cap)" by (cases u)
  obtain ord' S' isn' cap' where v: "v = (ord', S', isn', cap')" by (cases v)
  have l: "linked ord S isn cap (ep_accepted a) (cn_sender (ep_conn a)) (wires a) (cn_receiver (ep_conn b)) (acks b) (ep_read b)"
    and l': "linked ord' S' isn' cap' (ep_accepted b) (cn_sender (ep_conn b)) (wires b) (cn_receiver (ep_conn a)) (acks a) (ep_read a)"
    using assms by (simp_all add: pair_inv_def u v)
  define j where "j = min k (length (ep_out b))"
  have j: "drop j (acks b) = drop k (ep_out b) @ cn_segments_out (ep_conn b)" by (simp add: acks_def j_def min_def)
  have "wires (b\<lparr>ep_out := drop k (ep_out b)\<rparr>) \<subseteq> wires b" by (auto simp: wires_def dest: in_set_dropD)
  then have "linked ord' S' isn' cap' (ep_accepted b) (cn_sender (ep_conn b)) (wires (b\<lparr>ep_out := drop k (ep_out b)\<rparr>))
      (cn_receiver (ep_conn a)) (acks a) (ep_read a)"
    by (intro linked_wire [OF l', where q = "cn_receiver (ep_conn a)"]) auto
  then show ?thesis
    using assms linked_drop [OF l, of j] unfolding j by (simp add: pair_inv_def u v acks_def)
qed

lemma deliver_pair:
  assumes inv: "pair_inv u v a b" and u: "u = (ord, S, isn, cap)" and k: "k < length (ep_out b)"
  shows "\<exists>a' b'. act ord S a b (DReceive k) = Inr (a', b') \<and> pair_inv u v a' b'"
proof -
  define b' where "b' = (if ord then b\<lparr>ep_out := drop k (ep_out b)\<rparr> else b)"
  have "pair_inv u v (a\<lparr>ep_conn := ep_conn a\<rparr>) b'" using inv lose_pair [OF inv] by (simp add: b'_def)
  moreover have "waiting u b' (ep_out b ! k)" using k by (simp add: waiting_def u b'_def flip: Cons_nth_drop_Suc)
  ultimately have "ok_result (\<lambda>c. pair_inv u v (a\<lparr>ep_conn := c\<rparr>) b') (TCPConnection_segment_received (ep_conn a) (ep_out b ! k))"
    by (intro lw.segment_received) blast
  then show ?thesis using k by (auto simp: ok_result_def b'_def)
qed

lemma act_keeps:
  assumes inv: "pair_inv u v a b" and u: "u = (ord, S, isn, cap)"
  shows "\<exists>a' b'. act ord S a b e = Inr (a', b') \<and> pair_inv u v a' b'"
proof (cases e)
  case DConnect
  have "pair_inv u v (a\<lparr>ep_conn := ep_conn a\<rparr>) b" using inv by simp
  from lw.connect [OF this] show ?thesis using DConnect by simp
next
  case (DTick ms)
  have "pair_inv u v (a\<lparr>ep_conn := ep_conn a\<rparr>) b" using inv by simp
  from lw.tick [OF this, of ms] show ?thesis using DTick by (auto simp: ok_result_def)
next
  case (DReceive k)
  then show ?thesis using deliver_pair [OF inv u, of k] inv by (cases "k < length (ep_out b)") auto
next
  case (DWrite n)
  then show ?thesis using write_pair [OF inv u, of n] by blast
next
  case (DRead n)
  then show ?thesis using read_pair [OF inv, of ord S n] by blast
next
  case DEnd
  then show ?thesis using end_pair [OF inv u] by blast
next
  case DSend
  then show ?thesis using send_pair [OF inv] by simp
qed

interpretation pr: guarded_system "pair_step (fst u) (fst v) (fst (snd u)) (fst (snd v))" "\<lambda>g (x, y). pair_inv u v x y"
    "\<lambda>g :: unit. \<lambda>e. g" "\<lambda>st e. True"
  for u v
proof
  fix g :: unit and st :: "endpoint \<times> endpoint" and e
  obtain x y where st: "st = (x, y)" by (cases st)
  obtain ord S isn cap where u: "u = (ord, S, isn, cap)" by (cases u)
  obtain ord' S' isn' cap' where v: "v = (ord', S', isn', cap')" by (cases v)
  assume "case st of (x, y) \<Rightarrow> pair_inv u v x y"
  then have inv: "pair_inv u v x y" "pair_inv v u y x" by (simp_all add: st pair_inv_swap)
  show "\<exists>t. pair_step (fst u) (fst v) (fst (snd u)) (fst (snd v)) st e = Inr t \<and> (case t of (x, y) \<Rightarrow> pair_inv u v x y)"
  proof (cases e)
    case (OpX f)
    then show ?thesis using act_keeps [OF inv(1) u, of f] by (auto simp: st u)
  next
    case (OpY f)
    obtain y' x' where "act ord' S' y x f = Inr (y', x')" "pair_inv v u y' x'" using act_keeps [OF inv(2) v] by blast
    then show ?thesis using OpY by (simp add: st v pair_inv_swap)
  qed
qed

lemma dir_new:
  assumes "length S < 2 ^ 31 - 2" "cfg_recv_capacity cfgb < 2 ^ 16" "cfg_send_capacity cfga < two64" "ord \<or> S = []"
  shows "dir (ord, S, sn_isn (cn_sender (TCPConnection_new cfga ra)), cfg_recv_capacity cfgb)
    (endpoint_new cfga ra) (endpoint_new cfgb rb)"
proof -
  let ?s = "TCPSender_new (cfg_send_capacity cfga) (cfg_rt_timeout cfga) (cfg_fixed_isn cfga) ra"
  let ?r = "TCPReceiver_new (cfg_recv_capacity cfgb)" and ?isn = "sn_isn (cn_sender (TCPConnection_new cfga ra))"
  have s: "cn_sender (TCPConnection_new cfga ra) = ?s" "cn_receiver (TCPConnection_new cfgb rb) = ?r"
    "cn_segments_out (TCPConnection_new cfga ra) = []" "cn_segments_out (TCPConnection_new cfgb rb) = []"
    by (simp_all add: TCPConnection_new_def)
  have pt: "recv_point ?r = (0, False, 0)" by (rule recv_point_new)
  have "send_half S ?isn {0} [] ?s"
    using sender_inv_new [OF assms(3)] unfolding s
    by (simp add: send_half_def cuts_ok_def TCPSender_new_def UnAckQueue_new_def ByteStream_new_def)
  moreover have "recv_loop S ?isn {0} (syn_sent ?s) (fin_sent ?s) (s_sent ?s) ?r"
    using recv_loop_new [of S "cfg_recv_capacity cfgb" ?isn] assms(1,2)
    by (simp add: TCPSender_new_def UnAckQueue_new_def ByteStream_new_def)
  ultimately have "half ord S ?isn (cfg_recv_capacity cfgb) {0} (0, False, 0) [] [] ?s {} ?r [] []"
    using assms pt by (auto simp: half_def in_order_def TCPSender_new_def UnAckQueue_new_def TCPReceiver_new_def)
  then have "linked ord S ?isn (cfg_recv_capacity cfgb) [] ?s {} ?r [] []" by (rule linkedI)
  moreover have "sn_segments_out ?s = []" by (simp add: TCPSender_new_def)
  ultimately show ?thesis using s by (simp add: endpoint_new_def wires_def acks_def)
qed

lemma pair_inv_new:
  assumes "length Sx < 2 ^ 31 - 2" "length Sy < 2 ^ 31 - 2" "ordx \<or> Sx = []" "ordy \<or> Sy = []"
    and "cfg_recv_capacity cx < 2 ^ 16" "cfg_recv_capacity cy < 2 ^ 16" "cfg_send_capacity cx < two64" "cfg_send_capacity cy < two64"
  shows "\<exists>isnx isny. pair_inv (ordx, Sx, isnx, cfg_recv_capacity cy) (ordy, Sy, isny, cfg_recv_capacity cx)
    (endpoint_new cx rx) (endpoint_new cy ry)"
proof -
  have "plain (cn_sender (ep_conn (endpoint_new c r)))" for c r
    by (simp add: plain_def endpoint_new_def TCPConnection_new_def TCPSender_new_def)
  then show ?thesis using dir_new [of Sx cy cx ordx rx ry] dir_new [of Sy cx cy ordy ry rx] assms
    unfolding pair_inv_def by blast
qed

text \<open>What the application at \<open>b\<close> sees of the stream of \<open>a\<close>.\<close>

definition delivers :: "bytes \<Rightarrow> endpoint \<Rightarrow> endpoint \<Rightarrow> bool" where
  "delivers S a b \<longleftrightarrow>
     (let out = inbound_stream (ep_conn b)
      in ep_read b @ bs_buf out = take (ByteStream_bytes_written out) (ep_accepted a) \<and>
         ByteStream_bytes_written out \<le> length (ep_accepted a) \<and>
         (ByteStream_eof out \<longrightarrow> ep_read b = S))"

lemma dir_delivers:
  assumes "dir (ord, S, isn, cap) a b"
  shows "delivers S a b"
    and "ord \<Longrightarrow> finAcked (cn_sender (ep_conn a)) \<Longrightarrow>
      ByteStream_input_ended (inbound_stream (ep_conn b)) \<and> ByteStream_bytes_written (inbound_stream (ep_conn b)) = length S"
proof -
  let ?s = "cn_sender (ep_conn a)" and ?r = "cn_receiver (ep_conn b)"
  obtain C p G where h: "half ord S isn cap C p G (ep_accepted a) ?s (wires a) ?r (acks b) (ep_read b)"
    using assms by (auto simp: linked_def)
  note v = halfD [OF h]
  obtain u where u: "S = ep_accepted a @ u" and sent: "s_sent ?s \<le> length (ep_accepted a)"
    using v(3) by (auto simp: send_half_def sender_inv_def stream_inv_def)
  note out = recv_loop_observable [OF v(4) u sent v(12)]
  show "delivers S a b" using out(1-3) by (simp add: delivers_def inbound_stream_def Let_def)
  show "ByteStream_input_ended (inbound_stream (ep_conn b)) \<and> ByteStream_bytes_written (inbound_stream (ep_conn b)) = length S"
    if ord "finAcked ?s"
  proof -
    have "send_loop S isn cap C p (ep_accepted a) ?s"
      "older p (fst (recv_point ?r), fst (snd (recv_point ?r)), snd (snd (recv_point ?r)))"
      "good_point C (fin_sent ?s) (length S) cap p"
      using v(3,10,11) that(1) by (simp_all add: send_loop_half in_order_def)
    from send_loop_observable(2) [OF this that(2)] show ?thesis using out(4-6) by (simp add: inbound_stream_def)
  qed
qed

section \<open>Properties\<close>

text \<open>
  Claim C2. Two fresh connections, \<open>x\<close> sending \<open>Sx\<close> and \<open>y\<close> sending \<open>Sy\<close>, run against each other: connecting,
  writing, closing, reading, ticking, putting segments on the network and delivering them happen in
  any order at both ends, with any loss and repetition; segments overtake each other only towards an
  endpoint that has no data of its own to send. No call faults. Each application reads a prefix of
  what the other has written, and all of it when its inbound stream is at the end; and an endpoint
  whose FIN is acknowledged has had its whole stream delivered.
\<close>

theorem two_endpoints_deliver:
  assumes "length Sx < 2 ^ 31 - 2" "length Sy < 2 ^ 31 - 2" "ordx \<or> Sx = []" "ordy \<or> Sy = []"
    and "cfg_recv_capacity cx < 2 ^ 16" "cfg_recv_capacity cy < 2 ^ 16" "cfg_send_capacity cx < two64" "cfg_send_capacity cy < two64"
  shows "\<exists>x y. run (pair_step ordx ordy Sx Sy) (endpoint_new cx rx, endpoint_new cy ry) ops = Inr (x, y) \<and>
    delivers Sx x y \<and> delivers Sy y x \<and>
    (ordx \<and> finAcked (cn_sender (ep_conn x)) \<longrightarrow>
       ByteStream_input_ended (inbound_stream (ep_conn y)) \<and> ByteStream_bytes_written (inbound_stream (ep_conn y)) = length Sx) \<and>
    (ordy \<and> finAcked (cn_sender (ep_conn y)) \<longrightarrow>
       ByteStream_input_ended (inbound_stream (ep_conn x)) \<and> ByteStream_bytes_written (inbound_stream (ep_conn x)) = length Sy)"
proof -
  obtain isnx isny where inv: "pair_inv (ordx, Sx, isnx, cfg_recv_capacity cy) (ordy, Sy, isny, cfg_recv_capacity cx)
      (endpoint_new cx rx) (endpoint_new cy ry)" using pair_inv_new [OF assms] by blast
  obtain x y where run: "run (pair_step ordx ordy Sx Sy) (endpoint_new cx rx, endpoint_new cy ry) ops = Inr (x, y)"
    and inv': "pair_inv (ordx, Sx, isnx, cfg_recv_capacity cy) (ordy, Sy, isny, cfg_recv_capacity cx) x y"
    using pr.run_law [of "(ordx, Sx, isnx, cfg_recv_capacity cy)" "(ordy, Sy, isny, cfg_recv_capacity cx)"
        "(endpoint_new cx rx, endpoint_new cy ry)" ops, OF _ allowed_always] inv by auto
  have d: "dir (ordx, Sx, isnx, cfg_recv_capacity cy) x y" "dir (ordy, Sy, isny, cfg_recv_capacity cx) y x"
    using inv' by (simp_all add: pair_inv_def)
  show ?thesis using run dir_delivers [OF d(1)] dir_delivers [OF d(2)] by blast
qed

theorem two_endpoints_deliver_witness:
  "\<exists>x y. run (pair_step True False [7, 8, 9] []) (endpoint_new demo_cfg 0, endpoint_new demo_cfg 0)
      [OpX DConnect, OpX DSend, OpY (DReceive 0), OpY DSend, OpX (DReceive 0), OpX (DWrite 3), OpX DEnd, OpX DSend,
       OpY (DReceive 2), OpY (DReceive 1), OpY (DRead 2), OpY DEnd, OpY DSend, OpX (DReceive 2), OpY (DTick 1000)] = Inr (x, y) \<and>
    delivers [7, 8, 9] x y \<and> delivers [] y x"
proof -
  have "length [7, 8, 9 :: byte] < 2 ^ 31 - 2" "length ([] :: bytes) < 2 ^ 31 - 2" "True \<or> [7, 8, 9 :: byte] = []"
    "False \<or> ([] :: bytes) = []" "cfg_recv_capacity demo_cfg < 2 ^ 16" "cfg_recv_capacity demo_cfg < 2 ^ 16"
    "cfg_send_capacity demo_cfg < two64" "cfg_send_capacity demo_cfg < two64"
    by (simp_all add: demo_cfg_def two64_def)
  from two_endpoints_deliver [OF this, of 0 0] show ?thesis by blast
qed

end
