(* ===== verification/Ipv4.thy ===== *)
theory Ipv4
  imports Tcp_Segment
begin

text \<open>
  \<open>IPv4Header\<close> and \<open>IPv4Datagram\<close> (\<open>src/libsponge/tcp_helpers/ipv4_header.hh\<close>, \<open>ipv4_header.cc\<close>,
  \<open>ipv4_datagram.hh\<close>, \<open>ipv4_datagram.cc\<close>): the wire format of the network layer. \<open>parse\<close> may return
  before it has overwritten the header it is called on, so the model takes that header as an
  argument. The human-readable \<open>to_string\<close> and \<open>summary\<close> are not modelled.

  The properties are the round trip of serialization and parsing, and what \<open>IPv4Datagram::parse\<close>
  accepts, which is more than \<open>IPv4Header::parse\<close> does.
\<close>

section \<open>\<open>IPv4Header\<close>\<close>

record IPv4Header =
  ih_ver :: uint8
  ih_hlen :: uint8
  ih_tos :: uint8
  ih_len :: uint16
  ih_id :: uint16
  ih_df :: bool
  ih_mf :: bool
  ih_offset :: uint16
  ih_ttl :: uint8
  ih_proto :: uint8
  ih_cksum :: uint16
  ih_src :: uint32
  ih_dst :: uint32

definition IPv4Header_LENGTH :: nat where "IPv4Header_LENGTH = 20"
definition DEFAULT_TTL :: uint8 where "DEFAULT_TTL = 128"
definition PROTO_TCP :: uint8 where "PROTO_TCP = 6"

definition IPv4Header_new :: IPv4Header where
  "IPv4Header_new =
     \<lparr>ih_ver = 4, ih_hlen = 5, ih_tos = 0, ih_len = 0, ih_id = 0, ih_df = True, ih_mf = False,
      ih_offset = 0, ih_ttl = DEFAULT_TTL, ih_proto = PROTO_TCP, ih_cksum = 0, ih_src = 0, ih_dst = 0\<rparr>"

definition IPv4Header_parse :: "IPv4Header \<Rightarrow> NetParser \<Rightarrow> ParseResult \<times> IPv4Header \<times> NetParser" where
  "IPv4Header_parse h0 p =
     (let original_serialized_version = np_buffer p;
          data_size = Buffer_size (np_buffer p)
      in if data_size < IPv4Header_LENGTH then (PacketTooShort, h0, p)
         else
           let (first_byte, p) = NetParser_u8 p;
               ver = drop_bit 4 first_byte;
               hlen = first_byte AND 0x0f;
               (tos, p) = NetParser_u8 p;
               (len, p) = NetParser_u16 p;
               (id, p) = NetParser_u16 p;
               (fo_val, p) = NetParser_u16 p;
               df = (fo_val AND 0x4000 \<noteq> 0);
               mf = (fo_val AND 0x2000 \<noteq> 0);
               offset = fo_val AND 0x1fff;
               (ttl, p) = NetParser_u8 p;
               (proto, p) = NetParser_u8 p;
               (cksum, p) = NetParser_u16 p;
               (src, p) = NetParser_u32 p;
               (dst, p) = NetParser_u32 p;
               h = \<lparr>ih_ver = ver, ih_hlen = hlen, ih_tos = tos, ih_len = len, ih_id = id, ih_df = df,
                    ih_mf = mf, ih_offset = offset, ih_ttl = ttl, ih_proto = proto, ih_cksum = cksum,
                    ih_src = src, ih_dst = dst\<rparr>
           in if data_size < 4 * unat hlen then (PacketTooShort, h, p)
              else if ver \<noteq> 4 then (WrongIPVersion, h, p)
              else if hlen < 5 then (HeaderTooShort, h, p)
              else if data_size \<noteq> unat len then (TruncatedPacket, h, p)
              else
                let p = NetParser_remove_prefix p (unat hlen * 4 - IPv4Header_LENGTH)
                in if NetParser_has_error p then (np_error p, h, p)
                   else
                     let check = InternetChecksum_new 0;
                         check = InternetChecksum_add check
                                   (take (4 * unat hlen) (Buffer_str original_serialized_version))
                     in if InternetChecksum_value check \<noteq> 0 then (BadChecksum, h, p)
                        else (NoError, h, p))"

definition IPv4Header_serialize :: "IPv4Header \<Rightarrow> bytes result" where
  "IPv4Header_serialize h =
     (if ih_ver h \<noteq> 4 then Inl (RuntimeError ''wrong IP version'')
      else if 4 * unat (ih_hlen h) < IPv4Header_LENGTH then Inl (RuntimeError ''IP header too short'')
      else
        let first_byte = push_bit 4 (ih_ver h) OR (ih_hlen h AND 0xf);
            ret = NetUnparser_u8 [] first_byte;
            ret = NetUnparser_u8 ret (ih_tos h);
            ret = NetUnparser_u16 ret (ih_len h);
            ret = NetUnparser_u16 ret (ih_id h);
            fo_val = (if ih_df h then 0x4000 else 0) OR (if ih_mf h then 0x2000 else 0) OR
                     (ih_offset h AND 0x1fff);
            ret = NetUnparser_u16 ret fo_val;
            ret = NetUnparser_u8 ret (ih_ttl h);
            ret = NetUnparser_u8 ret (ih_proto h);
            ret = NetUnparser_u16 ret (ih_cksum h);
            ret = NetUnparser_u32 ret (ih_src h);
            ret = NetUnparser_u32 ret (ih_dst h)
        in Inr (str_resize ret (4 * unat (ih_hlen h))))"

text \<open>Computed in \<open>int\<close> and cut to 16 bits, so it wraps when the header is longer than the packet.\<close>

definition payload_length :: "IPv4Header \<Rightarrow> uint16" where
  "payload_length h = ih_len h - 4 * ucast (ih_hlen h)"

definition pseudo_cksum :: "IPv4Header \<Rightarrow> uint32" where
  "pseudo_cksum h =
     (let pcksum = drop_bit 16 (ih_src h) + (ih_src h AND 0xffff);
          pcksum = pcksum + (drop_bit 16 (ih_dst h) + (ih_dst h AND 0xffff));
          pcksum = pcksum + ucast (ih_proto h)
      in pcksum + ucast (payload_length h))"

section \<open>\<open>IPv4Datagram\<close>\<close>

record IPv4Datagram =
  ip_header :: IPv4Header
  ip_payload :: BufferList

definition IPv4Datagram_new :: IPv4Datagram where
  "IPv4Datagram_new = \<lparr>ip_header = IPv4Header_new, ip_payload = BufferList_default\<rparr>"

text \<open>As for segments, the result of the header's \<open>parse\<close> is not used.\<close>

definition IPv4Datagram_parse :: "IPv4Datagram \<Rightarrow> Buffer \<Rightarrow> ParseResult \<times> IPv4Datagram" where
  "IPv4Datagram_parse d buffer =
     (let p = NetParser_new buffer;
          (_, h, p) = IPv4Header_parse (ip_header d) p;
          d = d\<lparr>ip_header := h, ip_payload := BufferList_of_Buffer (np_buffer p)\<rparr>
      in if BufferList_size (ip_payload d) \<noteq> unat (payload_length h) then (PacketTooShort, d)
         else (np_error p, d))"

definition IPv4Datagram_serialize :: "IPv4Datagram \<Rightarrow> BufferList result" where
  "IPv4Datagram_serialize d =
     (if BufferList_size (ip_payload d) \<noteq> unat (payload_length (ip_header d))
      then Inl (RuntimeError ''IPv4Datagram::serialize: payload is wrong size'')
      else
        let header_out = (ip_header d)\<lparr>ih_cksum := 0\<rparr>
        in bind_result (IPv4Header_serialize header_out) (\<lambda>header_zero_checksum.
             let check = InternetChecksum_add (InternetChecksum_new 0) header_zero_checksum;
                 header_out = header_out\<lparr>ih_cksum := InternetChecksum_value check\<rparr>
             in bind_result (IPv4Header_serialize header_out) (\<lambda>hdr.
                  Inr (BufferList_append
                        (BufferList_append BufferList_default (BufferList_of_string hdr))
                        (ip_payload d)))))"

section \<open>The header's bytes\<close>

definition first_byte_of :: "IPv4Header \<Rightarrow> uint8" where
  "first_byte_of h = push_bit 4 (ih_ver h) OR (ih_hlen h AND 0xf)"

definition fo_val_of :: "IPv4Header \<Rightarrow> uint16" where
  "fo_val_of h = (if ih_df h then 0x4000 else 0) OR (if ih_mf h then 0x2000 else 0) OR (ih_offset h AND 0x1fff)"

definition ip_front :: "IPv4Header \<Rightarrow> bytes" where
  "ip_front h = be_bytes (first_byte_of h) @ be_bytes (ih_tos h) @ be_bytes (ih_len h) @ be_bytes (ih_id h) @
     be_bytes (fo_val_of h) @ be_bytes (ih_ttl h) @ be_bytes (ih_proto h)"

definition ip_pad :: "IPv4Header \<Rightarrow> bytes" where
  "ip_pad h = replicate (4 * unat (ih_hlen h) - 20) 0"

definition ip_bytes :: "IPv4Header \<Rightarrow> bytes" where
  "ip_bytes h = ip_front h @ be_bytes (ih_cksum h) @ be_bytes (ih_src h) @ be_bytes (ih_dst h) @ ip_pad h"

lemma length_ip_front [simp]: "length (ip_front h) = 10"
  by (simp add: ip_front_def)

lemma ip_front_cksum [simp]:
  "ip_front (h\<lparr>ih_cksum := c\<rparr>) = ip_front h" "ip_pad (h\<lparr>ih_cksum := c\<rparr>) = ip_pad h"
  by (simp_all add: ip_front_def ip_pad_def first_byte_of_def fo_val_of_def)

text \<open>A header that can be written: version 4, a header length and an offset that fit their fields.\<close>

definition ip_wf :: "IPv4Header \<Rightarrow> bool" where
  "ip_wf h \<longleftrightarrow> ih_ver h = 4 \<and> 5 \<le> unat (ih_hlen h) \<and> unat (ih_hlen h) < 16 \<and> unat (ih_offset h) < 8192"

lemma ip_wf_cksum [simp]: "ip_wf (h\<lparr>ih_cksum := c\<rparr>) = ip_wf h"
  by (simp add: ip_wf_def)

lemma length_ip_bytes: "ip_wf h \<Longrightarrow> length (ip_bytes h) = 4 * unat (ih_hlen h)"
  by (auto simp: ip_bytes_def ip_pad_def ip_wf_def)

lemma IPv4Header_serialize_bytes: "ip_wf h \<Longrightarrow> IPv4Header_serialize h = Inr (ip_bytes h)"
  by (auto simp: ip_wf_def IPv4Header_serialize_def IPv4Header_LENGTH_def ip_bytes_def ip_front_def
      ip_pad_def str_resize_def first_byte_of_def fo_val_of_def Let_def)

lemma take_bit_small: "unat w < 2 ^ n \<Longrightarrow> take_bit n w = w" for w :: "'a::len word"
  by (simp add: word_unat_eq_iff unat_and_mask_mod)

lemma first_byte_fields:
  assumes "ip_wf h"
  shows "drop_bit 4 (first_byte_of h) = 4" "first_byte_of h AND 0x0f = ih_hlen h"
proof -
  have h: "take_bit 4 (ih_hlen h) = ih_hlen h" "drop_bit 4 (ih_hlen h) = 0"
    using assms by (simp_all add: ip_wf_def take_bit_small word_unat_eq_iff [of "drop_bit 4 (ih_hlen h)"]
        unat_drop_bit_div)
  have m: "(0xf :: uint8) = mask 4" by (simp add: mask_eq_exp_minus_1)
  have f: "first_byte_of h = push_bit 4 4 OR ih_hlen h"
    using assms by (simp only: first_byte_of_def m h flip: take_bit_eq_mask) (simp add: ip_wf_def)
  show "drop_bit 4 (first_byte_of h) = 4" unfolding f drop_bit_or h by simp
  have "first_byte_of h AND 0x0f = take_bit 4 (first_byte_of h)" by (simp only: m take_bit_eq_mask)
  then show "first_byte_of h AND 0x0f = ih_hlen h" unfolding f take_bit_or h by simp
qed

lemma fo_val_fields:
  assumes "ip_wf h"
  shows "(fo_val_of h AND 0x4000 \<noteq> 0) = ih_df h" "(fo_val_of h AND 0x2000 \<noteq> 0) = ih_mf h"
    "fo_val_of h AND 0x1fff = ih_offset h"
proof -
  have m: "(0x1fff :: uint16) = mask 13" by (simp add: mask_eq_exp_minus_1)
  have h: "take_bit 13 (ih_offset h) = ih_offset h" using assms by (simp add: ip_wf_def take_bit_small)
  have f: "fo_val_of h = (if ih_df h then 0x4000 else 0) OR (if ih_mf h then 0x2000 else 0) OR ih_offset h"
    by (simp only: fo_val_of_def m h flip: take_bit_eq_mask)
  have hi: "\<not> bit (ih_offset h) n" if "13 \<le> n" for n
    using that by (subst h [symmetric]) (simp add: bit_take_bit_iff)
  have "(w AND 0x4000 \<noteq> 0) = bit w 14" "(w AND 0x2000 \<noteq> 0) = bit w 13" for w :: uint16
    by (simp_all add: bit_iff_and_push_bit_not_eq_0)
  then show "(fo_val_of h AND 0x4000 \<noteq> 0) = ih_df h" "(fo_val_of h AND 0x2000 \<noteq> 0) = ih_mf h"
    using hi [of 14] hi [of 13] by (simp_all add: f bit_or_iff)
  have "fo_val_of h AND 0x1fff = take_bit 13 (fo_val_of h)" by (simp only: m take_bit_eq_mask)
  then show "fo_val_of h AND 0x1fff = ih_offset h" unfolding f take_bit_or h by simp
qed

text \<open>Parsing what was serialized gives the header back and leaves exactly what follows.\<close>

lemma IPv4Header_parse_serialized:
  assumes wf: "ip_wf h" and p: "showing p (ip_bytes h @ rest)"
    and len: "4 * unat (ih_hlen h) + length rest = unat (ih_len h)"
    and ck: "InternetChecksum_value (InternetChecksum_add (InternetChecksum_new 0) (ip_bytes h)) = 0"
  obtains q where "IPv4Header_parse h0 p = (NoError, h, q)" "showing q rest"
proof -
  let ?t1 = "be_bytes (ih_cksum h) @ be_bytes (ih_src h) @ be_bytes (ih_dst h) @ ip_pad h @ rest"
  obtain p1 where 1: "NetParser_u8 p = (first_byte_of h, p1)"
    "showing p1 (be_bytes (ih_tos h) @ be_bytes (ih_len h) @ be_bytes (ih_id h) @ be_bytes (fo_val_of h) @
       be_bytes (ih_ttl h) @ be_bytes (ih_proto h) @ ?t1)"
    using u8.get_put p unfolding ip_bytes_def ip_front_def append_assoc by blast
  obtain p2 where 2: "NetParser_u8 p1 = (ih_tos h, p2)"
    "showing p2 (be_bytes (ih_len h) @ be_bytes (ih_id h) @ be_bytes (fo_val_of h) @
       be_bytes (ih_ttl h) @ be_bytes (ih_proto h) @ ?t1)"
    using u8.get_put [OF 1(2)] by blast
  obtain p3 where 3: "NetParser_u16 p2 = (ih_len h, p3)"
    "showing p3 (be_bytes (ih_id h) @ be_bytes (fo_val_of h) @ be_bytes (ih_ttl h) @ be_bytes (ih_proto h) @ ?t1)"
    using u16.get_put [OF 2(2)] by blast
  obtain p4 where 4: "NetParser_u16 p3 = (ih_id h, p4)"
    "showing p4 (be_bytes (fo_val_of h) @ be_bytes (ih_ttl h) @ be_bytes (ih_proto h) @ ?t1)"
    using u16.get_put [OF 3(2)] by blast
  obtain p5 where 5: "NetParser_u16 p4 = (fo_val_of h, p5)"
    "showing p5 (be_bytes (ih_ttl h) @ be_bytes (ih_proto h) @ ?t1)"
    using u16.get_put [OF 4(2)] by blast
  obtain p6 where 6: "NetParser_u8 p5 = (ih_ttl h, p6)" "showing p6 (be_bytes (ih_proto h) @ ?t1)"
    using u8.get_put [OF 5(2)] by blast
  obtain p7 where 7: "NetParser_u8 p6 = (ih_proto h, p7)" "showing p7 ?t1"
    using u8.get_put [OF 6(2)] by blast
  obtain p8 where 8: "NetParser_u16 p7 = (ih_cksum h, p8)"
    "showing p8 (be_bytes (ih_src h) @ be_bytes (ih_dst h) @ ip_pad h @ rest)"
    using u16.get_put [OF 7(2)] by blast
  obtain p9 where 9: "NetParser_u32 p8 = (ih_src h, p9)" "showing p9 (be_bytes (ih_dst h) @ ip_pad h @ rest)"
    using u32.get_put [OF 8(2)] by blast
  obtain p10 where 10: "NetParser_u32 p9 = (ih_dst h, p10)" "showing p10 (ip_pad h @ rest)"
    using u32.get_put [OF 9(2)] by blast
  let ?q = "NetParser_remove_prefix p10 (unat (ih_hlen h) * 4 - IPv4Header_LENGTH)"
  have pad: "unat (ih_hlen h) * 4 - IPv4Header_LENGTH = length (ip_pad h)"
    by (simp add: IPv4Header_LENGTH_def ip_pad_def)
  have q: "showing ?q rest"
    using reads_remove_prefix [of "length (ip_pad h)" p10] 10(2) unfolding pad
    by (simp add: reads_def showing_def)
  have str: "Buffer_str (np_buffer p) = ip_bytes h @ rest" using p by (simp add: showing_def)
  have size: "Buffer_size (np_buffer p) = unat (ih_len h)"
    using len length_ip_bytes [OF wf] by (simp add: Buffer_size_def str)
  have conds: "\<not> unat (ih_len h) < IPv4Header_LENGTH" "\<not> unat (ih_len h) < 4 * unat (ih_hlen h)"
    "\<not> ih_hlen h < 5" "ih_ver h = 4"
    using wf len by (auto simp: ip_wf_def IPv4Header_LENGTH_def word_less_nat_alt)
  have cut: "take (4 * unat (ih_hlen h)) (Buffer_str (np_buffer p)) = ip_bytes h"
    using length_ip_bytes [OF wf] by (simp add: str)
  have "IPv4Header_parse h0 p = (NoError, h, ?q)"
    using q conds ck
    by (simp only: IPv4Header_parse_def Let_def size 1 2 3 4 5 6 7 8 9 10 prod.case if_False if_True
        first_byte_fields [OF wf] fo_val_fields [OF wf] NetParser_has_error_def showing_def cut) simp
  then show thesis using q that by blast
qed

text \<open>The buffers \<open>serialize\<close> returns: the header with its checksum, then the payload's.\<close>

lemma IPv4Datagram_serialize_bytes:
  fixes d
  defines "h \<equiv> ip_header d"
  assumes "ip_wf h" "BufferList_size (ip_payload d) = unat (payload_length h)"
    and c: "c = InternetChecksum_value (InternetChecksum_add (InternetChecksum_new 0) (ip_bytes (h\<lparr>ih_cksum := 0\<rparr>)))"
  shows "IPv4Datagram_serialize d = Inr (Buffer_new (ip_bytes (h\<lparr>ih_cksum := c\<rparr>)) # ip_payload d)"
proof -
  have "IPv4Header_serialize (h\<lparr>ih_cksum := x\<rparr>) = Inr (ip_bytes (h\<lparr>ih_cksum := x\<rparr>))" for x
    using assms(2) by (simp add: IPv4Header_serialize_bytes)
  then show ?thesis
    using assms(3) by (simp add: IPv4Datagram_serialize_def Let_def BufferList_append_def BufferList_default_def
        BufferList_of_string_def BufferList_of_Buffer_def c flip: h_def)
qed

lemma ip_checksum_fill:
  assumes "ip_wf h"
    and "c = InternetChecksum_value (InternetChecksum_add (InternetChecksum_new 0) (ip_bytes (h\<lparr>ih_cksum := 0\<rparr>)))"
  shows "InternetChecksum_value (InternetChecksum_add (InternetChecksum_new 0) (ip_bytes (h\<lparr>ih_cksum := c\<rparr>))) = 0"
proof -
  let ?post = "be_bytes (ih_src h) @ be_bytes (ih_dst h) @ ip_pad h"
  have eq: "ip_bytes (h\<lparr>ih_cksum := x\<rparr>) = ip_front h @ be_bytes x @ ?post" for x
    by (simp add: ip_bytes_def)
  have "be_bytes (0 :: uint16) = [0, 0]" by (simp add: be_bytes_16)
  then have "c = InternetChecksum_value (InternetChecksum_add (InternetChecksum_new 0) (ip_front h @ [0, 0] @ ?post))"
    using assms(2) unfolding eq by simp
  moreover have "length (ip_pad h) \<le> 40" using assms(1) by (auto simp: ip_pad_def ip_wf_def)
  ultimately show ?thesis unfolding eq by (intro checksum_fill) simp_all
qed

lemma payload_length_unat:
  assumes "ip_wf h" "unat (ih_len h) = 4 * unat (ih_hlen h) + n"
  shows "unat (payload_length h) = n"
proof -
  have four: "unat (4 * ucast (ih_hlen h) :: uint16) = 4 * unat (ih_hlen h)"
    using assms(1) by (auto simp: ip_wf_def unat_word_ariths unat_ucast_mod)
  then have "4 * ucast (ih_hlen h) \<le> ih_len h" using assms(2) by (simp add: word_le_nat_alt)
  from unat_sub [OF this] show ?thesis using four assms(2) by (simp add: payload_length_def)
qed

lemma IPv4Datagram_parse_bytes:
  assumes "ip_wf h" "unat (ih_len h) = 4 * unat (ih_hlen h) + length pl"
    and "InternetChecksum_value (InternetChecksum_add (InternetChecksum_new 0) (ip_bytes h)) = 0"
    and "Buffer_str b = ip_bytes h @ pl"
  shows "\<exists>b'. IPv4Datagram_parse d b = (NoError, d\<lparr>ip_header := h, ip_payload := [b']\<rparr>) \<and> Buffer_str b' = pl"
proof -
  have "showing (NetParser_new b) (ip_bytes h @ pl)" using assms(4) by simp
  then obtain q where q: "IPv4Header_parse (ip_header d) (NetParser_new b) = (NoError, h, q)" "showing q pl"
    using IPv4Header_parse_serialized [OF assms(1) _ _ assms(3)] assms(2) by metis
  have "length pl < two64" using assms(2) unsigned_less [of "ih_len h", where 'a = nat] by (simp add: two64_def)
  then have "BufferList_size [np_buffer q] = length pl"
    using BufferList_size_eq [of "[np_buffer q]"] q(2) by (simp add: BufferList_concatenate_def showing_def)
  then show ?thesis
    using q payload_length_unat [OF assms(1,2)]
    by (intro exI [of _ "np_buffer q"]) (simp add: IPv4Datagram_parse_def BufferList_of_Buffer_def showing_def Let_def)
qed

section \<open>What a datagram parse accepts\<close>

text \<open>
  The parser after the twenty fixed bytes, and the two fields the decision depends on, whatever
  the other bytes are.
\<close>

lemma IPv4Header_parse_decision:
  assumes bs: "showing p ([f, tos] @ be_bytes (len :: uint16) @ rest)" and "16 \<le> length rest"
  defines "n \<equiv> 4 + length rest" and "hlen \<equiv> f AND 0x0f"
  defines "good \<equiv> 4 * unat hlen \<le> n \<and> drop_bit 4 f = 4 \<and> \<not> hlen < 5 \<and> n = unat len"
  obtains r h q where "IPv4Header_parse h0 p = (r, h, q)" "ih_hlen h = hlen" "ih_len h = len"
    "showing q (drop (if good then 4 * unat hlen - 4 else 16) rest)"
proof -
  have "showing p (be_bytes f @ [tos] @ be_bytes len @ rest)" using bs by (simp add: be_bytes_8)
  then obtain p1 where 1: "NetParser_u8 p = (f, p1)" "showing p1 (be_bytes tos @ be_bytes len @ rest)"
    using u8.get_put by (metis be_bytes_8)
  obtain p2 where 2: "NetParser_u8 p1 = (tos, p2)" "showing p2 (be_bytes len @ rest)"
    using u8.get_put [OF 1(2)] by blast
  obtain p3 where 3: "NetParser_u16 p2 = (len, p3)" "showing p3 rest" using u16.get_put [OF 2(2)] by blast
  obtain ident p4 where 4: "NetParser_u16 p3 = (ident, p4)" by fastforce
  obtain fo p5 where 5: "NetParser_u16 p4 = (fo, p5)" by fastforce
  obtain ttl p6 where 6: "NetParser_u8 p5 = (ttl, p6)" by fastforce
  obtain proto p7 where 7: "NetParser_u8 p6 = (proto, p7)" by fastforce
  obtain cksum p8 where 8: "NetParser_u16 p7 = (cksum, p8)" by fastforce
  obtain src p9 where 9: "NetParser_u32 p8 = (src, p9)" by fastforce
  obtain dst p10 where 10: "NetParser_u32 p9 = (dst, p10)" by fastforce
  have "reads 16 p3 p10"
    using reads_trans [OF reads_trans [OF reads_trans [OF reads_trans [OF reads_trans [OF reads_trans [OF
        u16.get_reads [of p3] u16.get_reads] u8.get_reads] u8.get_reads] u16.get_reads] u32.get_reads] u32.get_reads]
      4 5 6 7 8 9 10 by simp
  then have p10: "showing p10 (drop 16 rest)" using 3(2) assms(2) by (simp add: reads_def showing_def)
  have size: "Buffer_size (np_buffer p) = n" using bs by (simp add: Buffer_size_def showing_def n_def)
  define h where "h = \<lparr>ih_ver = drop_bit 4 f, ih_hlen = hlen, ih_tos = tos, ih_len = len, ih_id = ident,
    ih_df = (fo AND 0x4000 \<noteq> 0), ih_mf = (fo AND 0x2000 \<noteq> 0), ih_offset = fo AND 0x1fff, ih_ttl = ttl,
    ih_proto = proto, ih_cksum = cksum, ih_src = src, ih_dst = dst\<rparr>"
  let ?q = "NetParser_remove_prefix p10 (unat hlen * 4 - IPv4Header_LENGTH)"
  have "\<not> n < IPv4Header_LENGTH" using assms(2) by (simp add: n_def IPv4Header_LENGTH_def)
  then have res: "\<exists>r. IPv4Header_parse h0 p = (r, h, if good then ?q else p10)"
    unfolding IPv4Header_parse_def Let_def size 1 2 3 4 5 6 7 8 9 10 prod.case h_def good_def hlen_def
    by auto
  have "showing ?q (drop (4 * unat hlen - 4) rest)" if good
  proof -
    have "5 \<le> unat hlen" "4 * unat hlen \<le> n" using that by (auto simp: good_def word_less_nat_alt)
    then have "unat hlen * 4 - 20 \<le> length (drop 16 rest)" "unat hlen * 4 - 20 + 16 = 4 * unat hlen - 4"
      by (auto simp: n_def)
    then show ?thesis
      using reads_remove_prefix [of "unat hlen * 4 - 20" p10] p10
      by (simp add: reads_def showing_def IPv4Header_LENGTH_def)
  qed
  then show thesis using res p10 that by (cases good) (auto simp: h_def)
qed

section \<open>Properties\<close>

text \<open>
  Claim C22. Round trip of a datagram: with version 4, a header length and fragment offset that
  fit their fields, and a total length that is that of the header and the payload, \<open>serialize\<close>
  does not throw, and \<open>parse\<close> of its bytes returns \<open>NoError\<close>, the same header with the checksum
  filled in, and the same payload.
\<close>

theorem IPv4Datagram_roundtrip:
  assumes "ih_ver (ip_header d) = 4" "5 \<le> unat (ih_hlen (ip_header d))" "unat (ih_hlen (ip_header d)) < 16"
    and "unat (ih_offset (ip_header d)) < 8192"
    and "unat (ih_len (ip_header d)) = 4 * unat (ih_hlen (ip_header d)) + length (BufferList_concatenate (ip_payload d))"
  shows "\<exists>bl c b. IPv4Datagram_serialize d = Inr bl \<and>
    IPv4Datagram_parse d0 (Buffer_new (BufferList_concatenate bl)) =
      (NoError, d0\<lparr>ip_header := (ip_header d)\<lparr>ih_cksum := c\<rparr>, ip_payload := [b]\<rparr>) \<and>
    Buffer_str b = BufferList_concatenate (ip_payload d)"
proof -
  let ?h = "ip_header d" and ?pl = "BufferList_concatenate (ip_payload d)"
  define c where "c = InternetChecksum_value (InternetChecksum_add (InternetChecksum_new 0) (ip_bytes (?h\<lparr>ih_cksum := 0\<rparr>)))"
  have wf: "ip_wf ?h" using assms(1-4) by (simp add: ip_wf_def)
  have "length ?pl < two64" using assms(5) unsigned_less [of "ih_len ?h", where 'a = nat] by (simp add: two64_def)
  then have "BufferList_size (ip_payload d) = unat (payload_length ?h)"
    using payload_length_unat [OF wf assms(5)] by (simp add: BufferList_size_eq)
  note ser = IPv4Datagram_serialize_bytes [OF wf this c_def]
  have "\<exists>b'. IPv4Datagram_parse d0 (Buffer_new (ip_bytes (?h\<lparr>ih_cksum := c\<rparr>) @ ?pl)) =
      (NoError, d0\<lparr>ip_header := ?h\<lparr>ih_cksum := c\<rparr>, ip_payload := [b']\<rparr>) \<and> Buffer_str b' = ?pl"
    by (rule IPv4Datagram_parse_bytes) (use wf assms(5) ip_checksum_fill [OF wf c_def] in simp_all)
  then show ?thesis using ser by (auto simp: BufferList_concatenate_def)
qed

theorem IPv4Datagram_roundtrip_witness:
  "\<exists>bl c b. IPv4Datagram_serialize
      \<lparr>ip_header = IPv4Header_new\<lparr>ih_len := 23, ih_src := 7\<rparr>, ip_payload = [Buffer_new [1], Buffer_new [2, 3]]\<rparr> = Inr bl \<and>
    IPv4Datagram_parse IPv4Datagram_new (Buffer_new (BufferList_concatenate bl)) =
      (NoError, IPv4Datagram_new\<lparr>ip_header := IPv4Header_new\<lparr>ih_len := 23, ih_src := 7, ih_cksum := c\<rparr>,
         ip_payload := [b]\<rparr>) \<and> Buffer_str b = [1, 2, 3]"
  using IPv4Datagram_roundtrip [of
      "\<lparr>ip_header = IPv4Header_new\<lparr>ih_len := 23, ih_src := 7\<rparr>, ip_payload = [Buffer_new [1], Buffer_new [2, 3]]\<rparr>"
      IPv4Datagram_new]
  by (simp add: IPv4Header_new_def BufferList_concatenate_def)

text \<open>
  Claim C38. What \<open>IPv4Datagram::parse\<close> decides on, for any bytes with the twenty of a minimal
  header: only on the first byte (version and header length), the length field and the size, never
  on the checksum. The results \<open>WrongIPVersion\<close>, \<open>HeaderTooShort\<close>, \<open>TruncatedPacket\<close> and \<open>BadChecksum\<close> of the
  header are dropped: the datagram is accepted when what is left has the payload length of the
  header. What is left depends on them, though: behind a good header it is everything after the
  header length, and where the version, the header length or the size is wrong it is everything
  after the first twenty bytes. So a wrong checksum goes unnoticed always, and a wrong version when
  the header is twenty bytes long; behind a longer header with a true length field it ends in
  \<open>PacketTooShort\<close>.
\<close>

theorem IPv4Datagram_parse_result:
  assumes "Buffer_str b = [f, tos] @ be_bytes (len :: uint16) @ rest" "16 \<le> length rest" "length rest < 2 ^ 62"
  shows "fst (IPv4Datagram_parse d b) =
    (let n = 4 + length rest; hlen = f AND 0x0f;
         good = (4 * unat hlen \<le> n \<and> drop_bit 4 f = 4 \<and> \<not> hlen < 5 \<and> n = unat len)
     in if n - (if good then 4 * unat hlen else 20) = unat (len - 4 * ucast hlen)
        then NoError else PacketTooShort)"
proof -
  let ?good = "4 * unat (f AND 0x0f) \<le> 4 + length rest \<and> drop_bit 4 f = 4 \<and> \<not> (f AND 0x0f) < 5 \<and>
    4 + length rest = unat len"
  have "showing (NetParser_new b) ([f, tos] @ be_bytes len @ rest)" using assms(1) by simp
  then obtain r h q where q: "IPv4Header_parse (ip_header d) (NetParser_new b) = (r, h, q)"
    "ih_hlen h = f AND 0x0f" "ih_len h = len"
    "showing q (drop (if ?good then 4 * unat (f AND 0x0f) - 4 else 16) rest)"
    by (rule IPv4Header_parse_decision [OF _ assms(2)]) blast
  have len: "length (Buffer_str (np_buffer q)) = 4 + length rest - (if ?good then 4 * unat (f AND 0x0f) else 20)"
  proof -
    have "5 \<le> unat (f AND 0x0f)" if ?good using that by (auto simp: word_less_nat_alt)
    then show ?thesis using q(4) assms(2) by (auto simp: showing_def)
  qed
  have "length (Buffer_str (np_buffer q)) < two64"
    using q(4) assms(3) by (auto simp: showing_def two64_def)
  then have "BufferList_size [np_buffer q] = length (Buffer_str (np_buffer q))"
    using BufferList_size_eq [of "[np_buffer q]"] by (simp add: BufferList_concatenate_def)
  then show ?thesis
    using q len by (simp add: IPv4Datagram_parse_def BufferList_of_Buffer_def payload_length_def showing_def Let_def
        del: One_nat_def)
qed

theorem IPv4Datagram_parse_result_witness:
  "fst (IPv4Datagram_parse IPv4Datagram_new
     (Buffer_new ([0x65, 0] @ be_bytes (20 :: uint16) @ replicate 16 0))) = NoError \<and>
   fst (IPv4Datagram_parse IPv4Datagram_new
     (Buffer_new ([0x46, 0] @ be_bytes (24 :: uint16) @ replicate 20 0))) = NoError \<and>
   fst (IPv4Datagram_parse IPv4Datagram_new
     (Buffer_new ([0x66, 0] @ be_bytes (24 :: uint16) @ replicate 20 0))) = PacketTooShort"
  using IPv4Datagram_parse_result [of "Buffer_new ([0x65, 0] @ be_bytes (20 :: uint16) @ replicate 16 0)" "0x65" 0 20 "replicate 16 0"]
    IPv4Datagram_parse_result [of "Buffer_new ([0x46, 0] @ be_bytes (24 :: uint16) @ replicate 20 0)" "0x46" 0 24 "replicate 20 0"]
    IPv4Datagram_parse_result [of "Buffer_new ([0x66, 0] @ be_bytes (24 :: uint16) @ replicate 20 0)" "0x66" 0 24 "replicate 20 0"]
  by (simp add: Let_def)

end
