(* ===== verification/Fd_Adapter.thy ===== *)
theory Fd_Adapter
  imports Ipv4
begin

text \<open>
  The adapters that carry segments to and from the network: \<open>FdAdapterBase\<close>,
  \<open>TCPOverUDPSocketAdapter\<close> (\<open>src/libsponge/tcp_helpers/fd_adapter.hh\<close>, \<open>fd_adapter.cc\<close>),
  \<open>TCPOverIPv4Adapter\<close> (\<open>tcp_over_ip.hh\<close>, \<open>tcp_over_ip.cc\<close>), \<open>TCPOverIPv4OverTunFdAdapter\<close>
  (\<open>tuntap_adapter.hh\<close>) and \<open>LossyFdAdapter\<close> (\<open>lossy_fd_adapter.hh\<close>).

  \<^item> An \<open>Address\<close> (\<open>src/libsponge/util/address.hh\<close>) is its IPv4 address in host byte order and its
    port; only \<open>AF_INET\<close> addresses are built by the code, and the text form that \<open>inet_ntoa\<close> and the
    constructor exchange denotes the same address.
  \<^item> What arrives on a descriptor is an argument of \<open>read\<close>, what is sent a result of \<open>write\<close>.
  \<^item> The pseudo-random generator of the lossy adapter is a parameter: a state and a step function.
\<close>

section \<open>Addresses and configuration\<close>

record Address =
  ad_ip :: uint32
  ad_port :: uint16

definition ipv4_numeric :: "Address \<Rightarrow> uint32" where
  "ipv4_numeric a = ad_ip a"

record FdAdapterConfig =
  fc_source :: Address
  fc_destination :: Address
  fc_loss_rate_dn :: uint16
  fc_loss_rate_up :: uint16

definition FdAdapterConfig_default :: FdAdapterConfig where
  "FdAdapterConfig_default =
     \<lparr>fc_source = \<lparr>ad_ip = 0, ad_port = 0\<rparr>, fc_destination = \<lparr>ad_ip = 0, ad_port = 0\<rparr>,
      fc_loss_rate_dn = 0, fc_loss_rate_up = 0\<rparr>"

record FdAdapterBase =
  fa_cfg :: FdAdapterConfig
  fa_listen :: bool

definition FdAdapterBase_new :: FdAdapterBase where
  "FdAdapterBase_new = \<lparr>fa_cfg = FdAdapterConfig_default, fa_listen = False\<rparr>"

definition set_listening :: "FdAdapterBase \<Rightarrow> bool \<Rightarrow> FdAdapterBase" where
  "set_listening a l = a\<lparr>fa_listen := l\<rparr>"

definition adapter_listening :: "FdAdapterBase \<Rightarrow> bool" where
  "adapter_listening a = fa_listen a"

definition adapter_tick :: "FdAdapterBase \<Rightarrow> size_t \<Rightarrow> FdAdapterBase" where
  "adapter_tick a ms = a"

section \<open>TCP in UDP\<close>

record received_datagram =
  rd_source_address :: Address
  rd_payload :: bytes

definition TCPOverUDPSocketAdapter_read ::
  "FdAdapterBase \<Rightarrow> received_datagram \<Rightarrow> (TCPSegment option \<times> FdAdapterBase) result" where
  "TCPOverUDPSocketAdapter_read a datagram =
     (if \<not> adapter_listening a \<and> rd_source_address datagram \<noteq> fc_destination (fa_cfg a) then Inr (None, a)
      else
        let (r, seg) = TCPSegment_parse TCPSegment_new (Buffer_new (rd_payload datagram)) 0
        in if r \<noteq> NoError then Inr (None, a)
           else if adapter_listening a then
             (if th_syn (seg_header seg) \<and> \<not> th_rst (seg_header seg)
              then Inr (Some seg, set_listening
                     (a\<lparr>fa_cfg := (fa_cfg a)\<lparr>fc_destination := rd_source_address datagram\<rparr>\<rparr>) False)
              else Inr (None, a))
           else Inr (Some seg, a))"

text \<open>The segment's ports are set in place; the address and the buffers go to \<open>sendto\<close>.\<close>

definition set_ports :: "FdAdapterBase \<Rightarrow> TCPSegment \<Rightarrow> TCPSegment" where
  "set_ports a seg = seg\<lparr>seg_header := (seg_header seg)\<lparr>th_sport := ad_port (fc_source (fa_cfg a)),
     th_dport := ad_port (fc_destination (fa_cfg a))\<rparr>\<rparr>"

definition TCPOverUDPSocketAdapter_write ::
  "FdAdapterBase \<Rightarrow> TCPSegment \<Rightarrow> (Address \<times> BufferList) result" where
  "TCPOverUDPSocketAdapter_write a seg =
     bind_result (TCPSegment_serialize (set_ports a seg) 0) (\<lambda>bl. Inr (fc_destination (fa_cfg a), bl))"

section \<open>TCP in IPv4\<close>

definition unwrap_tcp_in_ip ::
  "FdAdapterBase \<Rightarrow> IPv4Datagram \<Rightarrow> (TCPSegment option \<times> FdAdapterBase) result" where
  "unwrap_tcp_in_ip a ip_dgram =
     (let h = ip_header ip_dgram; cfg = fa_cfg a
      in if \<not> adapter_listening a \<and> ih_dst h \<noteq> ipv4_numeric (fc_source cfg) then Inr (None, a)
         else if \<not> adapter_listening a \<and> ih_src h \<noteq> ipv4_numeric (fc_destination cfg) then Inr (None, a)
         else if ih_proto h \<noteq> PROTO_TCP then Inr (None, a)
         else
           bind_result (BufferList_to_Buffer (ip_payload ip_dgram)) (\<lambda>buffer.
           let (r, tcp_seg) = TCPSegment_parse TCPSegment_new buffer (pseudo_cksum h); th = seg_header tcp_seg
           in if r \<noteq> NoError then Inr (None, a)
              else if th_dport th \<noteq> ad_port (fc_source cfg) then Inr (None, a)
              else if adapter_listening a \<and> \<not> (th_syn th \<and> \<not> th_rst th) then Inr (None, a)
              else
                let a = (if adapter_listening a
                         then set_listening (a\<lparr>fa_cfg := cfg
                                \<lparr>fc_source := \<lparr>ad_ip = ih_dst h, ad_port = ad_port (fc_source cfg)\<rparr>,
                                 fc_destination := \<lparr>ad_ip = ih_src h, ad_port = th_sport th\<rparr>\<rparr>\<rparr>) False
                         else a)
                in if th_sport th \<noteq> ad_port (fc_destination (fa_cfg a)) then Inr (None, a)
                   else Inr (Some tcp_seg, a)))"

definition wrap_tcp_in_ip :: "FdAdapterBase \<Rightarrow> TCPSegment \<Rightarrow> IPv4Datagram result" where
  "wrap_tcp_in_ip a seg =
     (let seg = set_ports a seg;
          h = IPv4Header_new\<lparr>ih_src := ipv4_numeric (fc_source (fa_cfg a)),
                ih_dst := ipv4_numeric (fc_destination (fa_cfg a))\<rparr>;
          h = h\<lparr>ih_len := word_of_nat (unat (ih_hlen h) * 4 + unat (th_doff (seg_header seg)) * 4 +
                            Buffer_size (seg_payload seg))\<rparr>
      in bind_result (TCPSegment_serialize seg (pseudo_cksum h)) (\<lambda>payload.
           Inr \<lparr>ip_header = h, ip_payload = payload\<rparr>))"

definition TCPOverIPv4OverTunFdAdapter_read ::
  "FdAdapterBase \<Rightarrow> bytes \<Rightarrow> (TCPSegment option \<times> FdAdapterBase) result" where
  "TCPOverIPv4OverTunFdAdapter_read a data =
     (let (r, ip_dgram) = IPv4Datagram_parse IPv4Datagram_new (Buffer_new data)
      in if r \<noteq> NoError then Inr (None, a) else unwrap_tcp_in_ip a ip_dgram)"

definition TCPOverIPv4OverTunFdAdapter_write :: "FdAdapterBase \<Rightarrow> TCPSegment \<Rightarrow> BufferList result" where
  "TCPOverIPv4OverTunFdAdapter_write a seg =
     bind_result (wrap_tcp_in_ip a seg) IPv4Datagram_serialize"

section \<open>Random loss\<close>

record ('g, 'a) LossyFdAdapter =
  lo_rand :: 'g
  lo_adapter :: 'a

text \<open>The generator is only stepped when the loss rate is not zero.\<close>

definition should_drop ::
  "('g \<Rightarrow> uint32 \<times> 'g) \<Rightarrow> ('a \<Rightarrow> FdAdapterConfig) \<Rightarrow> bool \<Rightarrow> ('g, 'a) LossyFdAdapter \<Rightarrow>
   bool \<times> ('g, 'a) LossyFdAdapter" where
  "should_drop rand config uplink l =
     (let cfg = config (lo_adapter l);
          loss = (if uplink then fc_loss_rate_up cfg else fc_loss_rate_dn cfg)
      in if loss \<noteq> 0 then
           (let (v, g) = rand (lo_rand l) in ((ucast v :: uint16) < loss, l\<lparr>lo_rand := g\<rparr>))
         else (False, l))"

definition LossyFdAdapter_read ::
  "('g \<Rightarrow> uint32 \<times> 'g) \<Rightarrow> ('a \<Rightarrow> FdAdapterConfig) \<Rightarrow> ('a \<Rightarrow> 'i \<Rightarrow> (TCPSegment option \<times> 'a) result) \<Rightarrow>
   ('g, 'a) LossyFdAdapter \<Rightarrow> 'i \<Rightarrow> (TCPSegment option \<times> ('g, 'a) LossyFdAdapter) result" where
  "LossyFdAdapter_read rand config read l inp =
     bind_result (read (lo_adapter l) inp) (\<lambda>(ret, a).
       let (dropped, l) = should_drop rand config False (l\<lparr>lo_adapter := a\<rparr>)
       in Inr (if dropped then None else ret, l))"

definition LossyFdAdapter_write ::
  "('g \<Rightarrow> uint32 \<times> 'g) \<Rightarrow> ('a \<Rightarrow> FdAdapterConfig) \<Rightarrow> ('a \<Rightarrow> TCPSegment \<Rightarrow> 'o result) \<Rightarrow>
   ('g, 'a) LossyFdAdapter \<Rightarrow> TCPSegment \<Rightarrow> ('o option \<times> ('g, 'a) LossyFdAdapter) result" where
  "LossyFdAdapter_write rand config write l seg =
     (let (dropped, l) = should_drop rand config True l
      in if dropped then Inr (None, l)
         else bind_result (write (lo_adapter l) seg) (\<lambda>out. Inr (Some out, l)))"

section \<open>Through the wire\<close>

lemma unat_high_half: "unat (drop_bit 16 (w :: uint32)) < 65536"
proof -
  have "unat w < 2 ^ 32" using unsigned_less [of w, where 'a = nat] by simp
  then show ?thesis by (simp add: unat_drop_bit_div [where n = 16, simplified] less_mult_imp_div_less)
qed

lemma pseudo_cksum_bound: "unat (pseudo_cksum h) < 16000000"
proof -
  have le: "unat (a + b) \<le> unat a + unat b" for a b :: uint32
    by (simp add: unat_word_ariths)
  have low: "unat (w AND 0xffff) < 65536" for w :: uint32 by (simp add: unat_and_0xffff)
  have proto: "unat (ucast (ih_proto h) :: uint32) < 256"
    using unsigned_less [of "ih_proto h", where 'a = nat] by (simp add: unat_ucast_mod)
  have pl: "unat (ucast (payload_length h) :: uint32) < 65536"
    using unsigned_less [of "payload_length h", where 'a = nat] by (simp add: unat_ucast_mod)
  have "unat (pseudo_cksum h) \<le> unat (drop_bit 16 (ih_src h)) + unat (ih_src h AND 0xffff) +
      (unat (drop_bit 16 (ih_dst h)) + unat (ih_dst h AND 0xffff)) + unat (ucast (ih_proto h) :: uint32) +
      unat (ucast (payload_length h) :: uint32)"
    unfolding pseudo_cksum_def Let_def
    by (intro order_trans [OF le] add_mono order_refl)
  then show ?thesis
    using unat_high_half [of "ih_src h"] unat_high_half [of "ih_dst h"] low [of "ih_src h"] low [of "ih_dst h"] proto pl
    by linarith
qed

lemma pseudo_cksum_ignores_cksum [simp]: "pseudo_cksum (h\<lparr>ih_cksum := c\<rparr>) = pseudo_cksum h"
  by (simp add: pseudo_cksum_def payload_length_def)

lemma set_ports_simps [simp]:
  "th_doff (seg_header (set_ports a seg)) = th_doff (seg_header seg)"
  "th_syn (seg_header (set_ports a seg)) = th_syn (seg_header seg)"
  "th_rst (seg_header (set_ports a seg)) = th_rst (seg_header seg)"
  "th_sport (seg_header (set_ports a seg)) = ad_port (fc_source (fa_cfg a))"
  "th_dport (seg_header (set_ports a seg)) = ad_port (fc_destination (fa_cfg a))"
  "seg_payload (set_ports a seg) = seg_payload seg"
  by (simp_all add: set_ports_def)

text \<open>The segment that comes out at the other end: ports set and checksum filled in.\<close>

definition sent_seg :: "FdAdapterBase \<Rightarrow> TCPSegment \<Rightarrow> uint16 \<Rightarrow> Buffer \<Rightarrow> TCPSegment" where
  "sent_seg a seg c b = \<lparr>seg_header = (seg_header (set_ports a seg))\<lparr>th_cksum := c\<rparr>, seg_payload = b\<rparr>"

definition fits_ip :: "TCPSegment \<Rightarrow> bool" where
  "fits_ip seg \<longleftrightarrow>
     5 \<le> unat (th_doff (seg_header seg)) \<and> unat (th_doff (seg_header seg)) < 16 \<and>
     20 + 4 * unat (th_doff (seg_header seg)) + length (Buffer_str (seg_payload seg)) \<le> 65535"

lemma tun_wire:
  assumes "fits_ip seg"
  obtains bl h c b b' where "TCPOverIPv4OverTunFdAdapter_write a seg = Inr bl"
    "IPv4Datagram_parse IPv4Datagram_new (Buffer_new (BufferList_concatenate bl)) =
       (NoError, \<lparr>ip_header = h, ip_payload = [b']\<rparr>)"
    "TCPSegment_parse TCPSegment_new b' (pseudo_cksum h) = (NoError, sent_seg a seg c b)"
    "Buffer_str b = Buffer_str (seg_payload seg)"
    "ih_src h = ad_ip (fc_source (fa_cfg a))" "ih_dst h = ad_ip (fc_destination (fa_cfg a))" "ih_proto h = PROTO_TCP"
proof -
  let ?s = "set_ports a seg" and ?pl = "Buffer_str (seg_payload seg)"
  let ?th = "seg_header ?s"
  define n where "n = 4 * unat (th_doff ?th) + length ?pl"
  define h where "h = IPv4Header_new\<lparr>ih_src := ad_ip (fc_source (fa_cfg a)),
    ih_dst := ad_ip (fc_destination (fa_cfg a)), ih_len := word_of_nat (20 + n)\<rparr>"
  have doff: "\<not> th_doff ?th < 5" "th_doff ?th < 16" and n: "20 + n \<le> 65535"
    using assms by (auto simp: fits_ip_def word_less_nat_alt n_def)
  have wf: "ip_wf h" by (simp add: h_def ip_wf_def IPv4Header_new_def)
  have len: "unat (ih_len h) = 4 * unat (ih_hlen h) + n"
    using n by (simp add: h_def IPv4Header_new_def unat_word_ariths unat_of_nat)
  define tc where "tc = InternetChecksum_value (InternetChecksum_add (InternetChecksum_new (pseudo_cksum h))
    (header_front ?th @ [0, 0] @ (be_bytes (th_uptr ?th) @ header_pad ?th @ Buffer_str (seg_payload ?s))))"
  define tb where "tb = [Buffer_new (header_front ?th @ be_bytes tc @ be_bytes (th_uptr ?th) @ header_pad ?th), seg_payload seg]"
  have ser: "TCPSegment_serialize ?s (pseudo_cksum h) = Inr tb"
    using TCPSegment_serialize_bytes [OF doff(1) tc_def] by (simp add: tb_def)
  let ?bytes = "header_front ?th @ be_bytes tc @ (be_bytes (th_uptr ?th) @ header_pad ?th @ ?pl)"
  have cat: "BufferList_concatenate tb = ?bytes" by (simp add: tb_def BufferList_concatenate_def)
  have blen: "length ?bytes = n" using doff_ge_5 [OF doff(1)] by (simp add: n_def header_pad_def)
  have wrap: "wrap_tcp_in_ip a seg = Inr \<lparr>ip_header = h, ip_payload = tb\<rparr>"
  proof -
    have "unat (ih_hlen IPv4Header_new) * 4 + unat (th_doff ?th) * 4 + Buffer_size (seg_payload ?s) = 20 + n"
      by (simp add: n_def IPv4Header_new_def Buffer_size_def)
    moreover have "ih_hlen (IPv4Header_new\<lparr>ih_src := x, ih_dst := y\<rparr>) = ih_hlen IPv4Header_new" for x y by simp
    ultimately show ?thesis
      using ser unfolding wrap_tcp_in_ip_def Let_def h_def ipv4_numeric_def by (simp only: bind_result_simps)
  qed
  have "BufferList_size tb = unat (payload_length h)"
    using BufferList_size_eq [of tb, unfolded cat blen] payload_length_unat [OF wf len] n by (simp add: two64_def)
  then have size: "BufferList_size (ip_payload \<lparr>ip_header = h, ip_payload = tb\<rparr>) =
      unat (payload_length (ip_header \<lparr>ip_header = h, ip_payload = tb\<rparr>))" by simp
  define c where "c = InternetChecksum_value (InternetChecksum_add (InternetChecksum_new 0) (ip_bytes (h\<lparr>ih_cksum := 0\<rparr>)))"
  have out: "TCPOverIPv4OverTunFdAdapter_write a seg = Inr (Buffer_new (ip_bytes (h\<lparr>ih_cksum := c\<rparr>)) # tb)"
    using IPv4Datagram_serialize_bytes [OF _ size] wf c_def wrap by (simp add: TCPOverIPv4OverTunFdAdapter_write_def)
  have "\<exists>b'. IPv4Datagram_parse IPv4Datagram_new
      (Buffer_new (BufferList_concatenate (Buffer_new (ip_bytes (h\<lparr>ih_cksum := c\<rparr>)) # tb))) =
      (NoError, IPv4Datagram_new\<lparr>ip_header := h\<lparr>ih_cksum := c\<rparr>, ip_payload := [b']\<rparr>) \<and> Buffer_str b' = ?bytes"
    by (rule IPv4Datagram_parse_bytes)
      (use wf len blen cat ip_checksum_fill [OF wf c_def] in \<open>simp_all add: BufferList_concatenate_def\<close>)
  then obtain b' where b': "IPv4Datagram_parse IPv4Datagram_new
      (Buffer_new (BufferList_concatenate (Buffer_new (ip_bytes (h\<lparr>ih_cksum := c\<rparr>)) # tb))) =
      (NoError, \<lparr>ip_header = h\<lparr>ih_cksum := c\<rparr>, ip_payload = [b']\<rparr>)" "Buffer_str b' = ?bytes"
    by (auto simp: IPv4Datagram_new_def)
  have "4 * unat (th_doff ?th) + length (Buffer_str (seg_payload ?s)) \<le> 65535" using n by (simp add: n_def)
  from TCPSegment_parse_bytes [OF doff this pseudo_cksum_bound tc_def, of b' TCPSegment_new] b'(2)
  obtain b where "TCPSegment_parse TCPSegment_new b' (pseudo_cksum (h\<lparr>ih_cksum := c\<rparr>)) = (NoError, sent_seg a seg tc b)"
    "Buffer_str b = ?pl"
    by (auto simp: sent_seg_def TCPSegment_new_def)
  then show thesis using that [OF out b'(1)] by (simp add: h_def IPv4Header_new_def)
qed

section \<open>The contract of an adapter\<close>

text \<open>
  What the two adapters promise to whoever reads through them: a connected adapter never changes,
  a listening one changes only together with the SYN it delivers, and then it is connected.
\<close>

locale fd_adapter =
  fixes read :: "FdAdapterBase \<Rightarrow> 'i \<Rightarrow> (TCPSegment option \<times> FdAdapterBase) result"
  assumes connected: "\<not> fa_listen a \<Longrightarrow> read a x = Inr (r, a') \<Longrightarrow> a' = a"
    and ignored: "read a x = Inr (None, a') \<Longrightarrow> a' = a"
    and accepted: "fa_listen a \<Longrightarrow> read a x = Inr (Some seg, a') \<Longrightarrow>
      th_syn (seg_header seg) \<and> \<not> th_rst (seg_header seg) \<and> \<not> fa_listen a'"
begin

text \<open>Reading a sequence of inputs, collecting what is delivered.\<close>

fun deliver :: "FdAdapterBase \<Rightarrow> 'i list \<Rightarrow> (TCPSegment list \<times> FdAdapterBase) result" where
  "deliver a [] = Inr ([], a)"
| "deliver a (x # xs) =
     bind_result (read a x) (\<lambda>(r, a').
       bind_result (deliver a' xs) (\<lambda>(segs, a''). Inr (case r of None \<Rightarrow> segs | Some s \<Rightarrow> s # segs, a'')))"

lemma deliver_connected: "\<not> fa_listen a \<Longrightarrow> deliver a xs = Inr (segs, a') \<Longrightarrow> a' = a"
proof (induction xs arbitrary: segs)
  case (Cons x xs)
  then show ?case using connected by (fastforce simp: bind_result_eq_Inr)
qed simp

lemma deliver_listening:
  "fa_listen a \<Longrightarrow> deliver a xs = Inr (segs, a') \<Longrightarrow>
     segs = [] \<and> a' = a \<or>
     segs \<noteq> [] \<and> th_syn (seg_header (hd segs)) \<and> \<not> th_rst (seg_header (hd segs)) \<and> \<not> fa_listen a'"
proof (induction xs arbitrary: segs)
  case (Cons x xs)
  then obtain r b ss where r: "read a x = Inr (r, b)" "deliver b xs = Inr (ss, a')"
    "segs = (case r of None \<Rightarrow> ss | Some s \<Rightarrow> s # ss)"
    by (auto simp: bind_result_eq_Inr)
  show ?case
  proof (cases r)
    case None
    then have "b = a" using ignored r(1) by blast
    then show ?thesis using Cons r None by simp
  next
    case (Some s)
    then have "th_syn (seg_header s) \<and> \<not> th_rst (seg_header s) \<and> \<not> fa_listen b"
      using accepted r(1) Cons.prems(1) by blast
    then show ?thesis using deliver_connected [of b xs ss a'] r Some by auto
  qed
qed simp

end

text \<open>The configuration after accepting a SYN with header \<open>th\<close> in a datagram with header \<open>h\<close>.\<close>

definition accepted_from :: "FdAdapterBase \<Rightarrow> IPv4Header \<Rightarrow> TCPHeader \<Rightarrow> FdAdapterBase" where
  "accepted_from a h th = a\<lparr>fa_listen := False, fa_cfg := (fa_cfg a)
     \<lparr>fc_source := \<lparr>ad_ip = ih_dst h, ad_port = ad_port (fc_source (fa_cfg a))\<rparr>,
      fc_destination := \<lparr>ad_ip = ih_src h, ad_port = th_sport th\<rparr>\<rparr>\<rparr>"

lemma unwrap_tcp_in_ip_cases:
  assumes "unwrap_tcp_in_ip a d = Inr (r, a')"
  obtains (ignored) "r = None" "a' = a"
  | (delivered) b seg where "BufferList_to_Buffer (ip_payload d) = Inr b"
      "TCPSegment_parse TCPSegment_new b (pseudo_cksum (ip_header d)) = (NoError, seg)" "r = Some seg"
      "ih_proto (ip_header d) = PROTO_TCP" "th_dport (seg_header seg) = ad_port (fc_source (fa_cfg a))"
      "if fa_listen a
       then th_syn (seg_header seg) \<and> \<not> th_rst (seg_header seg) \<and> a' = accepted_from a (ip_header d) (seg_header seg)
       else ih_dst (ip_header d) = ad_ip (fc_source (fa_cfg a)) \<and>
         ih_src (ip_header d) = ad_ip (fc_destination (fa_cfg a)) \<and>
         th_sport (seg_header seg) = ad_port (fc_destination (fa_cfg a)) \<and> a' = a"
proof (cases "BufferList_to_Buffer (ip_payload d)")
  case (Inl e)
  then show thesis using assms ignored
    by (auto simp: unwrap_tcp_in_ip_def Let_def split: if_splits)
next
  case (Inr b)
  obtain q seg where q: "TCPSegment_parse TCPSegment_new b (pseudo_cksum (ip_header d)) = (q, seg)" by fastforce
  show thesis
    using assms ignored delivered [OF Inr]
    by (cases "fa_listen a") (auto simp: unwrap_tcp_in_ip_def Inr q adapter_listening_def set_listening_def
        accepted_from_def ipv4_numeric_def Let_def split: if_splits)
qed

interpretation tun: fd_adapter TCPOverIPv4OverTunFdAdapter_read
  by unfold_locales
    (auto simp: TCPOverIPv4OverTunFdAdapter_read_def accepted_from_def
      split: if_splits prod.splits elim!: unwrap_tcp_in_ip_cases)

interpretation udp: fd_adapter TCPOverUDPSocketAdapter_read
  by unfold_locales
    (auto simp: TCPOverUDPSocketAdapter_read_def adapter_listening_def set_listening_def Let_def
      split: if_splits prod.splits)

lemma unwrap_connected:
  assumes "TCPSegment_parse TCPSegment_new b (pseudo_cksum h) = (NoError, seg)" "\<not> fa_listen a"
    and "ih_dst h = ad_ip (fc_source (fa_cfg a))" "ih_src h = ad_ip (fc_destination (fa_cfg a))" "ih_proto h = PROTO_TCP"
    and "th_dport (seg_header seg) = ad_port (fc_source (fa_cfg a))"
    and "th_sport (seg_header seg) = ad_port (fc_destination (fa_cfg a))"
  shows "unwrap_tcp_in_ip a \<lparr>ip_header = h, ip_payload = [b]\<rparr> = Inr (Some seg, a)"
  using assms by (simp add: unwrap_tcp_in_ip_def adapter_listening_def BufferList_to_Buffer_def ipv4_numeric_def)

lemma unwrap_listening:
  assumes "TCPSegment_parse TCPSegment_new b (pseudo_cksum h) = (NoError, seg)" "fa_listen a" "ih_proto h = PROTO_TCP"
    and "th_dport (seg_header seg) = ad_port (fc_source (fa_cfg a))" "th_syn (seg_header seg)" "\<not> th_rst (seg_header seg)"
  shows "unwrap_tcp_in_ip a \<lparr>ip_header = h, ip_payload = [b]\<rparr> = Inr (Some seg, accepted_from a h (seg_header seg))"
  using assms by (simp add: unwrap_tcp_in_ip_def adapter_listening_def BufferList_to_Buffer_def set_listening_def
      accepted_from_def Let_def)

lemma sent_seg_simps [simp]:
  "th_sport (seg_header (sent_seg a seg c b)) = ad_port (fc_source (fa_cfg a))"
  "th_dport (seg_header (sent_seg a seg c b)) = ad_port (fc_destination (fa_cfg a))"
  "th_syn (seg_header (sent_seg a seg c b)) = th_syn (seg_header seg)"
  "th_rst (seg_header (sent_seg a seg c b)) = th_rst (seg_header seg)"
  by (simp_all add: sent_seg_def)

section \<open>Properties\<close>

text \<open>
  Claim C19. Across the network: a segment that fits in a datagram, written by one adapter and read
  by the adapter of the peer it is connected to, arrives with the same payload and the same
  header, up to the ports and the checksum that the sending side fills in; the reading adapter
  does not change.
\<close>

theorem tun_delivers:
  assumes "fits_ip seg" "\<not> fa_listen b"
    and "fc_source (fa_cfg b) = fc_destination (fa_cfg a)" "fc_destination (fa_cfg b) = fc_source (fa_cfg a)"
  shows "\<exists>bl c buf. TCPOverIPv4OverTunFdAdapter_write a seg = Inr bl \<and>
    TCPOverIPv4OverTunFdAdapter_read b (BufferList_concatenate bl) = Inr (Some (sent_seg a seg c buf), b) \<and>
    Buffer_str buf = Buffer_str (seg_payload seg)"
proof -
  obtain bl h c buf b' where
    w: "TCPOverIPv4OverTunFdAdapter_write a seg = Inr bl"
      "IPv4Datagram_parse IPv4Datagram_new (Buffer_new (BufferList_concatenate bl)) =
         (NoError, \<lparr>ip_header = h, ip_payload = [b']\<rparr>)"
      "TCPSegment_parse TCPSegment_new b' (pseudo_cksum h) = (NoError, sent_seg a seg c buf)"
      "Buffer_str buf = Buffer_str (seg_payload seg)"
      "ih_src h = ad_ip (fc_source (fa_cfg a))" "ih_dst h = ad_ip (fc_destination (fa_cfg a))" "ih_proto h = PROTO_TCP"
    by (rule tun_wire [OF assms(1), of a])
  have "unwrap_tcp_in_ip b \<lparr>ip_header = h, ip_payload = [b']\<rparr> = Inr (Some (sent_seg a seg c buf), b)"
    by (rule unwrap_connected [OF w(3)]) (use w assms(2-4) in simp_all)
  then have "TCPOverIPv4OverTunFdAdapter_read b (BufferList_concatenate bl) = Inr (Some (sent_seg a seg c buf), b)"
    using w(2) by (simp add: TCPOverIPv4OverTunFdAdapter_read_def)
  then show ?thesis using w(1,4) by blast
qed

definition demo_a :: FdAdapterBase where
  "demo_a = FdAdapterBase_new\<lparr>fa_cfg := FdAdapterConfig_default
     \<lparr>fc_source := \<lparr>ad_ip = 1, ad_port = 80\<rparr>, fc_destination := \<lparr>ad_ip = 2, ad_port = 90\<rparr>\<rparr>\<rparr>"

definition demo_b :: FdAdapterBase where
  "demo_b = FdAdapterBase_new\<lparr>fa_cfg := FdAdapterConfig_default
     \<lparr>fc_source := \<lparr>ad_ip = 2, ad_port = 90\<rparr>, fc_destination := \<lparr>ad_ip = 1, ad_port = 80\<rparr>\<rparr>\<rparr>"

theorem tun_delivers_witness:
  "\<exists>bl c buf. TCPOverIPv4OverTunFdAdapter_write demo_a TCPSegment_new = Inr bl \<and>
    TCPOverIPv4OverTunFdAdapter_read demo_b (BufferList_concatenate bl) =
      Inr (Some (sent_seg demo_a TCPSegment_new c buf), demo_b) \<and> Buffer_str buf = []"
proof -
  have h: "fits_ip TCPSegment_new" "\<not> fa_listen demo_b"
    "fc_source (fa_cfg demo_b) = fc_destination (fa_cfg demo_a)"
    "fc_destination (fa_cfg demo_b) = fc_source (fa_cfg demo_a)"
    by (simp_all add: fits_ip_def TCPSegment_new_def TCPHeader_new_def demo_a_def demo_b_def FdAdapterBase_new_def)
  show ?thesis using tun_delivers [OF h] by (simp add: TCPSegment_new_def)
qed

lemma tun_accept_read:
  assumes "fits_ip seg" "fa_listen b" "ad_port (fc_source (fa_cfg b)) = ad_port (fc_destination (fa_cfg a))"
    and "th_syn (seg_header seg)" "\<not> th_rst (seg_header seg)"
  shows "\<exists>bl c buf. TCPOverIPv4OverTunFdAdapter_write a seg = Inr bl \<and>
    TCPOverIPv4OverTunFdAdapter_read b (BufferList_concatenate bl) =
      Inr (Some (sent_seg a seg c buf),
           b\<lparr>fa_listen := False, fa_cfg := (fa_cfg b)\<lparr>fc_source := fc_destination (fa_cfg a),
             fc_destination := fc_source (fa_cfg a)\<rparr>\<rparr>) \<and>
    Buffer_str buf = Buffer_str (seg_payload seg)"
proof -
  obtain bl h c buf b' where
    w: "TCPOverIPv4OverTunFdAdapter_write a seg = Inr bl"
      "IPv4Datagram_parse IPv4Datagram_new (Buffer_new (BufferList_concatenate bl)) =
         (NoError, \<lparr>ip_header = h, ip_payload = [b']\<rparr>)"
      "TCPSegment_parse TCPSegment_new b' (pseudo_cksum h) = (NoError, sent_seg a seg c buf)"
      "Buffer_str buf = Buffer_str (seg_payload seg)"
      "ih_src h = ad_ip (fc_source (fa_cfg a))" "ih_dst h = ad_ip (fc_destination (fa_cfg a))" "ih_proto h = PROTO_TCP"
    by (rule tun_wire [OF assms(1), of a])
  have addr: "\<lparr>ad_ip = ad_ip x, ad_port = ad_port x\<rparr> = x" for x :: Address by simp
  have "accepted_from b h (seg_header (sent_seg a seg c buf)) =
      b\<lparr>fa_listen := False, fa_cfg := (fa_cfg b)\<lparr>fc_source := fc_destination (fa_cfg a),
        fc_destination := fc_source (fa_cfg a)\<rparr>\<rparr>"
    unfolding accepted_from_def sent_seg_simps w(5,6) assms(3) addr ..
  moreover have "unwrap_tcp_in_ip b \<lparr>ip_header = h, ip_payload = [b']\<rparr> =
      Inr (Some (sent_seg a seg c buf), accepted_from b h (seg_header (sent_seg a seg c buf)))"
    by (rule unwrap_listening [OF w(3) assms(2)]) (use w assms(3-5) in simp_all)
  ultimately have "TCPOverIPv4OverTunFdAdapter_read b (BufferList_concatenate bl) = Inr (Some (sent_seg a seg c buf),
      b\<lparr>fa_listen := False, fa_cfg := (fa_cfg b)\<lparr>fc_source := fc_destination (fa_cfg a),
        fc_destination := fc_source (fa_cfg a)\<rparr>\<rparr>)"
    using w(2) by (simp add: TCPOverIPv4OverTunFdAdapter_read_def)
  then show ?thesis using w(1,4) by blast
qed

text \<open>A client's SYN accepted by a server that listens on port 90.\<close>

lemma tun_accept_demo:
  "\<exists>seg bl c buf. TCPOverIPv4OverTunFdAdapter_write demo_a seg = Inr bl \<and>
    TCPOverIPv4OverTunFdAdapter_read (FdAdapterBase_new\<lparr>fa_listen := True, fa_cfg := FdAdapterConfig_default
        \<lparr>fc_source := \<lparr>ad_ip = 0, ad_port = 90\<rparr>\<rparr>\<rparr>) (BufferList_concatenate bl) =
      Inr (Some (sent_seg demo_a seg c buf), demo_b)"
proof -
  let ?seg = "TCPSegment_new\<lparr>seg_header := TCPHeader_new\<lparr>th_syn := True\<rparr>\<rparr>"
  let ?b = "FdAdapterBase_new\<lparr>fa_listen := True, fa_cfg := FdAdapterConfig_default
    \<lparr>fc_source := \<lparr>ad_ip = 0, ad_port = 90\<rparr>\<rparr>\<rparr>"
  have h: "fits_ip ?seg" "fa_listen ?b" "ad_port (fc_source (fa_cfg ?b)) = ad_port (fc_destination (fa_cfg demo_a))"
    "th_syn (seg_header ?seg)" "\<not> th_rst (seg_header ?seg)"
    by (simp_all add: fits_ip_def TCPSegment_new_def TCPHeader_new_def demo_a_def)
  have b: "?b\<lparr>fa_listen := False, fa_cfg := (fa_cfg ?b)\<lparr>fc_source := fc_destination (fa_cfg demo_a),
      fc_destination := fc_source (fa_cfg demo_a)\<rparr>\<rparr> = demo_b"
    by (simp add: demo_a_def demo_b_def FdAdapterBase_new_def FdAdapterConfig_default_def)
  show ?thesis using tun_accept_read [OF h] unfolding b by blast
qed

text \<open>
  Claim C20. Filtering by the adapter over IPv4: a datagram that delivers nothing leaves the adapter
  as it was. A segment is delivered only from a datagram that claims to carry TCP and whose segment
  passes the checksum with the datagram's pseudo-header and has the adapter's own port as its
  destination. A connected adapter moreover delivers only between the two configured addresses and
  from the peer's port, and never changes; a listening one delivers only a SYN without RST, and
  from then on it is connected, from the address the SYN was sent to, to the address and port it
  came from, the rest of its configuration unchanged.
\<close>

theorem unwrap_only_from_peer:
  assumes "unwrap_tcp_in_ip a d = Inr (r, a')"
  shows "case r of
    None \<Rightarrow> a' = a
  | Some seg \<Rightarrow>
      ih_proto (ip_header d) = PROTO_TCP \<and>
      (\<exists>b. BufferList_to_Buffer (ip_payload d) = Inr b \<and>
         InternetChecksum_value (InternetChecksum_add (InternetChecksum_new (pseudo_cksum (ip_header d))) (Buffer_str b)) = 0) \<and>
      th_dport (seg_header seg) = ad_port (fc_source (fa_cfg a)) \<and>
      (if fa_listen a
       then th_syn (seg_header seg) \<and> \<not> th_rst (seg_header seg) \<and>
         a' = a\<lparr>fa_listen := False, fa_cfg := (fa_cfg a)
           \<lparr>fc_source := \<lparr>ad_ip = ih_dst (ip_header d), ad_port = ad_port (fc_source (fa_cfg a))\<rparr>,
            fc_destination := \<lparr>ad_ip = ih_src (ip_header d), ad_port = th_sport (seg_header seg)\<rparr>\<rparr>\<rparr>
       else a' = a \<and> ih_dst (ip_header d) = ad_ip (fc_source (fa_cfg a)) \<and>
         ih_src (ip_header d) = ad_ip (fc_destination (fa_cfg a)) \<and>
         th_sport (seg_header seg) = ad_port (fc_destination (fa_cfg a)))"
proof -
  have sum: "InternetChecksum_value (InternetChecksum_add (InternetChecksum_new ck) (Buffer_str b)) = 0"
    if "TCPSegment_parse s0 b ck = (NoError, s1)" for s0 b ck s1
    using that by (auto simp: TCPSegment_parse_def Let_def split: if_splits)
  from assms show ?thesis
    by (cases rule: unwrap_tcp_in_ip_cases) (auto simp: accepted_from_def dest: sum split: if_splits)
qed

text \<open>
  In the witness the same datagram, sent by the peer, is delivered by the adapter that is connected
  to the peer and ignored by the peer's own.
\<close>

theorem unwrap_only_from_peer_witness:
  "\<exists>d seg a'. unwrap_tcp_in_ip demo_b d = Inr (Some seg, demo_b) \<and> th_sport (seg_header seg) = 80 \<and>
     ih_src (ip_header d) = 1 \<and> unwrap_tcp_in_ip demo_a d = Inr (None, a') \<and> a' = demo_a"
proof -
  have fits: "fits_ip TCPSegment_new" by (simp add: fits_ip_def TCPSegment_new_def TCPHeader_new_def)
  obtain h c buf b' where w: "TCPSegment_parse TCPSegment_new b' (pseudo_cksum h) = (NoError, sent_seg demo_a TCPSegment_new c buf)"
    "ih_src h = ad_ip (fc_source (fa_cfg demo_a))" "ih_dst h = ad_ip (fc_destination (fa_cfg demo_a))" "ih_proto h = PROTO_TCP"
    by (rule tun_wire [OF fits, of demo_a])
  let ?d = "\<lparr>ip_header = h, ip_payload = [b']\<rparr>"
  have "unwrap_tcp_in_ip demo_b ?d = Inr (Some (sent_seg demo_a TCPSegment_new c buf), demo_b)"
    by (rule unwrap_connected [OF w(1)]) (use w(2-4) in \<open>simp_all add: demo_a_def demo_b_def FdAdapterBase_new_def\<close>)
  moreover from unwrap_only_from_peer [OF this] have "ih_src h = 1"
    by (simp add: demo_b_def FdAdapterBase_new_def)
  moreover have "th_sport (seg_header (sent_seg demo_a TCPSegment_new c buf)) = 80" by (simp add: demo_a_def)
  moreover obtain a' where ign: "unwrap_tcp_in_ip demo_a ?d = Inr (None, a')"
    using w(2-4) by (auto simp: unwrap_tcp_in_ip_def Let_def adapter_listening_def ipv4_numeric_def demo_a_def FdAdapterBase_new_def)
  moreover from unwrap_only_from_peer [OF ign] have "a' = demo_a" by simp
  ultimately show ?thesis by (intro exI [of _ ?d] exI [of _ "sent_seg demo_a TCPSegment_new c buf"] exI [of _ a']) simp
qed

text \<open>
  The adapter over UDP filters less: once connected it compares the datagram's source address with
  the peer's and looks at no port of the segment, whichever ports the TCP header names.
\<close>

lemma udp_ignores_segment_ports:
  assumes "\<not> fa_listen a" "rd_source_address datagram = fc_destination (fa_cfg a)"
    and "TCPSegment_parse TCPSegment_new (Buffer_new (rd_payload datagram)) 0 = (NoError, seg)"
  shows "TCPOverUDPSocketAdapter_read a datagram = Inr (Some seg, a)"
  using assms by (simp add: TCPOverUDPSocketAdapter_read_def adapter_listening_def)

text \<open>
  The lossy wrapper is not transparent for a listening adapter: \<open>read\<close> consults the
  wrapped adapter before it decides to drop. When the SYN is dropped, it is lost, but the wrapped
  adapter has stopped listening and is bound to the sender all the same.
\<close>

lemma lossy_loses_accepted_syn:
  assumes "fits_ip seg" "fa_listen (lo_adapter l)" "th_syn (seg_header seg)" "\<not> th_rst (seg_header seg)"
    and "ad_port (fc_source (fa_cfg (lo_adapter l))) = ad_port (fc_destination (fa_cfg a))"
    and "rand (lo_rand l) = (v, g)" "(ucast v :: uint16) < fc_loss_rate_dn (fa_cfg (lo_adapter l))"
  shows "\<exists>bl l'. TCPOverIPv4OverTunFdAdapter_write a seg = Inr bl \<and>
    LossyFdAdapter_read rand fa_cfg TCPOverIPv4OverTunFdAdapter_read l (BufferList_concatenate bl) = Inr (None, l') \<and>
    \<not> fa_listen (lo_adapter l') \<and> fc_destination (fa_cfg (lo_adapter l')) = fc_source (fa_cfg a)"
proof -
  have "fc_loss_rate_dn (fa_cfg (lo_adapter l)) \<noteq> 0" using assms(7) by auto
  then show ?thesis
    using tun_accept_read [OF assms(1,2,5,3,4)] assms(6,7)
    by (auto simp: LossyFdAdapter_read_def should_drop_def Let_def)
qed

lemma lossy_loses_accepted_syn_witness:
  "\<exists>seg bl l'. TCPOverIPv4OverTunFdAdapter_write demo_a seg = Inr bl \<and>
    LossyFdAdapter_read (\<lambda>g. (g, g + 1)) fa_cfg TCPOverIPv4OverTunFdAdapter_read
      \<lparr>lo_rand = 3, lo_adapter = FdAdapterBase_new\<lparr>fa_listen := True, fa_cfg := FdAdapterConfig_default
        \<lparr>fc_source := \<lparr>ad_ip = 0, ad_port = 90\<rparr>, fc_loss_rate_dn := 100\<rparr>\<rparr>\<rparr> (BufferList_concatenate bl) = Inr (None, l') \<and>
    \<not> fa_listen (lo_adapter l')"
proof -
  let ?seg = "TCPSegment_new\<lparr>seg_header := TCPHeader_new\<lparr>th_syn := True\<rparr>\<rparr>"
  let ?l = "\<lparr>lo_rand = 3, lo_adapter = FdAdapterBase_new\<lparr>fa_listen := True, fa_cfg := FdAdapterConfig_default
    \<lparr>fc_source := \<lparr>ad_ip = 0, ad_port = 90\<rparr>, fc_loss_rate_dn := 100\<rparr>\<rparr>\<rparr> :: (uint32, FdAdapterBase) LossyFdAdapter"
  have h: "fits_ip ?seg" "fa_listen (lo_adapter ?l)" "th_syn (seg_header ?seg)" "\<not> th_rst (seg_header ?seg)"
    "ad_port (fc_source (fa_cfg (lo_adapter ?l))) = ad_port (fc_destination (fa_cfg demo_a))"
    "(\<lambda>g :: uint32. (g, g + 1)) (lo_rand ?l) = (3, 4)"
    "(ucast (3 :: uint32) :: uint16) < fc_loss_rate_dn (fa_cfg (lo_adapter ?l))"
    by (simp_all add: fits_ip_def TCPSegment_new_def TCPHeader_new_def demo_a_def)
  show ?thesis using lossy_loses_accepted_syn [where rand = "\<lambda>g :: uint32. (g, g + 1)", OF h] by blast
qed

end
