(* ===== verification/File_Descriptor.thy ===== *)
theory File_Descriptor
  imports Fd_Adapter
begin

text \<open>
  \<open>SystemCall\<close> (\<open>src/libsponge/util/util.cc\<close>), \<open>FileDescriptor\<close> (\<open>util/file_descriptor.hh\<close>,
  \<open>file_descriptor.cc\<close>), the sockets built on it (\<open>util/socket.hh\<close>, \<open>socket.cc\<close>) and the TUN device
  (\<open>util/tun.cc\<close>).

  The operating system is a parameter: a record \<open>kernel\<close> of functions on an arbitrary state \<open>'k\<close>,
  one per system call, each giving its return value, \<open>errno\<close> and what it stores in the caller's
  buffer (for \<open>poll\<close>, the events it reports by position). The model assumes nothing about it. A \<open>FileDescriptor\<close> is a shared pointer to an
  \<open>FDWrapper\<close>; the model keeps the wrappers in a store indexed by a handle, so that \<open>duplicate\<close> is the
  same handle again. Programs extend the record \<open>io\<close> (kernel state and store) by their own state.

  The kernel \<open>logged os\<close> behaves as \<open>os\<close> and records every transfer of bytes and every shutdown; the
  theorems about what goes in and out of a program are stated over it, with the two facts of
  \<open>read\<close> and \<open>writev\<close> that POSIX documents as the hypothesis \<open>kernel_ok\<close>.
\<close>

section \<open>System calls\<close>

record pollfd =
  pfd_fd :: int
  pfd_events :: uint16
  pfd_revents :: uint16

record 'k kernel =
  sys_read :: "int \<Rightarrow> size_t \<Rightarrow> 'k \<Rightarrow> (int \<times> int \<times> bytes) \<times> 'k"
  sys_writev :: "int \<Rightarrow> (bytes \<times> size_t) list \<Rightarrow> 'k \<Rightarrow> (int \<times> int) \<times> 'k"
  sys_close :: "int \<Rightarrow> 'k \<Rightarrow> (int \<times> int) \<times> 'k"
  sys_getfl :: "int \<Rightarrow> 'k \<Rightarrow> (int \<times> int) \<times> 'k"
  sys_setfl :: "int \<Rightarrow> int \<Rightarrow> 'k \<Rightarrow> (int \<times> int) \<times> 'k"
  sys_socket :: "int \<Rightarrow> int \<Rightarrow> 'k \<Rightarrow> (int \<times> int) \<times> 'k"
  sys_socketpair :: "int \<Rightarrow> int \<Rightarrow> 'k \<Rightarrow> (int \<times> int \<times> int \<times> int) \<times> 'k"
  sys_getsockopt :: "int \<Rightarrow> int \<Rightarrow> 'k \<Rightarrow> (int \<times> int \<times> int \<times> nat) \<times> 'k"
  sys_setsockopt :: "int \<Rightarrow> int \<Rightarrow> int \<Rightarrow> int \<Rightarrow> 'k \<Rightarrow> (int \<times> int) \<times> 'k"
  sys_getsockname :: "int \<Rightarrow> 'k \<Rightarrow> (int \<times> int \<times> Address \<times> nat) \<times> 'k"
  sys_getpeername :: "int \<Rightarrow> 'k \<Rightarrow> (int \<times> int \<times> Address \<times> nat) \<times> 'k"
  sys_bind :: "int \<Rightarrow> Address \<Rightarrow> 'k \<Rightarrow> (int \<times> int) \<times> 'k"
  sys_connect :: "int \<Rightarrow> Address \<Rightarrow> 'k \<Rightarrow> (int \<times> int) \<times> 'k"
  sys_shutdown :: "int \<Rightarrow> int \<Rightarrow> 'k \<Rightarrow> (int \<times> int) \<times> 'k"
  sys_listen :: "int \<Rightarrow> int \<Rightarrow> 'k \<Rightarrow> (int \<times> int) \<times> 'k"
  sys_accept :: "int \<Rightarrow> 'k \<Rightarrow> (int \<times> int) \<times> 'k"
  sys_recvfrom :: "int \<Rightarrow> size_t \<Rightarrow> 'k \<Rightarrow> (int \<times> int \<times> bytes \<times> Address \<times> nat) \<times> 'k"
  sys_sendmsg :: "int \<Rightarrow> Address option \<Rightarrow> (bytes \<times> size_t) list \<Rightarrow> 'k \<Rightarrow> (int \<times> int) \<times> 'k"
  sys_open :: "string \<Rightarrow> 'k \<Rightarrow> (int \<times> int) \<times> 'k"
  sys_tunsetiff :: "int \<Rightarrow> uint16 \<Rightarrow> string \<Rightarrow> 'k \<Rightarrow> (int \<times> int) \<times> 'k"
  sys_poll :: "pollfd list \<Rightarrow> int \<Rightarrow> 'k \<Rightarrow> (int \<times> int \<times> (nat \<Rightarrow> uint16)) \<times> 'k"
  sys_clock :: "'k \<Rightarrow> uint64 \<times> 'k"

text \<open>
  Conversions: to \<open>int\<close> (what \<open>SystemCall\<close> takes and gives, also for calls that return \<open>ssize_t\<close>),
  from \<open>size_t\<close> to \<open>ssize_t\<close> and back.
\<close>

definition c_int :: "int \<Rightarrow> int" where
  "c_int i = signed_take_bit 31 i"

definition ssize_of_size :: "size_t \<Rightarrow> int" where
  "ssize_of_size n = signed_take_bit 63 (int n)"

definition size_of_ssize :: "int \<Rightarrow> size_t" where
  "size_of_ssize i = nat (i mod 2 ^ 64)"

text \<open>A failed call returns a negative number; one \<open>errno\<close> may be masked.\<close>

definition SystemCall :: "string \<Rightarrow> int \<Rightarrow> int \<Rightarrow> int \<Rightarrow> int result" where
  "SystemCall attempt ret errno errno_mask =
     (let return_value = c_int ret
      in if return_value \<ge> 0 \<or> errno = errno_mask then Inr return_value else Inl (UnixError attempt errno))"

section \<open>\<open>FDWrapper\<close> and \<open>FileDescriptor\<close>\<close>

record FDWrapper =
  fw_fd :: int
  fw_eof :: bool
  fw_closed :: bool
  fw_read_count :: uint32
  fw_write_count :: uint32

type_synonym handle = nat

record 'k io =
  io_kernel :: 'k
  io_fds :: "handle \<Rightarrow> FDWrapper"

text \<open>\<open>to_string\<close> of an \<open>int\<close>.\<close>

fun digits :: "nat \<Rightarrow> string" where
  "digits n = (if n < 10 then [char_of (48 + n)] else digits (n div 10) @ [char_of (48 + n mod 10)])"

declare digits.simps [simp del]

definition int_string :: "int \<Rightarrow> string" where
  "int_string i = (if i < 0 then ''-'' @ digits (nat (- i)) else digits (nat i))"

definition FDWrapper_new :: "int \<Rightarrow> FDWrapper result" where
  "FDWrapper_new fd =
     (if fd < 0 then Inl (RuntimeError (''invalid fd number:'' @ int_string fd))
      else Inr \<lparr>fw_fd = fd, fw_eof = False, fw_closed = False, fw_read_count = 0, fw_write_count = 0\<rparr>)"

definition on_fd :: "handle \<Rightarrow> (FDWrapper \<Rightarrow> FDWrapper) \<Rightarrow> ('k, 'z) io_scheme \<Rightarrow> ('k, 'z) io_scheme" where
  "on_fd d f io = io\<lparr>io_fds := (io_fds io)(d := f (io_fds io d))\<rparr>"

text \<open>A new descriptor is stored under the handle that names it from then on.\<close>

definition FileDescriptor_new :: "handle \<Rightarrow> int \<Rightarrow> ('k, 'z) io_scheme \<Rightarrow> ('k, 'z) io_scheme result" where
  "FileDescriptor_new d fd io = bind_result (FDWrapper_new fd) (\<lambda>w. Inr (on_fd d (\<lambda>_. w) io))"

definition fd_num :: "('k, 'z) io_scheme \<Rightarrow> handle \<Rightarrow> int" where
  "fd_num io d = fw_fd (io_fds io d)"

definition fd_eof :: "('k, 'z) io_scheme \<Rightarrow> handle \<Rightarrow> bool" where
  "fd_eof io d = fw_eof (io_fds io d)"

definition fd_closed :: "('k, 'z) io_scheme \<Rightarrow> handle \<Rightarrow> bool" where
  "fd_closed io d = fw_closed (io_fds io d)"

definition fd_read_count :: "('k, 'z) io_scheme \<Rightarrow> handle \<Rightarrow> uint32" where
  "fd_read_count io d = fw_read_count (io_fds io d)"

definition fd_write_count :: "('k, 'z) io_scheme \<Rightarrow> handle \<Rightarrow> uint32" where
  "fd_write_count io d = fw_write_count (io_fds io d)"

definition register_read :: "handle \<Rightarrow> ('k, 'z) io_scheme \<Rightarrow> ('k, 'z) io_scheme" where
  "register_read d = on_fd d (\<lambda>w. w\<lparr>fw_read_count := fw_read_count w + 1\<rparr>)"

definition register_write :: "handle \<Rightarrow> ('k, 'z) io_scheme \<Rightarrow> ('k, 'z) io_scheme" where
  "register_write d = on_fd d (\<lambda>w. w\<lparr>fw_write_count := fw_write_count w + 1\<rparr>)"

definition FileDescriptor_close :: "'k kernel \<Rightarrow> handle \<Rightarrow> ('k, 'z) io_scheme \<Rightarrow> ('k, 'z) io_scheme result" where
  "FileDescriptor_close os d io =
     (let ((ret, errno), k) = sys_close os (fd_num io d) (io_kernel io)
      in bind_result (SystemCall ''close'' ret errno 0) (\<lambda>_.
           Inr (on_fd d (\<lambda>w. w\<lparr>fw_eof := True, fw_closed := True\<rparr>) (io\<lparr>io_kernel := k\<rparr>))))"

text \<open>The destructor runs when the last handle goes away; a failed \<open>close\<close> is only reported.\<close>

definition FDWrapper_destroy :: "'k kernel \<Rightarrow> handle \<Rightarrow> ('k, 'z) io_scheme \<Rightarrow> ('k, 'z) io_scheme" where
  "FDWrapper_destroy os d io =
     (if fd_closed io d then io
      else case FileDescriptor_close os d io of
             Inl _ \<Rightarrow> io\<lparr>io_kernel := snd (sys_close os (fd_num io d) (io_kernel io))\<rparr>
           | Inr io' \<Rightarrow> io')"

definition BUFFER_SIZE :: size_t where
  "BUFFER_SIZE = 1024 * 1024"

text \<open>
  \<open>read\<close>: the string is resized to the size asked for, filled by the kernel and cut to what was
  read; a masked negative value would make that last \<open>resize\<close> throw.
\<close>

definition FileDescriptor_read ::
  "'k kernel \<Rightarrow> handle \<Rightarrow> size_t \<Rightarrow> ('k, 'z) io_scheme \<Rightarrow> (bytes \<times> ('k, 'z) io_scheme) result" where
  "FileDescriptor_read os d limit io =
     (let size_to_read = min BUFFER_SIZE limit;
          ((ret, errno, data), k) = sys_read os (fd_num io d) size_to_read (io_kernel io)
      in bind_result (SystemCall ''read'' ret errno 0) (\<lambda>bytes_read.
           let io = io\<lparr>io_kernel := k\<rparr>;
               io = (if limit > 0 \<and> bytes_read = 0 then on_fd d (\<lambda>w. w\<lparr>fw_eof := True\<rparr>) io else io)
           in if bytes_read > ssize_of_size size_to_read then Inl (RuntimeError ''read() read more than requested'')
              else if bytes_read < 0 then Inl (LengthError ''basic_string::resize'')
              else Inr (str_resize data (nat bytes_read), register_read d io)))"

lemma signed_take_bit_range:
  "signed_take_bit n i < 2 ^ n" "- (2 ^ n) \<le> signed_take_bit n i" for i :: int
  by (simp_all add: signed_take_bit_int_less_exp signed_take_bit_int_greater_eq_minus_exp)

lemma SystemCall_InrD:
  assumes "SystemCall attempt ret errno m = Inr n"
  shows "n = c_int ret" "n < 2 ^ 31" "- (2 ^ 31) \<le> n" "n \<ge> 0 \<or> errno = m"
  using assms signed_take_bit_range [of 31 ret]
  by (auto simp: SystemCall_def c_int_def Let_def split: if_splits)

lemma size_of_ssize_zero:
  "n < 2 ^ 31 \<Longrightarrow> - (2 ^ 31) \<le> n \<Longrightarrow> size_of_ssize n = 0 \<longleftrightarrow> n = 0"
proof (cases "n \<ge> 0")
  case True
  moreover assume "n < 2 ^ 31"
  ultimately have "n mod 2 ^ 64 = n" by (intro mod_pos_pos_trivial) simp_all
  with True show ?thesis by (simp add: size_of_ssize_def)
next
  case False
  assume "- (2 ^ 31) \<le> n"
  with False have "(n + 2 ^ 64) mod 2 ^ 64 = n + 2 ^ 64" by (intro mod_pos_pos_trivial) simp_all
  then have "n mod 2 ^ 64 = n + 2 ^ 64" by simp
  with False \<open>- (2 ^ 31) \<le> n\<close> show ?thesis by (simp add: size_of_ssize_def)
qed

lemma remove_prefix_shorter:
  assumes "BufferViewList_remove_prefix vl n = Inr vl'"
  shows "concat vl' = drop n (concat vl)" "n \<le> length (concat vl)"
proof -
  show le: "n \<le> length (concat vl)"
    using BufferViewList_remove_prefix_short [of vl n] assms by (cases "n \<le> length (concat vl)") auto
  show "concat vl' = drop n (concat vl)"
    using BufferViewList_remove_prefix_ok [OF le] assms by auto
qed

lemma BufferViewList_size_concat: "BufferViewList_size vl = length (concat vl) mod two64"
proof -
  have "foldl (\<lambda>ret v. add64 ret (length v)) a vl mod two64 = (a + length (concat vl)) mod two64" for a
    by (induction vl arbitrary: a) (simp_all add: add64_def mod_add_left_eq add.assoc)
  moreover have "a < two64 \<Longrightarrow> foldl (\<lambda>ret v. add64 ret (length v)) a vl < two64" for a
    by (induction vl arbitrary: a) simp_all
  ultimately show ?thesis by (simp add: BufferViewList_size_def) (metis add_0 mod_less two64_pos)
qed

text \<open>Every round of the write loop that is followed by another one has written something.\<close>

lemma writev_progress:
  assumes "SystemCall attempt ret errno 0 = Inr n"
    and "n = 0 \<longrightarrow> BufferViewList_size buffer = 0"
    and rp: "BufferViewList_remove_prefix buffer (size_of_ssize n) = Inr buffer'"
    and left: "0 < BufferViewList_size buffer'"
  shows "length (concat buffer') < length (concat buffer)"
proof -
  have c: "concat buffer' = drop (size_of_ssize n) (concat buffer)" by (rule remove_prefix_shorter [OF rp])
  have "size_of_ssize n \<noteq> 0"
    using assms(2) left c size_of_ssize_zero [OF SystemCall_InrD(2,3) [OF assms(1)]]
    by (auto simp: BufferViewList_size_concat)
  moreover have "length (concat buffer') \<noteq> 0"
    using left by (intro notI) (simp add: BufferViewList_size_concat)
  ultimately show ?thesis using c by simp
qed

text \<open>One round of the \<open>do\<close> loop: the bytes written and what is left of the buffer.\<close>

definition write_round ::
  "'k kernel \<Rightarrow> handle \<Rightarrow> BufferViewList \<Rightarrow> ('k, 'z) io_scheme \<Rightarrow> (size_t \<times> BufferViewList \<times> ('k, 'z) io_scheme) result" where
  "write_round os d buffer io =
     (let iovecs = BufferViewList_as_iovecs buffer;
          ((ret, errno), k) = sys_writev os (fd_num io d) iovecs (io_kernel io)
      in bind_result (SystemCall ''writev'' ret errno 0) (\<lambda>bytes_written.
           if bytes_written = 0 \<and> BufferViewList_size buffer \<noteq> 0
           then Inl (RuntimeError ''write returned 0 given non-empty input buffer'')
           else if bytes_written > ssize_of_size (BufferViewList_size buffer)
           then Inl (RuntimeError ''write wrote more than length of input buffer'')
           else
             let io = register_write d (io\<lparr>io_kernel := k\<rparr>)
             in bind_result (BufferViewList_remove_prefix buffer (size_of_ssize bytes_written)) (\<lambda>buffer.
                  Inr (size_of_ssize bytes_written, buffer, io))))"

lemma write_round_progress:
  assumes "write_round os d buffer io = Inr (n, buffer', io')" "0 < BufferViewList_size buffer'"
  shows "length (concat buffer') < length (concat buffer)"
  using assms by (auto simp: write_round_def Let_def split_beta bind_result_eq_Inr intro: writev_progress split: if_splits)

function write_loop ::
  "'k kernel \<Rightarrow> handle \<Rightarrow> BufferViewList \<Rightarrow> bool \<Rightarrow> size_t \<Rightarrow> ('k, 'z) io_scheme \<Rightarrow>
   (size_t \<times> ('k, 'z) io_scheme) result" where
  "write_loop os d buffer write_all total_bytes_written io =
     (case write_round os d buffer io of
        Inl e \<Rightarrow> Inl e
      | Inr (bytes_written, buffer', io') \<Rightarrow>
          if write_all \<and> BufferViewList_size buffer' \<noteq> 0
          then write_loop os d buffer' write_all (add64 total_bytes_written bytes_written) io'
          else Inr (add64 total_bytes_written bytes_written, io'))"
  by pat_completeness auto
termination
  by (relation "measure (\<lambda>(os, d, buffer, write_all, n, io). length (concat buffer))")
    (auto intro: write_round_progress)

declare write_loop.simps [simp del]

definition FileDescriptor_write ::
  "'k kernel \<Rightarrow> handle \<Rightarrow> BufferViewList \<Rightarrow> bool \<Rightarrow> ('k, 'z) io_scheme \<Rightarrow> (size_t \<times> ('k, 'z) io_scheme) result" where
  "FileDescriptor_write os d buffer write_all io = write_loop os d buffer write_all 0 io"

text \<open>\<open>set_blocking\<close> clears or sets \<open>O_NONBLOCK\<close> and leaves the other flags alone.\<close>

definition O_NONBLOCK :: int where
  "O_NONBLOCK = 2048"

definition set_blocking ::
  "'k kernel \<Rightarrow> handle \<Rightarrow> bool \<Rightarrow> ('k, 'z) io_scheme \<Rightarrow> ('k, 'z) io_scheme result" where
  "set_blocking os d blocking_state io =
     (let ((ret, errno), k) = sys_getfl os (fd_num io d) (io_kernel io)
      in bind_result (SystemCall ''fcntl'' ret errno 0) (\<lambda>flags.
         let flags = (if blocking_state then flags XOR (flags AND O_NONBLOCK) else flags OR O_NONBLOCK);
             ((ret, errno), k) = sys_setfl os (fd_num io d) flags k
         in bind_result (SystemCall ''fcntl'' ret errno 0) (\<lambda>_. Inr (io\<lparr>io_kernel := k\<rparr>))))"

section \<open>Sockets\<close>

definition AF_UNIX :: int where "AF_UNIX = 1"
definition AF_INET :: int where "AF_INET = 2"
definition SOCK_STREAM :: int where "SOCK_STREAM = 1"
definition SOCK_DGRAM :: int where "SOCK_DGRAM = 2"
definition SOL_SOCKET :: int where "SOL_SOCKET = 1"
definition SO_REUSEADDR :: int where "SO_REUSEADDR = 2"
definition SO_TYPE :: int where "SO_TYPE = 3"
definition SO_DOMAIN :: int where "SO_DOMAIN = 39"
definition SHUT_RD :: int where "SHUT_RD = 0"
definition SHUT_WR :: int where "SHUT_WR = 1"
definition SHUT_RDWR :: int where "SHUT_RDWR = 2"

lemmas shut_defs = SHUT_RD_def SHUT_WR_def SHUT_RDWR_def

definition Socket_new ::
  "'k kernel \<Rightarrow> handle \<Rightarrow> int \<Rightarrow> int \<Rightarrow> ('k, 'z) io_scheme \<Rightarrow> ('k, 'z) io_scheme result" where
  "Socket_new os d domain type io =
     (let ((ret, errno), k) = sys_socket os domain type (io_kernel io)
      in bind_result (SystemCall ''socket'' ret errno 0) (\<lambda>fd. FileDescriptor_new d fd (io\<lparr>io_kernel := k\<rparr>)))"

text \<open>A socket made from a descriptor checks the descriptor's domain, then its type.\<close>

definition check_sockopt ::
  "'k kernel \<Rightarrow> handle \<Rightarrow> int \<Rightarrow> int \<Rightarrow> string \<Rightarrow> ('k, 'z) io_scheme \<Rightarrow> ('k, 'z) io_scheme result" where
  "check_sockopt os d option_name expected message io =
     (let ((ret, errno, actual_value, len), k) = sys_getsockopt os (fd_num io d) option_name (io_kernel io)
      in bind_result (SystemCall ''getsockopt'' ret errno 0) (\<lambda>_.
           if len \<noteq> 4 \<or> actual_value \<noteq> expected then Inl (RuntimeError message)
           else Inr (io\<lparr>io_kernel := k\<rparr>)))"

definition Socket_of_fd ::
  "'k kernel \<Rightarrow> handle \<Rightarrow> int \<Rightarrow> int \<Rightarrow> ('k, 'z) io_scheme \<Rightarrow> ('k, 'z) io_scheme result" where
  "Socket_of_fd os d domain type io =
     bind_result (check_sockopt os d SO_DOMAIN domain ''socket domain mismatch'' io)
       (check_sockopt os d SO_TYPE type ''socket type mismatch'')"

text \<open>An address given by the kernel has to fit a \<open>sockaddr_storage\<close> of 128 bytes.\<close>

definition Address_of_raw :: "Address \<Rightarrow> nat \<Rightarrow> Address result" where
  "Address_of_raw addr len = (if len > 128 then Inl (RuntimeError ''invalid sockaddr size'') else Inr addr)"

definition get_address ::
  "string \<Rightarrow> (int \<Rightarrow> 'k \<Rightarrow> (int \<times> int \<times> Address \<times> nat) \<times> 'k) \<Rightarrow> handle \<Rightarrow> ('k, 'z) io_scheme \<Rightarrow>
   (Address \<times> ('k, 'z) io_scheme) result" where
  "get_address name_of_function function_ptr d io =
     (let ((ret, errno, address, len), k) = function_ptr (fd_num io d) (io_kernel io)
      in bind_result (SystemCall name_of_function ret errno 0) (\<lambda>_.
         bind_result (Address_of_raw address len) (\<lambda>a. Inr (a, io\<lparr>io_kernel := k\<rparr>))))"

definition local_address ::
  "'k kernel \<Rightarrow> handle \<Rightarrow> ('k, 'z) io_scheme \<Rightarrow> (Address \<times> ('k, 'z) io_scheme) result" where
  "local_address os = get_address ''getsockname'' (sys_getsockname os)"

definition peer_address ::
  "'k kernel \<Rightarrow> handle \<Rightarrow> ('k, 'z) io_scheme \<Rightarrow> (Address \<times> ('k, 'z) io_scheme) result" where
  "peer_address os = get_address ''getpeername'' (sys_getpeername os)"

text \<open>The calls whose only effect is the kernel's.\<close>

definition checked_call ::
  "string \<Rightarrow> ('k \<Rightarrow> (int \<times> int) \<times> 'k) \<Rightarrow> ('k, 'z) io_scheme \<Rightarrow> ('k, 'z) io_scheme result" where
  "checked_call attempt call io =
     (let ((ret, errno), k) = call (io_kernel io)
      in bind_result (SystemCall attempt ret errno 0) (\<lambda>_. Inr (io\<lparr>io_kernel := k\<rparr>)))"

definition Socket_bind ::
  "'k kernel \<Rightarrow> handle \<Rightarrow> Address \<Rightarrow> ('k, 'z) io_scheme \<Rightarrow> ('k, 'z) io_scheme result" where
  "Socket_bind os d address io = checked_call ''bind'' (sys_bind os (fd_num io d) address) io"

definition Socket_connect ::
  "'k kernel \<Rightarrow> handle \<Rightarrow> Address \<Rightarrow> ('k, 'z) io_scheme \<Rightarrow> ('k, 'z) io_scheme result" where
  "Socket_connect os d address io = checked_call ''connect'' (sys_connect os (fd_num io d) address) io"

definition Socket_shutdown ::
  "'k kernel \<Rightarrow> handle \<Rightarrow> int \<Rightarrow> ('k, 'z) io_scheme \<Rightarrow> ('k, 'z) io_scheme result" where
  "Socket_shutdown os d how io =
     bind_result (checked_call ''shutdown'' (sys_shutdown os (fd_num io d) how) io) (\<lambda>io.
       if how = SHUT_RD then Inr (register_read d io)
       else if how = SHUT_WR then Inr (register_write d io)
       else if how = SHUT_RDWR then Inr (register_write d (register_read d io))
       else Inl (RuntimeError ''Socket::shutdown() called with invalid `how`''))"

definition setsockopt ::
  "'k kernel \<Rightarrow> handle \<Rightarrow> int \<Rightarrow> int \<Rightarrow> int \<Rightarrow> ('k, 'z) io_scheme \<Rightarrow> ('k, 'z) io_scheme result" where
  "setsockopt os d level option_name option_value io =
     checked_call ''setsockopt'' (sys_setsockopt os (fd_num io d) level option_name option_value) io"

definition set_reuseaddr :: "'k kernel \<Rightarrow> handle \<Rightarrow> ('k, 'z) io_scheme \<Rightarrow> ('k, 'z) io_scheme result" where
  "set_reuseaddr os d = setsockopt os d SOL_SOCKET SO_REUSEADDR 1"

text \<open>
  UDP. \<open>MSG_TRUNC\<close> makes \<open>recvfrom\<close> return the length of the datagram even where it was cut to the
  buffer, so a datagram longer than \<open>mtu\<close> is refused.
\<close>

definition UDPSocket_recv ::
  "'k kernel \<Rightarrow> handle \<Rightarrow> size_t \<Rightarrow> ('k, 'z) io_scheme \<Rightarrow> (received_datagram \<times> ('k, 'z) io_scheme) result" where
  "UDPSocket_recv os d mtu io =
     (let ((ret, errno, data, source, fromlen), k) = sys_recvfrom os (fd_num io d) mtu (io_kernel io)
      in bind_result (SystemCall ''recvfrom'' ret errno 0) (\<lambda>recv_len.
         if recv_len > ssize_of_size mtu then Inl (RuntimeError ''recvfrom (oversized datagram)'')
         else
           let io = register_read d (io\<lparr>io_kernel := k\<rparr>)
           in bind_result (Address_of_raw source fromlen) (\<lambda>source_address.
                if recv_len < 0 then Inl (LengthError ''basic_string::resize'')
                else Inr (\<lparr>rd_source_address = source_address, rd_payload = str_resize data (nat recv_len)\<rparr>, io))))"

definition sendmsg_helper ::
  "'k kernel \<Rightarrow> handle \<Rightarrow> Address option \<Rightarrow> BufferViewList \<Rightarrow> ('k, 'z) io_scheme \<Rightarrow> ('k, 'z) io_scheme result" where
  "sendmsg_helper os d destination payload io =
     (let ((ret, errno), k) =
            sys_sendmsg os (fd_num io d) destination (BufferViewList_as_iovecs payload) (io_kernel io)
      in bind_result (SystemCall ''sendmsg'' ret errno 0) (\<lambda>bytes_sent.
           if size_of_ssize bytes_sent \<noteq> BufferViewList_size payload
           then Inl (RuntimeError ''datagram payload too big for sendmsg()'')
           else Inr (io\<lparr>io_kernel := k\<rparr>)))"

definition UDPSocket_sendto ::
  "'k kernel \<Rightarrow> handle \<Rightarrow> Address \<Rightarrow> BufferViewList \<Rightarrow> ('k, 'z) io_scheme \<Rightarrow> ('k, 'z) io_scheme result" where
  "UDPSocket_sendto os d destination payload io =
     bind_result (sendmsg_helper os d (Some destination) payload io) (\<lambda>io. Inr (register_write d io))"

definition UDPSocket_send ::
  "'k kernel \<Rightarrow> handle \<Rightarrow> BufferViewList \<Rightarrow> ('k, 'z) io_scheme \<Rightarrow> ('k, 'z) io_scheme result" where
  "UDPSocket_send os d payload io =
     bind_result (sendmsg_helper os d None payload io) (\<lambda>io. Inr (register_write d io))"

definition TCPSocket_listen ::
  "'k kernel \<Rightarrow> handle \<Rightarrow> int \<Rightarrow> ('k, 'z) io_scheme \<Rightarrow> ('k, 'z) io_scheme result" where
  "TCPSocket_listen os d backlog io = checked_call ''listen'' (sys_listen os (fd_num io d) backlog) io"

definition TCPSocket_accept ::
  "'k kernel \<Rightarrow> handle \<Rightarrow> handle \<Rightarrow> ('k, 'z) io_scheme \<Rightarrow> ('k, 'z) io_scheme result" where
  "TCPSocket_accept os d new_d io =
     (let io = register_read d io;
          ((ret, errno), k) = sys_accept os (fd_num io d) (io_kernel io)
      in bind_result (SystemCall ''accept'' ret errno 0) (\<lambda>fd.
         bind_result (FileDescriptor_new new_d fd (io\<lparr>io_kernel := k\<rparr>))
           (Socket_of_fd os new_d AF_INET SOCK_STREAM)))"

section \<open>TUN devices\<close>

definition IFF_TUN :: uint16 where "IFF_TUN = 1"
definition IFF_TAP :: uint16 where "IFF_TAP = 2"
definition IFF_NO_PI :: uint16 where "IFF_NO_PI = 0x1000"
definition IFNAMSIZ :: nat where "IFNAMSIZ = 16"

text \<open>\<open>strncpy\<close> stops at the first zero byte of the name and keeps at most \<open>IFNAMSIZ - 1\<close> characters.\<close>

definition ifr_name :: "string \<Rightarrow> string" where
  "ifr_name devname = takeWhile (\<lambda>c. c \<noteq> char_of (0 :: nat)) (take (IFNAMSIZ - 1) devname)"

definition TunTapFD_new ::
  "'k kernel \<Rightarrow> handle \<Rightarrow> string \<Rightarrow> bool \<Rightarrow> ('k, 'z) io_scheme \<Rightarrow> ('k, 'z) io_scheme result" where
  "TunTapFD_new os d devname is_tun io =
     (let ((ret, errno), k) = sys_open os ''/dev/net/tun'' (io_kernel io)
      in bind_result (SystemCall ''open'' ret errno 0) (\<lambda>fd.
         bind_result (FileDescriptor_new d fd (io\<lparr>io_kernel := k\<rparr>)) (\<lambda>io.
           let ifr_flags = (if is_tun then IFF_TUN else IFF_TAP) OR IFF_NO_PI
           in checked_call ''ioctl'' (sys_tunsetiff os (fd_num io d) ifr_flags (ifr_name devname)) io)))"

section \<open>A kernel that records the transfers\<close>

datatype io_event =
    Received int bytes
  | Sent int bytes
  | Shut int int
  | Closed int

type_synonym 'k logging = "'k \<times> io_event list"

definition with_log :: "('r \<Rightarrow> io_event list) \<Rightarrow> ('k \<Rightarrow> 'r \<times> 'k) \<Rightarrow> 'k logging \<Rightarrow> 'r \<times> 'k logging" where
  "with_log ev call = (\<lambda>(k, l). let (r, k') = call k in (r, (k', l @ ev r)))"

definition silent :: "('k \<Rightarrow> 'r \<times> 'k) \<Rightarrow> 'k logging \<Rightarrow> 'r \<times> 'k logging" where
  "silent = with_log (\<lambda>_. [])"

definition logged :: "'k kernel \<Rightarrow> 'k logging kernel" where
  "logged os =
     \<lparr>sys_read = \<lambda>fd n. with_log (\<lambda>(r, _, data). if r < 0 then [] else [Received fd data]) (sys_read os fd n),
      sys_writev = \<lambda>fd iov. with_log (\<lambda>(r, _). if r < 0 then [] else [Sent fd (take (nat r) (concat (map fst iov)))])
                              (sys_writev os fd iov),
      sys_close = \<lambda>fd. with_log (\<lambda>(r, _). if r < 0 then [] else [Closed fd]) (sys_close os fd),
      sys_getfl = \<lambda>fd. silent (sys_getfl os fd),
      sys_setfl = \<lambda>fd fl. silent (sys_setfl os fd fl),
      sys_socket = \<lambda>dom ty. silent (sys_socket os dom ty),
      sys_socketpair = \<lambda>dom ty. silent (sys_socketpair os dom ty),
      sys_getsockopt = \<lambda>fd opt. silent (sys_getsockopt os fd opt),
      sys_setsockopt = \<lambda>fd lev opt v. silent (sys_setsockopt os fd lev opt v),
      sys_getsockname = \<lambda>fd. silent (sys_getsockname os fd),
      sys_getpeername = \<lambda>fd. silent (sys_getpeername os fd),
      sys_bind = \<lambda>fd a. silent (sys_bind os fd a),
      sys_connect = \<lambda>fd a. silent (sys_connect os fd a),
      sys_shutdown = \<lambda>fd how. with_log (\<lambda>(r, _). if r < 0 then [] else [Shut fd how]) (sys_shutdown os fd how),
      sys_listen = \<lambda>fd b. silent (sys_listen os fd b),
      sys_accept = \<lambda>fd. silent (sys_accept os fd),
      sys_recvfrom = \<lambda>fd n. with_log (\<lambda>(r, _, data, _, _). if r < 0 then [] else [Received fd data]) (sys_recvfrom os fd n),
      sys_sendmsg = \<lambda>fd a iov. with_log (\<lambda>(r, _). if r < 0 then [] else [Sent fd (take (nat r) (concat (map fst iov)))])
                               (sys_sendmsg os fd a iov),
      sys_open = \<lambda>path. silent (sys_open os path),
      sys_tunsetiff = \<lambda>fd fl name. silent (sys_tunsetiff os fd fl name),
      sys_poll = \<lambda>pfds t. silent (sys_poll os pfds t),
      sys_clock = silent (sys_clock os)\<rparr>"

definition io_log :: "('k logging, 'z) io_scheme \<Rightarrow> io_event list" where
  "io_log io = snd (io_kernel io)"

text \<open>The bytes that went in and out on a descriptor, in order.\<close>

fun received_on :: "int \<Rightarrow> io_event list \<Rightarrow> bytes" where
  "received_on fd [] = []"
| "received_on fd (Received fd' bs # es) = (if fd' = fd then bs else []) @ received_on fd es"
| "received_on fd (_ # es) = received_on fd es"

fun sent_on :: "int \<Rightarrow> io_event list \<Rightarrow> bytes" where
  "sent_on fd [] = []"
| "sent_on fd (Sent fd' bs # es) = (if fd' = fd then bs else []) @ sent_on fd es"
| "sent_on fd (_ # es) = sent_on fd es"

lemma received_on_append [simp]: "received_on fd (xs @ ys) = received_on fd xs @ received_on fd ys"
  by (induction fd xs rule: received_on.induct) simp_all

lemma sent_on_append [simp]: "sent_on fd (xs @ ys) = sent_on fd xs @ sent_on fd ys"
  by (induction fd xs rule: sent_on.induct) simp_all

lemma sent_on_Sents [simp]:
  "sent_on fd (map (Sent fd') bss) = (if fd' = fd then concat bss else [])"
  "received_on fd (map (Sent fd') bss) = []"
  by (induction bss) auto

text \<open>
  What POSIX and Linux document of \<open>read(2)\<close> and \<open>writev(2)\<close>: they return \<open>-1\<close> and a positive \<open>errno\<close>, or
  the number of bytes transferred, which is at most the size given and at most \<open>0x7ffff000\<close>.
\<close>

definition transfer_ok :: "int \<Rightarrow> int \<Rightarrow> nat \<Rightarrow> bool" where
  "transfer_ok r errno n \<longleftrightarrow> - 1 \<le> r \<and> r \<le> int n \<and> r \<le> 0x7ffff000 \<and> (r = - 1 \<longrightarrow> errno > 0)"

definition kernel_ok :: "'k kernel \<Rightarrow> bool" where
  "kernel_ok os \<longleftrightarrow>
     (\<forall>fd n k r errno data k'. sys_read os fd n k = ((r, errno, data), k') \<longrightarrow>
        transfer_ok r errno n \<and> length data = nat r) \<and>
     (\<forall>fd iov k r errno k'. sys_writev os fd iov k = ((r, errno), k') \<longrightarrow>
        transfer_ok r errno (length (concat (map fst iov))))"

lemma c_int_id: "- (2 ^ 31) \<le> i \<Longrightarrow> i < 2 ^ 31 \<Longrightarrow> c_int i = i"
  by (simp add: c_int_def signed_take_bit_int_eq_self)

lemma ssize_of_size_id: "n < 2 ^ 63 \<Longrightarrow> ssize_of_size n = int n"
  by (simp add: ssize_of_size_def signed_take_bit_int_eq_self)

lemma size_of_ssize_id: "0 \<le> n \<Longrightarrow> n < 2 ^ 31 \<Longrightarrow> size_of_ssize n = nat n"
  by (simp add: size_of_ssize_def)

lemma SystemCall_transfer:
  assumes "transfer_ok r errno n"
  shows "SystemCall attempt r errno 0 = (if r < 0 then Inl (UnixError attempt errno) else Inr r)"
  using assms by (auto simp: SystemCall_def transfer_ok_def c_int_id)

lemma BufferViewList_iovecs_concat [simp]: "concat (map fst (BufferViewList_as_iovecs vl)) = concat vl"
  by (simp add: BufferViewList_as_iovecs_def comp_def)

text \<open>One call of \<open>read\<close> over the recording kernel.\<close>

lemma logged_read:
  assumes "kernel_ok os" "sys_read (logged os) fd n kl = ((r, errno, data), kl')"
  obtains k' where "sys_read os fd n (fst kl) = ((r, errno, data), k')"
    and "transfer_ok r errno n" "length data = nat r"
    and "kl' = (k', snd kl @ (if r < 0 then [] else [Received fd data]))"
proof -
  obtain r' e' d' k' where c: "sys_read os fd n (fst kl) = ((r', e', d'), k')"
    by (metis prod.exhaust)
  have "transfer_ok r' e' n \<and> length d' = nat r'"
    using assms(1) c unfolding kernel_ok_def by blast
  then show thesis
    using assms(2) c that by (auto simp: logged_def with_log_def split_beta)
qed

text \<open>What \<open>read\<close> and \<open>write\<close> leave behind: only the kernel and the one wrapper change.\<close>

lemma FileDescriptor_read_logged:
  assumes ok: "kernel_ok os" and rd: "FileDescriptor_read (logged os) d limit io = Inr (data, io')"
  obtains k where "length data \<le> limit" "length data \<le> BUFFER_SIZE"
    "io' = io\<lparr>io_kernel := (k, io_log io @ [Received (fd_num io d) data]),
              io_fds := (io_fds io)(d := (io_fds io d)
                \<lparr>fw_eof := fd_eof io d \<or> (limit > 0 \<and> data = []), fw_read_count := fd_read_count io d + 1\<rparr>)\<rparr>"
proof -
  let ?n = "min BUFFER_SIZE limit"
  obtain r errno bs kl where c: "sys_read (logged os) (fd_num io d) ?n (io_kernel io) = ((r, errno, bs), kl)"
    by (metis prod.exhaust)
  obtain k where t: "transfer_ok r errno ?n" and len: "length bs = nat r"
    and kl: "kl = (k, snd (io_kernel io) @ (if r < 0 then [] else [Received (fd_num io d) bs]))"
    by (rule logged_read [OF ok c])
  have r: "0 \<le> r"
    using rd c by (auto simp: FileDescriptor_read_def SystemCall_transfer [OF t] Let_def split: if_splits)
  have bs: "str_resize bs (nat r) = bs" using len by (simp add: str_resize_def)
  have bound: "length bs \<le> ?n" using t len by (simp only: transfer_ok_def nat_le_iff)
  have eof: "r = 0 \<longleftrightarrow> bs = []" using len r by auto
  have res: "data = bs"
    "io' = io\<lparr>io_kernel := kl, io_fds := (io_fds io)(d := (io_fds io d)
                \<lparr>fw_eof := fd_eof io d \<or> (limit > 0 \<and> bs = []), fw_read_count := fd_read_count io d + 1\<rparr>)\<rparr>"
    using rd c r
    by (auto simp: FileDescriptor_read_def SystemCall_transfer [OF t] Let_def bs register_read_def on_fd_def
        fd_eof_def fd_read_count_def eof split: if_splits)
  show thesis
    using bound r by (intro that [of k]) (auto simp: res kl io_log_def)
qed

lemma write_loop_step:
  assumes ok: "kernel_ok os" and small: "length (concat buffer) < 2 ^ 63"
    and c: "sys_writev os (fd_num io d) (BufferViewList_as_iovecs buffer) (fst (io_kernel io)) = ((r, errno), k)"
  obtains buffer' where "concat buffer' = drop (nat r) (concat buffer)" "nat r \<le> length (concat buffer)"
    "write_loop (logged os) d buffer write_all t io =
      (if r < 0 then Inl (UnixError ''writev'' errno)
       else if r = 0 \<and> concat buffer \<noteq> [] then Inl (RuntimeError ''write returned 0 given non-empty input buffer'')
       else
         let io1 = register_write d (io\<lparr>io_kernel := (k, io_log io @ [Sent (fd_num io d) (take (nat r) (concat buffer))])\<rparr>)
         in if write_all \<and> concat buffer' \<noteq> [] then write_loop (logged os) d buffer' write_all (add64 t (nat r)) io1
            else Inr (add64 t (nat r), io1))"
proof -
  have tr: "transfer_ok r errno (length (concat buffer))"
    using ok c unfolding kernel_ok_def by (metis BufferViewList_iovecs_concat)
  have le: "nat r \<le> length (concat buffer)" using tr by (simp only: transfer_ok_def nat_le_iff)
  obtain buffer' where rp: "BufferViewList_remove_prefix buffer (nat r) = Inr buffer'"
    and buf': "concat buffer' = drop (nat r) (concat buffer)"
    using BufferViewList_remove_prefix_ok [OF le] by blast
  have size_eq: "BufferViewList_size vl = length (concat vl)" if "length (concat vl) < 2 ^ 63" for vl
    using that by (simp add: BufferViewList_size_concat two64_def)
  have small': "length (concat buffer') < 2 ^ 63" using buf' small by simp
  have size_r: "0 \<le> r \<Longrightarrow> size_of_ssize r = nat r" using tr by (simp add: transfer_ok_def size_of_ssize_id)
  have logged_c: "sys_writev (logged os) (fd_num io d) (BufferViewList_as_iovecs buffer) (io_kernel io) =
      ((r, errno), (k, io_log io @ (if r < 0 then [] else [Sent (fd_num io d) (take (nat r) (concat buffer))])))"
    using c by (simp add: logged_def with_log_def split_beta io_log_def)
  show thesis
    using le rp size_r small size_eq [OF small] size_eq [OF small'] ssize_of_size_id [OF small]
    by (intro that [OF buf' le], subst write_loop.simps)
      (auto simp: write_round_def logged_c SystemCall_transfer [OF tr] Let_def not_less simp del: concat_eq_Nil_conv)
qed

lemma write_loop_logged:
  assumes "kernel_ok os" "length (concat buffer) < 2 ^ 63"
    and "write_loop (logged os) d buffer write_all t io = Inr (n, io')"
  shows "\<exists>k m bss c. n = add64 t m \<and> m \<le> length (concat buffer) \<and> (write_all \<longrightarrow> m = length (concat buffer)) \<and>
    concat bss = take m (concat buffer) \<and> bss \<noteq> [] \<and>
    io' = io\<lparr>io_kernel := (k, io_log io @ map (Sent (fd_num io d)) bss),
             io_fds := (io_fds io)(d := (io_fds io d)\<lparr>fw_write_count := fd_write_count io d + c\<rparr>)\<rparr>"
  using assms(2,3)
proof (induction "length (concat buffer)" arbitrary: buffer t io rule: less_induct)
  case less
  obtain r errno k where
    c: "sys_writev os (fd_num io d) (BufferViewList_as_iovecs buffer) (fst (io_kernel io)) = ((r, errno), k)"
    by (metis prod.exhaust)
  let ?io1 = "register_write d (io\<lparr>io_kernel := (k, io_log io @ [Sent (fd_num io d) (take (nat r) (concat buffer))])\<rparr>)"
  obtain buffer' where buf': "concat buffer' = drop (nat r) (concat buffer)" "nat r \<le> length (concat buffer)"
    and step: "write_loop (logged os) d buffer write_all t io =
      (if r < 0 then Inl (UnixError ''writev'' errno)
       else if r = 0 \<and> concat buffer \<noteq> [] then Inl (RuntimeError ''write returned 0 given non-empty input buffer'')
       else
         let io1 = ?io1
         in if write_all \<and> concat buffer' \<noteq> [] then write_loop (logged os) d buffer' write_all (add64 t (nat r)) io1
            else Inr (add64 t (nat r), io1))"
    by (rule write_loop_step [OF assms(1) less.prems(1) c])
  note defs = register_write_def on_fd_def io_log_def fd_num_def fd_write_count_def
  have nz: "r > 0 \<or> concat buffer = []" using less.prems(2) step by (auto split: if_splits)
  show ?case
  proof (cases "write_all \<and> concat buffer' \<noteq> []")
    case True
    have shorter: "length (concat buffer') < length (concat buffer)"
      using buf' nz True by (auto simp del: concat_eq_Nil_conv)
    have small: "length (concat buffer') < 2 ^ 63" using shorter less.prems(1) by simp
    have run: "write_loop (logged os) d buffer' write_all (add64 t (nat r)) ?io1 = Inr (n, io')"
      using less.prems(2) step True nz by (auto simp: Let_def simp del: concat_eq_Nil_conv split: if_splits)
    from less.hyps [OF shorter small run] obtain k2 m bss c2 where
      h: "n = add64 (add64 t (nat r)) m" "m \<le> length (concat buffer')" "write_all \<longrightarrow> m = length (concat buffer')"
        "concat bss = take m (concat buffer')"
        "io' = ?io1\<lparr>io_kernel := (k2, io_log ?io1 @ map (Sent (fd_num ?io1 d)) bss),
             io_fds := (io_fds ?io1)(d := (io_fds ?io1 d)\<lparr>fw_write_count := fd_write_count ?io1 d + c2\<rparr>)\<rparr>"
      by blast
    show ?thesis
      using h buf' True
      by (intro exI [of _ k2] exI [of _ "nat r + m"] exI [of _ "take (nat r) (concat buffer) # bss"] exI [of _ "1 + c2"])
        (simp add: add64_assoc take_add defs add.assoc)
  next
    case False
    with less.prems(2) step have n: "n = add64 t (nat r)" "io' = ?io1" by (simp_all add: Let_def split: if_splits)
    show ?thesis
      using n False buf'
      by (intro exI [of _ k] exI [of _ "nat r"] exI [of _ "[take (nat r) (concat buffer)]"] exI [of _ 1])
        (simp add: defs)
  qed
qed

lemma write_loop_returns:
  assumes "kernel_ok os" "length (concat buffer) < 2 ^ 63"
    and accepts: "\<And>fd iov k. fst (fst (sys_writev os fd iov k)) \<ge> (if concat (map fst iov) = [] then 0 else 1)"
  shows "\<exists>n io'. write_loop (logged os) d buffer write_all t io = Inr (n, io')"
  using assms(2)
proof (induction "length (concat buffer)" arbitrary: buffer t io rule: less_induct)
  case less
  obtain r errno k where
    c: "sys_writev os (fd_num io d) (BufferViewList_as_iovecs buffer) (fst (io_kernel io)) = ((r, errno), k)"
    by (metis prod.exhaust)
  have r: "0 \<le> r" "concat buffer = [] \<or> r \<noteq> 0"
    using accepts [where fd = "fd_num io d" and iov = "BufferViewList_as_iovecs buffer" and k = "fst (io_kernel io)"] c
    by (auto simp del: concat_eq_Nil_conv split: if_splits)
  let ?io1 = "register_write d (io\<lparr>io_kernel := (k, io_log io @ [Sent (fd_num io d) (take (nat r) (concat buffer))])\<rparr>)"
  obtain buffer' where buf': "concat buffer' = drop (nat r) (concat buffer)"
    and step: "write_loop (logged os) d buffer write_all t io =
      (if r < 0 then Inl (UnixError ''writev'' errno)
       else if r = 0 \<and> concat buffer \<noteq> [] then Inl (RuntimeError ''write returned 0 given non-empty input buffer'')
       else
         let io1 = ?io1
         in if write_all \<and> concat buffer' \<noteq> [] then write_loop (logged os) d buffer' write_all (add64 t (nat r)) io1
            else Inr (add64 t (nat r), io1))"
    by (rule write_loop_step [OF assms(1) less.prems c])
  show ?case
  proof (cases "write_all \<and> concat buffer' \<noteq> []")
    case True
    have shorter: "length (concat buffer') < length (concat buffer)"
      using buf' r True by (auto simp del: concat_eq_Nil_conv)
    have small: "length (concat buffer') < 2 ^ 63" using shorter less.prems by simp
    from less.hyps [OF shorter small, of "add64 t (nat r)" ?io1] show ?thesis
      using step r True by (auto simp: Let_def simp del: concat_eq_Nil_conv)
  next
    case False
    then show ?thesis using step r by (auto simp: Let_def simp del: concat_eq_Nil_conv)
  qed
qed

lemma FileDescriptor_write_logged:
  assumes "kernel_ok os" "length (concat buffer) < 2 ^ 63"
    and "FileDescriptor_write (logged os) d buffer write_all io = Inr (n, io')"
  obtains k bss c where "n \<le> length (concat buffer)" "write_all \<longrightarrow> n = length (concat buffer)"
    "concat bss = take n (concat buffer)"
    "io' = io\<lparr>io_kernel := (k, io_log io @ map (Sent (fd_num io d)) bss),
             io_fds := (io_fds io)(d := (io_fds io d)\<lparr>fw_write_count := fd_write_count io d + c\<rparr>)\<rparr>"
proof -
  obtain k m bss c where h: "n = add64 0 m" "m \<le> length (concat buffer)" "write_all \<longrightarrow> m = length (concat buffer)"
    "concat bss = take m (concat buffer)"
    "io' = io\<lparr>io_kernel := (k, io_log io @ map (Sent (fd_num io d)) bss),
             io_fds := (io_fds io)(d := (io_fds io d)\<lparr>fw_write_count := fd_write_count io d + c\<rparr>)\<rparr>"
    using write_loop_logged [OF assms(1,2), of d write_all 0 io n io'] assms(3)
    unfolding FileDescriptor_write_def by blast
  have "m < two64" using h(2) assms(2) by (simp add: two64_def)
  then have "n = m" using h(1) by (simp add: add64_def)
  then show thesis using h that by simp
qed

text \<open>\<open>shutdown\<close> and \<open>close\<close> over the recording kernel.\<close>

lemma Socket_shutdown_logged:
  assumes "Socket_shutdown (logged os) d SHUT_WR io = Inr io'"
  obtains k evs where "evs = [] \<or> evs = [Shut (fd_num io d) SHUT_WR]"
    "io' = io\<lparr>io_kernel := (k, io_log io @ evs),
              io_fds := (io_fds io)(d := (io_fds io d)\<lparr>fw_write_count := fd_write_count io d + 1\<rparr>)\<rparr>"
proof -
  let ?c = "sys_shutdown os (fd_num io d) SHUT_WR (fst (io_kernel io))"
  show thesis
    by (rule that [of "if fst (fst ?c) < 0 then [] else [Shut (fd_num io d) SHUT_WR]" "snd ?c"])
      (use assms in \<open>auto simp: Socket_shutdown_def checked_call_def logged_def with_log_def split_beta Let_def
         bind_result_eq_Inr io_log_def shut_defs register_write_def on_fd_def fd_write_count_def\<close>)
qed

lemma FileDescriptor_close_logged:
  assumes "FileDescriptor_close (logged os) d io = Inr io'"
  obtains k evs where "evs = [] \<or> evs = [Closed (fd_num io d)]"
    "io' = io\<lparr>io_kernel := (k, io_log io @ evs),
              io_fds := (io_fds io)(d := (io_fds io d)\<lparr>fw_eof := True, fw_closed := True\<rparr>)\<rparr>"
proof -
  let ?c = "sys_close os (fd_num io d) (fst (io_kernel io))"
  show thesis
    by (rule that [of "if fst (fst ?c) < 0 then [] else [Closed (fd_num io d)]" "snd ?c"])
      (use assms in \<open>auto simp: FileDescriptor_close_def logged_def with_log_def split_beta Let_def
         bind_result_eq_Inr io_log_def on_fd_def\<close>)
qed

section \<open>Properties\<close>

text \<open>
  A small operating system to run programs on: each descriptor has a queue of bytes to be read,
  \<open>read\<close> gives at most three of them, \<open>writev\<close> takes at most two, \<open>poll\<close> finds every descriptor ready
  for what it is asked, and every other call succeeds.
\<close>

definition small_os :: "(int \<Rightarrow> bytes) kernel" where
  "small_os =
     (let done = (\<lambda>k. ((0, 0), k))
      in \<lparr>sys_read = \<lambda>fd n k. let bs = take (min n 3) (k fd)
                              in ((int (length bs), 0, bs), k(fd := drop (length bs) (k fd))),
          sys_writev = \<lambda>fd iov k. ((int (min 2 (length (concat (map fst iov)))), 0), k),
          sys_close = \<lambda>_. done, sys_getfl = \<lambda>_. done, sys_setfl = \<lambda>_ _. done, sys_socket = \<lambda>_ _. done,
          sys_socketpair = \<lambda>_ _ k. ((0, 0, 3, 4), k), sys_getsockopt = \<lambda>_ _ k. ((0, 0, 0, 4), k),
          sys_setsockopt = \<lambda>_ _ _ _. done,
          sys_getsockname = \<lambda>_ k. ((0, 0, \<lparr>ad_ip = 0, ad_port = 0\<rparr>, 16), k),
          sys_getpeername = \<lambda>_ k. ((0, 0, \<lparr>ad_ip = 0, ad_port = 0\<rparr>, 16), k),
          sys_bind = \<lambda>_ _. done, sys_connect = \<lambda>_ _. done, sys_shutdown = \<lambda>_ _. done, sys_listen = \<lambda>_ _. done,
          sys_accept = \<lambda>_. done, sys_recvfrom = \<lambda>_ _ k. ((0, 0, [], \<lparr>ad_ip = 0, ad_port = 0\<rparr>, 16), k),
          sys_sendmsg = \<lambda>_ _ iov k. ((int (length (concat (map fst iov))), 0), k),
          sys_open = \<lambda>_. done, sys_tunsetiff = \<lambda>_ _ _. done,
          sys_poll = \<lambda>pfds _ k. ((int (length pfds), 0, \<lambda>i. pfd_events (pfds ! i)), k),
          sys_clock = \<lambda>k. (0, k)\<rparr>)"

lemma small_os_ok: "kernel_ok small_os"
  by (auto simp: kernel_ok_def small_os_def transfer_ok_def Let_def)

text \<open>Three open descriptors, numbered as their handles, with \<open>input\<close> waiting on each.\<close>

definition small_io :: "(int \<Rightarrow> bytes) \<Rightarrow> (int \<Rightarrow> bytes) logging io" where
  "small_io input = \<lparr>io_kernel = (input, []),
     io_fds = \<lambda>d. \<lparr>fw_fd = int d, fw_eof = False, fw_closed = False, fw_read_count = 0, fw_write_count = 0\<rparr>\<rparr>"

text \<open>
  Claim C18. When \<open>FileDescriptor::write\<close> returns \<open>n\<close>, exactly the first \<open>n\<close> bytes of the buffers given
  have gone to the descriptor, in order, after what went there before; nothing went anywhere else
  and nothing was read; and with \<open>write_all\<close> that is all of them.
\<close>

theorem write_delivers:
  assumes "kernel_ok os" "length (concat buffer) < 2 ^ 63"
    and "FileDescriptor_write (logged os) d buffer write_all io = Inr (n, io')"
  shows "n \<le> length (concat buffer) \<and> (write_all \<longrightarrow> n = length (concat buffer)) \<and>
    (\<forall>fd. sent_on fd (io_log io') =
            sent_on fd (io_log io) @ (if fd = fd_num io d then take n (concat buffer) else []) \<and>
          received_on fd (io_log io') = received_on fd (io_log io))"
proof -
  obtain k bss c where h: "n \<le> length (concat buffer)" "write_all \<longrightarrow> n = length (concat buffer)"
    "concat bss = take n (concat buffer)"
    "io' = io\<lparr>io_kernel := (k, io_log io @ map (Sent (fd_num io d)) bss),
             io_fds := (io_fds io)(d := (io_fds io d)\<lparr>fw_write_count := fd_write_count io d + c\<rparr>)\<rparr>"
    by (rule FileDescriptor_write_logged [OF assms])
  have "io_log io' = io_log io @ map (Sent (fd_num io d)) bss" by (simp add: h(4) io_log_def)
  then show ?thesis using h(1-3) by auto
qed

text \<open>Evaluation of calls on this system.\<close>

lemma logged_small_os:
  "sys_read (logged small_os) fd n (k, l) =
     (let bs = take (min n 3) (k fd)
      in ((int (length bs), 0, bs), (k(fd := drop (length bs) (k fd)), l @ [Received fd bs])))"
  "sys_writev (logged small_os) fd iov (k, l) =
     (let bs = take 2 (concat (map fst iov)) in ((int (length bs), 0), (k, l @ [Sent fd bs])))"
  "sys_shutdown (logged small_os) fd how (k, l) = ((0, 0), (k, l @ [Shut fd how]))"
  "sys_close (logged small_os) fd (k, l) = ((0, 0), (k, l @ [Closed fd]))"
  "sys_getfl (logged small_os) fd (k, l) = ((0, 0), (k, l))"
  "sys_setfl (logged small_os) fd fl (k, l) = ((0, 0), (k, l))"
  "sys_poll (logged small_os) pfds ms (k, l) =
     ((int (length pfds), 0, \<lambda>i. pfd_events (pfds ! i)), (k, l))"
  by (simp_all add: logged_def small_os_def with_log_def silent_def Let_def min_def)

lemmas eval_syscalls = SystemCall_def c_int_def size_of_ssize_def ssize_of_size_def signed_take_bit_int_eq_self
  logged_small_os io_log_def fd_num_def on_fd_def register_read_def register_write_def
  add64_def two64_def Let_def

lemmas eval_write = FileDescriptor_write_def write_loop.simps [of "logged small_os"] write_round_def
  BufferViewList_as_iovecs_def BufferViewList_size_def

theorem write_delivers_witness:
  "\<exists>io'. FileDescriptor_write (logged small_os) 1 [[7, 8], [9]] True (small_io (\<lambda>_. [])) = Inr (3, io') \<and>
     sent_on 1 (io_log io') = [7, 8, 9]"
proof -
  obtain io' where run:
    "FileDescriptor_write (logged small_os) 1 [[7, 8], [9]] True (small_io (\<lambda>_. [])) = Inr (3, io')"
    by (simp add: eval_write eval_syscalls small_io_def)
  have "sent_on 1 (io_log io') = [7, 8, 9]"
    using write_delivers [OF small_os_ok _ run] by (simp add: small_io_def io_log_def fd_num_def)
  with run show ?thesis by blast
qed

text \<open>
  A blocking \<open>write\<close> ends: on a descriptor that always accepts at least one byte of a
  non-empty buffer (and never fails), \<open>write\<close> with \<open>write_all\<close> returns the full length.
\<close>

lemma write_all_returns:
  assumes "kernel_ok os" "length (concat buffer) < 2 ^ 63"
    and "\<forall>fd iov k. fst (fst (sys_writev os fd iov k)) \<ge> (if concat (map fst iov) = [] then 0 else 1)"
  shows "\<exists>io'. FileDescriptor_write (logged os) d buffer True io = Inr (length (concat buffer), io')"
proof -
  have accepts: "fst (fst (sys_writev os fd iov k)) \<ge> (if concat (map fst iov) = [] then 0 else 1)" for fd iov k
    using assms(3) by blast
  obtain n io' where run: "FileDescriptor_write (logged os) d buffer True io = Inr (n, io')"
    using write_loop_returns [OF assms(1,2) accepts] unfolding FileDescriptor_write_def by blast
  have "n = length (concat buffer)" by (rule FileDescriptor_write_logged [OF assms(1,2) run]) simp
  with run show ?thesis by blast
qed

lemma write_all_returns_demo:
  "\<exists>io'. FileDescriptor_write (logged small_os) 1 [[7, 8], [9]] True (small_io (\<lambda>_. [])) = Inr (3, io')"
proof -
  have "\<forall>fd iov k. fst (fst (sys_writev small_os fd iov k)) \<ge> (if concat (map fst iov) = [] then 0 else 1)"
    by (simp add: small_os_def Let_def Suc_le_eq del: concat_eq_Nil_conv)
  from write_all_returns [OF small_os_ok _ this, of "[[7, 8], [9]]" 1 "small_io (\<lambda>_. [])"] show ?thesis
    by (simp add: numeral_3_eq_3)
qed

end
