(* ===== verification/Benchmark.thy ===== *)
theory Benchmark
  imports Two_Endpoints File_Descriptor
begin

text \<open>
  \<open>src/apps/tcp_benchmark.cc\<close>: two connections in one process, with the segments of one handed to the
  other directly, in order or each batch in reverse. The bytes that \<open>rand()\<close> gives and the initial
  sequence numbers are parameters; the clock and the throughput it prints are left out.

  The program checks its own transfer and throws when a byte is wrong. It is an instance of
  \<open>Two_Endpoints\<close> with an empty stream on the way back, so the check never fails.
\<close>

section \<open>The program\<close>

definition bench_len :: nat where
  "bench_len = 100 * 1024 * 1024"

fun hand_over :: "TCPConnection \<Rightarrow> TCPSegment list \<Rightarrow> TCPConnection result" where
  "hand_over y [] = Inr y"
| "hand_over y (seg # segments) =
     bind_result (TCPConnection_segment_received y seg) (\<lambda>y. hand_over y segments)"

text \<open>\<open>move_segments\<close> returns \<open>x\<close>, \<open>y\<close> and the vector, which it leaves empty.\<close>

definition move_segments ::
  "TCPConnection \<Rightarrow> TCPConnection \<Rightarrow> TCPSegment list \<Rightarrow> bool \<Rightarrow>
   (TCPConnection \<times> TCPConnection \<times> TCPSegment list) result" where
  "move_segments x y segments reorder =
     (let segments = segments @ cn_segments_out x;
          x = x\<lparr>cn_segments_out := []\<rparr>
      in bind_result (hand_over y (if reorder then rev segments else segments)) (\<lambda>y. Inr (x, y, [])))"

record bench =
  bm_x :: TCPConnection
  bm_y :: TCPConnection
  bm_bytes_to_send :: Buffer
  bm_x_closed :: bool
  bm_string_received :: bytes

text \<open>The loop that writes input into \<open>x\<close>.\<close>

function write_input :: "TCPConnection \<Rightarrow> Buffer \<Rightarrow> (TCPConnection \<times> Buffer) result" where
  "write_input x bytes_to_send =
     (if Buffer_size bytes_to_send \<noteq> 0 \<and> remaining_outbound_capacity x \<noteq> 0 then
        let want = min (remaining_outbound_capacity x) (Buffer_size bytes_to_send);
            (written, x') = TCPConnection_write x (take want (Buffer_str bytes_to_send))
        in if want \<noteq> written
           then Inl (RuntimeError (''want = '' @ digits want @ '', written = '' @ digits written))
           else case Buffer_remove_prefix bytes_to_send written of
                  Inl e \<Rightarrow> Inl e
                | Inr bytes_to_send \<Rightarrow> write_input x' bytes_to_send
      else Inr (x, bytes_to_send))"
  by pat_completeness auto
termination
  by (relation "measure (\<lambda>(x, b). Buffer_size b)")
    (auto simp: Buffer_remove_prefix_def Buffer_size_def split: if_splits)

declare write_input.simps [simp del]

text \<open>One turn of the lambda \<open>loop\<close>.\<close>

definition bench_loop :: "bool \<Rightarrow> bench \<Rightarrow> bench result" where
  "bench_loop reorder b =
     bind_result (write_input (bm_x b) (bm_bytes_to_send b)) (\<lambda>(x, bytes_to_send).
       let ending = (Buffer_size bytes_to_send = 0 \<and> \<not> bm_x_closed b);
           x = (if ending then end_input_stream x else x)
       in bind_result (move_segments x (bm_y b) [] reorder) (\<lambda>(x, y, segments).
          bind_result (move_segments y x segments False) (\<lambda>(y, x, segments).
            let available_output = ByteStream_buffer_size (inbound_stream y);
                (output, y) = (if available_output > 0
                               then (ByteStream_peek_output (inbound_stream y) available_output,
                                     read_inbound y available_output)
                               else ([], y))
            in bind_result (TCPConnection_tick x 1000) (\<lambda>x.
               bind_result (TCPConnection_tick y 1000) (\<lambda>y.
                 Inr \<lparr>bm_x = x, bm_y = y, bm_bytes_to_send = bytes_to_send,
                      bm_x_closed = (bm_x_closed b \<or> ending),
                      bm_string_received = bm_string_received b @ output\<rparr>)))))"

definition bench_new :: "bytes \<Rightarrow> WrappingInt32 \<Rightarrow> WrappingInt32 \<Rightarrow> bench" where
  "bench_new string_to_send rx ry =
     \<lparr>bm_x = connect (TCPConnection_new TCPConfig_default rx),
      bm_y = end_input_stream (TCPConnection_new TCPConfig_default ry),
      bm_bytes_to_send = Buffer_new string_to_send, bm_x_closed = False, bm_string_received = []\<rparr>"

text \<open>
  The two loops of \<open>main_loop\<close> run for an unknown time; \<open>n\<close> bounds the number of turns, and the result
  says whether the loop has ended within them.
\<close>

fun bench_while :: "(bench \<Rightarrow> bool) \<Rightarrow> bool \<Rightarrow> nat \<Rightarrow> bench \<Rightarrow> (bool \<times> bench) result" where
  "bench_while condition reorder n b =
     (if \<not> condition b then Inr (True, b)
      else case n of 0 \<Rightarrow> Inr (False, b)
        | Suc n \<Rightarrow> bind_result (bench_loop reorder b) (bench_while condition reorder n))"

declare bench_while.simps [simp del]

definition transferring :: "bench \<Rightarrow> bool" where
  "transferring b \<longleftrightarrow> \<not> ByteStream_eof (inbound_stream (bm_y b))"

definition lingering :: "bench \<Rightarrow> bool" where
  "lingering b \<longleftrightarrow> TCPConnection_active (bm_x b) \<or> TCPConnection_active (bm_y b)"

definition mismatch :: string where
  "mismatch = ''strings sent vs. received don'' @ [CHR 0x27] @ ''t match''"

definition main_loop ::
  "bytes \<Rightarrow> WrappingInt32 \<Rightarrow> WrappingInt32 \<Rightarrow> bool \<Rightarrow> nat \<Rightarrow> (bool \<times> bench) result" where
  "main_loop string_to_send rx ry reorder n =
     bind_result (bench_while transferring reorder n (bench_new string_to_send rx ry)) (\<lambda>(ended, b).
       if \<not> ended then Inr (False, b)
       else if bm_string_received b \<noteq> string_to_send then Inl (RuntimeError mismatch)
       else bench_while lingering reorder n b)"

text \<open>
  \<open>main\<close> runs both variants and turns an exception into a failure status; undefined behaviour is no
  exception. \<open>None\<close> means that it is still running.
\<close>

definition bench_main ::
  "(bool \<Rightarrow> bytes \<times> WrappingInt32 \<times> WrappingInt32) \<Rightarrow> nat \<Rightarrow> int option result" where
  "bench_main inputs n =
     (let once = (\<lambda>reorder. case inputs reorder of (s, rx, ry) \<Rightarrow> main_loop s rx ry reorder n);
          both = bind_result (once False) (\<lambda>(e1, b).
                   if e1 then bind_result (once True) (\<lambda>(e2, b). Inr (if e2 then Some 0 else None))
                   else Inr None)
      in case both of
           Inr status \<Rightarrow> Inr status
         | Inl f \<Rightarrow> if f \<in> {UseAfterFree, PastEndAccess, EmptyFront} then Inl f else Inr (Some 1))"

section \<open>The transfer is an instance of the two endpoints\<close>

abbreviation ep :: "TCPConnection \<Rightarrow> bytes \<Rightarrow> bytes \<Rightarrow> endpoint" where
  "ep c W R \<equiv> \<lparr>ep_conn = c, ep_accepted = W, ep_read = R, ep_out = []\<rparr>"

lemma hand_over_any:
  assumes "pair_inv u v a b" "\<not> fst u" "set segments \<subseteq> set (ep_out b)"
  shows "ok_result (\<lambda>c. pair_inv u v (a\<lparr>ep_conn := c\<rparr>) b) (hand_over (ep_conn a) segments)"
  using assms
proof (induction segments arbitrary: a)
  case Nil
  then show ?case by simp
next
  case (Cons seg segments)
  have "pair_inv u v (a\<lparr>ep_conn := ep_conn a\<rparr>) b \<and> waiting u b seg"
    using Cons.prems by (auto simp: waiting_def)
  from lw.segment_received [OF this] show ?case
    unfolding hand_over.simps
    by (rule ok_result_bind) (use Cons.IH [of "a\<lparr>ep_conn := c\<rparr>" for c] Cons.prems in auto)
qed

lemma hand_over_ordered:
  assumes "pair_inv u v a b" "ep_out b = segments"
  shows "ok_result (\<lambda>c. pair_inv u v (a\<lparr>ep_conn := c\<rparr>) (b\<lparr>ep_out := []\<rparr>)) (hand_over (ep_conn a) segments)"
  using assms
proof (induction segments arbitrary: a b)
  case Nil
  then have "pair_inv u v a (b\<lparr>ep_out := []\<rparr>)" using lose_pair [OF Nil.prems(1), of 0] by simp
  then show ?case by simp
next
  case (Cons seg segments)
  have "pair_inv u v (a\<lparr>ep_conn := ep_conn a\<rparr>) b \<and> waiting u b seg"
    using Cons.prems by (auto simp: waiting_def)
  from lw.segment_received [OF this] show ?case
    unfolding hand_over.simps
  proof (rule ok_result_bind)
    fix c
    assume "pair_inv u v (a\<lparr>ep_conn := c\<rparr>) b"
    from lose_pair [OF this, of 1] have "pair_inv u v (a\<lparr>ep_conn := c\<rparr>) (b\<lparr>ep_out := segments\<rparr>)"
      using Cons.prems(2) by simp
    from Cons.IH [OF this] show "ok_result (\<lambda>c. pair_inv u v (a\<lparr>ep_conn := c\<rparr>) (b\<lparr>ep_out := []\<rparr>)) (hand_over c segments)"
      by simp
  qed
qed

lemma move_keeps:
  assumes inv: "pair_inv u v (ep y Wy Ry) (ep x Wx Rx)" and order: "reorder \<longrightarrow> \<not> fst u"
  shows "\<exists>x' y'. move_segments x y [] reorder = Inr (x', y', []) \<and> pair_inv u v (ep y' Wy Ry) (ep x' Wx Rx)"
proof -
  let ?x = "x\<lparr>cn_segments_out := []\<rparr>"
  let ?b = "\<lparr>ep_conn = ?x, ep_accepted = Wx, ep_read = Rx, ep_out = cn_segments_out x\<rparr>"
  have sent: "pair_inv u v (ep y Wy Ry) ?b"
    using send_pair [of v u "ep x Wx Rx" "ep y Wy Ry"] inv pair_inv_swap by simp
  have "ok_result (\<lambda>c. pair_inv u v (ep c Wy Ry) (ep ?x Wx Rx)) (hand_over y (if reorder then rev (cn_segments_out x) else cn_segments_out x))"
  proof (cases reorder)
    case True
    from hand_over_any [OF sent, of "rev (cn_segments_out x)"]
    have "ok_result (\<lambda>c. pair_inv u v (ep c Wy Ry) ?b) (hand_over y (rev (cn_segments_out x)))"
      using order True by simp
    then show ?thesis
      using lose_pair [of u v _ ?b "length (cn_segments_out x)"] True by (auto intro: ok_result_mono)
  next
    case False
    then show ?thesis using hand_over_ordered [OF sent] by simp
  qed
  then show ?thesis by (auto simp: move_segments_def ok_result_def)
qed

text \<open>A write of at most the remaining capacity is accepted in full.\<close>

lemma write_accepts_all:
  assumes inv: "ByteStream_inv (sn_stream (cn_sender c))" and opened: "\<not> bs_isInputEnd (sn_stream (cn_sender c))"
    and d: "length d \<le> remaining_outbound_capacity c" "d \<noteq> []"
  shows "fst (TCPConnection_write c d) = length d"
proof -
  let ?st = "sn_stream (cn_sender c)"
  have room: "sub64 (bs_capacity ?st) (bs_size ?st) = bs_capacity ?st - bs_size ?st"
    using inv by (simp add: ByteStream_inv_def sub64_small)
  then have "bs_capacity ?st \<noteq> bs_size ?st"
    using d by (auto simp: remaining_outbound_capacity_def ByteStream_remaining_capacity_def)
  then have "fst (ByteStream_write ?st d) = length d"
    using opened d(1) by (simp add: ByteStream_write_def Let_def remaining_outbound_capacity_def ByteStream_remaining_capacity_def)
  then show ?thesis using d(2) by (simp add: TCPConnection_write_def Let_def split_beta)
qed

lemma write_input_keeps:
  assumes "pair_inv u v (ep x W R) b" "u = (ord, S, isn, cap)" "Buffer_str bytes = drop (length W) S"
  shows "\<exists>x' bytes' W'. write_input x bytes = Inr (x', bytes') \<and> pair_inv u v (ep x' W' R) b \<and>
    Buffer_str bytes' = drop (length W') S"
  using assms
proof (induction x bytes arbitrary: W rule: write_input.induct)
  case (1 x bytes)
  show ?case
  proof (cases "Buffer_size bytes \<noteq> 0 \<and> remaining_outbound_capacity x \<noteq> 0")
    case False
    then show ?thesis using 1(2-4) by (subst write_input.simps) auto
  next
    case True
    define want where "want = min (remaining_outbound_capacity x) (Buffer_size bytes)"
    define d where "d = take want (Buffer_str bytes)"
    obtain k x' where w: "TCPConnection_write x d = (k, x')" by (cases "TCPConnection_write x d")
    have d: "length d = want" "d \<noteq> []" "want \<le> remaining_outbound_capacity x" "want \<le> length (Buffer_str bytes)"
      using True by (auto simp: d_def want_def Buffer_size_def)
    have l: "linked ord S isn cap W (cn_sender x) (wires (ep x W R)) (cn_receiver (ep_conn b)) (acks b) (ep_read b)"
      using 1(2,3) by (simp add: pair_inv_def)
    have "W \<noteq> S" using d 1(4) by auto
    then have "ByteStream_inv (sn_stream (cn_sender x))" "\<not> bs_isInputEnd (sn_stream (cn_sender x))"
      using l by (auto simp: linked_def half_def send_half_def sender_inv_def stream_inv_def)
    from write_accepts_all [OF this, of d] have k: "k = want" using d w by simp
    have w': "(want, x') = TCPConnection_write x (take want (Buffer_str bytes))" using w k by (simp add: d_def)
    have "act ord S (ep x W R) b (DWrite want) = Inr (ep x' (W @ d) R, b)"
      using w k d by (simp add: 1(4) [symmetric] flip: d_def)
    then have inv: "pair_inv u v (ep x' (W @ d) R) b" using write_pair [OF 1(2,3), of want] by simp
    have rest: "Buffer_remove_prefix bytes want = Inr (Buffer_discard bytes want)" using d by (simp add: Buffer_remove_prefix_def)
    have str: "Buffer_str (Buffer_discard bytes want) = drop (length (W @ d)) S" using d 1(4) by (simp add: add.commute)
    have "write_input x bytes = write_input x' (Buffer_discard bytes want)"
      using True w k rest unfolding d_def want_def by (subst write_input.simps) simp
    moreover have "\<exists>x'' bytes' W'. write_input x' (Buffer_discard bytes want) = Inr (x'', bytes') \<and>
        pair_inv u v (ep x'' W' R) b \<and> Buffer_str bytes' = drop (length W') S"
      by (rule 1(1) [OF True want_def refl w' _ rest inv 1(3) str]) simp
    ultimately show ?thesis by simp
  qed
qed

definition bench_inv :: "bytes \<Rightarrow> way \<Rightarrow> way \<Rightarrow> bench \<Rightarrow> bool" where
  "bench_inv S u v b \<longleftrightarrow>
     (\<exists>W. pair_inv u v (ep (bm_x b) W []) (ep (bm_y b) [] (bm_string_received b)) \<and>
        Buffer_str (bm_bytes_to_send b) = drop (length W) S)"

lemma tick_ep:
  assumes "pair_inv u v (ep c W R) b"
  shows "ok_result (\<lambda>c. pair_inv u v (ep c W R) b) (TCPConnection_tick c ms)"
proof -
  have "pair_inv u v ((ep c W R)\<lparr>ep_conn := c\<rparr>) b" using assms by simp
  from lw.tick [OF this, of ms] show ?thesis by simp
qed

lemma bench_loop_keeps:
  assumes inv: "bench_inv S u v b" and u: "u = (True, S, isnx, cap)" and v: "v = (False, [], isny, cap')"
  shows "ok_result (bench_inv S u v) (bench_loop reorder b)"
proof -
  let ?R = "bm_string_received b"
  obtain W0 where "pair_inv u v (ep (bm_x b) W0 []) (ep (bm_y b) [] ?R)" "Buffer_str (bm_bytes_to_send b) = drop (length W0) S"
    using inv by (auto simp: bench_inv_def)
  from write_input_keeps [OF this(1) u this(2)] obtain x bytes W where
    x: "write_input (bm_x b) (bm_bytes_to_send b) = Inr (x, bytes)" "pair_inv u v (ep x W []) (ep (bm_y b) [] ?R)"
      "Buffer_str bytes = drop (length W) S" by blast
  define ending where "ending \<longleftrightarrow> Buffer_size bytes = 0 \<and> \<not> bm_x_closed b"
  define x1 where "x1 = (if ending then end_input_stream x else x)"
  have x1: "pair_inv u v (ep x1 W []) (ep (bm_y b) [] ?R)"
  proof (cases ending)
    case True
    obtain w where "S = W @ w" using x(2) by (auto simp: pair_inv_def u linked_def half_def send_half_def)
    then have "W = S" using True x(3) by (simp add: ending_def Buffer_size_def)
    then show ?thesis using end_pair [OF x(2) u] True by (simp add: x1_def)
  qed (use x(2) in \<open>simp add: x1_def\<close>)
  obtain x2 y2 where m1: "move_segments x1 (bm_y b) [] reorder = Inr (x2, y2, [])"
    "pair_inv v u (ep y2 [] ?R) (ep x2 W [])"
    using move_keeps [of v u "bm_y b" "[]" ?R x1 W "[]" reorder] x1 v pair_inv_swap by auto
  obtain y3 x3 where m2: "move_segments y2 x2 [] False = Inr (y3, x3, [])" "pair_inv u v (ep x3 W []) (ep y3 [] ?R)"
    using move_keeps [of u v x2 W "[]" y2 "[]" ?R False] m1(2) pair_inv_swap by auto
  define n where "n = ByteStream_buffer_size (inbound_stream y3)"
  define outp where "outp = (if n > 0 then ByteStream_peek_output (inbound_stream y3) n else [])"
  define y4 where "y4 = (if n > 0 then read_inbound y3 n else y3)"
  have "pair_inv v u (ep y4 [] (?R @ outp)) (ep x3 W [])"
    using read_pair [of v u "ep y3 [] ?R" "ep x3 W []" False "[]" n] m2(2) pair_inv_swap
    by (cases "n > 0") (simp_all add: outp_def y4_def)
  then have y4: "pair_inv u v (ep x3 W []) (ep y4 [] (?R @ outp))" using pair_inv_swap by blast
  obtain x4 where x4: "TCPConnection_tick x3 1000 = Inr x4" "pair_inv v u (ep y4 [] (?R @ outp)) (ep x4 W [])"
    using tick_ep [OF y4, of 1000] pair_inv_swap by (auto simp: ok_result_def)
  obtain y5 where y5: "TCPConnection_tick y4 1000 = Inr y5" "pair_inv u v (ep x4 W []) (ep y5 [] (?R @ outp))"
    using tick_ep [OF x4(2), of 1000] pair_inv_swap by (auto simp: ok_result_def)
  have "bench_loop reorder b = Inr \<lparr>bm_x = x4, bm_y = y5, bm_bytes_to_send = bytes,
      bm_x_closed = (bm_x_closed b \<or> ending), bm_string_received = ?R @ outp\<rparr>"
    unfolding bench_loop_def x(1) bind_result_simps prod.case Let_def ending_def [symmetric] x1_def [symmetric]
      m1(1) m2(1) n_def [symmetric]
    using x4(1) y5(1) by (cases "n > 0") (simp_all add: outp_def y4_def)
  then show ?thesis using y5(2) x(3) unfolding ok_result_def bench_inv_def by auto
qed

lemma bench_while_keeps:
  assumes step: "\<And>b. P b \<Longrightarrow> ok_result P (bench_loop reorder b)" and "P b"
  shows "ok_result (\<lambda>(ended, b). P b \<and> (ended \<longrightarrow> \<not> condition b)) (bench_while condition reorder n b)"
  using assms(2)
proof (induction n arbitrary: b)
  case 0
  then show ?case by (simp add: bench_while.simps)
next
  case (Suc n)
  show ?case
  proof (cases "condition b")
    case True
    then show ?thesis
      using ok_result_bind [OF step [OF Suc.prems] Suc.IH] by (simp add: bench_while.simps [of _ _ "Suc n"])
  qed (use Suc.prems in \<open>simp add: bench_while.simps\<close>)
qed

lemma bench_inv_received:
  assumes inv: "bench_inv S u v b" and u: "u = (True, S, isnx, cap)"
  shows "take (length (bm_string_received b)) S = bm_string_received b" "\<not> transferring b \<Longrightarrow> bm_string_received b = S"
proof -
  let ?R = "bm_string_received b" and ?out = "inbound_stream (bm_y b)"
  obtain W where "pair_inv u v (ep (bm_x b) W []) (ep (bm_y b) [] ?R)" using inv by (auto simp: bench_inv_def)
  then have d: "dir (True, S, isnx, cap) (ep (bm_x b) W []) (ep (bm_y b) [] ?R)" by (simp add: pair_inv_def u)
  then obtain w where w: "S = W @ w" by (auto simp: linked_def half_def send_half_def)
  have out: "?R @ bs_buf ?out = take (ByteStream_bytes_written ?out) W" "ByteStream_eof ?out \<longrightarrow> ?R = S"
    "ByteStream_bytes_written ?out \<le> length W"
    using dir_delivers(1) [OF d] by (simp_all add: delivers_def Let_def)
  then have "?R @ bs_buf ?out = take (ByteStream_bytes_written ?out) S" using w by simp
  from arg_cong [OF this, of "take (length ?R)"] arg_cong [OF this, of length]
  show "take (length ?R) S = ?R" using out(3) w by (simp add: min_def split: if_splits)
  show "\<not> transferring b \<Longrightarrow> ?R = S" using out(2) by (simp add: transferring_def)
qed

lemma bench_loop_appends:
  "bench_loop reorder b = Inr b' \<Longrightarrow> \<exists>more. bm_string_received b' = bm_string_received b @ more"
  by (auto simp: bench_loop_def bind_result_eq_Inr Let_def split_beta)

lemma bench_inv_new:
  assumes "length S < 2 ^ 31 - 2"
  shows "\<exists>isnx isny cap. bench_inv S (True, S, isnx, cap) (False, [], isny, cap) (bench_new S rx ry)"
proof -
  let ?x = "TCPConnection_new TCPConfig_default rx" and ?y = "TCPConnection_new TCPConfig_default ry"
  have cfg: "cfg_recv_capacity TCPConfig_default < 2 ^ 16" "cfg_send_capacity TCPConfig_default < two64"
    by (simp_all add: TCPConfig_default_def DEFAULT_CAPACITY_def two64_def)
  obtain isnx isny where inv: "pair_inv (True, S, isnx, cfg_recv_capacity TCPConfig_default)
      (False, [], isny, cfg_recv_capacity TCPConfig_default) (ep ?x [] []) (ep ?y [] [])"
    using pair_inv_new [of S "[]" True False TCPConfig_default TCPConfig_default rx ry] assms cfg
    by (auto simp: endpoint_new_def)
  let ?u = "(True, S, isnx, cfg_recv_capacity TCPConfig_default)" and ?v = "(False, [], isny, cfg_recv_capacity TCPConfig_default)"
  have "pair_inv ?u ?v ((ep ?x [] [])\<lparr>ep_conn := ?x\<rparr>) (ep ?y [] [])" using inv by simp
  from lw.connect [OF this] have "pair_inv ?v ?u (ep ?y [] []) (ep (connect ?x) [] [])" using pair_inv_swap by simp
  from end_pair [OF this refl] have "pair_inv ?u ?v (ep (connect ?x) [] []) (ep (end_input_stream ?y) [] [])"
    using pair_inv_swap by simp
  then show ?thesis unfolding bench_inv_def bench_new_def
    by (intro exI [of _ isnx] exI [of _ isny] exI [of _ "cfg_recv_capacity TCPConfig_default"] exI [of _ "[]"]) simp
qed

lemma main_loop_result:
  assumes "length S < 2 ^ 31 - 2"
  shows "\<exists>ended b. main_loop S rx ry reorder n = Inr (ended, b) \<and>
    bm_string_received b = take (length (bm_string_received b)) S \<and>
    (ended \<longrightarrow> bm_string_received b = S \<and> \<not> TCPConnection_active (bm_x b) \<and> \<not> TCPConnection_active (bm_y b))"
proof -
  obtain isnx isny cap where new: "bench_inv S (True, S, isnx, cap) (False, [], isny, cap) (bench_new S rx ry)"
    using bench_inv_new [OF assms] by blast
  let ?I = "bench_inv S (True, S, isnx, cap) (False, [], isny, cap)"
  let ?J = "\<lambda>b. ?I b \<and> (\<exists>more. bm_string_received b = S @ more)"
  have step: "ok_result ?I (bench_loop reorder b)" if "?I b" for b using bench_loop_keeps [OF that refl refl] .
  have step': "ok_result ?J (bench_loop reorder b)" if "?J b" for b
    using step [of b] that bench_loop_appends [of reorder b] by (fastforce simp: ok_result_def)
  obtain e b where w: "bench_while transferring reorder n (bench_new S rx ry) = Inr (e, b)" "?I b" "e \<longrightarrow> \<not> transferring b"
    using bench_while_keeps [of ?I reorder "bench_new S rx ry" transferring n, OF step new] by (auto simp: ok_result_def)
  note pre = bench_inv_received(1) [OF _ refl]
  show ?thesis
  proof (cases e)
    case False
    then show ?thesis using w pre [OF w(2)] by (auto simp: main_loop_def)
  next
    case True
    then have S: "bm_string_received b = S" using w bench_inv_received(2) [OF _ refl] by blast
    obtain e' b' where w': "bench_while lingering reorder n b = Inr (e', b')" "?J b'" "e' \<longrightarrow> \<not> lingering b'"
      using bench_while_keeps [of ?J, OF step', of b lingering n] w(2) S by (auto simp: ok_result_def)
    then have "take (length (bm_string_received b')) S = bm_string_received b'" using pre by blast
    then have "bm_string_received b' = S" using w'(2) by auto
    then show ?thesis using w(1) w'(1,3) True S by (simp add: main_loop_def lingering_def)
  qed
qed

section \<open>Properties\<close>

text \<open>
  Claim C4. The benchmark's transfer, for every content, all initial sequence numbers, with and without
  reordering, after any number of turns of its loops: no call faults, no write is accepted in part and
  the final comparison does not fail, so none of its exceptions is thrown. What has been received so far
  is a prefix of what is to be sent, and everything once the loops have ended.
\<close>

theorem benchmark_transfer_correct:
  assumes "length S < 2 ^ 31 - 2"
  shows "\<exists>ended b. main_loop S rx ry reorder n = Inr (ended, b) \<and>
    bm_string_received b = take (length (bm_string_received b)) S \<and>
    (ended \<longrightarrow> bm_string_received b = S \<and> \<not> TCPConnection_active (bm_x b) \<and> \<not> TCPConnection_active (bm_y b))"
  by (rule main_loop_result [OF assms])

theorem benchmark_transfer_correct_witness:
  "\<exists>ended b. main_loop [1, 2, 3, 4, 5] 0xFFFFFFFE 7 True 40 = Inr (ended, b) \<and>
    bm_string_received b = take (length (bm_string_received b)) [1, 2, 3, 4, 5] \<and>
    (ended \<longrightarrow> bm_string_received b = [1, 2, 3, 4, 5])"
proof -
  have "length [1, 2, 3, 4, 5 :: byte] < 2 ^ 31 - 2" by simp
  from benchmark_transfer_correct [OF this, of "0xFFFFFFFE" 7 True 40] show ?thesis by blast
qed

text \<open>So \<open>main\<close> does not return the failure status.\<close>

lemma bench_main_succeeds:
  assumes "\<And>reorder. length (fst (inputs reorder)) = bench_len"
  shows "bench_main inputs n = Inr None \<or> bench_main inputs n = Inr (Some 0)"
proof -
  have "\<exists>ended b. (case inputs reorder of (s, rx, ry) \<Rightarrow> main_loop s rx ry reorder n) = Inr (ended, b)" for reorder
  proof -
    obtain s rx ry where "inputs reorder = (s, rx, ry)" by (cases "inputs reorder")
    then show ?thesis using main_loop_result [of s rx ry reorder n] assms [of reorder] by (auto simp: bench_len_def)
  qed
  from this [of False] this [of True] show ?thesis by (auto simp: bench_main_def Let_def)
qed

end
