(* ===== verification/Event_Loop.thy ===== *)
theory Event_Loop
  imports File_Descriptor "HOL-Library.Sublist"
begin

text \<open>
  \<open>EventLoop\<close> (\<open>src/libsponge/util/eventloop.hh\<close>, \<open>eventloop.cc\<close>).

  A \<open>Rule\<close> names a descriptor by its handle and carries three closures over the program's world: a
  callback, an interest predicate and a cancel action. \<open>wait_next_event\<close> is one round: it drops the
  rules whose descriptor is finished, polls the rest and runs the callbacks of the ready ones.

  The relation \<open>acts\<close> is the abstract view of a round: one callback, one cancellation or the passing
  of time in the kernel. A round refines a sequence of such steps, so an invariant that the rules of
  a program keep holds after every round; the locale \<open>event_program\<close> states that contract.
\<close>

section \<open>Rules\<close>

datatype Direction = In | Out

record 'w Rule =
  ru_fd :: handle
  ru_direction :: Direction
  ru_callback :: "'w \<Rightarrow> 'w result"
  ru_interest :: "'w \<Rightarrow> bool"
  ru_cancel :: "'w \<Rightarrow> 'w result"

definition POLLIN :: uint16 where "POLLIN = 1"
definition POLLOUT :: uint16 where "POLLOUT = 4"
definition POLLERR :: uint16 where "POLLERR = 8"
definition POLLHUP :: uint16 where "POLLHUP = 16"
definition POLLNVAL :: uint16 where "POLLNVAL = 32"
definition EINTR :: int where "EINTR = 4"

lemmas poll_defs = POLLIN_def POLLOUT_def POLLERR_def POLLHUP_def POLLNVAL_def

fun direction_events :: "Direction \<Rightarrow> uint16" where
  "direction_events In = POLLIN"
| "direction_events Out = POLLOUT"

definition service_count :: "('k, 'z) io_scheme Rule \<Rightarrow> ('k, 'z) io_scheme \<Rightarrow> uint32" where
  "service_count r w = (if ru_direction r = In then fd_read_count w (ru_fd r) else fd_write_count w (ru_fd r))"

definition add_rule ::
  "'w Rule list \<Rightarrow> handle \<Rightarrow> Direction \<Rightarrow> ('w \<Rightarrow> 'w result) \<Rightarrow> ('w \<Rightarrow> bool) \<Rightarrow> ('w \<Rightarrow> 'w result) \<Rightarrow> 'w Rule list" where
  "add_rule rules fd dir callback interest cancel =
     rules @ [\<lparr>ru_fd = fd, ru_direction = dir, ru_callback = callback, ru_interest = interest, ru_cancel = cancel\<rparr>]"

section \<open>One round\<close>

text \<open>
  Setting up the \<open>pollfd\<close>s: a rule whose descriptor is at its end or closed is cancelled and erased;
  the result is the rules left, one \<open>pollfd\<close> for each and whether any of them is interested.
\<close>

fun set_up ::
  "('k, 'z) io_scheme Rule list \<Rightarrow> ('k, 'z) io_scheme \<Rightarrow>
   (('k, 'z) io_scheme Rule list \<times> pollfd list \<times> bool \<times> ('k, 'z) io_scheme) result" where
  "set_up [] w = Inr ([], [], False, w)"
| "set_up (r # rs) w =
     (if ru_direction r = In \<and> fd_eof w (ru_fd r) then bind_result (ru_cancel r w) (set_up rs)
      else if fd_closed w (ru_fd r) then bind_result (ru_cancel r w) (set_up rs)
      else if ru_interest r w
      then bind_result (set_up rs w) (\<lambda>(rs', pfds, _, w').
             Inr (r # rs', \<lparr>pfd_fd = fd_num w (ru_fd r), pfd_events = direction_events (ru_direction r), pfd_revents = 0\<rparr> # pfds,
                  True, w'))
      else bind_result (set_up rs w) (\<lambda>(rs', pfds, something_to_poll, w').
             Inr (r # rs', \<lparr>pfd_fd = fd_num w (ru_fd r), pfd_events = 0, pfd_revents = 0\<rparr> # pfds,
                  something_to_poll, w')))"

text \<open>Going through the results of the poll.\<close>

fun dispatch ::
  "(('k, 'z) io_scheme Rule \<times> pollfd) list \<Rightarrow> ('k, 'z) io_scheme \<Rightarrow>
   (('k, 'z) io_scheme Rule list \<times> ('k, 'z) io_scheme) result" where
  "dispatch [] w = Inr ([], w)"
| "dispatch ((r, p) # rest) w =
     (let poll_error = (pfd_revents p AND (POLLERR OR POLLNVAL) \<noteq> 0);
          poll_ready = (pfd_revents p AND pfd_events p \<noteq> 0);
          poll_hup = (pfd_revents p AND POLLHUP \<noteq> 0)
      in if poll_error then Inl (RuntimeError ''EventLoop: error on polled file descriptor'')
         else if poll_hup \<and> pfd_events p \<noteq> 0 \<and> \<not> poll_ready then bind_result (ru_cancel r w) (dispatch rest)
         else
           bind_result
             (if poll_ready
              then bind_result (ru_callback r w) (\<lambda>w'.
                     if service_count r w = service_count r w' \<and> ru_interest r w'
                     then Inl (RuntimeError ''EventLoop: busy wait detected: callback did not read/write fd and is still interested'')
                     else Inr w')
              else Inr w)
             (\<lambda>w. bind_result (dispatch rest w) (\<lambda>(rs, w). Inr (r # rs, w))))"

declare dispatch.simps(2) [simp del]

datatype Result = Success | Timeout | Exit

definition polled :: "pollfd list \<Rightarrow> (nat \<Rightarrow> uint16) \<Rightarrow> pollfd list" where
  "polled pfds revents = map (\<lambda>(i, p). p\<lparr>pfd_revents := revents i\<rparr>) (enumerate 0 pfds)"

text \<open>
  The exception of a failed \<open>poll\<close> is caught; only \<open>EINTR\<close> leaves the function, any other one goes on
  to the results.
\<close>

definition wait_next_event ::
  "'k kernel \<Rightarrow> ('k, 'z) io_scheme Rule list \<Rightarrow> int \<Rightarrow> ('k, 'z) io_scheme \<Rightarrow>
   (Result \<times> ('k, 'z) io_scheme Rule list \<times> ('k, 'z) io_scheme) result" where
  "wait_next_event os rules timeout_ms w =
     bind_result (set_up rules w) (\<lambda>(rules, pfds, something_to_poll, w).
       if \<not> something_to_poll then Inr (Exit, rules, w)
       else
         let ((ret, errno, revents), k) = sys_poll os pfds timeout_ms (io_kernel w);
             w = w\<lparr>io_kernel := k\<rparr>;
             go_through = bind_result (dispatch (zip rules (polled pfds revents)) w) (\<lambda>(rules, w). Inr (Success, rules, w))
         in case SystemCall ''poll'' ret errno 0 of
              Inr n \<Rightarrow> if n = 0 then Inr (Timeout, rules, w) else go_through
            | Inl _ \<Rightarrow> if errno = EINTR then Inr (Exit, rules, w) else go_through)"

section \<open>Rounds as sequences of actions\<close>

inductive acts :: "'k kernel \<Rightarrow> ('k, 'z) io_scheme Rule set \<Rightarrow> ('k, 'z) io_scheme \<Rightarrow> ('k, 'z) io_scheme \<Rightarrow> bool"
  for os rules where
  act_callback: "r \<in> rules \<Longrightarrow> ru_callback r w = Inr w' \<Longrightarrow> acts os rules w w'"
| act_cancel: "r \<in> rules \<Longrightarrow> ru_cancel r w = Inr w' \<Longrightarrow> acts os rules w w'"
| act_kernel: "sys_poll os pfds ms (io_kernel w) = (res, k) \<Longrightarrow> acts os rules w (w\<lparr>io_kernel := k\<rparr>)"

inductive_cases actsE: "acts os rules w w'"

lemma acts_mono: "acts os R w w' \<Longrightarrow> R \<subseteq> S \<Longrightarrow> acts os S w w'"
  by (induction rule: acts.induct) (auto intro: acts.intros)

lemma acts_star_mono: "(acts os R)\<^sup>*\<^sup>* w w' \<Longrightarrow> R \<subseteq> S \<Longrightarrow> (acts os S)\<^sup>*\<^sup>* w w'"
  by (rule rtranclp_mono [THEN predicate2D]) (auto intro: acts_mono)

lemma subseq_set: "subseq xs ys \<Longrightarrow> set xs \<subseteq> set ys"
  by (auto elim: list_emb_set)

lemma set_up_acts:
  "set_up rs w = Inr (rs', pfds, b, w') \<Longrightarrow> set rs \<subseteq> R \<Longrightarrow>
     (acts os R)\<^sup>*\<^sup>* w w' \<and> subseq rs' rs \<and> length pfds = length rs'"
proof (induction rs arbitrary: w rs' pfds b)
  case Nil
  then show ?case by simp
next
  case (Cons r rs)
  have r: "r \<in> R" and rs: "set rs \<subseteq> R" using Cons.prems(2) by auto
  show ?case
  proof (cases "(ru_direction r = In \<and> fd_eof w (ru_fd r)) \<or> fd_closed w (ru_fd r)")
    case True
    then obtain w1 where c: "ru_cancel r w = Inr w1" and s: "set_up rs w1 = Inr (rs', pfds, b, w')"
      using Cons.prems(1) by (auto simp: bind_result_eq_Inr split: if_splits)
    have "acts os R w w1" using r c by (rule act_cancel)
    with Cons.IH [OF s rs] show ?thesis by (auto intro: converse_rtranclp_into_rtranclp)
  next
    case False
    then obtain rs1 pfds1 b1 where s: "set_up rs w = Inr (rs1, pfds1, b1, w')"
      and "rs' = r # rs1" "length pfds = Suc (length pfds1)"
      using Cons.prems(1) by (auto simp: bind_result_eq_Inr split: if_splits)
    with Cons.IH [OF s rs] show ?thesis by auto
  qed
qed

lemma dispatch_acts:
  "dispatch rps w = Inr (rs', w') \<Longrightarrow> fst ` set rps \<subseteq> R \<Longrightarrow>
     (acts os R)\<^sup>*\<^sup>* w w' \<and> subseq rs' (map fst rps)"
proof (induction rps arbitrary: w rs')
  case Nil
  then show ?case by simp
next
  case (Cons rp rps)
  obtain r p where rp: "rp = (r, p)" by (cases rp)
  have r: "r \<in> R" and rest: "fst ` set rps \<subseteq> R" using Cons.prems(2) rp by auto
  consider (cancel) w1 where "ru_cancel r w = Inr w1" "dispatch rps w1 = Inr (rs', w')"
    | (callback) w1 rs1 where "ru_callback r w = Inr w1" "dispatch rps w1 = Inr (rs1, w')" "rs' = r # rs1"
    | (pass) rs1 where "dispatch rps w = Inr (rs1, w')" "rs' = r # rs1"
    using Cons.prems(1) unfolding rp
    by (auto simp: dispatch.simps(2) Let_def bind_result_eq_Inr split: if_splits)
  then show ?case
  proof cases
    case cancel
    with Cons.IH [OF cancel(2) rest] act_cancel [OF r cancel(1), of os] rp show ?thesis
      by (auto intro: converse_rtranclp_into_rtranclp)
  next
    case callback
    with Cons.IH [OF callback(2) rest] act_callback [OF r callback(1), of os] rp show ?thesis
      by (auto intro: converse_rtranclp_into_rtranclp)
  next
    case pass
    with Cons.IH [OF pass(1) rest] rp show ?thesis by auto
  qed
qed

text \<open>
  Every round of the event loop that returns is a sequence of actions of the rules it was given and
  steps of the kernel, and it only ever removes rules.
\<close>

lemma wait_next_event_acts:
  assumes "wait_next_event os rules ms w = Inr (res, rules', w')"
  shows "(acts os (set rules))\<^sup>*\<^sup>* w w' \<and> subseq rules' rules"
proof -
  obtain rs pfds b w1 where s: "set_up rules w = Inr (rs, pfds, b, w1)"
    using assms by (auto simp: wait_next_event_def bind_result_eq_Inr)
  have up: "(acts os (set rules))\<^sup>*\<^sup>* w w1" "subseq rs rules" "length pfds = length rs"
    using set_up_acts [OF s, of "set rules" os] by auto
  obtain ret errno revents k where p: "sys_poll os pfds ms (io_kernel w1) = ((ret, errno, revents), k)"
    by (metis prod.exhaust)
  let ?w2 = "w1\<lparr>io_kernel := k\<rparr>"
  have k: "(acts os (set rules))\<^sup>*\<^sup>* w ?w2"
    using up(1) act_kernel [OF p, of "set rules"] by (rule rtranclp.rtrancl_into_rtrancl)
  have fsts: "map fst (zip rs (polled pfds revents)) = rs" using up(3) by (simp add: polled_def)
  consider (stay) "w' = w1" "rules' = rs" | (quiet) "w' = ?w2" "rules' = rs"
    | (run) "dispatch (zip rs (polled pfds revents)) ?w2 = Inr (rules', w')"
    using assms s p
    by (auto simp: wait_next_event_def bind_result_eq_Inr Let_def split: if_splits sum.splits)
  then show ?thesis
  proof cases
    case run
    have "fst ` set (zip rs (polled pfds revents)) \<subseteq> set rules"
      using fsts subseq_set [OF up(2)] by (metis list.set_map)
    from dispatch_acts [OF run this, of os] have "(acts os (set rules))\<^sup>*\<^sup>* ?w2 w'" "subseq rules' rs"
      by (simp_all only: fsts)
    with k up(2) show ?thesis by (auto intro: rtranclp_trans subseq_order.trans)
  qed (use up k in auto)
qed

section \<open>Invariants of programs on the loop\<close>

text \<open>
  The contract between the loop and a program: what each of the program's rules keeps when it is
  called back or cancelled, and what the kernel may do while the loop polls. Rounds, and any number
  of rounds until the loop has nothing more to do, keep it too.
\<close>

fun rounds ::
  "nat \<Rightarrow> 'k kernel \<Rightarrow> int \<Rightarrow> ('k, 'z) io_scheme Rule list \<Rightarrow> ('k, 'z) io_scheme \<Rightarrow>
   (bool \<times> ('k, 'z) io_scheme Rule list \<times> ('k, 'z) io_scheme) result" where
  "rounds 0 os ms rules w = Inr (False, rules, w)"
| "rounds (Suc n) os ms rules w =
     bind_result (wait_next_event os rules ms w) (\<lambda>(res, rules, w).
       if res = Exit then Inr (True, rules, w) else rounds n os ms rules w)"

locale event_program =
  fixes os :: "'k kernel"
    and rules :: "('k, 'z) io_scheme Rule set"
    and invar :: "('k, 'z) io_scheme \<Rightarrow> bool"
  assumes callback_law: "r \<in> rules \<Longrightarrow> invar w \<Longrightarrow> ru_callback r w = Inr w' \<Longrightarrow> invar w'"
    and cancel_law: "r \<in> rules \<Longrightarrow> invar w \<Longrightarrow> ru_cancel r w = Inr w' \<Longrightarrow> invar w'"
    and poll_law: "invar w \<Longrightarrow> sys_poll os pfds ms (io_kernel w) = (res, k) \<Longrightarrow> invar (w\<lparr>io_kernel := k\<rparr>)"
begin

lemma acts_law: "acts os rules w w' \<Longrightarrow> invar w \<Longrightarrow> invar w'"
  by (induction rule: acts.induct) (auto intro: callback_law cancel_law poll_law)

lemma acts_star_law: "(acts os rules)\<^sup>*\<^sup>* w w' \<Longrightarrow> invar w \<Longrightarrow> invar w'"
  by (induction rule: rtranclp_induct) (auto intro: acts_law)

lemma round_law:
  assumes "invar w" "set rs \<subseteq> rules" "wait_next_event os rs ms w = Inr (res, rs', w')"
  shows "invar w' \<and> set rs' \<subseteq> rules"
proof -
  have "(acts os (set rs))\<^sup>*\<^sup>* w w'" "subseq rs' rs" using wait_next_event_acts [OF assms(3)] by auto
  then have "(acts os rules)\<^sup>*\<^sup>* w w'" "set rs' \<subseteq> set rs"
    using assms(2) by (auto intro: acts_star_mono dest: subseq_set)
  with assms show ?thesis using acts_star_law by blast
qed

lemma rounds_law:
  assumes "invar w" "set rs \<subseteq> rules" "rounds n os ms rs w = Inr (finished, rs', w')"
  shows "invar w' \<and> set rs' \<subseteq> rules"
  using assms
proof (induction n arbitrary: rs w)
  case 0
  then show ?case by simp
next
  case (Suc n)
  from Suc.prems(3) obtain res rs1 w1 where round: "wait_next_event os rs ms w = Inr (res, rs1, w1)"
    and rest: "if res = Exit then Inr (True, rs1, w1) = Inr (finished, rs', w') else rounds n os ms rs1 w1 = Inr (finished, rs', w')"
    by (auto simp: bind_result_eq_Inr split: if_splits)
  have "invar w1 \<and> set rs1 \<subseteq> rules" using round_law [OF Suc.prems(1,2) round] .
  with rest Suc.IH [of w1 rs1] show ?case by (auto split: if_splits)
qed

end

section \<open>Properties\<close>

text \<open>While no descriptor is finished, setting up keeps every rule and changes nothing.\<close>

definition poll_entry :: "('k, 'z) io_scheme \<Rightarrow> ('k, 'z) io_scheme Rule \<Rightarrow> pollfd" where
  "poll_entry w r = \<lparr>pfd_fd = fd_num w (ru_fd r),
     pfd_events = (if ru_interest r w then direction_events (ru_direction r) else 0), pfd_revents = 0\<rparr>"

definition all_open :: "('k, 'z) io_scheme \<Rightarrow> ('k, 'z) io_scheme Rule list \<Rightarrow> bool" where
  "all_open w rs \<longleftrightarrow> (\<forall>r \<in> set rs. \<not> fd_eof w (ru_fd r) \<and> \<not> fd_closed w (ru_fd r))"

lemma set_up_all_open:
  "all_open w rs \<Longrightarrow> set_up rs w = Inr (rs, map (poll_entry w) rs, \<exists>r \<in> set rs. ru_interest r w, w)"
  by (induction rs) (auto simp: all_open_def poll_entry_def)

lemma direction_events_nz [simp]: "direction_events d \<noteq> 0"
  by (cases d) (simp_all add: poll_defs)

lemma direction_events_no_error [simp]: "direction_events d AND (POLLERR OR POLLNVAL) = 0"
  by (cases d) (simp_all add: poll_defs)

lemma dispatch_skip:
  "\<forall>(r, p) \<in> set pre. pfd_revents p = 0 \<Longrightarrow>
     dispatch (pre @ rest) w = bind_result (dispatch rest w) (\<lambda>(rs, w). Inr (map fst pre @ rs, w))"
proof (induction pre arbitrary: w)
  case Nil
  show ?case by (cases "dispatch rest w") auto
next
  case (Cons rp pre)
  then show ?case by (cases "dispatch rest w") (auto simp: dispatch.simps(2) Let_def)
qed

lemma dispatch_idle: "\<forall>(r, p) \<in> set rps. pfd_revents p = 0 \<Longrightarrow> dispatch rps w = Inr (map fst rps, w)"
  using dispatch_skip [of rps "[]" w] by simp

lemma length_polled [simp]: "length (polled pfds ev) = length pfds"
  by (simp add: polled_def)

lemma nth_polled [simp]: "i < length pfds \<Longrightarrow> polled pfds ev ! i = (pfds ! i)\<lparr>pfd_revents := ev i\<rparr>"
  by (simp add: polled_def nth_enumerate_eq)

lemma polled_cong: "(\<And>i. i < length pfds \<Longrightarrow> ev i = ev' i) \<Longrightarrow> polled pfds ev = polled pfds ev'"
  by (rule nth_equalityI) simp_all

text \<open>The results of a poll that reports events for one rule only.\<close>

lemma polled_one:
  fixes e :: uint16
  assumes "i < length rs" "length pfds = length rs"
  defines "rps \<equiv> zip rs (polled pfds (\<lambda>j. if j = i then e else 0))"
  shows "rps = take i rps @ (rs ! i, (pfds ! i)\<lparr>pfd_revents := e\<rparr>) # drop (Suc i) rps"
    and "\<forall>(r, p) \<in> set (take i rps). pfd_revents p = 0" "\<forall>(r, p) \<in> set (drop (Suc i) rps). pfd_revents p = 0"
    and "map fst rps = rs"
proof -
  have len: "length rps = length rs" using assms by simp
  show "rps = take i rps @ (rs ! i, (pfds ! i)\<lparr>pfd_revents := e\<rparr>) # drop (Suc i) rps"
    using id_take_nth_drop [of i rps] assms len by simp
  show "\<forall>(r, p) \<in> set (take i rps). pfd_revents p = 0" "\<forall>(r, p) \<in> set (drop (Suc i) rps). pfd_revents p = 0"
    using assms by (auto simp: in_set_conv_nth)
  show "map fst rps = rs" using assms by simp
qed


text \<open>A rule that reads standard input and drops what it reads.\<close>

definition drain_rule :: "(int \<Rightarrow> bytes) logging io Rule" where
  "drain_rule = \<lparr>ru_fd = 0, ru_direction = In,
     ru_callback = \<lambda>w. bind_result (FileDescriptor_read (logged small_os) 0 5 w) (\<lambda>(_, w). Inr w),
     ru_interest = \<lambda>_. True, ru_cancel = Inr\<rparr>"

lemma drain_rule_simps [simp]:
  "ru_fd drain_rule = 0" "ru_direction drain_rule = In" "ru_interest drain_rule w"
  "ru_callback drain_rule w = bind_result (FileDescriptor_read (logged small_os) 0 5 w) (\<lambda>(_, w). Inr w)"
  by (simp_all add: drain_rule_def)

lemmas eval_read = FileDescriptor_read_def BUFFER_SIZE_def str_resize_def

lemma drain_rule_open: "all_open (small_io input) [drain_rule]"
  by (simp add: all_open_def small_io_def fd_eof_def fd_closed_def)

text \<open>Evaluation does not look into a continuation before its argument is known.\<close>

lemma bind_result_lazy: "r = r' \<Longrightarrow> bind_result r f = bind_result r' f"
  by simp


text \<open>
  A poll that fails for any reason but a signal is not reported: the exception is caught,
  and when no descriptor shows an event the round counts as a success, with the same rules and
  nothing done. (The documentation of \<open>wait_next_event\<close> says that it throws.)
\<close>

lemma poll_failure_is_swallowed:
  assumes "all_open w rules" "\<exists>r \<in> set rules. ru_interest r w"
    and poll: "sys_poll os (map (poll_entry w) rules) ms (io_kernel w) = ((- 1, errno, ev), k)"
    and "errno \<noteq> 0" "errno \<noteq> EINTR" "\<forall>j < length rules. ev j = 0"
  shows "wait_next_event os rules ms w = Inr (Success, rules, w\<lparr>io_kernel := k\<rparr>)"
proof -
  let ?rps = "zip rules (polled (map (poll_entry w) rules) ev)"
  have "\<forall>(r, p) \<in> set ?rps. pfd_revents p = 0" using assms(6) by (auto simp: in_set_conv_nth)
  then have "dispatch ?rps (w\<lparr>io_kernel := k\<rparr>) = Inr (rules, w\<lparr>io_kernel := k\<rparr>)" by (simp add: dispatch_idle)
  then show ?thesis
    using assms
    by (simp add: wait_next_event_def set_up_all_open poll SystemCall_def c_int_def signed_take_bit_int_eq_self Let_def)
qed

end
