(* ===== verification/Sponge_Socket.thy ===== *)
theory Sponge_Socket
  imports Event_Loop Endpoint_Streams
begin

text \<open>
  \<open>TCPSpongeSocket\<close> (\<open>src/libsponge/tcp_helpers/tcp_sponge_socket.hh\<close>, \<open>tcp_sponge_socket.cc\<close>): the thread
  that runs a \<open>TCPConnection\<close> between a pipe to its owner and a datagram adapter.

  The template parameter \<open>AdaptT\<close> is a record of the adapter's operations; the four instantiations of
  the source are built from the adapters of \<open>Fd_Adapter\<close> and the descriptors of \<open>File_Descriptor\<close>. The
  thread's world extends the descriptors by the connection (the optional \<open>_tcp\<close>), the adapter and
  the flags. \<open>_abort\<close> is stored by the owner's thread at any time: the value of its \<open>i\<close>-th load is a
  parameter \<open>abort i\<close>. Lines printed to \<open>cerr\<close> are left out.

  The loop refines the connection: every run of it is a run of \<open>conn_step\<close> in which the bytes read
  from the pipe are the bytes written to the connection, and the bytes written to the pipe are the
  bytes read from its inbound stream.
\<close>

section \<open>Adapters on descriptors\<close>

definition h_owner :: handle where "h_owner = 0"
definition h_thread :: handle where "h_thread = 1"
definition h_datagram :: handle where "h_datagram = 2"

lemmas handle_defs = h_owner_def h_thread_def h_datagram_def

record ('k, 'a) AdaptT =
  at_read :: "'k kernel \<Rightarrow> 'a \<Rightarrow> 'k io \<Rightarrow> (TCPSegment option \<times> 'a \<times> 'k io) result"
  at_write :: "'k kernel \<Rightarrow> 'a \<Rightarrow> TCPSegment \<Rightarrow> 'k io \<Rightarrow> ('a \<times> 'k io) result"
  at_config :: "'a \<Rightarrow> FdAdapterConfig"
  at_set_config :: "'a \<Rightarrow> FdAdapterConfig \<Rightarrow> 'a"
  at_set_listening :: "'a \<Rightarrow> bool \<Rightarrow> 'a"
  at_tick :: "'a \<Rightarrow> size_t \<Rightarrow> 'a"

definition base_set_config :: "FdAdapterBase \<Rightarrow> FdAdapterConfig \<Rightarrow> FdAdapterBase" where
  "base_set_config a cfg = a\<lparr>fa_cfg := cfg\<rparr>"

text \<open>Over UDP: \<open>recv\<close> with the default \<open>mtu\<close>, \<open>sendto\<close> the configured destination.\<close>

definition udp_read ::
  "'k kernel \<Rightarrow> FdAdapterBase \<Rightarrow> 'k io \<Rightarrow> (TCPSegment option \<times> FdAdapterBase \<times> 'k io) result" where
  "udp_read os a io =
     bind_result (UDPSocket_recv os h_datagram 65536 io) (\<lambda>(datagram, io).
     bind_result (TCPOverUDPSocketAdapter_read a datagram) (\<lambda>(seg, a). Inr (seg, a, io)))"

definition udp_write ::
  "'k kernel \<Rightarrow> FdAdapterBase \<Rightarrow> TCPSegment \<Rightarrow> 'k io \<Rightarrow> (FdAdapterBase \<times> 'k io) result" where
  "udp_write os a seg io =
     bind_result (TCPOverUDPSocketAdapter_write a seg) (\<lambda>(destination, payload).
     bind_result (UDPSocket_sendto os h_datagram destination (BufferViewList_of_BufferList payload) io) (\<lambda>io. Inr (a, io)))"

definition udp_adapter :: "('k, FdAdapterBase) AdaptT" where
  "udp_adapter = \<lparr>at_read = udp_read, at_write = udp_write, at_config = fa_cfg, at_set_config = base_set_config,
     at_set_listening = set_listening, at_tick = adapter_tick\<rparr>"

text \<open>Over a TUN device: \<open>read\<close> with no limit, \<open>write\<close> of the whole datagram.\<close>

definition tun_read ::
  "'k kernel \<Rightarrow> FdAdapterBase \<Rightarrow> 'k io \<Rightarrow> (TCPSegment option \<times> FdAdapterBase \<times> 'k io) result" where
  "tun_read os a io =
     bind_result (FileDescriptor_read os h_datagram (two64 - 1) io) (\<lambda>(data, io).
     bind_result (TCPOverIPv4OverTunFdAdapter_read a data) (\<lambda>(seg, a). Inr (seg, a, io)))"

definition tun_write ::
  "'k kernel \<Rightarrow> FdAdapterBase \<Rightarrow> TCPSegment \<Rightarrow> 'k io \<Rightarrow> (FdAdapterBase \<times> 'k io) result" where
  "tun_write os a seg io =
     bind_result (TCPOverIPv4OverTunFdAdapter_write a seg) (\<lambda>datagram.
     bind_result (FileDescriptor_write os h_datagram (BufferViewList_of_BufferList datagram) True io) (\<lambda>(_, io). Inr (a, io)))"

definition tun_adapter :: "('k, FdAdapterBase) AdaptT" where
  "tun_adapter = \<lparr>at_read = tun_read, at_write = tun_write, at_config = fa_cfg, at_set_config = base_set_config,
     at_set_listening = set_listening, at_tick = adapter_tick\<rparr>"

text \<open>With random loss in both directions; the adapter below is read and written as it stands.\<close>

definition lossy_read ::
  "('g \<Rightarrow> uint32 \<times> 'g) \<Rightarrow> ('k, 'a) AdaptT \<Rightarrow> 'k kernel \<Rightarrow> ('g, 'a) LossyFdAdapter \<Rightarrow> 'k io \<Rightarrow>
   (TCPSegment option \<times> ('g, 'a) LossyFdAdapter \<times> 'k io) result" where
  "lossy_read rand A os l io =
     bind_result (at_read A os (lo_adapter l) io) (\<lambda>(ret, a, io).
       let (dropped, l) = should_drop rand (at_config A) False (l\<lparr>lo_adapter := a\<rparr>)
       in Inr (if dropped then None else ret, l, io))"

definition lossy_write ::
  "('g \<Rightarrow> uint32 \<times> 'g) \<Rightarrow> ('k, 'a) AdaptT \<Rightarrow> 'k kernel \<Rightarrow> ('g, 'a) LossyFdAdapter \<Rightarrow> TCPSegment \<Rightarrow> 'k io \<Rightarrow>
   (('g, 'a) LossyFdAdapter \<times> 'k io) result" where
  "lossy_write rand A os l seg io =
     (let (dropped, l) = should_drop rand (at_config A) True l
      in if dropped then Inr (l, io)
         else bind_result (at_write A os (lo_adapter l) seg io) (\<lambda>(a, io). Inr (l\<lparr>lo_adapter := a\<rparr>, io)))"

definition lossy_adapter :: "('g \<Rightarrow> uint32 \<times> 'g) \<Rightarrow> ('k, 'a) AdaptT \<Rightarrow> ('k, ('g, 'a) LossyFdAdapter) AdaptT" where
  "lossy_adapter rand A =
     \<lparr>at_read = lossy_read rand A, at_write = lossy_write rand A, at_config = at_config A \<circ> lo_adapter,
      at_set_config = (\<lambda>l cfg. l\<lparr>lo_adapter := at_set_config A (lo_adapter l) cfg\<rparr>),
      at_set_listening = (\<lambda>l b. l\<lparr>lo_adapter := at_set_listening A (lo_adapter l) b\<rparr>),
      at_tick = (\<lambda>l ms. l\<lparr>lo_adapter := at_tick A (lo_adapter l) ms\<rparr>)\<rparr>"

section \<open>The thread's world and rules\<close>

record ('k, 'a) sponge_world = "'k io" +
  ss_tcp :: "TCPConnection option"
  ss_adapter :: 'a
  ss_inbound_shutdown :: bool
  ss_outbound_shutdown :: bool
  ss_fully_acked :: bool

text \<open>Using \<open>_tcp\<close> while it is empty is undefined; the adapter works on the descriptors alone.\<close>

definition with_tcp ::
  "('k, 'a) sponge_world \<Rightarrow> (TCPConnection \<Rightarrow> 'b result) \<Rightarrow> 'b result" where
  "with_tcp w f = (case ss_tcp w of None \<Rightarrow> Inl PastEndAccess | Some c \<Rightarrow> f c)"

definition tcp_is :: "('k, 'a) sponge_world \<Rightarrow> (TCPConnection \<Rightarrow> bool) \<Rightarrow> bool" where
  "tcp_is w P = (case ss_tcp w of None \<Rightarrow> False | Some c \<Rightarrow> P c)"

definition set_io :: "('k, 'a) sponge_world \<Rightarrow> 'k io \<Rightarrow> ('k, 'a) sponge_world" where
  "set_io w io = w\<lparr>io_kernel := io_kernel io, io_fds := io_fds io\<rparr>"

definition adapter_read_world ::
  "('k, 'a) AdaptT \<Rightarrow> 'k kernel \<Rightarrow> ('k, 'a) sponge_world \<Rightarrow> (TCPSegment option \<times> ('k, 'a) sponge_world) result" where
  "adapter_read_world A os w =
     bind_result (at_read A os (ss_adapter w) (io.truncate w)) (\<lambda>(seg, a, io). Inr (seg, set_io (w\<lparr>ss_adapter := a\<rparr>) io))"

definition adapter_write_world ::
  "('k, 'a) AdaptT \<Rightarrow> 'k kernel \<Rightarrow> TCPSegment \<Rightarrow> ('k, 'a) sponge_world \<Rightarrow> ('k, 'a) sponge_world result" where
  "adapter_write_world A os seg w =
     bind_result (at_write A os (ss_adapter w) seg (io.truncate w)) (\<lambda>(a, io). Inr (set_io (w\<lparr>ss_adapter := a\<rparr>) io))"

text \<open>Rule 1: an inbound datagram goes to the connection.\<close>

definition rule_datagram_in :: "('k, 'a) AdaptT \<Rightarrow> 'k kernel \<Rightarrow> ('k, 'a) sponge_world Rule" where
  "rule_datagram_in A os =
     \<lparr>ru_fd = h_datagram, ru_direction = In,
      ru_callback = (\<lambda>w.
        bind_result (adapter_read_world A os w) (\<lambda>(seg, w).
        bind_result
          (case seg of
             None \<Rightarrow> Inr w
           | Some seg \<Rightarrow> with_tcp w (\<lambda>c.
               bind_result (TCPConnection_segment_received c seg) (\<lambda>c. Inr (w\<lparr>ss_tcp := Some c\<rparr>)))) (\<lambda>w.
        with_tcp w (\<lambda>c.
          Inr (if fd_eof w h_thread \<and> TCPConnection_bytes_in_flight c = 0 \<and> \<not> ss_fully_acked w
               then w\<lparr>ss_fully_acked := True\<rparr> else w))))),
      ru_interest = (\<lambda>w. tcp_is w TCPConnection_active),
      ru_cancel = Inr\<rparr>"

text \<open>Rule 2: bytes of the owner go to the connection.\<close>

definition end_outbound :: "('k, 'a) sponge_world \<Rightarrow> ('k, 'a) sponge_world result" where
  "end_outbound w = with_tcp w (\<lambda>c. Inr (w\<lparr>ss_tcp := Some (end_input_stream c), ss_outbound_shutdown := True\<rparr>))"

definition rule_pipe_in :: "'k kernel \<Rightarrow> ('k, 'a) sponge_world Rule" where
  "rule_pipe_in os =
     \<lparr>ru_fd = h_thread, ru_direction = In,
      ru_callback = (\<lambda>w.
        with_tcp w (\<lambda>c.
        bind_result (FileDescriptor_read os h_thread (remaining_outbound_capacity c) w) (\<lambda>(data, w).
          let (amount_written, c) = TCPConnection_write c data; w = w\<lparr>ss_tcp := Some c\<rparr>
          in if amount_written \<noteq> length data
             then Inl (RuntimeError ''TCPConnection::write() accepted less than advertised length'')
             else if fd_eof w h_thread then end_outbound w else Inr w))),
      ru_interest = (\<lambda>w. tcp_is w (\<lambda>c. TCPConnection_active c \<and> \<not> ss_outbound_shutdown w \<and> remaining_outbound_capacity c > 0)),
      ru_cancel = end_outbound\<rparr>"

text \<open>Rule 3: the inbound stream goes to the owner.\<close>

definition rule_pipe_out :: "'k kernel \<Rightarrow> ('k, 'a) sponge_world Rule" where
  "rule_pipe_out os =
     \<lparr>ru_fd = h_thread, ru_direction = Out,
      ru_callback = (\<lambda>w.
        with_tcp w (\<lambda>c.
          let amount_to_write = min 65536 (ByteStream_buffer_size (inbound_stream c));
              buffer = ByteStream_peek_output (inbound_stream c) amount_to_write
          in bind_result (FileDescriptor_write os h_thread (BufferViewList_of_string buffer) False w) (\<lambda>(bytes_written, w).
             let c = read_inbound c bytes_written; w = w\<lparr>ss_tcp := Some c\<rparr>
             in if ByteStream_eof (inbound_stream c) \<or> ByteStream_has_error (inbound_stream c)
                then bind_result (Socket_shutdown os h_thread SHUT_WR w) (\<lambda>w. Inr (w\<lparr>ss_inbound_shutdown := True\<rparr>))
                else Inr w))),
      ru_interest = (\<lambda>w. tcp_is w (\<lambda>c. \<not> ByteStream_buffer_empty (inbound_stream c) \<or>
        ((ByteStream_eof (inbound_stream c) \<or> ByteStream_has_error (inbound_stream c)) \<and> \<not> ss_inbound_shutdown w))),
      ru_cancel = Inr\<rparr>"

text \<open>Rule 4: outbound segments go to the adapter until the queue is empty.\<close>

fun flush_segments ::
  "('k, 'a) AdaptT \<Rightarrow> 'k kernel \<Rightarrow> TCPSegment list \<Rightarrow> ('k, 'a) sponge_world \<Rightarrow> ('k, 'a) sponge_world result" where
  "flush_segments A os [] w = Inr w"
| "flush_segments A os (seg # queue) w =
     bind_result (adapter_write_world A os seg w) (\<lambda>w.
     bind_result (with_tcp w (\<lambda>c. Inr (w\<lparr>ss_tcp := Some (c\<lparr>cn_segments_out := queue\<rparr>)\<rparr>)))
       (flush_segments A os queue))"

definition rule_datagram_out :: "('k, 'a) AdaptT \<Rightarrow> 'k kernel \<Rightarrow> ('k, 'a) sponge_world Rule" where
  "rule_datagram_out A os =
     \<lparr>ru_fd = h_datagram, ru_direction = Out,
      ru_callback = (\<lambda>w. with_tcp w (\<lambda>c. flush_segments A os (cn_segments_out c) w)),
      ru_interest = (\<lambda>w. tcp_is w (\<lambda>c. cn_segments_out c \<noteq> [])),
      ru_cancel = Inr\<rparr>"

definition thread_rules :: "('k, 'a) AdaptT \<Rightarrow> 'k kernel \<Rightarrow> ('k, 'a) sponge_world Rule list" where
  "thread_rules A os = [rule_datagram_in A os, rule_pipe_in os, rule_pipe_out os, rule_datagram_out A os]"

section \<open>The loop, the constructor and the public operations\<close>

definition TCP_TICK_MS :: int where
  "TCP_TICK_MS = 10"

text \<open>
  One iteration after the condition has been found true; the first component says whether the loop
  goes on.
\<close>

definition tcp_iteration ::
  "('k, 'a) AdaptT \<Rightarrow> 'k kernel \<Rightarrow> bool \<Rightarrow> uint64 \<Rightarrow> ('k, 'a) sponge_world Rule list \<Rightarrow> ('k, 'a) sponge_world \<Rightarrow>
   (bool \<times> uint64 \<times> ('k, 'a) sponge_world Rule list \<times> ('k, 'a) sponge_world) result" where
  "tcp_iteration A os abort base_time rules w =
     bind_result (wait_next_event os rules TCP_TICK_MS w) (\<lambda>(ret, rules, w).
       if ret = Exit \<or> abort then Inr (False, base_time, rules, w)
       else with_tcp w (\<lambda>c.
         if TCPConnection_active c
         then
           let (next_time, k) = sys_clock os (io_kernel w); w = w\<lparr>io_kernel := k\<rparr>; ms = sub64 next_time base_time
           in bind_result (TCPConnection_tick c ms) (\<lambda>c.
                Inr (True, next_time, rules, w\<lparr>ss_tcp := Some c, ss_adapter := at_tick A (ss_adapter w) ms\<rparr>))
         else Inr (True, base_time, rules, w)))"

text \<open>The loop: \<open>fuel\<close> bounds the iterations, and the flag says whether it has ended.\<close>

fun tcp_loop_from ::
  "nat \<Rightarrow> ('k, 'a) AdaptT \<Rightarrow> 'k kernel \<Rightarrow> (TCPConnection \<Rightarrow> bool) \<Rightarrow> (nat \<Rightarrow> bool) \<Rightarrow> uint64 \<Rightarrow>
   ('k, 'a) sponge_world Rule list \<Rightarrow> ('k, 'a) sponge_world \<Rightarrow>
   (bool \<times> ('k, 'a) sponge_world Rule list \<times> ('k, 'a) sponge_world) result" where
  "tcp_loop_from 0 A os condition abort base_time rules w = Inr (False, rules, w)"
| "tcp_loop_from (Suc fuel) A os condition abort base_time rules w =
     (if \<not> tcp_is w condition then Inr (True, rules, w)
      else bind_result (tcp_iteration A os (abort fuel) base_time rules w) (\<lambda>(go_on, base_time, rules, w).
             if go_on then tcp_loop_from fuel A os condition abort base_time rules w
             else Inr (True, rules, w)))"

definition tcp_loop ::
  "nat \<Rightarrow> ('k, 'a) AdaptT \<Rightarrow> 'k kernel \<Rightarrow> (TCPConnection \<Rightarrow> bool) \<Rightarrow> (nat \<Rightarrow> bool) \<Rightarrow>
   ('k, 'a) sponge_world Rule list \<Rightarrow> ('k, 'a) sponge_world \<Rightarrow>
   (bool \<times> ('k, 'a) sponge_world Rule list \<times> ('k, 'a) sponge_world) result" where
  "tcp_loop fuel A os condition abort rules w =
     (let (base_time, k) = sys_clock os (io_kernel w)
      in tcp_loop_from fuel A os condition abort base_time rules (w\<lparr>io_kernel := k\<rparr>))"

text \<open>\<open>_initialize_TCP\<close>; the random initial sequence number is an argument.\<close>

definition initialize_TCP ::
  "('k, 'a) AdaptT \<Rightarrow> 'k kernel \<Rightarrow> TCPConfig \<Rightarrow> WrappingInt32 \<Rightarrow> ('k, 'a) sponge_world Rule list \<Rightarrow> ('k, 'a) sponge_world \<Rightarrow>
   ('k, 'a) sponge_world Rule list \<times> ('k, 'a) sponge_world" where
  "initialize_TCP A os config random rules w =
     (rules @ thread_rules A os, w\<lparr>ss_tcp := Some (TCPConnection_new config random)\<rparr>)"

definition socket_pair_helper :: "'k kernel \<Rightarrow> int \<Rightarrow> 'k io \<Rightarrow> 'k io result" where
  "socket_pair_helper os type io =
     (let ((ret, errno, fd0, fd1), k) = sys_socketpair os AF_UNIX type (io_kernel io)
      in bind_result (SystemCall ''socketpair'' ret errno 0) (\<lambda>_.
         bind_result (FileDescriptor_new h_owner fd0 (io\<lparr>io_kernel := k\<rparr>)) (FileDescriptor_new h_thread fd1)))"

definition TCPSpongeSocket_of_pair :: "'k kernel \<Rightarrow> 'a \<Rightarrow> 'k io \<Rightarrow> ('k, 'a) sponge_world result" where
  "TCPSpongeSocket_of_pair os datagram_interface io =
     bind_result (Socket_of_fd os h_owner AF_UNIX SOCK_STREAM io) (\<lambda>io.
     bind_result (Socket_of_fd os h_thread AF_UNIX SOCK_STREAM io) (\<lambda>io.
     bind_result (set_blocking os h_thread False io) (\<lambda>io.
       Inr \<lparr>io_kernel = io_kernel io, io_fds = io_fds io, ss_tcp = None, ss_adapter = datagram_interface,
            ss_inbound_shutdown = False, ss_outbound_shutdown = False, ss_fully_acked = False\<rparr>)))"

definition TCPSpongeSocket_new :: "'k kernel \<Rightarrow> 'a \<Rightarrow> 'k io \<Rightarrow> ('k, 'a) sponge_world result" where
  "TCPSpongeSocket_new os datagram_interface io =
     bind_result (socket_pair_helper os SOCK_STREAM io) (TCPSpongeSocket_of_pair os datagram_interface)"

text \<open>\<open>connect\<close> up to the start of the thread: the loop runs while the handshake is unanswered.\<close>

definition sponge_connect ::
  "nat \<Rightarrow> ('k, 'a) AdaptT \<Rightarrow> 'k kernel \<Rightarrow> TCPConfig \<Rightarrow> WrappingInt32 \<Rightarrow> FdAdapterConfig \<Rightarrow> (nat \<Rightarrow> bool) \<Rightarrow>
   ('k, 'a) sponge_world Rule list \<Rightarrow> ('k, 'a) sponge_world \<Rightarrow>
   (bool \<times> ('k, 'a) sponge_world Rule list \<times> ('k, 'a) sponge_world) result" where
  "sponge_connect fuel A os c_tcp random c_ad abort rules w =
     (if ss_tcp w \<noteq> None then Inl (RuntimeError ''connect() with TCPConnection already initialized'')
      else
        let (rules, w) = initialize_TCP A os c_tcp random rules w;
            w = w\<lparr>ss_adapter := at_set_config A (ss_adapter w) c_ad\<rparr>
        in with_tcp w (\<lambda>c.
             let c = connect c; w = w\<lparr>ss_tcp := Some c\<rparr>
             in if \<not> TCPState_eq (TCPConnection_state c) (official SYN_SENT)
                then Inl (RuntimeError (''After TCPConnection::connect(), state was '' @ TCPState_name (TCPConnection_state c) @
                       '' but expected '' @ TCPState_name (official SYN_SENT)))
                else tcp_loop fuel A os (\<lambda>c. TCPState_eq (TCPConnection_state c) (official SYN_SENT)) abort rules w))"

definition accepting :: "TCPConnection \<Rightarrow> bool" where
  "accepting c \<longleftrightarrow>
     (let s = TCPConnection_state c
      in TCPState_eq s (official LISTEN) \<or> TCPState_eq s (official SYN_RCVD) \<or> TCPState_eq s (official SYN_SENT))"

definition listen_and_accept ::
  "nat \<Rightarrow> ('k, 'a) AdaptT \<Rightarrow> 'k kernel \<Rightarrow> TCPConfig \<Rightarrow> WrappingInt32 \<Rightarrow> FdAdapterConfig \<Rightarrow> (nat \<Rightarrow> bool) \<Rightarrow>
   ('k, 'a) sponge_world Rule list \<Rightarrow> ('k, 'a) sponge_world \<Rightarrow>
   (bool \<times> ('k, 'a) sponge_world Rule list \<times> ('k, 'a) sponge_world) result" where
  "listen_and_accept fuel A os c_tcp random c_ad abort rules w =
     (if ss_tcp w \<noteq> None then Inl (RuntimeError ''listen_and_accept() with TCPConnection already initialized'')
      else
        let (rules, w) = initialize_TCP A os c_tcp random rules w;
            w = w\<lparr>ss_adapter := at_set_listening A (at_set_config A (ss_adapter w) c_ad) True\<rparr>
        in tcp_loop fuel A os accepting abort rules w)"

text \<open>
  The thread's main function. Resetting the optional destroys the connection: its destructor may
  queue a RST, and the queue is destroyed with it.
\<close>

definition tcp_main ::
  "nat \<Rightarrow> ('k, 'a) AdaptT \<Rightarrow> 'k kernel \<Rightarrow> (nat \<Rightarrow> bool) \<Rightarrow> ('k, 'a) sponge_world Rule list \<Rightarrow> ('k, 'a) sponge_world \<Rightarrow>
   (bool \<times> ('k, 'a) sponge_world Rule list \<times> ('k, 'a) sponge_world) result" where
  "tcp_main fuel A os abort rules w =
     (if ss_tcp w = None then Inl (RuntimeError ''no TCP'')
      else
        bind_result (tcp_loop fuel A os (\<lambda>_. True) abort rules w) (\<lambda>(ended, rules, w).
          if \<not> ended then Inr (False, rules, w)
          else bind_result (Socket_shutdown os h_owner SHUT_RDWR w) (\<lambda>w. Inr (True, rules, w\<lparr>ss_tcp := None\<rparr>))))"

text \<open>\<open>CS144TCPSocket::connect\<close>: a short retransmission timeout, and a random port on 169.254.144.9.\<close>

definition CS144_connect ::
  "nat \<Rightarrow> 'k kernel \<Rightarrow> Address \<Rightarrow> WrappingInt32 \<Rightarrow> uint32 \<Rightarrow> (nat \<Rightarrow> bool) \<Rightarrow>
   ('k, FdAdapterBase) sponge_world Rule list \<Rightarrow> ('k, FdAdapterBase) sponge_world \<Rightarrow>
   (bool \<times> ('k, FdAdapterBase) sponge_world Rule list \<times> ('k, FdAdapterBase) sponge_world) result" where
  "CS144_connect fuel os address random random_port abort rules w =
     (let tcp_config = TCPConfig_default\<lparr>cfg_rt_timeout := 100\<rparr>;
          multiplexer_config = FdAdapterConfig_default\<lparr>fc_source := \<lparr>ad_ip = 0xa9fe9009, ad_port = ucast random_port\<rparr>,
            fc_destination := address\<rparr>
      in sponge_connect fuel tun_adapter os tcp_config random multiplexer_config abort rules w)"

section \<open>What the adapters leave alone\<close>

text \<open>
  The contract between the thread and its adapter: whatever the adapter does on its descriptor, the
  numbers of the descriptors, the other wrappers and the transfers on other descriptors stay.
\<close>

definition quiet :: "('k logging, 'y) io_scheme \<Rightarrow> ('k logging, 'z) io_scheme \<Rightarrow> bool" where
  "quiet io io' \<longleftrightarrow>
     (\<forall>d. fd_num io' d = fd_num io d) \<and> (\<forall>d. d \<noteq> h_datagram \<longrightarrow> io_fds io' d = io_fds io d) \<and>
     (\<forall>fd. fd \<noteq> fd_num io h_datagram \<longrightarrow>
        sent_on fd (io_log io') = sent_on fd (io_log io) \<and> received_on fd (io_log io') = received_on fd (io_log io))"

lemma quiet_refl [simp]: "quiet io io"
  by (simp add: quiet_def)

lemma quiet_trans: "quiet a b \<Longrightarrow> quiet b c \<Longrightarrow> quiet a c"
  by (simp add: quiet_def)

locale datagram_adapter =
  fixes A :: "('k logging, 'a) AdaptT"
  assumes read_quiet: "at_read A (logged os) a io = Inr (oseg, a', io') \<Longrightarrow> quiet io io'"
    and write_quiet: "at_write A (logged os) a seg io = Inr (a', io') \<Longrightarrow> quiet io io'"

lemma FileDescriptor_read_quiet:
  fixes io :: "'k logging io"
  assumes "FileDescriptor_read (logged os) h_datagram n io = Inr (data, io')"
  shows "quiet io io'"
proof -
  obtain r errno bs k where c: "sys_read os (fd_num io h_datagram) (min BUFFER_SIZE n) (fst (io_kernel io)) = ((r, errno, bs), k)"
    by (metis prod.exhaust)
  show ?thesis
    using assms c
    by (auto simp: FileDescriptor_read_def logged_def with_log_def split_beta Let_def bind_result_eq_Inr quiet_def
        io_log_def fd_num_def register_read_def on_fd_def split: if_splits)
qed

lemma write_round_quiet:
  fixes io :: "'k logging io"
  assumes "write_round (logged os) h_datagram buffer io = Inr (n, buffer', io')"
  shows "quiet io io'"
  using assms
  by (auto simp: write_round_def logged_def with_log_def split_beta Let_def bind_result_eq_Inr quiet_def
      io_log_def fd_num_def register_write_def on_fd_def split: if_splits)

lemma FileDescriptor_write_quiet:
  fixes io :: "'k logging io"
  assumes "FileDescriptor_write (logged os) h_datagram buffer write_all io = Inr (n, io')"
  shows "quiet io io'"
proof -
  have "write_loop (logged os) h_datagram buffer write_all t io = Inr (n, io') \<Longrightarrow> quiet io io'" for t
  proof (induction "length (concat buffer)" arbitrary: buffer t io rule: less_induct)
    case less
    obtain m buffer1 io1 where round: "write_round (logged os) h_datagram buffer io = Inr (m, buffer1, io1)"
      and rest: "(if write_all \<and> BufferViewList_size buffer1 \<noteq> 0
        then write_loop (logged os) h_datagram buffer1 write_all (add64 t m) io1 else Inr (add64 t m, io1)) = Inr (n, io')"
      using less.prems by (auto simp: write_loop.simps [of "logged os"] split: sum.splits)
    show ?case
    proof (cases "write_all \<and> BufferViewList_size buffer1 \<noteq> 0")
      case True
      have "length (concat buffer1) < length (concat buffer)"
        using write_round_progress [OF round] True by simp
      from less.hyps [OF this] rest True have "quiet io1 io'" by auto
      with write_round_quiet [OF round] show ?thesis by (rule quiet_trans)
    next
      case False
      with rest write_round_quiet [OF round] show ?thesis by auto
    qed
  qed
  with assms show ?thesis by (simp add: FileDescriptor_write_def)
qed

lemma UDPSocket_recv_quiet:
  fixes io :: "'k logging io"
  assumes "UDPSocket_recv (logged os) h_datagram mtu io = Inr (dg, io')"
  shows "quiet io io'"
  using assms
  by (auto simp: UDPSocket_recv_def logged_def with_log_def split_beta Let_def bind_result_eq_Inr quiet_def
      io_log_def fd_num_def register_read_def on_fd_def split: if_splits)

lemma UDPSocket_sendto_quiet:
  fixes io :: "'k logging io"
  assumes "UDPSocket_sendto (logged os) h_datagram dest payload io = Inr io'"
  shows "quiet io io'"
  using assms
  by (auto simp: UDPSocket_sendto_def sendmsg_helper_def logged_def with_log_def split_beta Let_def bind_result_eq_Inr
      quiet_def io_log_def fd_num_def register_write_def on_fd_def split: if_splits)

interpretation udp_port: datagram_adapter udp_adapter
  by unfold_locales
    (auto simp: udp_adapter_def udp_read_def udp_write_def bind_result_eq_Inr
      dest: UDPSocket_recv_quiet UDPSocket_sendto_quiet)

interpretation tun_port: datagram_adapter tun_adapter
  by unfold_locales
    (auto simp: tun_adapter_def tun_read_def tun_write_def bind_result_eq_Inr
      dest: FileDescriptor_read_quiet FileDescriptor_write_quiet)

lemma lossy_quiet:
  assumes "datagram_adapter A"
  shows "datagram_adapter (lossy_adapter rand A)"
proof
  fix os a io oseg a' io'
  assume "at_read (lossy_adapter rand A) (logged os) a io = Inr (oseg, a', io')"
  then show "quiet io io'"
    by (auto simp: lossy_adapter_def lossy_read_def bind_result_eq_Inr split_beta Let_def
        dest: datagram_adapter.read_quiet [OF assms])
next
  fix os a seg io a' io'
  assume "at_write (lossy_adapter rand A) (logged os) a seg io = Inr (a', io')"
  then show "quiet io io'"
    by (auto simp: lossy_adapter_def lossy_write_def bind_result_eq_Inr split_beta Let_def
        dest: datagram_adapter.write_quiet [OF assms] split: if_splits)
qed

interpretation lossy_udp_port: datagram_adapter "lossy_adapter rand udp_adapter" for rand
  by (rule lossy_quiet) (rule udp_port.datagram_adapter_axioms)

interpretation lossy_tun_port: datagram_adapter "lossy_adapter rand tun_adapter" for rand
  by (rule lossy_quiet) (rule tun_port.datagram_adapter_axioms)

section \<open>The thread refines the connection\<close>

text \<open>
  The simulation: the connection in the world is the result of operations on the connection the
  thread started with, fed with the bytes that came through the pipe, and the bytes put into the
  pipe are those read from it. Every write is accepted in full, and every segment handed to the
  connection was \<open>good\<close> in the state it arrived in, for any notion of \<open>good\<close> the adapter keeps.
\<close>

type_synonym seg_contract = "bytes \<times> TCPConnection \<Rightarrow> TCPSegment \<Rightarrow> bool"

fun thread_ok :: "seg_contract \<Rightarrow> bytes \<times> TCPConnection \<Rightarrow> conn_op \<Rightarrow> bool" where
  "thread_ok good wc (CSegment seg _ _) \<longleftrightarrow> good wc seg"
| "thread_ok good (W, c) (CWrite d) \<longleftrightarrow> fst (TCPConnection_write c d) = length d"
| "thread_ok good wc _ \<longleftrightarrow> True"

lemma allowed_snoc:
  "allowed step ok s es \<Longrightarrow> run step s es = Inr t \<Longrightarrow> ok t e \<Longrightarrow> allowed step ok s (es @ [e])"
proof (induction es arbitrary: s)
  case Nil
  then show ?case by (auto split: sum.splits)
next
  case (Cons f es)
  then show ?case by (cases "step s f") auto
qed

definition simulates :: "seg_contract \<Rightarrow> TCPConnection \<Rightarrow> bytes \<Rightarrow> bytes \<Rightarrow> TCPConnection \<Rightarrow> bool" where
  "simulates good c0 got put c \<longleftrightarrow>
     (\<exists>es. run conn_step ([], c0) es = Inr (got, c) \<and> put = conn_reads ([], c0) es \<and>
        allowed conn_step (thread_ok good) ([], c0) es)"

lemma simulates_refl: "simulates good c0 [] [] c0"
  unfolding simulates_def by (intro exI [of _ "[]"]) simp

lemma simulates_step:
  assumes "simulates good c0 got put c" "conn_step (got, c) e = Inr (got', c')" "thread_ok good (got, c) e"
  shows "simulates good c0 got' (put @ conn_read (got, c) e) c'"
proof -
  obtain es where es: "run conn_step ([], c0) es = Inr (got, c)" "put = conn_reads ([], c0) es"
    "allowed conn_step (thread_ok good) ([], c0) es"
    using assms(1) by (auto simp: simulates_def)
  with assms(2) allowed_snoc [OF es(3,1) assms(3)] show ?thesis
    unfolding simulates_def by (intro exI [of _ "es @ [e]"]) (simp add: run_append conn_reads_snoc)
qed

definition thread_inv ::
  "'k kernel \<Rightarrow> (handle \<Rightarrow> int) \<Rightarrow> int \<Rightarrow> seg_contract \<Rightarrow> TCPConnection \<Rightarrow> ('k logging, 'a) sponge_world \<Rightarrow> bool" where
  "thread_inv os nums pipe good c0 w \<longleftrightarrow>
     kernel_ok os \<and> (\<forall>d. fd_num w d = nums d) \<and> nums h_thread = pipe \<and> nums h_datagram \<noteq> pipe \<and>
     (\<exists>c. ss_tcp w = Some c \<and> simulates good c0 (received_on pipe (io_log w)) (sent_on pipe (io_log w)) c)"

lemma thread_inv_tcp:
  assumes "thread_inv os nums pipe good c0 w"
  obtains c where "ss_tcp w = Some c" "simulates good c0 (received_on pipe (io_log w)) (sent_on pipe (io_log w)) c"
  using assms by (auto simp: thread_inv_def)

lemma thread_inv_update:
  assumes "thread_inv os nums pipe good c0 w" "quiet w w'" "ss_tcp w' = Some c'"
    and "ss_tcp w = Some c" "conn_step (received_on pipe (io_log w), c) e = Inr (received_on pipe (io_log w), c')"
    and "conn_read (received_on pipe (io_log w), c) e = []" "thread_ok good (received_on pipe (io_log w), c) e"
  shows "thread_inv os nums pipe good c0 w'"
proof -
  have "simulates good c0 (received_on pipe (io_log w)) (sent_on pipe (io_log w)) c'"
    using assms simulates_step [OF _ assms(5,7), of c0 "sent_on pipe (io_log w)"] by (auto simp: thread_inv_def)
  then show ?thesis using assms(1-3) by (auto simp: thread_inv_def quiet_def)
qed

lemma thread_inv_quiet:
  "thread_inv os nums pipe good c0 w \<Longrightarrow> quiet w w' \<Longrightarrow> ss_tcp w' = ss_tcp w \<Longrightarrow> thread_inv os nums pipe good c0 w'"
  by (auto simp: thread_inv_def quiet_def)

text \<open>Rule 2: what is read from the pipe is written to the connection.\<close>

lemma end_outbound_inv:
  assumes "thread_inv os nums pipe good c0 w" "end_outbound w = Inr w'"
  shows "thread_inv os nums pipe good c0 w'"
proof -
  obtain c where c: "ss_tcp w = Some c" using assms(1) by (rule thread_inv_tcp)
  have w': "w' = w\<lparr>ss_tcp := Some (end_input_stream c), ss_outbound_shutdown := True\<rparr>"
    using assms(2) c by (simp add: end_outbound_def with_tcp_def)
  show ?thesis
    using c by (intro thread_inv_update [OF assms(1), of _ "end_input_stream c" c CEnd])
      (simp_all add: w' quiet_def io_log_def fd_num_def)
qed

lemma rule_pipe_in_inv:
  assumes inv: "thread_inv os nums pipe good c0 w" and run: "ru_callback (rule_pipe_in (logged os)) w = Inr w'"
  shows "thread_inv os nums pipe good c0 w'"
proof -
  have ok: "kernel_ok os" and fd: "fd_num w h_thread = pipe" using inv by (simp_all add: thread_inv_def)
  obtain c where c: "ss_tcp w = Some c"
    and sim: "simulates good c0 (received_on pipe (io_log w)) (sent_on pipe (io_log w)) c"
    using inv by (rule thread_inv_tcp)
  obtain data w1 where rd: "FileDescriptor_read (logged os) h_thread (remaining_outbound_capacity c) w = Inr (data, w1)"
    using run c by (auto simp: rule_pipe_in_def with_tcp_def bind_result_eq_Inr)
  let ?w2 = "w1\<lparr>ss_tcp := Some (snd (TCPConnection_write c data))\<rparr>"
  have len: "fst (TCPConnection_write c data) = length data"
    and rest: "(if fd_eof ?w2 h_thread then end_outbound ?w2 else Inr ?w2) = Inr w'"
    using run c rd by (auto simp: rule_pipe_in_def with_tcp_def split_beta Let_def split: if_splits)
  obtain k where w1: "w1 = w\<lparr>io_kernel := (k, io_log w @ [Received (fd_num w h_thread) data]),
              io_fds := (io_fds w)(h_thread := (io_fds w h_thread)
                \<lparr>fw_eof := fd_eof w h_thread \<or> (remaining_outbound_capacity c > 0 \<and> data = []),
                 fw_read_count := fd_read_count w h_thread + 1\<rparr>)\<rparr>"
    by (rule FileDescriptor_read_logged [OF ok rd])
  have "simulates good c0 (received_on pipe (io_log w) @ data) (sent_on pipe (io_log w)) (snd (TCPConnection_write c data))"
    using simulates_step [OF sim, of "CWrite data"] len by simp
  then have "thread_inv os nums pipe good c0 ?w2"
    using inv fd by (simp add: thread_inv_def w1 io_log_def fd_num_def handle_defs)
  with rest show ?thesis by (auto intro: end_outbound_inv split: if_splits)
qed

text \<open>Rule 3: what is written to the pipe is read from the inbound stream.\<close>

lemma rule_pipe_out_inv:
  assumes inv: "thread_inv os nums pipe good c0 w" and run: "ru_callback (rule_pipe_out (logged os)) w = Inr w'"
  shows "thread_inv os nums pipe good c0 w'"
proof -
  have ok: "kernel_ok os" and fd: "fd_num w h_thread = pipe" using inv by (simp_all add: thread_inv_def)
  obtain c where c: "ss_tcp w = Some c"
    and sim: "simulates good c0 (received_on pipe (io_log w)) (sent_on pipe (io_log w)) c"
    using inv by (rule thread_inv_tcp)
  let ?buf = "ByteStream_peek_output (inbound_stream c) (min 65536 (ByteStream_buffer_size (inbound_stream c)))"
  obtain n w1 where wr: "FileDescriptor_write (logged os) h_thread (BufferViewList_of_string ?buf) False w = Inr (n, w1)"
    using run c by (auto simp: rule_pipe_out_def with_tcp_def bind_result_eq_Inr Let_def)
  let ?c = "read_inbound c n" and ?w2 = "w1\<lparr>ss_tcp := Some (read_inbound c n)\<rparr>"
  have rest: "(if ByteStream_eof (inbound_stream ?c) \<or> ByteStream_has_error (inbound_stream ?c)
       then bind_result (Socket_shutdown (logged os) h_thread SHUT_WR ?w2) (\<lambda>w. Inr (w\<lparr>ss_inbound_shutdown := True\<rparr>))
       else Inr ?w2) = Inr w'"
    using run c wr by (simp add: rule_pipe_out_def with_tcp_def Let_def)
  have view: "concat (BufferViewList_of_string ?buf) = ?buf" by (simp add: BufferViewList_of_string_def)
  have small: "length (concat (BufferViewList_of_string ?buf)) < 2 ^ 63"
    unfolding view by (simp add: ByteStream_peek_output_def)
  obtain k bss cnt where n: "n \<le> length (concat (BufferViewList_of_string ?buf))"
    and bss: "concat bss = take n (concat (BufferViewList_of_string ?buf))"
    and w1: "w1 = w\<lparr>io_kernel := (k, io_log w @ map (Sent (fd_num w h_thread)) bss),
            io_fds := (io_fds w)(h_thread := (io_fds w h_thread)\<lparr>fw_write_count := fd_write_count w h_thread + cnt\<rparr>)\<rparr>"
    by (rule FileDescriptor_write_logged [OF ok small wr])
  have "take n ?buf = ByteStream_peek_output (inbound_stream c) n"
    using n unfolding view by (simp add: ByteStream_peek_output_def min_absorb1 min_absorb2)
  then have "simulates good c0 (received_on pipe (io_log w)) (sent_on pipe (io_log w) @ concat bss) ?c"
    using simulates_step [OF sim, of "CRead n"] bss view by simp
  then have inv2: "thread_inv os nums pipe good c0 ?w2"
    using inv fd by (simp add: thread_inv_def w1 io_log_def fd_num_def handle_defs)
  show ?thesis
  proof (cases "ByteStream_eof (inbound_stream ?c) \<or> ByteStream_has_error (inbound_stream ?c)")
    case False
    with rest inv2 show ?thesis by auto
  next
    case True
    then obtain w3 where sh: "Socket_shutdown (logged os) h_thread SHUT_WR ?w2 = Inr w3" and w': "w' = w3\<lparr>ss_inbound_shutdown := True\<rparr>"
      using rest by (auto simp: bind_result_eq_Inr)
    obtain k' evs where evs: "evs = [] \<or> evs = [Shut (fd_num ?w2 h_thread) SHUT_WR]"
      and w3: "w3 = ?w2\<lparr>io_kernel := (k', io_log ?w2 @ evs),
              io_fds := (io_fds ?w2)(h_thread := (io_fds ?w2 h_thread)\<lparr>fw_write_count := fd_write_count ?w2 h_thread + 1\<rparr>)\<rparr>"
      by (rule Socket_shutdown_logged [OF sh])
    have log: "received_on pipe (io_log w3) = received_on pipe (io_log ?w2)" "sent_on pipe (io_log w3) = sent_on pipe (io_log ?w2)"
      using evs by (auto simp: w3 io_log_def)
    have "fd_num w3 d = fd_num ?w2 d" for d by (simp add: w3 fd_num_def)
    with inv2 log show ?thesis by (auto simp: w' thread_inv_def io_log_def fd_num_def w3)
  qed
qed

lemma quiet_set_io:
  "quiet (io.truncate w) io \<Longrightarrow> quiet w (set_io (w\<lparr>ss_adapter := a\<rparr>) io)"
  by (simp add: quiet_def set_io_def io_log_def fd_num_def io.defs)

text \<open>
  The segments the adapter may deliver next are \<open>good\<close>: the assumption on the network and the peer.
\<close>

definition delivers ::
  "seg_contract \<Rightarrow> ('k logging, 'a) AdaptT \<Rightarrow> 'k kernel \<Rightarrow> int \<Rightarrow> ('k logging, 'a) sponge_world \<Rightarrow> bool" where
  "delivers good A os pipe w \<longleftrightarrow>
     (\<forall>c seg w'. ss_tcp w = Some c \<longrightarrow> adapter_read_world A (logged os) w = Inr (Some seg, w') \<longrightarrow>
        good (received_on pipe (io_log w), c) seg)"

context datagram_adapter
begin

lemma adapter_read_world_quiet:
  assumes "adapter_read_world A (logged os) w = Inr (oseg, w')"
  shows "quiet w w'" "ss_tcp w' = ss_tcp w"
  using assms
  by (auto simp: adapter_read_world_def bind_result_eq_Inr set_io_def [of "w\<lparr>ss_adapter := a\<rparr>" for a]
      dest!: read_quiet dest: quiet_set_io)

lemma adapter_write_world_quiet:
  assumes "adapter_write_world A (logged os) seg w = Inr w'"
  shows "quiet w w'" "ss_tcp w' = ss_tcp w"
  using assms
  by (auto simp: adapter_write_world_def bind_result_eq_Inr set_io_def [of "w\<lparr>ss_adapter := a\<rparr>" for a]
      dest!: write_quiet dest: quiet_set_io)

lemma rule_datagram_in_inv:
  assumes inv: "thread_inv os nums pipe good c0 w" and env: "delivers good A os pipe w" and run: "ru_callback (rule_datagram_in A (logged os)) w = Inr w'"
  shows "thread_inv os nums pipe good c0 w'"
proof -
  obtain oseg w1 where rd: "adapter_read_world A (logged os) w = Inr (oseg, w1)"
    using run by (auto simp: rule_datagram_in_def bind_result_eq_Inr)
  note q = adapter_read_world_quiet [OF rd]
  have inv1: "thread_inv os nums pipe good c0 w1" using inv q by (rule thread_inv_quiet)
  obtain c where c: "ss_tcp w1 = Some c" using inv1 by (rule thread_inv_tcp)
  obtain w2 where w2: "(case oseg of None \<Rightarrow> Inr w1
      | Some seg \<Rightarrow> with_tcp w1 (\<lambda>c. bind_result (TCPConnection_segment_received c seg) (\<lambda>c. Inr (w1\<lparr>ss_tcp := Some c\<rparr>)))) = Inr w2"
    and w': "w' = w2 \<or> w' = w2\<lparr>ss_fully_acked := True\<rparr>"
    using run rd by (auto simp: rule_datagram_in_def bind_result_eq_Inr with_tcp_def split: option.splits if_splits)
  have "thread_inv os nums pipe good c0 w2"
  proof (cases oseg)
    case None
    with w2 inv1 show ?thesis by simp
  next
    case (Some seg)
    then obtain c' where r: "TCPConnection_segment_received c seg = Inr c'" and eq: "w2 = w1\<lparr>ss_tcp := Some c'\<rparr>"
      using w2 c by (auto simp: with_tcp_def bind_result_eq_Inr)
    have "received_on pipe (io_log w1) = received_on pipe (io_log w)"
      using q(1) inv by (auto simp: quiet_def thread_inv_def)
    then have "good (received_on pipe (io_log w1), c) seg"
      using env rd q(2) c Some by (auto simp: delivers_def)
    then show ?thesis
      using c r by (intro thread_inv_update [OF inv1, of _ c' c "CSegment seg 0 0"])
        (simp_all add: eq quiet_def io_log_def fd_num_def keeping_def)
  qed
  with w' show ?thesis by (auto simp: thread_inv_def io_log_def fd_num_def)
qed

lemma flush_segments_quiet:
  "flush_segments A (logged os) queue w = Inr w' \<Longrightarrow> ss_tcp w = Some c \<Longrightarrow> cn_segments_out c = queue \<Longrightarrow>
     quiet w w' \<and> ss_tcp w' = Some (c\<lparr>cn_segments_out := []\<rparr>)"
proof (induction queue arbitrary: w c)
  case Nil
  then show ?case by (cases c) auto
next
  case (Cons seg queue)
  obtain w1 where w1: "adapter_write_world A (logged os) seg w = Inr w1"
    and rest: "bind_result (with_tcp w1 (\<lambda>c. Inr (w1\<lparr>ss_tcp := Some (c\<lparr>cn_segments_out := queue\<rparr>)\<rparr>)))
      (flush_segments A (logged os) queue) = Inr w'"
    using Cons.prems(1) by (auto simp: bind_result_eq_Inr)
  note q = adapter_write_world_quiet [OF w1]
  let ?w2 = "w1\<lparr>ss_tcp := Some (c\<lparr>cn_segments_out := queue\<rparr>)\<rparr>"
  have "flush_segments A (logged os) queue ?w2 = Inr w'" using rest q(2) Cons.prems(2) by (simp add: with_tcp_def)
  from Cons.IH [OF this, of "c\<lparr>cn_segments_out := queue\<rparr>"]
  have h: "quiet ?w2 w'" "ss_tcp w' = Some (c\<lparr>cn_segments_out := []\<rparr>)" by simp_all
  have "quiet w ?w2" using q(1) by (simp add: quiet_def io_log_def fd_num_def)
  with h show ?case by (auto intro: quiet_trans)
qed

lemma rule_datagram_out_inv:
  assumes inv: "thread_inv os nums pipe good c0 w" and run: "ru_callback (rule_datagram_out A (logged os)) w = Inr w'"
  shows "thread_inv os nums pipe good c0 w'"
proof -
  obtain c where c: "ss_tcp w = Some c" using inv by (rule thread_inv_tcp)
  have "quiet w w' \<and> ss_tcp w' = Some (c\<lparr>cn_segments_out := []\<rparr>)"
    using run c by (intro flush_segments_quiet) (simp_all add: rule_datagram_out_def with_tcp_def)
  then show ?thesis
    using c by (intro thread_inv_update [OF inv, of _ "c\<lparr>cn_segments_out := []\<rparr>" c CFlush]) simp_all
qed

lemma callback_inv:
  assumes inv: "thread_inv os nums pipe good c0 w" and env: "delivers good A os pipe w"
    and r: "r \<in> set (thread_rules A (logged os))" and call: "ru_callback r w = Inr w'"
  shows "thread_inv os nums pipe good c0 w'"
  using r call rule_datagram_in_inv [OF inv env] rule_pipe_in_inv [OF inv] rule_pipe_out_inv [OF inv] rule_datagram_out_inv [OF inv]
  by (auto simp: thread_rules_def)

lemma cancel_inv:
  assumes inv: "thread_inv os nums pipe good c0 w"
    and r: "r \<in> set (thread_rules A (logged os))" and call: "ru_cancel r w = Inr w'"
  shows "thread_inv os nums pipe good c0 w'"
  using r call inv end_outbound_inv [OF inv]
  by (auto simp: thread_rules_def rule_datagram_in_def rule_pipe_in_def rule_pipe_out_def rule_datagram_out_def)

end

text \<open>
  The same as a step relation, with the opening of the connection, by \<open>listen_and_accept\<close> or by
  \<open>connect\<close>, as its first step: an action of the event loop, a look at the clock, or a tick.
\<close>

definition opened_conn :: "bool \<Rightarrow> TCPConfig \<Rightarrow> WrappingInt32 \<Rightarrow> TCPConnection" where
  "opened_conn listen cfg rnd = (if listen then TCPConnection_new cfg rnd else connect (TCPConnection_new cfg rnd))"

inductive socket_step ::
  "('k, 'a) AdaptT \<Rightarrow> 'k kernel \<Rightarrow> TCPConfig \<Rightarrow> WrappingInt32 \<Rightarrow> FdAdapterConfig \<Rightarrow> bool \<Rightarrow>
   ('k, 'a) sponge_world \<Rightarrow> ('k, 'a) sponge_world \<Rightarrow> bool"
  for A os cfg rnd c_ad listen where
  step_connect: "\<not> listen \<Longrightarrow> ss_tcp w = None \<Longrightarrow> socket_step A os cfg rnd c_ad listen w
     (w\<lparr>ss_adapter := at_set_config A (ss_adapter w) c_ad, ss_tcp := Some (connect (TCPConnection_new cfg rnd))\<rparr>)"
| step_listen: "listen \<Longrightarrow> ss_tcp w = None \<Longrightarrow> socket_step A os cfg rnd c_ad listen w
     (w\<lparr>ss_tcp := Some (TCPConnection_new cfg rnd),
        ss_adapter := at_set_listening A (at_set_config A (ss_adapter w) c_ad) True\<rparr>)"
| step_rule: "acts os (set (thread_rules A os)) w w' \<Longrightarrow> socket_step A os cfg rnd c_ad listen w w'"
| step_clock: "sys_clock os (io_kernel w) = (t, k) \<Longrightarrow> socket_step A os cfg rnd c_ad listen w (w\<lparr>io_kernel := k\<rparr>)"
| step_tick: "ss_tcp w = Some c \<Longrightarrow> TCPConnection_tick c ms = Inr c' \<Longrightarrow> socket_step A os cfg rnd c_ad listen w
     (w\<lparr>ss_tcp := Some c', ss_adapter := at_tick A (ss_adapter w) ms\<rparr>)"

abbreviation socket_reach ::
  "('k, 'a) AdaptT \<Rightarrow> 'k kernel \<Rightarrow> TCPConfig \<Rightarrow> WrappingInt32 \<Rightarrow> FdAdapterConfig \<Rightarrow> bool \<Rightarrow>
   ('k, 'a) sponge_world \<Rightarrow> ('k, 'a) sponge_world \<Rightarrow> bool" where
  "socket_reach A os cfg rnd c_ad listen \<equiv> (socket_step A os cfg rnd c_ad listen)\<^sup>*\<^sup>*"

text \<open>The simulation holds in every world reached, if the adapter delivers good segments in all of them.\<close>

definition thread_run ::
  "('k logging, 'a) AdaptT \<Rightarrow> 'k kernel \<Rightarrow> TCPConfig \<Rightarrow> WrappingInt32 \<Rightarrow> FdAdapterConfig \<Rightarrow> bool \<Rightarrow> int \<Rightarrow> seg_contract \<Rightarrow>
   ('k logging, 'a) sponge_world \<Rightarrow> ('k logging, 'a) sponge_world \<Rightarrow> bool" where
  "thread_run A os cfg rnd c_ad listen pipe good w0 w \<longleftrightarrow>
     socket_reach A (logged os) cfg rnd c_ad listen w0 w \<and>
     ((\<forall>w'. socket_reach A (logged os) cfg rnd c_ad listen w0 w' \<longrightarrow> delivers good A os pipe w') \<longrightarrow>
        thread_inv os (fd_num w0) pipe good (opened_conn listen cfg rnd) w)"

lemma thread_run_step:
  assumes "thread_run A os cfg rnd c_ad listen pipe good w0 w" "socket_step A (logged os) cfg rnd c_ad listen w w'"
    and "thread_inv os (fd_num w0) pipe good (opened_conn listen cfg rnd) w \<Longrightarrow> delivers good A os pipe w \<Longrightarrow>
      thread_inv os (fd_num w0) pipe good (opened_conn listen cfg rnd) w'"
  shows "thread_run A os cfg rnd c_ad listen pipe good w0 w'"
  using assms unfolding thread_run_def by (meson rtranclp.rtrancl_into_rtrancl)

sublocale datagram_adapter \<subseteq> thread: event_program "logged os" "set (thread_rules A (logged os))"
    "thread_run A os cfg rnd c_ad listen pipe good w0"
  for os cfg rnd c_ad listen pipe good w0
proof
  fix r and w w' :: "('k logging, 'a) sponge_world"
  assume r: "r \<in> set (thread_rules A (logged os))" and run: "thread_run A os cfg rnd c_ad listen pipe good w0 w"
  show "thread_run A os cfg rnd c_ad listen pipe good w0 w'" if call: "ru_callback r w = Inr w'"
    by (rule thread_run_step [OF run step_rule [OF act_callback [OF r call]]]) (rule callback_inv [OF _ _ r call])
  show "thread_run A os cfg rnd c_ad listen pipe good w0 w'" if call: "ru_cancel r w = Inr w'"
    by (rule thread_run_step [OF run step_rule [OF act_cancel [OF r call]]]) (rule cancel_inv [OF _ r call])
next
  fix w :: "('k logging, 'a) sponge_world" and pfds ms res k
  assume run: "thread_run A os cfg rnd c_ad listen pipe good w0 w" and call: "sys_poll (logged os) pfds ms (io_kernel w) = (res, k)"
  then show "thread_run A os cfg rnd c_ad listen pipe good w0 (w\<lparr>io_kernel := k\<rparr>)"
    by (intro thread_run_step [OF run step_rule [OF act_kernel [OF call]]])
      (auto simp: thread_inv_def io_log_def fd_num_def logged_def silent_def with_log_def split_beta Let_def)
qed

lemma logged_clock:
  obtains t k where "sys_clock (logged os) (io_kernel w) = (t, (k, io_log w))"
  by (simp add: logged_def silent_def with_log_def split_beta io_log_def)

context datagram_adapter
begin

lemma clock_run:
  assumes "thread_run A os cfg rnd c_ad listen pipe good w0 w" "sys_clock (logged os) (io_kernel w) = (t, (k, io_log w))"
  shows "thread_run A os cfg rnd c_ad listen pipe good w0 (w\<lparr>io_kernel := (k, io_log w)\<rparr>)"
  using assms(1) step_clock [OF assms(2)]
  by (rule thread_run_step) (auto intro: thread_inv_quiet simp: quiet_def io_log_def fd_num_def)

lemma tick_run:
  assumes "thread_run A os cfg rnd c_ad listen pipe good w0 w" "ss_tcp w = Some c" "TCPConnection_tick c ms = Inr c'"
  shows "thread_run A os cfg rnd c_ad listen pipe good w0 (w\<lparr>ss_tcp := Some c', ss_adapter := at_tick A (ss_adapter w) ms\<rparr>)"
  using assms(1) step_tick [OF assms(2,3)]
proof (rule thread_run_step)
  assume inv: "thread_inv os (fd_num w0) pipe good (opened_conn listen cfg rnd) w"
  show "thread_inv os (fd_num w0) pipe good (opened_conn listen cfg rnd)
      (w\<lparr>ss_tcp := Some c', ss_adapter := at_tick A (ss_adapter w) ms\<rparr>)"
    by (rule thread_inv_update [OF inv _ _ assms(2), of _ c' "CTick ms"])
      (simp_all add: assms(3) quiet_def io_log_def fd_num_def keeping_def)
qed

lemma iteration_run:
  assumes inv: "thread_run A os cfg rnd c_ad listen pipe good w0 w" and rs: "set rs \<subseteq> set (thread_rules A (logged os))"
    and run: "tcp_iteration A (logged os) ab t rs w = Inr (go_on, t', rs', w')"
  shows "thread_run A os cfg rnd c_ad listen pipe good w0 w' \<and> set rs' \<subseteq> set (thread_rules A (logged os))"
proof -
  obtain res rs1 w1 where round: "wait_next_event (logged os) rs TCP_TICK_MS w = Inr (res, rs1, w1)"
    using run by (auto simp: tcp_iteration_def bind_result_eq_Inr)
  have r: "thread_run A os cfg rnd c_ad listen pipe good w0 w1" "set rs1 \<subseteq> set (thread_rules A (logged os))"
    using thread.round_law [OF inv rs round] by auto
  obtain t2 k where clk: "sys_clock (logged os) (io_kernel w1) = (t2, (k, io_log w1))" by (rule logged_clock)
  let ?w2 = "w1\<lparr>io_kernel := (k, io_log w1)\<rparr>"
  consider (same) "w' = w1" "rs' = rs1"
    | (tick) c c' ms where "ss_tcp w1 = Some c" "TCPConnection_tick c ms = Inr c'" "rs' = rs1"
        "w' = ?w2\<lparr>ss_tcp := Some c', ss_adapter := at_tick A (ss_adapter ?w2) ms\<rparr>"
  proof (cases "res = Exit \<or> ab")
    case True
    with run round show thesis by (intro same) (auto simp: tcp_iteration_def)
  next
    case False
    with run round obtain c where c: "ss_tcp w1 = Some c" by (auto simp: tcp_iteration_def with_tcp_def split: option.splits)
    show thesis
    proof (cases "TCPConnection_active c")
      case True
      with False run round c clk show thesis
        by (intro tick [where ms = "sub64 t2 t" and c = c and c' = "the (ss_tcp w')"])
          (auto simp: tcp_iteration_def with_tcp_def bind_result_eq_Inr Let_def)
    next
      case inactive: False
      with False run round c show thesis by (intro same) (auto simp: tcp_iteration_def with_tcp_def)
    qed
  qed
  then show ?thesis
  proof cases
    case same
    with r show ?thesis by simp
  next
    case tick
    have "thread_run A os cfg rnd c_ad listen pipe good w0 w'"
      unfolding tick(4) by (rule tick_run [OF clock_run [OF r(1) clk]]) (use tick in simp_all)
    with tick r show ?thesis by simp
  qed
qed

lemma loop_run:
  assumes "thread_run A os cfg rnd c_ad listen pipe good w0 w" "set rs \<subseteq> set (thread_rules A (logged os))"
    and "tcp_loop_from fuel A (logged os) cond ab t rs w = Inr (ended, rs', w')"
  shows "thread_run A os cfg rnd c_ad listen pipe good w0 w' \<and> set rs' \<subseteq> set (thread_rules A (logged os))"
  using assms
proof (induction fuel arbitrary: t rs w)
  case 0
  then show ?case by simp
next
  case (Suc fuel)
  show ?case
  proof (cases "tcp_is w cond")
    case False
    with Suc.prems show ?thesis by simp
  next
    case True
    then obtain go_on t1 rs1 w1 where it: "tcp_iteration A (logged os) (ab fuel) t rs w = Inr (go_on, t1, rs1, w1)"
      and rest: "(if go_on then tcp_loop_from fuel A (logged os) cond ab t1 rs1 w1 else Inr (True, rs1, w1)) = Inr (ended, rs', w')"
      using Suc.prems(3) by (auto simp: bind_result_eq_Inr)
    have "thread_run A os cfg rnd c_ad listen pipe good w0 w1 \<and> set rs1 \<subseteq> set (thread_rules A (logged os))"
      by (rule iteration_run [OF Suc.prems(1,2) it])
    with rest Suc.IH [of w1 rs1 t1] show ?thesis by (cases go_on) auto
  qed
qed

lemma tcp_loop_run:
  assumes "thread_run A os cfg rnd c_ad listen pipe good w0 w" "set rs \<subseteq> set (thread_rules A (logged os))"
    and "tcp_loop fuel A (logged os) cond ab rs w = Inr (ended, rs', w')"
  shows "thread_run A os cfg rnd c_ad listen pipe good w0 w' \<and> set rs' \<subseteq> set (thread_rules A (logged os))"
proof -
  obtain t k where clk: "sys_clock (logged os) (io_kernel w) = (t, (k, io_log w))" by (rule logged_clock)
  from clock_run [OF assms(1) clk] show ?thesis
    by (rule loop_run [OF _ assms(2)]) (use assms(3) clk in \<open>simp add: tcp_loop_def Let_def\<close>)
qed

text \<open>Opening a socket that has carried nothing yet.\<close>

lemma opened_run:
  assumes ok: "kernel_ok os" and fds: "fd_num w h_thread = pipe" "fd_num w h_datagram \<noteq> pipe" and log: "io_log w = []"
    and opened: "(if listen then listen_and_accept else sponge_connect) fuel A (logged os) cfg rnd c_ad ab [] w = Inr (ended, rs, w1)"
  shows "thread_run A os cfg rnd c_ad listen pipe good w w1 \<and> set rs \<subseteq> set (thread_rules A (logged os))"
proof -
  let ?c0 = "TCPConnection_new cfg rnd"
  let ?lw = "w\<lparr>ss_tcp := Some ?c0, ss_adapter := at_set_listening A (at_set_config A (ss_adapter w) c_ad) True\<rparr>"
    and ?cw = "w\<lparr>ss_adapter := at_set_config A (ss_adapter w) c_ad, ss_tcp := Some (connect ?c0)\<rparr>"
  have "ss_tcp w = None" using opened by (auto simp: sponge_connect_def listen_and_accept_def split: if_splits)
  then have step: "socket_step A (logged os) cfg rnd c_ad listen w (if listen then ?lw else ?cw)"
    by (cases listen) (auto intro: step_listen step_connect)
  moreover have "thread_inv os (fd_num w) pipe good (opened_conn listen cfg rnd) (if listen then ?lw else ?cw)"
    using ok fds log by (cases listen) (simp_all add: opened_conn_def thread_inv_def io_log_def fd_num_def simulates_refl)
  ultimately have run: "thread_run A os cfg rnd c_ad listen pipe good w (if listen then ?lw else ?cw)"
    by (auto simp: thread_run_def)
  show ?thesis
  proof (cases listen)
    case True
    with opened have loop: "tcp_loop fuel A (logged os) accepting ab (thread_rules A (logged os)) ?lw = Inr (ended, rs, w1)"
      by (simp add: listen_and_accept_def initialize_TCP_def Let_def split: if_splits)
    from run True have "thread_run A os cfg rnd c_ad listen pipe good w ?lw" by simp
    from tcp_loop_run [OF this subset_refl loop] show ?thesis .
  next
    case False
    with opened have loop: "tcp_loop fuel A (logged os) (\<lambda>c. TCPState_eq (TCPConnection_state c) (official SYN_SENT)) ab
        (thread_rules A (logged os)) ?cw = Inr (ended, rs, w1)"
      by (simp add: sponge_connect_def initialize_TCP_def with_tcp_def Let_def split: if_splits)
    from run False have "thread_run A os cfg rnd c_ad listen pipe good w ?cw" by simp
    from tcp_loop_run [OF this subset_refl loop] show ?thesis .
  qed
qed

lemma life_run:
  assumes "kernel_ok os" "fd_num w h_thread = pipe" "fd_num w h_datagram \<noteq> pipe" "io_log w = []"
    and "(if listen then listen_and_accept else sponge_connect) fuel A (logged os) cfg rnd c_ad ab [] w = Inr (ended, rs, w1)"
    and "tcp_loop fuel' A (logged os) cond ab' rs w1 = Inr (ended', rs', w2)"
    and "\<And>w'. socket_reach A (logged os) cfg rnd c_ad listen w w' \<Longrightarrow> delivers good A os pipe w'"
  shows "\<exists>c. ss_tcp w2 = Some c \<and>
    simulates good (opened_conn listen cfg rnd) (received_on pipe (io_log w2)) (sent_on pipe (io_log w2)) c"
proof -
  have "thread_run A os cfg rnd c_ad listen pipe good w w1 \<and> set rs \<subseteq> set (thread_rules A (logged os))"
    by (rule opened_run [OF assms(1-5)])
  with tcp_loop_run [OF _ _ assms(6)] have "thread_run A os cfg rnd c_ad listen pipe good w w2" by blast
  with assms(7) show ?thesis by (auto simp: thread_run_def thread_inv_def)
qed

end

section \<open>Properties\<close>

text \<open>
  Claim C8. The thread refines the connection. Open a socket over UDP or over a TUN device, by
  \<open>connect\<close> or by \<open>listen_and_accept\<close>, and let the thread's loop run for any number of iterations: the
  \<open>TCPConnection\<close> it holds is the result of a sequence of \<open>TCPConnection\<close>'s own operations, the bytes
  written to it are exactly the bytes the thread has read from the owner's pipe, and the bytes the
  thread has written to that pipe are exactly the bytes read from its inbound stream.
\<close>

theorem thread_refines_connection:
  assumes "A = udp_adapter \<or> A = tun_adapter"
    and "kernel_ok os" "fd_num w h_thread = pipe" "fd_num w h_datagram \<noteq> pipe" "io_log w = []"
    and "sponge_connect fuel A (logged os) cfg rnd c_ad ab [] w = Inr (ended, rules, w1) \<or>
      listen_and_accept fuel A (logged os) cfg rnd c_ad ab [] w = Inr (ended, rules, w1)"
    and "tcp_loop fuel' A (logged os) (\<lambda>_. True) ab' rules w1 = Inr (ended', rules', w2)"
  shows "\<exists>es c. ss_tcp w2 = Some c \<and>
    run conn_step ([], TCPConnection_new cfg rnd) es = Inr (received_on pipe (io_log w2), c) \<and>
    sent_on pipe (io_log w2) = conn_reads ([], TCPConnection_new cfg rnd) es"
proof -
  have ad: "datagram_adapter A" using assms(1) udp_port.datagram_adapter_axioms tun_port.datagram_adapter_axioms by auto
  obtain listen where opened: "(if listen then listen_and_accept else sponge_connect) fuel A (logged os) cfg rnd c_ad ab [] w =
      Inr (ended, rules, w1)"
    using assms(6) that [of True] that [of False] unfolding if_True if_False by blast
  from datagram_adapter.life_run [OF ad assms(2-5) opened assms(7), of "\<lambda>_ _. True"]
  obtain c es where c: "ss_tcp w2 = Some c"
    and es: "run conn_step ([], opened_conn listen cfg rnd) es = Inr (received_on pipe (io_log w2), c)"
      "sent_on pipe (io_log w2) = conn_reads ([], opened_conn listen cfg rnd) es"
    by (auto simp: delivers_def simulates_def)
  from c es show ?thesis
    by (intro exI [of _ "if listen then es else CConnect # es"] exI [of _ c]) (cases listen; simp add: opened_conn_def)
qed

lemma thread_rule_fields:
  "ru_fd (rule_datagram_in A os) = h_datagram" "ru_direction (rule_datagram_in A os) = In"
  "ru_callback (rule_datagram_in A os) w = (bind_result (adapter_read_world A os w) (\<lambda>(seg, w).
        bind_result
          (case seg of
             None \<Rightarrow> Inr w
           | Some seg \<Rightarrow> with_tcp w (\<lambda>c.
               bind_result (TCPConnection_segment_received c seg) (\<lambda>c. Inr (w\<lparr>ss_tcp := Some c\<rparr>)))) (\<lambda>w.
        with_tcp w (\<lambda>c.
          Inr (if fd_eof w h_thread \<and> TCPConnection_bytes_in_flight c = 0 \<and> \<not> ss_fully_acked w
               then w\<lparr>ss_fully_acked := True\<rparr> else w)))))"
  "ru_interest (rule_datagram_in A os) w = tcp_is w TCPConnection_active"
  "ru_fd (rule_pipe_in os) = h_thread" "ru_direction (rule_pipe_in os) = In"
  "ru_callback (rule_pipe_in os) w = (with_tcp w (\<lambda>c.
        bind_result (FileDescriptor_read os h_thread (remaining_outbound_capacity c) w) (\<lambda>(data, w).
          let (amount_written, c) = TCPConnection_write c data; w = w\<lparr>ss_tcp := Some c\<rparr>
          in if amount_written \<noteq> length data
             then Inl (RuntimeError ''TCPConnection::write() accepted less than advertised length'')
             else if fd_eof w h_thread then end_outbound w else Inr w)))"
  "ru_interest (rule_pipe_in os) w = tcp_is w (\<lambda>c. TCPConnection_active c \<and> \<not> ss_outbound_shutdown w \<and> remaining_outbound_capacity c > 0)"
  "ru_fd (rule_pipe_out os) = h_thread" "ru_direction (rule_pipe_out os) = Out"
  "ru_callback (rule_pipe_out os) w = (with_tcp w (\<lambda>c.
          let amount_to_write = min 65536 (ByteStream_buffer_size (inbound_stream c));
              buffer = ByteStream_peek_output (inbound_stream c) amount_to_write
          in bind_result (FileDescriptor_write os h_thread (BufferViewList_of_string buffer) False w) (\<lambda>(bytes_written, w).
             let c = read_inbound c bytes_written; w = w\<lparr>ss_tcp := Some c\<rparr>
             in if ByteStream_eof (inbound_stream c) \<or> ByteStream_has_error (inbound_stream c)
                then bind_result (Socket_shutdown os h_thread SHUT_WR w) (\<lambda>w. Inr (w\<lparr>ss_inbound_shutdown := True\<rparr>))
                else Inr w)))"
  "ru_interest (rule_pipe_out os) w = tcp_is w (\<lambda>c. \<not> ByteStream_buffer_empty (inbound_stream c) \<or>
        ((ByteStream_eof (inbound_stream c) \<or> ByteStream_has_error (inbound_stream c)) \<and> \<not> ss_inbound_shutdown w))"
  "ru_fd (rule_datagram_out A os) = h_datagram" "ru_direction (rule_datagram_out A os) = Out"
  "ru_callback (rule_datagram_out A os) w = (with_tcp w (\<lambda>c. flush_segments A os (cn_segments_out c) w))"
  "ru_interest (rule_datagram_out A os) w = tcp_is w (\<lambda>c. cn_segments_out c \<noteq> [])"
  by (simp_all add: rule_datagram_in_def rule_pipe_in_def rule_pipe_out_def rule_datagram_out_def)

text \<open>
  A run for the witnesses: a system on which only the second descriptor polled is ever ready (the
  owner's end of the pipe), and a socket on it whose owner has written two bytes.
\<close>

definition pipe_os :: "(int \<Rightarrow> bytes) kernel" where
  "pipe_os = small_os\<lparr>sys_poll := \<lambda>pfds _ k. ((1, 0, \<lambda>i. if i = 1 then pfd_events (pfds ! 1) else 0), k)\<rparr>"

lemma pipe_os_ok: "kernel_ok pipe_os"
  using small_os_ok by (simp add: kernel_ok_def pipe_os_def)

lemma logged_pipe_os:
  "sys_read (logged pipe_os) fd n (k, l) =
     (let bs = take (min n 3) (k fd)
      in ((int (length bs), 0, bs), (k(fd := drop (length bs) (k fd)), l @ [Received fd bs])))"
  "sys_poll (logged pipe_os) pfds ms (k, l) = ((1, 0, \<lambda>i. if i = 1 then pfd_events (pfds ! 1) else 0), (k, l))"
  "sys_clock (logged pipe_os) (k, l) = (0, (k, l))"
  "sys_shutdown (logged pipe_os) fd how (k, l) = ((0, 0), (k, l @ [Shut fd how]))"
  by (simp_all add: logged_def small_os_def pipe_os_def with_log_def silent_def Let_def min_def)

definition demo_socket :: "((int \<Rightarrow> bytes) logging, FdAdapterBase) sponge_world" where
  "demo_socket = \<lparr>io_kernel = (\<lambda>fd. if fd = 1 then [7, 8] else [], []),
     io_fds = \<lambda>d. \<lparr>fw_fd = int d, fw_eof = False, fw_closed = False, fw_read_count = 0, fw_write_count = 0\<rparr>,
     ss_tcp = None, ss_adapter = FdAdapterBase_new, ss_inbound_shutdown = False, ss_outbound_shutdown = False,
     ss_fully_acked = False\<rparr>"

lemma demo_socket_facts: "fd_num demo_socket h_thread = 1" "fd_num demo_socket h_datagram \<noteq> 1" "io_log demo_socket = []"
  by (simp_all add: demo_socket_def fd_num_def handle_defs io_log_def)

text \<open>The connection of this run, before and after the owner's bytes.\<close>

definition demo_c0 :: TCPConnection where
  "demo_c0 = TCPConnection_new demo_cfg 0"

definition demo_c1 :: TCPConnection where
  "demo_c1 = snd (TCPConnection_write demo_c0 [7, 8])"

lemma demo_c0_facts:
  "TCPConnection_active demo_c0" "remaining_outbound_capacity demo_c0 = 10" "cn_segments_out demo_c0 = []"
  "ByteStream_buffer_empty (inbound_stream demo_c0)" "\<not> ByteStream_eof (inbound_stream demo_c0)"
  "\<not> bs_error (inbound_stream demo_c0)" "accepting demo_c0"
  "TCPConnection_write demo_c0 [7, 8] = (2, demo_c1)" "TCPConnection_active demo_c1"
  by (simp_all add: demo_c0_def demo_c1_def conn_eval sender_eval reasm_eval accepting_def TCPConnection_state_def
      TCPState_of_def next_seqno_absolute_def TCPSender_bytes_in_flight_def bytesInFlight_def state_summary_sender_def state_summary_receiver_def official_def
      TCPConnection_active_def remaining_outbound_capacity_def inbound_stream_def ByteStream_remaining_capacity_def
      ByteStream_buffer_empty_def ByteStream_eof_def ByteStream_new_def sub64_def two64_def)

lemma demo_tick: "\<exists>c. TCPConnection_tick demo_c1 0 = Inr c"
proof -
  have "conn_inv [] 0 [] demo_c0"
    unfolding demo_c0_def by (rule conn_inv_new) (simp_all add: demo_cfg_def two64_def)
  then have "conn_inv [] 0 [7, 8] demo_c1"
    using write_inv [of "[]" 0 "[]" demo_c0 "[7, 8]"] demo_c0_facts(8) by simp
  from ci.tick [OF this, of 0] show ?thesis by (auto simp: ok_result_def)
qed

lemmas eval_socket = listen_and_accept_def initialize_TCP_def tcp_loop_def tcp_iteration_def thread_rules_def
  thread_rule_fields wait_next_event_def dispatch.simps(2) polled_def poll_defs service_count_def
  fd_eof_def fd_closed_def fd_read_count_def fd_write_count_def handle_defs TCP_TICK_MS_def with_tcp_def tcp_is_def
  udp_adapter_def base_set_config_def set_listening_def demo_socket_def logged_pipe_os adapter_tick_def

lemma demo_run:
  "\<exists>rules w1. listen_and_accept 1 udp_adapter (logged pipe_os) demo_cfg 0 FdAdapterConfig_default (\<lambda>_. False) [] demo_socket =
     Inr (False, rules, w1) \<and> io_log w1 = [Received 1 [7, 8]]"
proof -
  obtain c where t: "TCPConnection_tick demo_c1 0 = Inr c" using demo_tick by blast
  show ?thesis
    by (simp add: eval_socket eval_read eval_syscalls demo_c0_facts t sub64_def flip: demo_c0_def cong: bind_result_lazy)
qed

text \<open>
  A connection whose segments kept the peer's contract, as long as its owner had written fewer than
  \<open>n\<close> bytes.
\<close>

definition peer_good :: "bytes \<Rightarrow> WrappingInt32 \<Rightarrow> nat \<Rightarrow> seg_contract" where
  "peer_good S isn n wc seg \<longleftrightarrow> (length (fst wc) < n \<longrightarrow> (\<exists>i a. peer_ok S isn (fst wc) seg i a (snd wc)))"

lemma conn_step_grows: "conn_step (W, c) e = Inr (W', c') \<Longrightarrow> length W \<le> length W'"
  by (cases e) (auto simp: keeping_def bind_result_eq_Inr)

lemma run_grows: "run conn_step (W, c) es = Inr (W', c') \<Longrightarrow> length W \<le> length W'"
proof (induction es arbitrary: W c)
  case (Cons e es)
  then obtain W1 c1 where "conn_step (W, c) e = Inr (W1, c1)" "run conn_step (W1, c1) es = Inr (W', c')"
    by (auto simp: bind_result_eq_Inr)
  with Cons.IH conn_step_grows show ?case by (meson le_trans)
qed simp

lemma thread_ok_contract:
  assumes "allowed conn_step (thread_ok (peer_good S isn n)) (W, c) es" "run conn_step (W, c) es = Inr (W', c')"
    and "length W' < n" "n \<le> 2 ^ 62"
  shows "allowed conn_step (peer_contract S isn) (W, c) es"
  using assms
proof (induction es arbitrary: W c)
  case (Cons e es)
  then obtain W1 c1 where st: "conn_step (W, c) e = Inr (W1, c1)" and rest: "run conn_step (W1, c1) es = Inr (W', c')"
    by (auto simp: bind_result_eq_Inr)
  have len: "length W \<le> length W1" "length W1 < n" using conn_step_grows [OF st] run_grows [OF rest] Cons.prems(3) by simp_all
  then have "peer_contract S isn (W, c) e"
    using Cons.prems(1,4) st by (cases e) (auto simp: peer_good_def)
  moreover have "allowed conn_step (peer_contract S isn) (W1, c1) es"
    using Cons.IH [OF _ rest] Cons.prems(1,3,4) st by simp
  ultimately show ?case using st by simp
qed simp

lemma opened_conn_inv:
  "length S + cfg_recv_capacity cfg < 2 ^ 62 \<Longrightarrow> cfg_send_capacity cfg < two64 \<Longrightarrow> conn_inv S isn [] (opened_conn listen cfg rnd)"
  by (simp add: opened_conn_def conn_inv_new ci.connect)

lemma good_run_stream:
  assumes "simulates (peer_good S isn n) (opened_conn listen cfg rnd) got put c"
    and "length S + cfg_recv_capacity cfg < 2 ^ 62" "cfg_send_capacity cfg < two64" "length got < n" "n \<le> 2 ^ 62"
  shows "prefix put S \<and> conn_inv S isn got c"
proof -
  let ?c0 = "opened_conn listen cfg rnd"
  obtain es where es: "run conn_step ([], ?c0) es = Inr (got, c)" "put = conn_reads ([], ?c0) es"
    "allowed conn_step (thread_ok (peer_good S isn n)) ([], ?c0) es"
    using assms(1) by (auto simp: simulates_def)
  have inv0: "conn_inv S isn [] ?c0" using assms(2,3) by (rule opened_conn_inv)
  have "read_position (TCPConnection_new cfg rnd) = 0"
    by (simp add: read_position_def inbound_stream_def TCPConnection_new_def TCPReceiver_new_def
        TCPReceiver_stream_out_def StreamReassembler_new_def ByteStream_new_def)
  then have z: "read_position ?c0 = 0" by (simp add: opened_conn_def connect_def)
  from conn_reads_stream [OF inv0 thread_ok_contract [OF es(3,1) assms(4,5)] es(1)] show ?thesis
    by (simp add: es(2) z take_is_prefix)
qed

text \<open>
  Claim C7. The socket delivers the peer's stream. Open a socket over UDP or over a TUN device, by
  \<open>listen_and_accept\<close> or by \<open>connect\<close>, and run its loop. If in every state the socket can get into this
  way, while its owner has written fewer than \<open>n\<close> bytes (\<open>n\<close> at most \<open>2 ^ 62\<close>), the segment the adapter
  delivers next keeps the peer's contract for a stream \<open>S\<close> (whatever the network lost, repeated or
  reordered before), then what the owner can read from its pipe is a prefix of \<open>S\<close>, and every
  segment waiting to be sent is valid for the bytes the owner has written into the pipe.
\<close>

theorem owner_reads_peer_stream:
  assumes "A \<in> {udp_adapter, tun_adapter}"
    and "kernel_ok os" "fd_num w h_thread = pipe" "fd_num w h_datagram \<noteq> pipe" "io_log w = []"
    and "(if listen then listen_and_accept else sponge_connect) fuel A (logged os) cfg rnd c_ad ab [] w = Inr (ended, rules, w1)"
    and "tcp_loop fuel' A (logged os) (\<lambda>_. True) ab' rules w1 = Inr (ended', rules', w2)"
    and "\<forall>w'. socket_reach A (logged os) cfg rnd c_ad listen w w' \<longrightarrow> delivers (peer_good S isn n) A os pipe w'"
    and "length S + cfg_recv_capacity cfg < 2 ^ 62" "cfg_send_capacity cfg < two64"
    and "length (received_on pipe (io_log w2)) < n" "n \<le> 2 ^ 62"
  shows "\<exists>c. ss_tcp w2 = Some c \<and> prefix (sent_on pipe (io_log w2)) S \<and>
    (\<forall>seg \<in> set (cn_segments_out c).
       seg_valid (sn_isn (cn_sender c)) (received_on pipe (io_log w2))
         (ByteStream_input_ended (sn_stream (cn_sender c))) seg)"
proof -
  have ad: "datagram_adapter A" using assms(1) udp_port.datagram_adapter_axioms tun_port.datagram_adapter_axioms by auto
  obtain c where c: "ss_tcp w2 = Some c"
    and sim: "simulates (peer_good S isn n) (opened_conn listen cfg rnd) (received_on pipe (io_log w2)) (sent_on pipe (io_log w2)) c"
    using datagram_adapter.life_run [OF ad assms(2-7), of "peer_good S isn n"] assms(8) by blast
  from good_run_stream [OF sim assms(9-12)] c show ?thesis by (auto simp: conn_inv_def)
qed

text \<open>
  Claim C36. Destroying an open socket sends nothing. When the loop of the thread has ended, for
  instance because the owner's destructor has set \<open>_abort\<close>, \<open>_tcp_main\<close> shuts the pipe and resets the
  connection. The connection's destructor answers with a RST, but in the connection's own queue: no
  byte leaves on any descriptor after the loop. (The class documents that it sends a RST.)
\<close>

theorem destroyed_socket_sends_no_rst:
  assumes "ss_tcp w \<noteq> None" "tcp_loop fuel A (logged os) (\<lambda>_. True) ab rules w = Inr (True, rules', w1)"
    and "tcp_main fuel A (logged os) ab rules w = Inr (True, rules', w2)"
    and "ss_tcp w1 = Some c" "TCPConnection_active c"
  shows "(\<exists>seg. cn_segments_out (TCPConnection_destroy c) = [seg] \<and> th_rst (seg_header seg)) \<and>
    ss_tcp w2 = None \<and> (\<forall>fd. sent_on fd (io_log w2) = sent_on fd (io_log w1))"
proof -
  obtain w3 where sh: "Socket_shutdown (logged os) h_owner SHUT_RDWR w1 = Inr w3" and w2: "w2 = w3\<lparr>ss_tcp := None\<rparr>"
    using assms(1-3) by (auto simp: tcp_main_def bind_result_eq_Inr)
  have "sent_on fd (io_log w3) = sent_on fd (io_log w1)" for fd
    using sh by (auto simp: Socket_shutdown_def checked_call_def logged_def with_log_def split_beta Let_def
        bind_result_eq_Inr io_log_def shut_defs register_read_def register_write_def on_fd_def)
  moreover have "\<exists>seg. cn_segments_out (TCPConnection_destroy c) = [seg] \<and> th_rst (seg_header seg)"
    using assms(5) by (simp add: TCPConnection_destroy_def sendRSTSeg_eq rst_seg_def)
  ultimately show ?thesis by (simp add: w2 io_log_def)
qed

section \<open>What a connection never takes back\<close>

text \<open>
  No operation forgets that the SYN was sent, or changes the initial sequence number or the
  receiver's capacity.
\<close>

definition syn_out :: "nat \<Rightarrow> WrappingInt32 \<Rightarrow> TCPConnection \<Rightarrow> bool" where
  "syn_out cap own c \<longleftrightarrow>
     uq_synSent (sn_unAckQueue (cn_sender c)) \<and> sn_isn (cn_sender c) = own \<and> rc_capacity (cn_receiver c) = cap"

lemma fillStep_syn: "uq_synSent (sn_unAckQueue (fillStep s)) = uq_synSent (sn_unAckQueue s)"
  by (simp add: fillStep_def makePayLoadSeg_def firstPush_def UnAckQueue_push_def Let_def split_beta)

lemma fillLoop_syn: "uq_synSent (sn_unAckQueue (fillLoop s)) = uq_synSent (sn_unAckQueue s)"
proof (induction s rule: fillLoop.induct)
  case (1 s)
  then show ?case by (subst fillLoop.simps) (simp add: fillStep_syn)
qed

lemma fill_window_syn: "uq_synSent (sn_unAckQueue s) \<Longrightarrow> uq_synSent (sn_unAckQueue (fill_window s))"
  by (simp add: fill_window_def makeFirstFinSeg_def firstPush_def fillLoop_syn Let_def split_beta)

lemma updateBase_syn: "updateBase q a = Inr q' \<Longrightarrow> uq_synSent q' = uq_synSent q"
  by (auto simp: updateBase_def UnAckQueue_erase_def Let_def split_beta split: if_splits)

lemma ack_received_syn: "ack_received s a win = Inr t \<Longrightarrow> uq_synSent (sn_unAckQueue t) = uq_synSent (sn_unAckQueue s)"
  by (auto simp: ack_received_def setWindowSize_def bind_result_eq_Inr Let_def dest!: updateBase_syn split: if_splits)

lemma tick_syn:
  "TCPSender_tick s ms = Inr t \<Longrightarrow> uq_synSent (sn_unAckQueue s) \<Longrightarrow> uq_synSent (sn_unAckQueue t)"
  by (auto simp: TCPSender_tick_def timeoutRetransmit_def makeSynSeg_def bind_result_eq_Inr Let_def split_beta
      split: if_splits)

lemma syn_out_simps [simp]:
  "syn_out cap own (updateOutput c) = syn_out cap own c"
  "syn_out cap own (uncleanShutdown c) = syn_out cap own c"
  "syn_out cap own (cleanShutdown c) = syn_out cap own c"
  "syn_out cap own (sendRSTSeg c) = syn_out cap own c"
  "syn_out cap own (on_sender send_empty_segment c) = syn_out cap own c"
  "syn_out cap own (c\<lparr>cn_time_since_last_segment_received := ms\<rparr>) = syn_out cap own c"
  "syn_out cap own (c\<lparr>cn_linger_after_streams_finish := l\<rparr>) = syn_out cap own c"
  "syn_out cap own (c\<lparr>cn_time_wait := l\<rparr>) = syn_out cap own c"
  "syn_out cap own (c\<lparr>cn_active := l\<rparr>) = syn_out cap own c"
  "syn_out cap own (c\<lparr>cn_segments_out := q\<rparr>) = syn_out cap own c"
  "syn_out cap own (c\<lparr>cn_sender := (cn_sender c)\<lparr>sn_stream := st\<rparr>\<rparr>) = syn_out cap own c"
  "syn_out cap own (read_inbound c n) = syn_out cap own c"
  by (simp_all add: syn_out_def on_sender_def updateOutput_def uncleanShutdown_def cleanShutdown_def sendRSTSeg_eq
      send_empty_segment_def read_inbound_def Let_def)

lemma syn_out_fill: "syn_out cap own c \<Longrightarrow> syn_out cap own (on_sender fill_window c)"
  using fill_window_frame [of "cn_sender c"] by (simp add: syn_out_def on_sender_def fill_window_syn same_frame_def)

lemma syn_out_receive: "to_receiver seg c = Inr c' \<Longrightarrow> syn_out cap own c' = syn_out cap own c"
  by (auto simp: to_receiver_def bind_result_eq_Inr syn_out_def TCPReceiver_segment_received_def TCPReceiver_push_def
      Let_def split: if_splits)

lemma syn_out_ack: "take_ack h c = Inr c' \<Longrightarrow> syn_out cap own c' = syn_out cap own c"
  by (auto simp: take_ack_def on_sender_result_def bind_result_eq_Inr syn_out_def same_frame_def
      dest: ack_received_syn ack_received_frame split: if_splits)

lemma syn_out_sender_tick:
  "on_sender_result (\<lambda>s. TCPSender_tick s ms) c = Inr c' \<Longrightarrow> syn_out cap own c \<Longrightarrow> syn_out cap own c'"
  using tick_frame [of "cn_sender c" ms]
  by (auto simp: on_sender_result_def bind_result_eq_Inr syn_out_def same_frame_def dest: tick_syn)

lemma ok_result_and: "ok_result P r \<Longrightarrow> (\<And>x. r = Inr x \<Longrightarrow> Q x) \<Longrightarrow> ok_result (\<lambda>x. P x \<and> Q x) r"
  by (auto simp: ok_result_def)

interpretation so: endpoint_laws "\<lambda>c. conn_inv S isn W c \<and> syn_out cap own c"
    "\<lambda>seg c. (conn_inv S isn W c \<and> (\<exists>i a. peer_ok S isn W seg i a c)) \<and> syn_out cap own c"
    "\<lambda>seg c. (conn_inv S isn W c \<and> (\<exists>a. acks_ok W (seg_header seg) a c)) \<and> syn_out cap own c"
  for S isn W cap own
proof (unfold_locales, goal_cases)
  case (1 seg c)
  then show ?case using ci.Arr_Ack by blast
next
  case (3 seg c ms)
  then show ?case using ci.Arr_time by (simp del: recv_ok.simps)
next
  case (11 seg c)
  then show ?case using ci.Ack_empty by (simp del: recv_ok.simps) blast
next
  case (12 seg c)
  then have "ok_result (\<lambda>c. conn_inv S isn W c \<and> (\<exists>a. acks_ok W (seg_header seg) a c)) (to_receiver seg c)"
    using ci.receive by blast
  then show ?case by (rule ok_result_and) (use 12 in \<open>simp add: syn_out_receive [of seg c]\<close>)
next
  case (13 seg c)
  then have "ok_result (conn_inv S isn W) (take_ack (seg_header seg) c)" using ci.ack by blast
  then show ?case by (rule ok_result_and) (use 13 in \<open>simp add: syn_out_ack [of "seg_header seg" c]\<close>)
next
  case (16 c ms)
  then have "ok_result (conn_inv S isn W) (on_sender_result (\<lambda>s. TCPSender_tick s ms) c)" using ci.sender_tick by blast
  then show ?case by (rule ok_result_and) (use 16 syn_out_sender_tick in blast)
qed (auto simp: syn_out_fill ci.steps ci.unclean ci.rst simp del: recv_ok.simps)

lemma conn_step_syn_out:
  assumes "conn_step (W, c) e = Inr (W', c')" "peer_contract S isn (W, c) e" "conn_inv S isn W c" "syn_out cap own c"
  shows "syn_out cap own c'"
proof (cases e)
  case (CSegment seg i a)
  then have "ok_result (\<lambda>c. conn_inv S isn W c \<and> syn_out cap own c) (TCPConnection_segment_received c seg)"
    using assms(2-4) by (intro so.segment_received) auto
  then show ?thesis using assms(1) CSegment by (auto simp: keeping_def ok_result_def)
next
  case (CTick ms)
  have "ok_result (\<lambda>c. conn_inv S isn W c \<and> syn_out cap own c) (TCPConnection_tick c ms)"
    using assms(3,4) by (intro so.tick) simp
  then show ?thesis using assms(1) CTick by (auto simp: keeping_def ok_result_def)
next
  case (CWrite d)
  then show ?thesis using assms by (auto simp: TCPConnection_write_def Let_def split_beta intro!: syn_out_fill)
next
  case CEnd
  then show ?thesis
    using assms by (auto simp: end_input_stream_def on_sender_def [of "\<lambda>s. s\<lparr>sn_stream := f s\<rparr>" for f] intro!: syn_out_fill)
qed (use assms in \<open>auto simp: connect_def intro!: syn_out_fill\<close>)

lemma run_syn_out:
  assumes "run conn_step (W, c) es = Inr (W', c')" "allowed conn_step (peer_contract S isn) (W, c) es"
    and "conn_inv S isn W c" "syn_out cap own c"
  shows "syn_out cap own c'"
  using assms
proof (induction es arbitrary: W c)
  case (Cons e es)
  then obtain W1 c1 where st: "conn_step (W, c) e = Inr (W1, c1)" and rest: "run conn_step (W1, c1) es = Inr (W', c')"
    by (auto simp: bind_result_eq_Inr)
  have ok: "peer_contract S isn (W, c) e" "allowed conn_step (peer_contract S isn) (W1, c1) es"
    using Cons.prems(2) st by auto
  have "conn_inv S isn W1 c1"
    using ep.step_law [of S isn "()" "(W, c)" e] ok(1) Cons.prems(3) st by (auto simp: conn_run_inv_def)
  with Cons.IH [OF rest ok(2)] conn_step_syn_out [OF st ok(1)] Cons.prems(3,4) show ?case by blast
qed simp

section \<open>A run with a peer\<close>

text \<open>
  If the segments the adapter delivers are good wherever the simulation holds, they are good in every
  world the socket can get into.
\<close>

lemma callback_needs_tcp:
  "r \<in> set (thread_rules A os) \<Longrightarrow> ru_callback r w = Inr w' \<Longrightarrow> (\<And>s w'. adapter_read_world A os w = Inr (s, w') \<Longrightarrow> ss_tcp w' = ss_tcp w) \<Longrightarrow>
     ss_tcp w \<noteq> None"
  by (auto simp: thread_rules_def thread_rule_fields bind_result_eq_Inr with_tcp_def split: option.splits)

context datagram_adapter
begin

lemma reached_world:
  assumes "kernel_ok os" "fd_num w h_thread = pipe" "fd_num w h_datagram \<noteq> pipe" "io_log w = []" "ss_tcp w = None"
    and good: "\<And>w'. thread_inv os (fd_num w) pipe good (opened_conn listen cfg rnd) w' \<Longrightarrow> delivers good A os pipe w'"
    and reach: "socket_reach A (logged os) cfg rnd c_ad listen w w'"
  shows "ss_tcp w' = None \<and> io_log w' = [] \<and> (\<forall>d. fd_num w' d = fd_num w d) \<or>
    thread_inv os (fd_num w) pipe good (opened_conn listen cfg rnd) w'"
  using reach
proof (induction rule: rtranclp_induct)
  case base
  then show ?case using assms(4,5) by simp
next
  case (step w1 w2)
  let ?closed = "\<lambda>v. ss_tcp v = None \<and> io_log v = [] \<and> (\<forall>d. fd_num v d = fd_num w d)"
  let ?inv = "thread_inv os (fd_num w) pipe good (opened_conn listen cfg rnd)"
  have quiet_step: "?closed v' \<or> ?inv v'"
    if "?closed v \<or> ?inv v" "ss_tcp v' = ss_tcp v" "io_log v' = io_log v" "io_fds v' = io_fds v"
    for v v' :: "('k logging, 'a) sponge_world"
    using that by (auto simp: thread_inv_def fd_num_def)
  have opened: "?inv w2" if "?closed w1" "ss_tcp w2 = Some (opened_conn listen cfg rnd)" "io_log w2 = io_log w1" "io_fds w2 = io_fds w1"
    using that assms(1-3) by (auto simp: thread_inv_def fd_num_def simulates_refl)
  from step(2) show ?case
  proof (cases rule: socket_step.cases)
    case step_connect
    then show ?thesis using step.IH opened by (auto simp: thread_inv_def opened_conn_def io_log_def)
  next
    case step_listen
    then show ?thesis using step.IH opened by (auto simp: thread_inv_def opened_conn_def io_log_def)
  next
    case step_rule
    then show ?thesis
    proof (cases rule: acts.cases)
      case (act_callback r)
      then have "ss_tcp w1 \<noteq> None" by (rule callback_needs_tcp) (rule adapter_read_world_quiet(2))
      then have inv: "?inv w1" using step.IH by auto
      from callback_inv [OF inv good [OF inv] act_callback] show ?thesis by simp
    next
      case (act_cancel r)
      show ?thesis
      proof (cases "ss_tcp w1")
        case None
        then have "w2 = w1"
          using act_cancel by (auto simp: thread_rules_def rule_datagram_in_def rule_pipe_in_def rule_pipe_out_def
              rule_datagram_out_def end_outbound_def with_tcp_def)
        with step.IH show ?thesis by simp
      next
        case (Some c)
        then show ?thesis using step.IH cancel_inv [OF _ act_cancel] by auto
      qed
    next
      case (act_kernel pfds ms res k)
      then show ?thesis
        by (intro quiet_step [OF step.IH])
          (auto simp: io_log_def logged_def silent_def with_log_def split_beta Let_def)
    qed
  next
    case (step_clock t k)
    then show ?thesis
      by (intro quiet_step [OF step.IH]) (auto simp: io_log_def logged_def silent_def with_log_def split_beta Let_def)
  next
    case (step_tick c ms c')
    then have inv: "?inv w1" using step.IH by auto
    have "?inv w2"
      by (rule thread_inv_update [OF inv _ _ step_tick(2), of _ c' "CTick ms"])
        (simp_all add: step_tick(1,3) quiet_def io_log_def fd_num_def keeping_def)
    then show ?thesis by simp
  qed
qed

lemma always_delivers:
  assumes "kernel_ok os" "fd_num w h_thread = pipe" "fd_num w h_datagram \<noteq> pipe" "io_log w = []" "ss_tcp w = None"
    and "\<And>w'. thread_inv os (fd_num w) pipe good (opened_conn listen cfg rnd) w' \<Longrightarrow> delivers good A os pipe w'"
  shows "\<forall>w'. socket_reach A (logged os) cfg rnd c_ad listen w w' \<longrightarrow> delivers good A os pipe w'"
proof (intro allI impI)
  fix w'
  assume "socket_reach A (logged os) cfg rnd c_ad listen w w'"
  then have "ss_tcp w' = None \<or> thread_inv os (fd_num w) pipe good (opened_conn listen cfg rnd) w'"
    using reached_world [OF assms] by blast
  then show "delivers good A os pipe w'"
  proof
    assume "ss_tcp w' = None"
    then show ?thesis by (simp add: delivers_def)
  qed (rule assms(6))
qed

end

text \<open>
  A peer for the witnesses. Every datagram that arrives is the same: the peer's SYN with its first
  byte, acknowledging the SYN of the socket. In which order the descriptors become ready is written
  under \<open>-1\<close>: each call of \<open>poll\<close> takes the next position.
\<close>

definition peer_segment :: TCPSegment where
  "peer_segment =
     \<lparr>seg_header = TCPHeader_new\<lparr>th_seqno := 9, th_ackno := 6, th_syn := True, th_ack := True, th_win := 65535\<rparr>,
      seg_payload = Buffer_new [9]\<rparr>"

definition peer_wire :: bytes where
  "peer_wire = (case TCPSegment_serialize peer_segment 0 of Inl _ \<Rightarrow> [] | Inr bl \<Rightarrow> BufferList_concatenate bl)"

definition peer_seg :: TCPSegment where
  "peer_seg = snd (TCPSegment_parse TCPSegment_new (Buffer_new peer_wire) 0)"

definition answering_address :: Address where
  "answering_address = \<lparr>ad_ip = 0x0a000001, ad_port = 9090\<rparr>"

definition peer_os :: "(int \<Rightarrow> bytes) kernel" where
  "peer_os = small_os\<lparr>
     sys_poll := \<lambda>pfds _ k. ((1, 0, \<lambda>i. if i = unat (hd (k (- 1))) then pfd_events (pfds ! i) else 0), k(- 1 := tl (k (- 1)))),
     sys_recvfrom := \<lambda>_ _ k. ((int (length peer_wire), 0, peer_wire, answering_address, 16), k),
     sys_socket := \<lambda>_ _ k. ((5, 0), k),
     sys_getsockopt := \<lambda>_ opt k. ((0, 0, if opt = SO_DOMAIN then AF_UNIX else SOCK_STREAM, 4), k)\<rparr>"

lemma peer_os_ok: "kernel_ok peer_os"
  using small_os_ok by (simp add: kernel_ok_def peer_os_def)

lemma logged_peer_os:
  "sys_read (logged peer_os) fd n (k, l) =
     (let bs = take (min n 3) (k fd)
      in ((int (length bs), 0, bs), (k(fd := drop (length bs) (k fd)), l @ [Received fd bs])))"
  "sys_writev (logged peer_os) fd iov (k, l) =
     (let n = min 2 (length (concat (map fst iov)))
      in ((int n, 0), (k, l @ [Sent fd (take n (concat (map fst iov)))])))"
  "sys_sendmsg (logged peer_os) fd a iov (k, l) =
     ((int (length (concat (map fst iov))), 0), (k, l @ [Sent fd (concat (map fst iov))]))"
  "sys_recvfrom (logged peer_os) fd n (k, l) =
     ((int (length peer_wire), 0, peer_wire, answering_address, 16), (k, l @ [Received fd peer_wire]))"
  "sys_poll (logged peer_os) pfds ms (k, l) =
     ((1, 0, \<lambda>i. if i = unat (hd (k (- 1))) then pfd_events (pfds ! i) else 0), (k(- 1 := tl (k (- 1))), l))"
  "sys_clock (logged peer_os) (k, l) = (0, (k, l))"
  by (simp_all add: logged_def small_os_def peer_os_def with_log_def silent_def Let_def min_def)

text \<open>The bytes on the wire are the peer's segment again, with its checksum.\<close>

lemma peer_wire_parsed:
  "length peer_wire = 21" "TCPSegment_parse TCPSegment_new (Buffer_new peer_wire) 0 = (NoError, peer_seg)"
  "Buffer_str (seg_payload peer_seg) = [9]" "\<exists>ck. seg_header peer_seg = (seg_header peer_segment)\<lparr>th_cksum := ck\<rparr>"
proof -
  let ?h = "seg_header peer_segment"
  define c where "c = InternetChecksum_value (InternetChecksum_add (InternetChecksum_new 0)
    (header_front ?h @ [0, 0] @ (be_bytes (th_uptr ?h) @ header_pad ?h @ Buffer_str (seg_payload peer_segment))))"
  have pl: "Buffer_str (seg_payload peer_segment) = [9]" by (simp add: peer_segment_def)
  have doff: "\<not> th_doff ?h < 5" "th_doff ?h < 16" "4 * unat (th_doff ?h) + length [9 :: byte] \<le> 65535"
    by (simp_all add: peer_segment_def TCPHeader_new_def)
  have wire: "peer_wire = header_front ?h @ be_bytes c @ (be_bytes (th_uptr ?h) @ header_pad ?h @ [9])"
    using TCPSegment_serialize_bytes [OF doff(1) c_def] pl by (simp add: peer_wire_def BufferList_concatenate_def)
  show "length peer_wire = 21"
    unfolding wire by (simp add: header_front_def header_pad_def peer_segment_def TCPHeader_new_def)
  obtain b where "TCPSegment_parse TCPSegment_new (Buffer_new peer_wire) 0 =
      (NoError, TCPSegment_new\<lparr>seg_header := ?h\<lparr>th_cksum := c\<rparr>, seg_payload := b\<rparr>)" "Buffer_str b = [9]"
    using TCPSegment_parse_bytes [OF doff, of 0 c "Buffer_new peer_wire" TCPSegment_new] c_def wire pl by auto
  then show "TCPSegment_parse TCPSegment_new (Buffer_new peer_wire) 0 = (NoError, peer_seg)"
    "Buffer_str (seg_payload peer_seg) = [9]" "\<exists>ck. seg_header peer_seg = ?h\<lparr>th_cksum := ck\<rparr>"
    by (auto simp: peer_seg_def)
qed

lemma peer_seg_fields:
  "th_seqno (seg_header peer_seg) = 9" "th_ackno (seg_header peer_seg) = 6" "th_win (seg_header peer_seg) = 65535"
  "th_syn (seg_header peer_seg)" "th_ack (seg_header peer_seg)" "\<not> th_rst (seg_header peer_seg)" "\<not> th_fin (seg_header peer_seg)"
  using peer_wire_parsed(4) by (auto simp: peer_segment_def TCPHeader_new_def)

lemma peer_datagram:
  "UDPSocket_recv (logged peer_os) d 65536 io =
     Inr (\<lparr>rd_source_address = answering_address, rd_payload = peer_wire\<rparr>,
       register_read d (io\<lparr>io_kernel := (fst (io_kernel io), io_log io @ [Received (fd_num io d) peer_wire])\<rparr>))"
  by (cases "io_kernel io")
    (simp add: UDPSocket_recv_def logged_peer_os peer_wire_parsed(1) SystemCall_def c_int_def ssize_of_size_def
      Address_of_raw_def str_resize_def io_log_def)

text \<open>
  This peer keeps its contract in every state of a connection that has sent its SYN, whatever else
  has happened to it.
\<close>

lemma peer_seg_ok:
  assumes inv: "conn_inv [9] 9 W c" and out: "syn_out cap 5 c" "1 \<le> cap" and len: "length W < 2 ^ 31 - 1"
  shows "peer_ok [9] 9 W peer_seg 0 1 c"
proof -
  let ?q = "sn_unAckQueue (cn_sender c)" and ?re = "rc_reassembler (cn_receiver c)"
  obtain g where r: "recv_inv [9] 9 g (cn_receiver c)" and s: "sender_inv W (cn_sender c)"
    using inv by (auto simp: conn_inv_def)
  have q: "queue_inv W (bs_isInputEnd (sn_stream (cn_sender c))) (bs_num_bytes_read (sn_stream (cn_sender c))) ?q"
    using s by (simp add: sender_inv_def)
  have "recv_ok [9] 9 (cn_receiver c) (Arrive peer_seg 0)"
  proof (cases "rc_synRecv (cn_receiver c)")
    case False
    then have re: "reasm_inv [9] ({}, False) ?re" "sr_capacity ?re = cap"
      using r out(1) by (auto simp: recv_inv_def syn_out_def)
    then have "sr_exIdx ?re = 0" "out_room ?re = cap"
      by (auto simp: reasm_inv_def sr_inv_def ByteStream_inv_def)
    with out(2) show ?thesis by (simp add: peer_seg_fields push_of_def peer_wire_parsed(3) push_ok_def)
  qed (simp add: peer_seg_fields)
  moreover have "acks_ok W (seg_header peer_seg) 1 c"
    using q out(1) len seqno_demo(1) by (auto simp: acks_ok_def peer_seg_fields syn_out_def queue_inv_def Let_def split: if_splits)
  ultimately show ?thesis by (simp add: peer_ok_def del: recv_ok.simps)
qed

text \<open>
  The connection of the run: after \<open>connect\<close>, after its SYN has left, after the peer's answer, after
  two bytes of the owner and after the owner has been given the peer's byte.
\<close>

definition peer_c0 :: TCPConnection where
  "peer_c0 = connect (TCPConnection_new TCPConfig_default 5)"

definition peer_c1 :: TCPConnection where
  "peer_c1 = peer_c0\<lparr>cn_segments_out := []\<rparr>"

definition peer_c2 :: TCPConnection where
  "peer_c2 =
     \<lparr>cn_cfg = TCPConfig_default,
      cn_receiver =
        \<lparr>rc_reassembler =
           \<lparr>sr_exIdx = 1, sr_unassembledStrs = [], sr_unassembledSize = 0, sr_eofSignRecv = False, sr_eofIdx = 0,
            sr_output =
              \<lparr>bs_buf = [9], bs_capacity = 64000, bs_size = 1, bs_isInputEnd = False, bs_num_bytes_written = 1,
               bs_num_bytes_read = 0, bs_error = False\<rparr>,
            sr_capacity = 64000, sr_past_end = 0\<rparr>,
         rc_synRecv = True, rc_isn = 9, rc_ackno = 11, rc_capacity = 64000\<rparr>,
      cn_sender =
        \<lparr>sn_timer = Timer_new (ucast TIMEOUT_DFLT), sn_isn = 5, sn_stream = ByteStream_new 64000, sn_segments_out = [],
         sn_unAckQueue =
           UnAckQueue_new\<lparr>uq_synSent := True, uq_synAcked := True, uq_baseSqn := 1, uq_next_seqno := 1, uq_win_size := 65535\<rparr>\<rparr>,
      cn_segments_out =
        [TCPSegment_new\<lparr>seg_header := TCPHeader_new\<lparr>th_seqno := 6, th_ack := True, th_ackno := 11, th_win := 63999\<rparr>\<rparr>],
      cn_linger_after_streams_finish = True, cn_active = True, cn_time_since_last_segment_received = 0, cn_time_wait = False\<rparr>"

definition peer_c3 :: TCPConnection where
  "peer_c3 = snd (TCPConnection_write peer_c2 [7, 8])"

definition peer_c4 :: TCPConnection where
  "peer_c4 = read_inbound peer_c3 1"

lemma wrap_2: "wrap (Suc (Suc 0)) 9 = 11"
  using seqno_demo2(2) by (simp add: numeral_2_eq_2)

lemmas eval_conn = TCPConfig_default_def DEFAULT_CAPACITY_def TIMEOUT_DFLT_def conn_eval sender_eval reasm_eval
  TCPConnection_state_def TCPState_of_def next_seqno_absolute_def TCPSender_bytes_in_flight_def
  state_summary_sender_def state_summary_receiver_def official_def TCPConnection_active_def
  remaining_outbound_capacity_def inbound_stream_def ByteStream_remaining_capacity_def ByteStream_buffer_empty_def
  seqno_demo seqno_demo2 wrap_2

lemma peer_c0_facts:
  "TCPConnection_active peer_c0" "remaining_outbound_capacity peer_c0 = 64000" "ByteStream_buffer_empty (inbound_stream peer_c0)"
  "\<not> ByteStream_eof (inbound_stream peer_c0)" "\<not> bs_error (inbound_stream peer_c0)"
  "TCPConnection_state peer_c0 = official SYN_SENT"
  "cn_segments_out peer_c0 = [TCPSegment_new\<lparr>seg_header := TCPHeader_new\<lparr>th_seqno := 5, th_syn := True\<rparr>\<rparr>]"
  by (simp_all add: peer_c0_def eval_conn)

lemma peer_c1_facts:
  "TCPConnection_active peer_c1" "remaining_outbound_capacity peer_c1 = 64000" "ByteStream_buffer_empty (inbound_stream peer_c1)"
  "\<not> ByteStream_eof (inbound_stream peer_c1)" "\<not> bs_error (inbound_stream peer_c1)"
  "TCPConnection_state peer_c1 = official SYN_SENT" "cn_segments_out peer_c1 = []"
  "TCPConnection_tick peer_c1 0 = Inr peer_c1"
  "TCPConnection_segment_received peer_c1 peer_seg = Inr peer_c2"
  by (simp_all add: peer_c0_def peer_c1_def peer_c2_def eval_conn peer_seg_fields peer_wire_parsed(3)
      del: Buffer_str_def cong: bind_result_lazy)

lemma peer_c2_facts:
  "TCPConnection_active peer_c2" "remaining_outbound_capacity peer_c2 = 64000" "\<not> ByteStream_buffer_empty (inbound_stream peer_c2)"
  "\<not> ByteStream_eof (inbound_stream peer_c2)" "\<not> bs_error (inbound_stream peer_c2)"
  "TCPConnection_state peer_c2 \<noteq> official SYN_SENT" "cn_segments_out peer_c2 \<noteq> []"
  "TCPConnection_tick peer_c2 0 = Inr peer_c2" "TCPConnection_write peer_c2 [7, 8] = (2, peer_c3)"
  by (simp_all add: peer_c2_def peer_c3_def eval_conn Receiver_SYN_RECV_def Receiver_LISTEN_def cong: bind_result_lazy)

lemma peer_c3_facts:
  "TCPConnection_active peer_c3" "remaining_outbound_capacity peer_c3 = 64000" "\<not> ByteStream_buffer_empty (inbound_stream peer_c3)"
  "\<not> ByteStream_eof (inbound_stream peer_c3)" "\<not> bs_error (inbound_stream peer_c3)" "cn_segments_out peer_c3 \<noteq> []"
  "ByteStream_peek_output (inbound_stream peer_c3) (Suc 0) = [9]" "bs_size (inbound_stream peer_c3) = Suc 0"
  "read_inbound peer_c3 (Suc 0) = peer_c4"
  "TCPConnection_tick peer_c3 0 = Inr peer_c3"
  by (simp_all add: peer_c2_def peer_c3_def peer_c4_def eval_conn cong: bind_result_lazy)

lemma peer_c4_facts:
  "cn_segments_out peer_c4 \<noteq> []" "TCPConnection_active peer_c4" "\<not> ByteStream_eof (inbound_stream peer_c4)" "\<not> bs_error (inbound_stream peer_c4)"
  "TCPConnection_tick peer_c4 0 = Inr peer_c4"
  by (simp_all add: peer_c2_def peer_c3_def peer_c4_def read_inbound_def eval_conn cong: bind_result_lazy)

text \<open>A port of this system: what its adapter reads and writes in the run.\<close>

abbreviation syn_seg :: TCPSegment where
  "syn_seg \<equiv> TCPSegment_new\<lparr>seg_header := TCPHeader_new\<lparr>th_seqno := 5, th_syn := True\<rparr>\<rparr>"

locale peer_port =
  fixes A :: "((int \<Rightarrow> bytes) logging, 'a) AdaptT" and a :: 'a and wire :: bytes
  assumes port_read: "at_read A (logged peer_os) a io = Inr (Some peer_seg, a, register_read h_datagram
      (io\<lparr>io_kernel := (fst (io_kernel io), io_log io @ [Received (fd_num io h_datagram) peer_wire])\<rparr>))"
    and port_write: "at_write A (logged peer_os) a syn_seg io = Inr (a, register_write h_datagram
      (io\<lparr>io_kernel := (fst (io_kernel io), io_log io @ [Sent (fd_num io h_datagram) wire])\<rparr>))"
    and port_tick: "at_tick A a ms = a"

definition peer_world ::
  "'a \<Rightarrow> (int \<Rightarrow> bytes) \<Rightarrow> io_event list \<Rightarrow> (handle \<Rightarrow> FDWrapper) \<Rightarrow> TCPConnection \<Rightarrow> ((int \<Rightarrow> bytes) logging, 'a) sponge_world" where
  "peer_world a k l fds c = \<lparr>io_kernel = (k, l), io_fds = fds, ss_tcp = Some c, ss_adapter = a,
     ss_inbound_shutdown = False, ss_outbound_shutdown = False, ss_fully_acked = False\<rparr>"

definition all_ready :: "(handle \<Rightarrow> FDWrapper) \<Rightarrow> bool" where
  "all_ready fds \<longleftrightarrow> (\<forall>d. \<not> fw_eof (fds d) \<and> \<not> fw_closed (fds d))"

definition read_once :: "handle \<Rightarrow> (handle \<Rightarrow> FDWrapper) \<Rightarrow> handle \<Rightarrow> FDWrapper" where
  "read_once d fds = fds(d := (fds d)\<lparr>fw_read_count := fw_read_count (fds d) + 1\<rparr>)"

definition written_once :: "handle \<Rightarrow> (handle \<Rightarrow> FDWrapper) \<Rightarrow> handle \<Rightarrow> FDWrapper" where
  "written_once d fds = fds(d := (fds d)\<lparr>fw_write_count := fw_write_count (fds d) + 1\<rparr>)"

lemma once_facts [simp]:
  "all_ready (read_once d fds) = all_ready fds" "all_ready (written_once d fds) = all_ready fds"
  "fw_fd (read_once d fds e) = fw_fd (fds e)" "fw_fd (written_once d fds e) = fw_fd (fds e)"
  by (auto simp: all_ready_def read_once_def written_once_def)

definition open_fd :: "int \<Rightarrow> FDWrapper" where
  "open_fd n = \<lparr>fw_fd = n, fw_eof = False, fw_closed = False, fw_read_count = 0, fw_write_count = 0\<rparr>"

definition peer_fds :: "handle \<Rightarrow> FDWrapper" where
  "peer_fds d = open_fd (if d = h_owner then 3 else if d = h_thread then 4 else if d = h_datagram then 5 else int d)"

definition peer_input :: "int \<Rightarrow> bytes" where
  "peer_input = (\<lambda>_. [])(4 := [7, 8], - 1 := [3, 0, 1, 2])"

lemma peer_fds_facts [simp]: "all_ready peer_fds" "fw_fd (peer_fds h_thread) = 4" "fw_fd (peer_fds h_datagram) = 5"
  by (simp_all add: all_ready_def peer_fds_def open_fd_def handle_defs)

lemma peer_input_facts: "peer_input (- 1) = [3, 0, 1, 2]" "peer_input 4 = [7, 8]"
  by (simp_all add: peer_input_def)

definition peer_socket :: "'a \<Rightarrow> ((int \<Rightarrow> bytes) logging, 'a) sponge_world" where
  "peer_socket a = \<lparr>io_kernel = (peer_input, []), io_fds = peer_fds,
     ss_tcp = None, ss_adapter = a, ss_inbound_shutdown = False, ss_outbound_shutdown = False, ss_fully_acked = False\<rparr>"

lemma peer_world_facts [simp]:
  "ss_tcp (peer_world a k l fds c) = Some c" "io_kernel (peer_world a k l fds c) = (k, l)" "io_log (peer_world a k l fds c) = l"
  "tcp_is (peer_world a k l fds c) P = P c" "(peer_world a k l fds c)\<lparr>io_kernel := (k', l')\<rparr> = peer_world a k' l' fds c"
  by (simp_all add: peer_world_def tcp_is_def io_log_def)

lemmas eval_iteration = tcp_iteration_def thread_rules_def
  thread_rule_fields wait_next_event_def dispatch.simps(2) polled_def poll_defs service_count_def
  fd_eof_def fd_closed_def fd_read_count_def fd_write_count_def handle_defs TCP_TICK_MS_def with_tcp_def tcp_is_def
  eval_syscalls logged_peer_os peer_world_def sub64_def adapter_read_world_def adapter_write_world_def set_io_def io.defs
  read_once_def written_once_def

lemma tcp_loop_num:
  "tcp_loop_from (numeral n) A os condition abort t rules w =
     (if \<not> tcp_is w condition then Inr (True, rules, w)
      else bind_result (tcp_iteration A os (abort (pred_numeral n)) t rules w) (\<lambda>(go_on, t, rules, w).
             if go_on then tcp_loop_from (pred_numeral n) A os condition abort t rules w
             else Inr (True, rules, w)))"
  by (simp add: numeral_eq_Suc)

lemma peer_pipe_write:
  assumes "io_kernel w = (k, l)"
  shows "FileDescriptor_write (logged peer_os) d [[b]] False w =
    Inr (1, w\<lparr>io_kernel := (k, l @ [Sent (fd_num w d) [b]]),
      io_fds := (io_fds w)(d := (io_fds w d)\<lparr>fw_write_count := fd_write_count w d + 1\<rparr>)\<rparr>)"
  unfolding FileDescriptor_write_def
  by (subst write_loop.simps) (simp add: write_round_def eval_syscalls logged_peer_os BufferViewList_as_iovecs_def assms fd_write_count_def
      BufferViewList_size_def)

context peer_port
begin

lemma syn_iteration:
  assumes "k (- 1) = 3 # s" "all_ready fds"
  shows "tcp_iteration A (logged peer_os) False 0 (thread_rules A (logged peer_os)) (peer_world a k l fds peer_c0) =
    Inr (True, 0, thread_rules A (logged peer_os),
      peer_world a (k(- 1 := s)) (l @ [Sent (fw_fd (fds h_datagram)) wire]) (written_once h_datagram fds) peer_c1)"
  using assms(2)
  by (simp add: eval_iteration all_ready_def assms(1) port_write port_tick peer_c0_facts peer_c1_facts flip: peer_c1_def cong: bind_result_lazy)

lemma answer_iteration:
  assumes "k (- 1) = 0 # s" "all_ready fds"
  shows "tcp_iteration A (logged peer_os) False 0 (thread_rules A (logged peer_os)) (peer_world a k l fds peer_c1) =
    Inr (True, 0, thread_rules A (logged peer_os),
      peer_world a (k(- 1 := s)) (l @ [Received (fw_fd (fds h_datagram)) peer_wire]) (read_once h_datagram fds) peer_c2)"
  using assms(2)
  by (simp add: eval_iteration all_ready_def assms(1) port_read port_tick peer_c1_facts peer_c2_facts cong: bind_result_lazy)

lemma owner_iteration:
  assumes "k (- 1) = 1 # s" "all_ready fds" "k (fw_fd (fds h_thread)) = [7, 8]" "fw_fd (fds h_thread) \<noteq> - 1"
  shows "tcp_iteration A (logged peer_os) False 0 (thread_rules A (logged peer_os)) (peer_world a k l fds peer_c2) =
    Inr (True, 0, thread_rules A (logged peer_os),
      peer_world a (k(- 1 := s, fw_fd (fds h_thread) := [])) (l @ [Received (fw_fd (fds h_thread)) [7, 8]]) (read_once h_thread fds) peer_c3)"
  using assms(2-4)
  by (simp add: eval_iteration eval_read all_ready_def assms(1) port_tick peer_c2_facts peer_c3_facts cong: bind_result_lazy)

lemma byte_iteration:
  assumes "k (- 1) = 2 # s" "all_ready fds"
  shows "tcp_iteration A (logged peer_os) False 0 (thread_rules A (logged peer_os)) (peer_world a k l fds peer_c3) =
    Inr (True, 0, thread_rules A (logged peer_os),
      peer_world a (k(- 1 := s)) (l @ [Sent (fw_fd (fds h_thread)) [9]]) (written_once h_thread fds) peer_c4)"
  using assms(2)
  by (simp add: eval_iteration all_ready_def assms(1) port_tick peer_c3_facts peer_c4_facts
      peer_pipe_write BufferViewList_of_string_def cong: bind_result_lazy)


lemma handshake:
  assumes "at_set_config A a0 c_ad = a"
  shows "\<exists>fds. sponge_connect 3 A (logged peer_os) TCPConfig_default 5 c_ad (\<lambda>_. False) [] (peer_socket a0) =
    Inr (True, thread_rules A (logged peer_os),
      peer_world a (peer_input(- 1 := [1, 2])) [Sent 5 wire, Received 5 peer_wire] fds peer_c2) \<and> all_ready fds \<and>
    (\<forall>d. fw_fd (fds d) = fw_fd (peer_fds d)) \<and> fds h_owner = open_fd 3"
proof (intro exI conjI)
  let ?syn = "\<lambda>c. TCPState_eq (TCPConnection_state c) (official SYN_SENT)"
  have "sponge_connect 3 A (logged peer_os) TCPConfig_default 5 c_ad (\<lambda>_. False) [] (peer_socket a0) =
      tcp_loop_from 3 A (logged peer_os) ?syn (\<lambda>_. False) 0 (thread_rules A (logged peer_os)) (peer_world a peer_input [] peer_fds peer_c0)"
    by (simp add: sponge_connect_def peer_socket_def initialize_TCP_def with_tcp_def tcp_loop_def logged_peer_os assms peer_c0_facts peer_c1_facts peer_c2_facts
        peer_world_def flip: peer_c0_def)
  also have "\<dots> = Inr (True, thread_rules A (logged peer_os),
      peer_world a (peer_input(- 1 := [1, 2])) [Sent 5 wire, Received 5 peer_wire] (read_once h_datagram (written_once h_datagram peer_fds)) peer_c2)"
    by (simp add: tcp_loop_num peer_c0_facts peer_c1_facts peer_c2_facts peer_input_facts syn_iteration [where s = "[0, 1, 2]"]
        answer_iteration [where s = "[1, 2]"] cong: bind_result_lazy)
  finally show "sponge_connect 3 A (logged peer_os) TCPConfig_default 5 c_ad (\<lambda>_. False) [] (peer_socket a0) = \<dots>" .
qed (simp, simp, simp add: read_once_def written_once_def peer_fds_def handle_defs)

lemma conversation:
  assumes "all_ready fds" "\<And>d. fw_fd (fds d) = fw_fd (peer_fds d)"
  shows "\<exists>w. tcp_loop 2 A (logged peer_os) (\<lambda>_. True) (\<lambda>_. False) (thread_rules A (logged peer_os))
      (peer_world a (peer_input(- 1 := [1, 2])) l fds peer_c2) = Inr (False, thread_rules A (logged peer_os), w) \<and>
    io_log w = l @ [Received 4 [7, 8], Sent 4 [9]] \<and> ss_tcp w = Some peer_c4"
  using assms byte_iteration [where s = "[]"] owner_iteration [where s = "[2]" and fds = fds]
  by (simp add: tcp_loop_def tcp_loop_num logged_peer_os peer_input_facts cong: bind_result_lazy)

end

lemma peer_socket_facts:
  "fd_num (peer_socket a) h_thread = 4" "fd_num (peer_socket a) h_datagram \<noteq> 4" "io_log (peer_socket a) = []"
  "ss_tcp (peer_socket a) = None" "fd_num (peer_socket a) h_owner = 3"
  by (simp_all add: peer_socket_def peer_fds_def fd_num_def handle_defs io_log_def open_fd_def)

text \<open>The UDP adapter, set to the peer's address.\<close>

definition peer_filt :: FdAdapterConfig where
  "peer_filt = FdAdapterConfig_default\<lparr>fc_destination := answering_address\<rparr>"

definition peer_adapter :: FdAdapterBase where
  "peer_adapter = FdAdapterBase_new\<lparr>fa_cfg := peer_filt\<rparr>"

definition syn_wire :: bytes where
  "syn_wire = (case TCPSegment_serialize (set_ports peer_adapter syn_seg) 0 of Inl _ \<Rightarrow> [] | Inr bl \<Rightarrow> concat (map Buffer_str bl))"

lemma udp_syn_write:
  "udp_write (logged peer_os) peer_adapter syn_seg io = Inr (peer_adapter, register_write h_datagram
     (io\<lparr>io_kernel := (fst (io_kernel io), io_log io @ [Sent (fd_num io h_datagram) syn_wire])\<rparr>))"
proof -
  let ?seg = "set_ports peer_adapter syn_seg"
  have doff: "\<not> th_doff (seg_header ?seg) < 5" by (simp add: set_ports_def TCPSegment_new_def TCPHeader_new_def)
  have pl: "seg_payload ?seg = seg_payload TCPSegment_new" by (simp add: set_ports_def)
  have empty: "Buffer_str (seg_payload TCPSegment_new) = []" by (simp add: TCPSegment_new_def Buffer_default_def Buffer_str_def)
  obtain b where ser: "TCPSegment_serialize ?seg 0 = Inr [Buffer_new b, seg_payload TCPSegment_new]" and len: "length b = 20"
    using TCPSegment_serialize_bytes [OF doff refl, of 0]
    unfolding pl by (simp add: header_front_def header_pad_def set_ports_def TCPSegment_new_def TCPHeader_new_def)
  have "syn_wire = b" by (simp add: syn_wire_def ser empty)
  then show ?thesis
    using len by (cases "io_kernel io") (simp add: udp_write_def TCPOverUDPSocketAdapter_write_def ser BufferViewList_of_BufferList_def empty
        UDPSocket_sendto_def sendmsg_helper_def logged_peer_os BufferViewList_size_def eval_syscalls)
qed

lemma udp_peer_read:
  "udp_read (logged peer_os) peer_adapter io = Inr (Some peer_seg, peer_adapter, register_read h_datagram
     (io\<lparr>io_kernel := (fst (io_kernel io), io_log io @ [Received (fd_num io h_datagram) peer_wire])\<rparr>))"
  by (simp add: udp_read_def peer_datagram TCPOverUDPSocketAdapter_read_def adapter_listening_def peer_wire_parsed(2)
      peer_adapter_def peer_filt_def FdAdapterBase_new_def FdAdapterConfig_default_def)

interpretation udp_peer: peer_port udp_adapter peer_adapter syn_wire
  by unfold_locales (simp_all add: udp_adapter_def udp_peer_read udp_syn_write adapter_tick_def)

lemma udp_reads_peer_seg:
  "udp_read (logged peer_os) a io = Inr (Some seg, a', io') \<Longrightarrow> seg = peer_seg"
  by (auto simp: udp_read_def peer_datagram TCPOverUDPSocketAdapter_read_def peer_wire_parsed(2) split: if_splits)

lemma peer_delivers:
  assumes inv: "thread_inv peer_os nums pipe (peer_good [9] 9 n) (opened_conn False TCPConfig_default 5) w" and n: "n < 2 ^ 31"
    and read: "\<And>seg w'. adapter_read_world A (logged peer_os) w = Inr (Some seg, w') \<Longrightarrow> seg = peer_seg"
  shows "delivers (peer_good [9] 9 n) A peer_os pipe w"
proof -
  let ?c0 = "opened_conn False TCPConfig_default 5" and ?got = "received_on pipe (io_log w)"
  obtain c where c: "ss_tcp w = Some c" and sim: "simulates (peer_good [9] 9 n) ?c0 ?got (sent_on pipe (io_log w)) c"
    using inv by (rule thread_inv_tcp)
  have cfg: "length [9 :: byte] + cfg_recv_capacity TCPConfig_default < 2 ^ 62" "cfg_send_capacity TCPConfig_default < two64"
    by (simp_all add: TCPConfig_default_def DEFAULT_CAPACITY_def two64_def)
  have "peer_ok [9] 9 ?got peer_seg 0 1 c" if len: "length ?got < n"
  proof (rule peer_seg_ok)
    have n': "n \<le> 2 ^ 62" using n by simp
    obtain es where es: "run conn_step ([], ?c0) es = Inr (?got, c)" "allowed conn_step (thread_ok (peer_good [9] 9 n)) ([], ?c0) es"
      using sim by (auto simp: simulates_def)
    show "conn_inv [9] 9 ?got c" using good_run_stream [OF sim cfg len n'] by blast
    have "syn_out 64000 5 ?c0" by (simp add: syn_out_def opened_conn_def eval_conn)
    then show "syn_out 64000 5 c"
      by (rule run_syn_out [OF es(1) thread_ok_contract [OF es(2,1) len n'] opened_conn_inv [OF cfg]])
  qed (use len n in simp_all)
  then show ?thesis using c by (auto simp: delivers_def peer_good_def dest: read)
qed

theorem owner_reads_peer_stream_witness:
  "\<exists>rules w1 w2 c. sponge_connect 3 udp_adapter (logged peer_os) TCPConfig_default 5 peer_filt (\<lambda>_. False) []
       (peer_socket FdAdapterBase_new) = Inr (True, rules, w1) \<and>
     tcp_loop 2 udp_adapter (logged peer_os) (\<lambda>_. True) (\<lambda>_. False) rules w1 = Inr (False, rules, w2) \<and>
     received_on 5 (io_log w2) = peer_wire \<and> received_on 4 (io_log w2) = [7, 8] \<and>
     sent_on 4 (io_log w2) = [9] \<and> prefix (sent_on 4 (io_log w2)) [9] \<and> ss_tcp w2 = Some c \<and> cn_segments_out c \<noteq> [] \<and>
     (\<forall>seg \<in> set (cn_segments_out c).
        seg_valid (sn_isn (cn_sender c)) [7, 8] (ByteStream_input_ended (sn_stream (cn_sender c))) seg)"
proof -
  let ?os = "logged peer_os" and ?w = "peer_socket FdAdapterBase_new"
  have cfg: "length [9 :: byte] + cfg_recv_capacity TCPConfig_default < 2 ^ 62" "cfg_send_capacity TCPConfig_default < two64"
    by (simp_all add: TCPConfig_default_def DEFAULT_CAPACITY_def two64_def)
  obtain w1 fds where open1: "sponge_connect 3 udp_adapter ?os TCPConfig_default 5 peer_filt (\<lambda>_. False) [] ?w =
      Inr (True, thread_rules udp_adapter ?os, w1)"
    and w1: "w1 = peer_world peer_adapter (peer_input(- 1 := [1, 2])) [Sent 5 syn_wire, Received 5 peer_wire] fds peer_c2"
      "all_ready fds" "\<And>d. fw_fd (fds d) = fw_fd (peer_fds d)"
    using udp_peer.handshake [of FdAdapterBase_new peer_filt] by (auto simp: udp_adapter_def base_set_config_def peer_adapter_def)
  obtain w2 where loop: "tcp_loop 2 udp_adapter ?os (\<lambda>_. True) (\<lambda>_. False) (thread_rules udp_adapter ?os) w1 =
      Inr (False, thread_rules udp_adapter ?os, w2)"
    and w2: "io_log w2 = [Sent 5 syn_wire, Received 5 peer_wire, Received 4 [7, 8], Sent 4 [9]]" "ss_tcp w2 = Some peer_c4"
    using udp_peer.conversation [OF w1(2,3), of "[Sent 5 syn_wire, Received 5 peer_wire]"] unfolding w1(1) by auto
  have opened: "(if False then listen_and_accept else sponge_connect) 3 udp_adapter ?os TCPConfig_default 5 peer_filt (\<lambda>_. False) [] ?w =
      Inr (True, thread_rules udp_adapter ?os, w1)"
    using open1 by simp
  have good: "\<forall>w'. socket_reach udp_adapter ?os TCPConfig_default 5 peer_filt False ?w w' \<longrightarrow>
      delivers (peer_good [9] 9 (2 ^ 30)) udp_adapter peer_os 4 w'"
    by (rule udp_port.always_delivers [OF peer_os_ok peer_socket_facts(1-4)], rule peer_delivers, assumption)
      (auto simp: adapter_read_world_def udp_adapter_def bind_result_eq_Inr dest: udp_reads_peer_seg)
  obtain c where "ss_tcp w2 = Some c" "prefix (sent_on 4 (io_log w2)) [9]"
    "\<forall>seg \<in> set (cn_segments_out c). seg_valid (sn_isn (cn_sender c)) (received_on 4 (io_log w2))
       (ByteStream_input_ended (sn_stream (cn_sender c))) seg"
    using owner_reads_peer_stream [OF _ peer_os_ok peer_socket_facts(1-3) opened loop good cfg] w2(1) by auto
  with open1 loop w2 peer_c4_facts show ?thesis by auto
qed

text \<open>The witnesses run the small system above.\<close>

lemma tcp_loop_none:
  obtains k where "tcp_loop 0 A (logged os) cond ab rules w = Inr (False, rules, w\<lparr>io_kernel := (k, io_log w)\<rparr>)"
proof -
  obtain t k where "sys_clock (logged os) (io_kernel w) = (t, (k, io_log w))" by (rule logged_clock)
  then show thesis by (intro that [of k]) (simp add: tcp_loop_def)
qed

theorem thread_refines_connection_witness:
  "\<exists>rules w1. listen_and_accept 1 udp_adapter (logged pipe_os) demo_cfg 0 FdAdapterConfig_default (\<lambda>_. False) [] demo_socket =
     Inr (False, rules, w1) \<and>
     (\<exists>es c. run conn_step ([], TCPConnection_new demo_cfg 0) es = Inr ([7, 8], c))"
proof -
  obtain rules w1 where run: "listen_and_accept 1 udp_adapter (logged pipe_os) demo_cfg 0 FdAdapterConfig_default (\<lambda>_. False) [] demo_socket =
     Inr (False, rules, w1)" and log: "io_log w1 = [Received 1 [7, 8]]"
    using demo_run by blast
  obtain k where more: "tcp_loop 0 udp_adapter (logged pipe_os) (\<lambda>_. True) (\<lambda>_. False) rules w1 =
      Inr (False, rules, w1\<lparr>io_kernel := (k, io_log w1)\<rparr>)"
    by (rule tcp_loop_none)
  have "received_on 1 (io_log (w1\<lparr>io_kernel := (k, io_log w1)\<rparr>)) = [7, 8]" using log by (simp add: io_log_def)
  with thread_refines_connection [OF _ pipe_os_ok demo_socket_facts disjI2 [OF run] more] run show ?thesis by auto
qed

theorem destroyed_socket_sends_no_rst_witness:
  "\<exists>rules w2. tcp_main 1 udp_adapter (logged pipe_os) (\<lambda>_. True) (thread_rules udp_adapter (logged pipe_os))
       (demo_socket\<lparr>ss_tcp := Some demo_c0\<rparr>) = Inr (True, rules, w2) \<and> (\<forall>fd. sent_on fd (io_log w2) = [])"
proof -
  let ?w = "demo_socket\<lparr>ss_tcp := Some demo_c0\<rparr>" and ?rs = "thread_rules udp_adapter (logged pipe_os)"
  obtain rules w1 where loop: "tcp_loop 1 udp_adapter (logged pipe_os) (\<lambda>_. True) (\<lambda>_. True) ?rs ?w = Inr (True, rules, w1)"
    and c: "ss_tcp w1 = Some demo_c1" and log: "io_log w1 = [Received 1 [7, 8]]"
    by (simp add: eval_socket eval_read eval_syscalls demo_c0_facts sub64_def cong: bind_result_lazy)
  have tcp: "ss_tcp ?w \<noteq> None" by simp
  obtain k l where "io_kernel w1 = (k, l)" by (cases "io_kernel w1")
  then obtain w2 where main: "tcp_main 1 udp_adapter (logged pipe_os) (\<lambda>_. True) ?rs ?w = Inr (True, rules, w2)"
    by (simp add: tcp_main_def loop [simplified] Socket_shutdown_def checked_call_def logged_pipe_os SystemCall_def c_int_def
        shut_defs Let_def)
  from destroyed_socket_sends_no_rst [OF tcp loop main c demo_c0_facts(9)] log have "\<forall>fd. sent_on fd (io_log w2) = []"
    by simp
  with main show ?thesis by blast
qed

end
