(* ===== verification/Text_Output.thy ===== *)
theory Text_Output
  imports File_Descriptor
begin

text \<open>
  The text the program prints (\<open>hexdump\<close> of \<open>src/libsponge/util/util.cc\<close>, \<open>to_string\<close> and \<open>summary\<close> of
  \<open>tcp_header.cc\<close> and \<open>ipv4_header.cc\<close>, \<open>Address::to_string\<close>): every function returns the characters it
  writes. A \<open>stringstream\<close> is its text with the put position, which is what makes the character
  column of \<open>hexdump\<close> lose its leading space.

  The property is that the single pass of \<open>hexdump\<close>, with its counter and its buffered column,
  writes the table that is described row by row.
\<close>

unbundle bit_operations_syntax

section \<open>Stream manipulators\<close>

definition hex_digit :: "nat \<Rightarrow> char" where
  "hex_digit n = ''0123456789abcdef'' ! n"

fun hex_string :: "nat \<Rightarrow> string" where
  "hex_string n = (if n < 16 then [hex_digit n] else hex_string (n div 16) @ [hex_digit (n mod 16)])"

declare hex_string.simps [simp del]

definition setw :: "nat \<Rightarrow> string \<Rightarrow> string" where
  "setw n s = replicate (n - length s) (CHR ''0'') @ s"

definition newline :: string where
  "newline = [CHR 0x0A]"

definition spaces :: "nat \<Rightarrow> string" where
  "spaces n = replicate n (CHR '' '')"

definition boolalpha :: "bool \<Rightarrow> string" where
  "boolalpha b = (if b then ''true'' else ''false'')"

text \<open>A \<open>stringstream\<close> opened on a text starts to write at its front, over what is there.\<close>

record stringstream =
  ss_str :: string
  ss_put :: nat

definition stringstream_of :: "string \<Rightarrow> stringstream" where
  "stringstream_of s = \<lparr>ss_str = s, ss_put = 0\<rparr>"

definition put_char :: "stringstream \<Rightarrow> char \<Rightarrow> stringstream" where
  "put_char ss c =
     ss\<lparr>ss_str := take (ss_put ss) (ss_str ss) @ c # drop (Suc (ss_put ss)) (ss_str ss),
        ss_put := Suc (ss_put ss)\<rparr>"

section \<open>\<open>hexdump\<close>\<close>

text \<open>\<open>isprint\<close> in the C locale.\<close>

definition isprint :: "byte \<Rightarrow> bool" where
  "isprint b \<longleftrightarrow> 0x20 \<le> b \<and> b \<le> 0x7e"

definition shown_char :: "byte \<Rightarrow> char" where
  "shown_char b = (if isprint b then char_of (unat b) else CHR ''.'')"

definition hexdump_step :: "nat \<Rightarrow> byte \<Rightarrow> string \<times> nat \<times> stringstream \<Rightarrow> string \<times> nat \<times> stringstream" where
  "hexdump_step indent b = (\<lambda>(out, printed, pchars).
     let (out, pchars) =
           (if printed AND 0xf = 0 then
              let (out, pchars) =
                    (if printed \<noteq> 0
                     then (out @ spaces 4 @ ss_str pchars @ newline, stringstream_of '' '')
                     else (out, pchars))
              in (out @ spaces indent @ setw 8 (hex_string printed) @ '':    '', pchars)
            else if printed AND 1 = 0 then (out @ '' '', pchars)
            else (out, pchars));
         out = out @ setw 2 (hex_string (unat b));
         pchars = put_char pchars (shown_char b)
     in (out, printed + 1, pchars))"

text \<open>
  \<open>printed\<close> is an \<open>int\<close>, whose overflow would be undefined; nothing in the program dumps more than a
  packet.
\<close>

definition hexdump :: "bytes \<Rightarrow> nat \<Rightarrow> string" where
  "hexdump data indent =
     (let (out, printed, pchars) = fold (hexdump_step indent) data ('''', 0, stringstream_of '' '');
          print_rem = (16 - (printed AND 0xf)) mod 16
      in out @ spaces (2 * print_rem + print_rem div 2 + 4) @ ss_str pchars @ newline @ newline)"

section \<open>Headers and addresses\<close>

definition TCPHeader_to_string :: "TCPHeader \<Rightarrow> string" where
  "TCPHeader_to_string h =
     ''TCP source port: '' @ hex_string (unat (th_sport h)) @ newline @
     ''TCP dest port: '' @ hex_string (unat (th_dport h)) @ newline @
     ''TCP seqno: '' @ hex_string (unat (th_seqno h)) @ newline @
     ''TCP ackno: '' @ hex_string (unat (th_ackno h)) @ newline @
     ''TCP doff: '' @ hex_string (unat (th_doff h)) @ newline @
     ''Flags: urg: '' @ boolalpha (th_urg h) @ '' ack: '' @ boolalpha (th_ack h) @
     '' psh: '' @ boolalpha (th_psh h) @ '' rst: '' @ boolalpha (th_rst h) @
     '' syn: '' @ boolalpha (th_syn h) @ '' fin: '' @ boolalpha (th_fin h) @ newline @
     ''TCP winsize: '' @ hex_string (unat (th_win h)) @ newline @
     ''TCP cksum: '' @ hex_string (unat (th_cksum h)) @ newline @
     ''TCP uptr: '' @ hex_string (unat (th_uptr h)) @ newline"

definition TCPHeader_summary :: "TCPHeader \<Rightarrow> string" where
  "TCPHeader_summary h =
     ''Header(flags='' @ (if th_syn h then ''S'' else '''') @ (if th_ack h then ''A'' else '''') @
     (if th_rst h then ''R'' else '''') @ (if th_fin h then ''F'' else '''') @
     '',seqno='' @ digits (unat (th_seqno h)) @ '',ack='' @ digits (unat (th_ackno h)) @
     '',win='' @ digits (unat (th_win h)) @ '')''"

definition IPv4Header_to_string :: "IPv4Header \<Rightarrow> string" where
  "IPv4Header_to_string h =
     ''IP version: '' @ hex_string (unat (ih_ver h)) @ newline @
     ''IP hdr len: '' @ hex_string (unat (ih_hlen h)) @ newline @
     ''IP tos: '' @ hex_string (unat (ih_tos h)) @ newline @
     ''IP dgram len: '' @ hex_string (unat (ih_len h)) @ newline @
     ''IP id: '' @ hex_string (unat (ih_id h)) @ newline @
     ''Flags: df: '' @ boolalpha (ih_df h) @ '' mf: '' @ boolalpha (ih_mf h) @ newline @
     ''Offset: '' @ hex_string (unat (ih_offset h)) @ newline @
     ''TTL: '' @ hex_string (unat (ih_ttl h)) @ newline @
     ''Protocol: '' @ hex_string (unat (ih_proto h)) @ newline @
     ''Checksum: '' @ hex_string (unat (ih_cksum h)) @ newline @
     ''Src addr: '' @ hex_string (unat (ih_src h)) @ newline @
     ''Dst addr: '' @ hex_string (unat (ih_dst h)) @ newline"

text \<open>\<open>inet_ntoa\<close> of an address that was put into network byte order: its bytes, the first one first.\<close>

definition dotted_quad :: "byte \<Rightarrow> byte \<Rightarrow> byte \<Rightarrow> byte \<Rightarrow> string" where
  "dotted_quad a b c d =
     digits (unat a) @ ''.'' @ digits (unat b) @ ''.'' @ digits (unat c) @ ''.'' @ digits (unat d)"

definition inet_ntoa :: "uint32 \<Rightarrow> string" where
  "inet_ntoa a =
     dotted_quad (ucast (drop_bit 24 a)) (ucast (drop_bit 16 a)) (ucast (drop_bit 8 a)) (ucast a)"

definition IPv4Header_summary :: "IPv4Header \<Rightarrow> string" where
  "IPv4Header_summary h =
     ''IPv'' @ hex_string (unat (ih_ver h)) @ '', '' @ ''len='' @ hex_string (unat (ih_len h)) @ '', '' @
     ''protocol='' @ hex_string (unat (ih_proto h)) @ '', '' @
     (if 10 \<le> ih_ttl h then '''' else ''ttl='' @ digits (unat (ih_ttl h)) @ '', '') @
     ''src='' @ inet_ntoa (ih_src h) @ '', '' @ ''dst='' @ inet_ntoa (ih_dst h)"

text \<open>\<open>ip_port\<close> asks \<open>getnameinfo\<close> for numeric strings, which for an IPv4 address it always gives.\<close>

definition ip_port :: "Address \<Rightarrow> string \<times> uint16" where
  "ip_port a = (inet_ntoa (ad_ip a), ad_port a)"

definition Address_to_string :: "Address \<Rightarrow> string" where
  "Address_to_string a = (let (ip, port) = ip_port a in ip @ '':'' @ digits (unat port))"

definition from_ipv4_numeric :: "uint32 \<Rightarrow> Address" where
  "from_ipv4_numeric ip_address = \<lparr>ad_ip = ip_address, ad_port = 0\<rparr>"

section \<open>The table, row by row\<close>

text \<open>
  A row shows an offset, up to sixteen bytes as pairs of two-digit numbers, and the same bytes as
  characters; only the last row is filled up with spaces.
\<close>

fun hex_column :: "bytes \<Rightarrow> string" where
  "hex_column [] = ''''"
| "hex_column [a] = setw 2 (hex_string (unat a))"
| "hex_column (a # b # bs) =
     setw 2 (hex_string (unat a)) @ setw 2 (hex_string (unat b)) @
     (if bs = [] then '''' else '' '' @ hex_column bs)"

definition dump_row :: "nat \<Rightarrow> nat \<Rightarrow> bytes \<Rightarrow> string" where
  "dump_row indent offset bs =
     spaces indent @ setw 8 (hex_string offset) @ '':    '' @ hex_column bs"

function dump_table :: "nat \<Rightarrow> nat \<Rightarrow> bytes \<Rightarrow> string" where
  "dump_table indent offset data =
     (if length data \<le> 16
      then dump_row indent offset data @
           spaces (2 * (16 - length data) + (16 - length data) div 2) @ spaces 4 @
           map shown_char data @ newline @ newline
      else dump_row indent offset (take 16 data) @ spaces 4 @ map shown_char (take 16 data) @ newline @
           dump_table indent (offset + 16) (drop 16 data))"
  by pat_completeness auto
termination by (relation "measure (\<lambda>(_, _, data). length data)") auto

declare dump_table.simps [simp del]

lemma and_15: "n AND 0xf = n mod 16" for n :: nat
  using take_bit_eq_mask [of 4 n] by (simp add: take_bit_eq_mod mask_eq_exp_minus_1)

lemma and_1: "n AND Suc 0 = n mod 2" for n :: nat
  by (simp add: and_one_eq)

lemma hex_column_snoc:
  "cur \<noteq> [] \<Longrightarrow> hex_column (cur @ [b]) =
     hex_column cur @ (if even (length cur) then '' '' else '''') @ setw 2 (hex_string (unat b))"
  by (induction cur rule: hex_column.induct) auto

text \<open>What the step writes before the first byte of a row: the rest of the row before.\<close>

definition close_row :: "string \<times> nat \<times> stringstream \<Rightarrow> string" where
  "close_row st = (case st of (out, printed, pchars) \<Rightarrow>
     if printed \<noteq> 0 then out @ spaces 4 @ ss_str pchars @ newline else out)"

definition fresh_row :: "nat \<Rightarrow> stringstream \<Rightarrow> bool" where
  "fresh_row printed pchars \<longleftrightarrow> printed mod 16 = 0 \<and> (printed = 0 \<longrightarrow> pchars = stringstream_of '' '')"

lemma step_first:
  assumes "fresh_row printed pchars"
  shows "hexdump_step indent b (out, printed, pchars) =
    (close_row (out, printed, pchars) @ dump_row indent printed [b], printed + 1,
     \<lparr>ss_str = [shown_char b], ss_put = 1\<rparr>)"
  using assms
  by (auto simp: hexdump_step_def fresh_row_def and_15 close_row_def dump_row_def put_char_def
      stringstream_of_def)

lemma step_inside:
  assumes "fresh_row printed pchars" "cur \<noteq> []" "length cur < 16"
  shows "hexdump_step indent b
      (out @ dump_row indent printed cur, printed + length cur,
       \<lparr>ss_str = map shown_char cur, ss_put = length cur\<rparr>) =
    (out @ dump_row indent printed (cur @ [b]), printed + length (cur @ [b]),
     \<lparr>ss_str = map shown_char (cur @ [b]), ss_put = length (cur @ [b])\<rparr>)"
proof -
  have "(printed + length cur) mod 16 = length cur"
    using assms by (simp add: fresh_row_def mod_add_eq [symmetric, of printed])
  moreover have "(printed + length cur) mod 2 = length cur mod 2"
  proof -
    have "printed mod 16 = 0" using assms(1) by (simp add: fresh_row_def)
    then show ?thesis by presburger
  qed
  ultimately show ?thesis
    using assms
    by (simp add: hexdump_step_def and_15 and_1 put_char_def dump_row_def hex_column_snoc
        even_iff_mod_2_eq_zero)
qed

lemma fold_row:
  assumes "fresh_row printed pchars" "cur \<noteq> []" "length cur \<le> 16"
  shows "fold (hexdump_step indent) cur (out, printed, pchars) =
    (close_row (out, printed, pchars) @ dump_row indent printed cur, printed + length cur,
     \<lparr>ss_str = map shown_char cur, ss_put = length cur\<rparr>)"
  using assms(2,3)
proof (induction cur rule: rev_nonempty_induct)
  case (single b)
  then show ?case using step_first [OF assms(1)] by simp
next
  case (snoc b cur)
  then show ?case using step_inside [OF assms(1), of cur] by simp
qed

definition finish_dump :: "string \<times> nat \<times> stringstream \<Rightarrow> string" where
  "finish_dump st = (case st of (out, printed, pchars) \<Rightarrow>
     let print_rem = (16 - (printed AND 0xf)) mod 16
     in out @ spaces (2 * print_rem + print_rem div 2 + 4) @ ss_str pchars @ newline @ newline)"

lemma spaces_add: "spaces (m + n) = spaces m @ spaces n"
  by (simp add: spaces_def replicate_add)

lemma finish_last_row:
  assumes "fresh_row printed pchars" "cur \<noteq> []" "length cur \<le> 16"
  shows "finish_dump (out, printed + length cur, \<lparr>ss_str = s, ss_put = n\<rparr>) =
    out @ spaces (2 * (16 - length cur) + (16 - length cur) div 2) @ spaces 4 @ s @ newline @ newline"
proof -
  have "(16 - (printed + length cur) mod 16) mod 16 = 16 - length cur"
  proof (cases "length cur = 16")
    case True
    then show ?thesis using assms(1) by (simp add: fresh_row_def)
  next
    case False
    then have "(printed + length cur) mod 16 = length cur"
      using assms by (simp add: fresh_row_def mod_add_eq [symmetric, of printed])
    then show ?thesis using assms by (cases cur) simp_all
  qed
  then show ?thesis by (simp add: finish_dump_def and_15 Let_def spaces_add [of _ 4])
qed

lemma fold_table:
  assumes "data \<noteq> []" "fresh_row printed pchars"
  shows "finish_dump (fold (hexdump_step indent) data (out, printed, pchars)) =
    close_row (out, printed, pchars) @ dump_table indent printed data"
  using assms
proof (induction indent printed data arbitrary: out pchars rule: dump_table.induct)
  case (1 indent printed data)
  show ?case
  proof (cases "length data \<le> 16")
    case True
    then show ?thesis
      using 1 by (simp add: fold_row finish_last_row dump_table.simps [of indent printed data])
  next
    case False
    let ?row = "take 16 data" and ?rest = "drop 16 data"
    let ?st = "(close_row (out, printed, pchars) @ dump_row indent printed ?row, printed + 16,
        \<lparr>ss_str = map shown_char ?row, ss_put = 16\<rparr>)"
    have "fold (hexdump_step indent) ?row (out, printed, pchars) = ?st"
      using fold_row [OF 1(3), of ?row indent out] False 1(2) by simp
    then have "fold (hexdump_step indent) data (out, printed, pchars) =
        fold (hexdump_step indent) ?rest ?st"
      using fold_append [of "hexdump_step indent" ?row ?rest] by simp
    moreover have "fresh_row (printed + 16) \<lparr>ss_str = map shown_char ?row, ss_put = 16\<rparr>"
      using 1(3) by (simp add: fresh_row_def)
    then have "finish_dump (fold (hexdump_step indent) ?rest ?st) =
        close_row ?st @ dump_table indent (printed + 16) ?rest"
      using 1(1) False by simp
    moreover have "close_row ?st = close_row (out, printed, pchars) @ dump_row indent printed ?row @
        spaces 4 @ map shown_char ?row @ newline"
      by (simp add: close_row_def [of ?st])
    moreover have "dump_table indent printed data = dump_row indent printed ?row @ spaces 4 @
        map shown_char ?row @ newline @ dump_table indent (printed + 16) ?rest"
      using False by (simp add: dump_table.simps [of indent printed data])
    ultimately show ?thesis by (simp only: append_assoc)
  qed
qed

lemma hexdump_finish:
  "hexdump data indent = finish_dump (fold (hexdump_step indent) data ('''', 0, stringstream_of '' ''))"
  by (simp add: hexdump_def finish_dump_def split_def Let_def)

text \<open>
  Claim C32. The single pass of \<open>hexdump\<close> over the bytes writes exactly the table described row by
  row: sixteen bytes to a row, an eight-digit offset, a space after every second byte, the last row
  filled up so that its character column stands below the others. For no bytes at all it writes
  five spaces and an empty line: only then does the leading space of the character column appear.
\<close>

theorem hexdump_table:
  "hexdump data indent =
     (if data = [] then spaces 5 @ newline @ newline else dump_table indent 0 data)"
proof (cases "data = []")
  case True
  have "spaces 5 = spaces 4 @ '' ''"
    using spaces_add [of 4 1] by (simp add: spaces_def [of "Suc 0"])
  with True show ?thesis by (simp add: hexdump_def stringstream_of_def)
next
  case False
  moreover have "fresh_row 0 (stringstream_of '' '')" by (simp add: fresh_row_def)
  ultimately show ?thesis
    using fold_table [of data 0 "stringstream_of '' ''" indent "''''"]
    by (simp add: hexdump_finish close_row_def)
qed

end
