(* ===== verification/Packet_Dump.thy ===== *)
theory Packet_Dump
  imports Text_Output
begin

text \<open>
  The packet dump (\<open>src/apps/udp_tcpdump.cc\<close>): captured packets are stripped of their link, IP and UDP
  headers, the rest is parsed as a TCP segment, and a summary and a hex dump are printed.

  \<^item> A captured packet is the list of its bytes; a read beyond it is a fault.
  \<^item> The functions of \<open>libpcap\<close> are a record of functions, a parameter, as is the text form that
    \<open>inet_ntop\<close> gives an IPv6 address.
  \<^item> Standard output and error are strings.

  The properties are the exact condition under which a captured packet makes the program read out
  of bounds or abort, and what it prints for a TCP segment inside UDP and IPv4.
\<close>

unbundle bit_operations_syntax

section \<open>Command line\<close>

text \<open>\<open>strncmp(a, b, n) == 0\<close> on C strings, which end with a NUL.\<close>

definition strncmp_eq :: "string \<Rightarrow> string \<Rightarrow> nat \<Rightarrow> bool" where
  "strncmp_eq a b n \<longleftrightarrow> take n (a @ [CHR 0x00]) = take n (b @ [CHR 0x00])"

lemma strncmp_eq_whole: "strncmp_eq a b n \<longleftrightarrow> a = b"
  if "length a < n" "CHR 0x00 \<notin> set a" "CHR 0x00 \<notin> set b"
proof
  assume "strncmp_eq a b n"
  with that(1) have eq: "a @ [CHR 0x00] = take n (b @ [CHR 0x00])" by (simp add: strncmp_eq_def)
  show "a = b"
  proof (cases "length b < n")
    case True
    with eq show ?thesis by simp
  next
    case False
    with eq have "a @ [CHR 0x00] = take n b" by simp
    then have "CHR 0x00 \<in> set (take n b)" by (metis in_set_conv_decomp)
    with that(3) show ?thesis by (meson in_set_takeD)
  qed
qed (simp add: strncmp_eq_def)

text \<open>A function that may call \<open>exit\<close>: the status and the text printed before.\<close>

datatype 'a exiting = Exit int string | Continue 'a

definition tcpdump_show_usage :: "string \<Rightarrow> string option \<Rightarrow> string" where
  "tcpdump_show_usage arg0 errmsg =
     ''Usage: '' @ arg0 @ '' [-i <intf>] [-F <file>] [-h|--help] <expression>'' @ newline @ newline @
     ''  -i <intf>    only capture packets from <intf> (default: all)'' @ newline @ newline @
     ''  -F <file>    reads in a filter expression from <file>'' @ newline @
     ''               <expression> is ignored if -F is supplied.'' @ newline @ newline @
     ''  -h, --help   show this message'' @ newline @ newline @
     ''  <expression> a filter expression in pcap-filter(7) syntax'' @ newline @
     (case errmsg of None \<Rightarrow> '''' | Some m \<Rightarrow> newline @ m) @ newline"

definition check_arg :: "string list \<Rightarrow> nat \<Rightarrow> string \<Rightarrow> string option" where
  "check_arg argv cur errmsg =
     (if cur + 1 \<ge> length argv then Some (tcpdump_show_usage (argv ! 0) (Some errmsg)) else None)"

function parse_arguments :: "string list \<Rightarrow> nat \<Rightarrow> string option \<Rightarrow> (nat \<times> string option) exiting" where
  "parse_arguments argv cur dev =
     (if cur < length argv then
        if strncmp_eq ''-i'' (argv ! cur) 3 then
          case check_arg argv cur ''ERROR: -i requires an argument'' of
            Some text \<Rightarrow> Exit 1 text
          | None \<Rightarrow> parse_arguments argv (cur + 2) (Some (argv ! (cur + 1)))
        else if strncmp_eq ''-h'' (argv ! cur) 3 \<or> strncmp_eq ''--help'' (argv ! cur) 7
        then Exit 0 (tcpdump_show_usage (argv ! 0) None)
        else Continue (cur, dev)
      else Continue (cur, dev))"
  by pat_completeness auto
termination by (relation "measure (\<lambda>(argv, cur, _). length argv - cur)") auto

declare parse_arguments.simps [simp del]

section \<open>IP headers\<close>

definition byte_at :: "bytes \<Rightarrow> nat \<Rightarrow> byte result" where
  "byte_at data i = (if i < length data then Inr (data ! i) else Inl PastEndAccess)"

definition inet4_addr :: "bytes \<Rightarrow> nat \<Rightarrow> string result" where
  "inet4_addr data i =
     bind_result (byte_at data i) (\<lambda>a. bind_result (byte_at data (i + 1)) (\<lambda>b.
     bind_result (byte_at data (i + 2)) (\<lambda>c. bind_result (byte_at data (i + 3)) (\<lambda>d.
     Inr (dotted_quad a b c d)))))"

text \<open>\<open>inet_ntop\<close> reads the sixteen bytes of an IPv6 address.\<close>

definition inet6_addr :: "(bytes \<Rightarrow> string) \<Rightarrow> bytes \<Rightarrow> nat \<Rightarrow> string result" where
  "inet6_addr inet_ntop6 data i =
     (if i + 16 \<le> length data then Inr (inet_ntop6 (take 16 (drop i data))) else Inl PastEndAccess)"

text \<open>
  The loop over the extension headers of an IPv6 packet: \<open>None\<close> with the text for standard error
  where the source returns -1.
\<close>

function ext_loop :: "bytes \<Rightarrow> byte \<Rightarrow> nat \<Rightarrow> (string \<times> nat option) result" where
  "ext_loop data nxt data_offset =
     (if nxt = 0x11 then Inr ('''', Some data_offset)
      else if nxt \<noteq> 0 \<and> nxt \<noteq> 43 \<and> nxt \<noteq> 60 then Inr (''Not UDP or fragmented; '', None)
      else if data_offset + 1 \<ge> length data then Inl PastEndAccess
      else let nxt = data ! data_offset;
               data_offset' = data_offset + 8 * (1 + unat (data ! (data_offset + 1)))
           in if length data < data_offset' + 2 then Inr ('''', None)
              else ext_loop data nxt data_offset')"
  by pat_completeness auto
termination by (relation "measure (\<lambda>(data, _, data_offset). length data - data_offset)") auto

declare ext_loop.simps [simp del]

text \<open>
  The source passes the length as an \<open>int\<close>; packets are captured with a snapshot length of 65535, far
  below its bound.
\<close>

definition process_ipv4_ipv6 ::
  "(bytes \<Rightarrow> string) \<Rightarrow> bytes \<Rightarrow> (string \<times> (string \<times> string \<times> nat) option) result" where
  "process_ipv4_ipv6 inet_ntop6 data =
     (if length data < 1 then Inr ('''', None)
      else
        let pt = data ! 0 AND 0xf0
        in if pt = 0x40 then
             let data_offset = unat (data ! 0 AND 0x0f) * 4
             in if length data < data_offset then Inr ('''', None)
                else bind_result (byte_at data 9) (\<lambda>proto.
                  if proto \<noteq> 0x11 then Inr (''Not UDP; '', None)
                  else bind_result (inet4_addr data 12) (\<lambda>src_addr.
                       bind_result (inet4_addr data 16) (\<lambda>dst_addr.
                         Inr ('''', Some (src_addr, dst_addr, data_offset + 8)))))
           else if pt = 0x60 then
             if length data < 42 then Inr ('''', None)
             else bind_result (ext_loop data (data ! 6) 40) (\<lambda>(err, r).
               case r of
                 None \<Rightarrow> Inr (err, None)
               | Some data_offset \<Rightarrow>
                   bind_result (inet6_addr inet_ntop6 data 8) (\<lambda>src_addr.
                   bind_result (inet6_addr inet_ntop6 data 24) (\<lambda>dst_addr.
                     Inr (err, Some (src_addr, dst_addr, data_offset + 8)))))
           else Inr ('''', None))"

section \<open>One packet\<close>

datatype datalink = DLT_NULL | DLT_EN10MB | DLT_RAW | DLT_LINUX_SLL | DLT_LINUX_SLL2 | DLT_OTHER

definition malformed :: string where
  "malformed = ''[INFO] Skipping malformed packet.'' @ newline"

definition non_ip :: string where
  "non_ip = ''[INFO] Skipping non-IP packet.'' @ newline"

text \<open>
  The length of the link header, or the message with which the packet is skipped. (For a link type
  that is none of the supported ones the capture loop has given up before.)
\<close>

definition ether_type :: "bytes \<Rightarrow> nat \<Rightarrow> uint16" where
  "ether_type data i = push_bit 8 (ucast (data ! i)) OR ucast (data ! (i + 1))"

definition typed_link :: "bytes \<Rightarrow> nat \<Rightarrow> nat \<Rightarrow> string + nat" where
  "typed_link data hdr_off type_off =
     (if length data < hdr_off then Inl malformed
      else let pt = ether_type data type_off
           in if pt \<noteq> 0x0800 \<and> pt \<noteq> 0x86dd then Inl non_ip else Inr hdr_off)"

definition link_offset :: "datalink \<Rightarrow> bytes \<Rightarrow> string + nat" where
  "link_offset dl_type data =
     (case dl_type of
        DLT_NULL \<Rightarrow>
          if length data < 4 then Inl malformed
          else let pt = data ! 3
               in if pt \<noteq> 2 \<and> pt \<noteq> 24 \<and> pt \<noteq> 28 \<and> pt \<noteq> 30 then Inl non_ip else Inr 4
      | DLT_EN10MB \<Rightarrow> typed_link data 14 12
      | DLT_LINUX_SLL \<Rightarrow> typed_link data 16 14
      | DLT_LINUX_SLL2 \<Rightarrow> typed_link data 20 0
      | _ \<Rightarrow> Inr 0)"

text \<open>
  The lines about a segment. After a failed checksum \<open>TCPSegment::parse\<close> has not looked at the header,
  so that the header shown is the one of a new segment.
\<close>

definition flags_string :: "TCPHeader \<Rightarrow> string" where
  "flags_string h =
     (if th_urg h then ''U'' else '''') @ (if th_psh h then ''P'' else '''') @
     (if th_rst h then ''R'' else '''') @ (if th_syn h then ''S'' else '''') @
     (if th_fin h then ''F'' else '''') @ (if th_ack h then ''.'' else '''')"

definition segment_line :: "string \<Rightarrow> string \<Rightarrow> ParseResult \<Rightarrow> TCPSegment \<Rightarrow> nat \<Rightarrow> string" where
  "segment_line src dst res seg payload_len =
     (let tcp_hdr = seg_header seg;
          seqlen = (of_nat (length_in_sequence_space seg) :: uint32)
      in src @ '':'' @ digits (unat (th_sport tcp_hdr)) @ '' > '' @
         dst @ '':'' @ digits (unat (th_dport tcp_hdr)) @ newline @ ''    Flags ['' @
         flags_string tcp_hdr @
         ''] cksum 0x'' @ setw 4 (hex_string (unat (th_cksum tcp_hdr))) @
         (if res = NoError then '' (correct)'' else '' (incorrect!)'') @
         '' seq '' @ digits (unat (th_seqno tcp_hdr)) @
         (if seqlen > 0 then '':'' @ digits (unat (th_seqno tcp_hdr + seqlen)) else '''') @
         '' ack '' @ digits (unat (th_ackno tcp_hdr)) @ '' win '' @ digits (unat (th_win tcp_hdr)) @
         '' length '' @ digits payload_len @ newline)"

definition dump_segment :: "string \<Rightarrow> string \<Rightarrow> bytes \<Rightarrow> string" where
  "dump_segment src dst payload =
     (let (res, seg) = TCPSegment_parse TCPSegment_new (Buffer_new payload) 0
      in if res \<noteq> NoError \<and> res \<noteq> BadChecksum
         then ''(did not recognize TCP header) src: '' @ src @ '' dst: '' @ dst @ newline
         else segment_line src dst res seg (length payload))"

text \<open>
  The length of the payload is computed without a check; where the packet ends before the payload
  it wraps around, and the construction of the string throws.
\<close>

definition string_max_size :: nat where
  "string_max_size = 2 ^ 63 - 1"

definition dump_packet :: "(bytes \<Rightarrow> string) \<Rightarrow> datalink \<Rightarrow> bytes \<Rightarrow> (string \<times> string) result" where
  "dump_packet inet_ntop6 dl_type data =
     (case link_offset dl_type data of
        Inl err \<Rightarrow> Inr ('''', err)
      | Inr hdr_off \<Rightarrow>
          bind_result (process_ipv4_ipv6 inet_ntop6 (drop hdr_off data)) (\<lambda>(err, r).
            case r of
              None \<Rightarrow> Inr ('''', err @ ''Error parsing IPv4/IPv6 packet. Skipping.'' @ newline)
            | Some (src, dst, start_off) \<Rightarrow>
                let payload_off = hdr_off + start_off;
                    payload_len = sub64 (length data) payload_off
                in if payload_len > string_max_size
                   then Inl (LengthError ''basic_string::_M_create'')
                   else let payload = take payload_len (drop payload_off data)
                        in Inr (dump_segment src dst payload @ hexdump payload 8, err)))"

section \<open>The program\<close>

datatype capture = Timeout | Captured bytes | Stopped int

record pcap =
  pcap_open_live :: "string option \<Rightarrow> string option"
  pcap_datalink :: "string option \<Rightarrow> datalink \<times> string"
  pcap_compile :: "string \<Rightarrow> string option"
  pcap_setfilter :: "string \<Rightarrow> string option"
  pcap_next_ex :: "nat \<Rightarrow> capture"

text \<open>
  The end of \<open>main\<close>: the handle is closed, which frees it, and after an error \<open>pcap_geterr\<close> is asked for
  the message in it.
\<close>

definition dump_end :: "int \<Rightarrow> string \<times> string \<Rightarrow> (int option \<times> string \<times> string) result" where
  "dump_end next_ret io = (if next_ret = -1 then Inl UseAfterFree else Inr (Some 0, io))"

text \<open>
  The capture loop; the calls of \<open>pcap_next_ex\<close> are numbered, and the fuel bounds their number: the
  status is \<open>None\<close> where the loop has not ended.
\<close>

fun dump_loop ::
  "pcap \<Rightarrow> (bytes \<Rightarrow> string) \<Rightarrow> datalink \<Rightarrow> nat \<Rightarrow> nat \<Rightarrow> string \<times> string \<Rightarrow> (int option \<times> string \<times> string) result" where
  "dump_loop p inet_ntop6 dl_type n 0 io = Inr (None, io)"
| "dump_loop p inet_ntop6 dl_type n (Suc fuel) (out, err) =
     (case pcap_next_ex p n of
        Timeout \<Rightarrow> dump_loop p inet_ntop6 dl_type (n + 1) fuel (out, err)
      | Captured data \<Rightarrow>
          if dl_type = DLT_OTHER then Inr (Some 1, out, err @ ''Mysterious datalink type. Giving up.'')
          else bind_result (dump_packet inet_ntop6 dl_type data) (\<lambda>(o', e').
            dump_loop p inet_ntop6 dl_type (n + 1) fuel (out @ o', err @ e'))
      | Stopped next_ret \<Rightarrow> dump_end next_ret (out, err))"

definition tcpdump_main ::
  "pcap \<Rightarrow> (bytes \<Rightarrow> string) \<Rightarrow> string list \<Rightarrow> nat \<Rightarrow> (int option \<times> string \<times> string) result" where
  "tcpdump_main p inet_ntop6 argv fuel =
     (case parse_arguments argv 1 None of
        Exit status text \<Rightarrow> Inr (Some status, text, '''')
      | Continue (exp_start, dev) \<Rightarrow>
          let out = (case dev of Some d \<Rightarrow> ''Capturing on interface '' @ d | None \<Rightarrow> ''Capturing on all interfaces'')
          in case pcap_open_live p dev of
               Some errbuf \<Rightarrow> Inr (Some 1, out @ newline @ ''Error initiating capture: '' @ errbuf @ newline, '''')
             | None \<Rightarrow>
                 let (dlt, description) = pcap_datalink p dev
                 in if dlt = DLT_OTHER
                    then Inr (Some 1, out @ newline @ ''Error: unsupported datalink type '' @ description @ newline, '''')
                    else
                      let filter_expression = concat (map (\<lambda>a. a @ '' '') (drop exp_start argv));
                          out = out @ '' (type: '' @ description @ '')'' @ newline @
                                ''Using filter expression: '' @ filter_expression @ newline
                      in case pcap_compile p filter_expression of
                           Some e \<Rightarrow> Inr (Some 1, out @ ''Error compiling filter expression: '' @ e @ newline, '''')
                         | None \<Rightarrow>
                             case pcap_setfilter p filter_expression of
                               Some e \<Rightarrow> Inr (Some 1, out @ ''Error configuring packet filter: '' @ e @ newline, '''')
                             | None \<Rightarrow> dump_loop p inet_ntop6 dlt 0 fuel (out, ''''))"

text \<open>So every capture that ends with an error ends in undefined behaviour, however long it waited.\<close>

lemma capture_error_reads_closed_handle:
  assumes "\<And>m. m < k \<Longrightarrow> pcap_next_ex p (n + m) = Timeout" "pcap_next_ex p (n + k) = Stopped (- 1)" "k < fuel"
  shows "dump_loop p inet_ntop6 dl_type n fuel io = Inl UseAfterFree"
  using assms
proof (induction k arbitrary: n fuel io)
  case 0
  then obtain fuel' where "fuel = Suc fuel'" by (cases fuel) auto
  with 0 show ?case by (cases io) (simp add: dump_end_def)
next
  case (Suc k)
  then obtain fuel' where f: "fuel = Suc fuel'" "k < fuel'" by (cases fuel) auto
  have "pcap_next_ex p (Suc n + m) = Timeout" if "m < k" for m using Suc.prems(1) [of "Suc m"] that by simp
  moreover have "pcap_next_ex p (Suc n + k) = Stopped (- 1)" using Suc.prems(2) by simp
  ultimately have "dump_loop p inet_ntop6 dl_type (Suc n) fuel' io = Inl UseAfterFree"
    using Suc.IH [of "Suc n" fuel' io] f(2) by blast
  with Suc.prems(1) [of 0] f(1) show ?case by (cases io) simp
qed

section \<open>Reads stay in the packet\<close>

lemma ext_loop_returns:
  assumes "data_offset + 2 \<le> length data"
  shows "\<exists>err r. ext_loop data nxt data_offset = Inr (err, r) \<and>
    (\<forall>d. r = Some d \<longrightarrow> data_offset \<le> d \<and> d + 2 \<le> length data)"
  using assms
proof (induction data nxt data_offset rule: ext_loop.induct)
  case (1 data nxt data_offset)
  let ?n = "data_offset + 8 * (1 + unat (data ! (data_offset + 1)))"
  show ?case
  proof (cases "nxt \<noteq> 0x11 \<and> (nxt = 0 \<or> nxt = 43 \<or> nxt = 60) \<and> ?n + 2 \<le> length data")
    case True
    then have "ext_loop data nxt data_offset = ext_loop data (data ! data_offset) ?n"
      using 1(2) by (subst ext_loop.simps) (auto simp: Let_def)
    moreover have "\<exists>err r. ext_loop data (data ! data_offset) ?n = Inr (err, r) \<and>
        (\<forall>d. r = Some d \<longrightarrow> ?n \<le> d \<and> d + 2 \<le> length data)"
      using 1 True by auto
    ultimately show ?thesis by fastforce
  next
    case False
    then show ?thesis using 1(2) by (subst ext_loop.simps) (auto simp: Let_def)
  qed
qed

lemma inet4_addr_eq:
  "inet4_addr data i =
     (if i + 4 \<le> length data
      then Inr (dotted_quad (data ! i) (data ! (i + 1)) (data ! (i + 2)) (data ! (i + 3)))
      else Inl PastEndAccess)"
  by (auto simp: inet4_addr_def byte_at_def)

lemma process_ipv4:
  assumes "data \<noteq> []" "data ! 0 AND 0xf0 = 0x40"
  shows "process_ipv4_ipv6 f data =
    (let data_offset = unat (data ! 0 AND 0x0f) * 4
     in if length data < data_offset then Inr ('''', None)
        else if length data < 10 then Inl PastEndAccess
        else if data ! 9 \<noteq> 0x11 then Inr (''Not UDP; '', None)
        else if length data < 20 then Inl PastEndAccess
        else Inr ('''', Some (dotted_quad (data ! 12) (data ! 13) (data ! 14) (data ! 15),
                            dotted_quad (data ! 16) (data ! 17) (data ! 18) (data ! 19), data_offset + 8)))"
  using assms by (simp add: process_ipv4_ipv6_def inet4_addr_eq byte_at_def Let_def)

text \<open>
  The condition for a read behind the packet: an IPv4 header that claims to be shorter than the
  twenty bytes that the program reads.
\<close>

definition ipv4_overread :: "bytes \<Rightarrow> bool" where
  "ipv4_overread data \<longleftrightarrow>
     data \<noteq> [] \<and> data ! 0 AND 0xf0 = 0x40 \<and> unat (data ! 0 AND 0x0f) * 4 \<le> length data \<and>
     (length data < 10 \<or> data ! 9 = 0x11 \<and> length data < 20)"

lemma process_cases:
  obtains (overread) "ipv4_overread data" "process_ipv4_ipv6 f data = Inl PastEndAccess"
  | (skipped) err where "\<not> ipv4_overread data" "process_ipv4_ipv6 f data = Inr (err, None)"
  | (found) err src dst off where "\<not> ipv4_overread data"
      "process_ipv4_ipv6 f data = Inr (err, Some (src, dst, off))" "off \<le> length data + 8"
proof (cases "data \<noteq> [] \<and> data ! 0 AND 0xf0 = 0x40")
  case True
  then have d: "data \<noteq> []" "data ! 0 AND 0xf0 = 0x40" by auto
  show thesis
    using that process_ipv4 [OF d, of f] d by (auto simp: ipv4_overread_def Let_def split: if_splits)
next
  case False
  then have no: "\<not> ipv4_overread data" by (auto simp: ipv4_overread_def)
  show thesis
  proof (cases "data \<noteq> [] \<and> data ! 0 AND 0xf0 = 0x60 \<and> 42 \<le> length data")
    case True
    moreover obtain err r where "ext_loop data (data ! 6) 40 = Inr (err, r)"
        "\<And>d. r = Some d \<Longrightarrow> d + 2 \<le> length data"
      using ext_loop_returns [of 40 data "data ! 6"] True by auto
    ultimately show thesis
      using False no that(2,3)
      by (cases r) (auto simp: process_ipv4_ipv6_def inet6_addr_def Let_def)
  next
    case nip: False
    then have "process_ipv4_ipv6 f data = Inr ('''', None)"
      using False by (auto simp: process_ipv4_ipv6_def Let_def)
    then show thesis using no that(2) by blast
  qed
qed

lemma payload_len_cases:
  assumes "length data < 2 ^ 32" "off \<le> length data + 8"
  shows "sub64 (length data) off > string_max_size \<longleftrightarrow> length data < off"
    and "off \<le> length data \<Longrightarrow> sub64 (length data) off = length data - off"
proof -
  show le: "off \<le> length data \<Longrightarrow> sub64 (length data) off = length data - off"
    using assms by (simp add: sub64_small two64_def)
  show "sub64 (length data) off > string_max_size \<longleftrightarrow> length data < off"
  proof (cases "length data < off")
    case True
    then have "sub64 (length data) off = two64 - (off - length data)"
      using assms by (intro sub64_wraps) (simp_all add: two64_def)
    then show ?thesis using True assms by (simp add: two64_def string_max_size_def)
  next
    case False
    then show ?thesis using le assms by (simp add: string_max_size_def)
  qed
qed

section \<open>Properties\<close>

text \<open>
  Claim C33. Exactly which captured packets make the dump fail: those whose IPv4 header claims to be
  shorter than what the program reads of it (a read behind the packet), and those that end before
  the UDP header does, for which the length of the payload wraps around and the uncaught exception
  of the string constructor ends the program. Every other packet, of whatever contents, is skipped
  or shown; the loop over IPv6 extension headers ends and stays inside the packet.
\<close>

theorem dump_faults_iff:
  assumes "length data < 2 ^ 32"
  shows "dump_packet f dl data = Inl e \<longleftrightarrow>
    (\<exists>k. link_offset dl data = Inr k \<and>
      (ipv4_overread (drop k data) \<and> e = PastEndAccess \<or>
       (\<exists>err src dst off. process_ipv4_ipv6 f (drop k data) = Inr (err, Some (src, dst, off)) \<and>
          length data < k + off \<and> e = LengthError ''basic_string::_M_create'')))"
proof (cases "link_offset dl data")
  case (Inl msg)
  then show ?thesis by (simp add: dump_packet_def)
next
  case (Inr k)
  have k: "k \<le> length data"
    using Inr by (auto simp: link_offset_def typed_link_def Let_def split: datalink.splits if_splits)
  show ?thesis
  proof (cases rule: process_cases [of "drop k data" f])
    case (found err src dst off)
    then show ?thesis
      using Inr k payload_len_cases [OF assms, of "k + off"]
      by (auto simp: dump_packet_def Let_def)
  qed (use Inr in \<open>auto simp: dump_packet_def\<close>)
qed

theorem dump_faults_iff_witness:
  "dump_packet (\<lambda>_. '''') DLT_RAW [0x45] \<noteq> Inl PastEndAccess \<and>
   dump_packet (\<lambda>_. '''') DLT_RAW [0x40] = Inl PastEndAccess"
  using dump_faults_iff [of "[0x45]" "\<lambda>_. ''''" DLT_RAW PastEndAccess]
    dump_faults_iff [of "[0x40]" "\<lambda>_. ''''" DLT_RAW PastEndAccess]
  by (simp add: link_offset_def ipv4_overread_def)


text \<open>The bytes of a serialized segment: where its checksum is, and what parsing makes of them.\<close>

lemma serialized_segment:
  assumes "5 \<le> unat (th_doff (seg_header seg))" "unat (th_doff (seg_header seg)) < 16"
    and "4 * unat (th_doff (seg_header seg)) + length (Buffer_str (seg_payload seg)) \<le> 65535"
    and "TCPSegment_serialize seg 0 = Inr bl" "wire = BufferList_concatenate bl"
  obtains b where
    "TCPSegment_parse TCPSegment_new (Buffer_new wire) 0 =
       (NoError, \<lparr>seg_header = (seg_header seg)\<lparr>th_cksum := be_value (take 2 (drop 16 wire))\<rparr>, seg_payload = b\<rparr>)"
    "Buffer_str b = Buffer_str (seg_payload seg)"
proof -
  let ?h = "seg_header seg" and ?pl = "Buffer_str (seg_payload seg)"
  define c where "c = InternetChecksum_value (InternetChecksum_add (InternetChecksum_new 0)
    (header_front ?h @ [0, 0] @ (be_bytes (th_uptr ?h) @ header_pad ?h @ ?pl)))"
  have doff: "\<not> th_doff ?h < 5" "th_doff ?h < 16"
    using assms(1,2) by (simp_all add: word_less_nat_alt)
  have wire: "wire = header_front ?h @ be_bytes c @ (be_bytes (th_uptr ?h) @ header_pad ?h @ ?pl)"
    using TCPSegment_serialize_bytes [OF doff(1) c_def] assms(4,5) by (auto simp: BufferList_concatenate_def)
  then have "take 2 (drop 16 wire) = be_bytes c" by (simp add: length_be_bytes)
  then have "be_value (take 2 (drop 16 wire)) = c" by (simp add: be_value_be_bytes)
  moreover have "\<exists>b. TCPSegment_parse TCPSegment_new (Buffer_new wire) 0 =
      (NoError, TCPSegment_new\<lparr>seg_header := ?h\<lparr>th_cksum := c\<rparr>, seg_payload := b\<rparr>) \<and> Buffer_str b = ?pl"
    by (rule TCPSegment_parse_bytes [OF doff assms(3) _ c_def]) (simp_all add: wire)
  ultimately show thesis using that by (auto simp: TCPSegment_new_def)
qed

lemma segment_line_payload:
  "Buffer_str b = Buffer_str (seg_payload seg) \<Longrightarrow>
   segment_line src dst res \<lparr>seg_header = h, seg_payload = b\<rparr> n =
   segment_line src dst res (seg\<lparr>seg_header := h\<rparr>) n"
  by (simp add: segment_line_def length_in_sequence_space_def)

lemma occupies_some:
  assumes "a + length data \<le> 65535"
  shows "(0 :: uint32) < of_nat (length data + (if syn then 1 else 0) + (if fin then 1 else 0)) \<longleftrightarrow>
    length data + (if syn then 1 else 0) + (if fin then 1 else 0) \<noteq> 0"
proof -
  let ?n = "length data + (if syn then 1 else 0) + (if fin then 1 else (0 :: nat))"
  have "?n < 2 ^ 32" using assms by simp
  then have "?n mod 2 ^ 32 = ?n" by (rule mod_less)
  then have "unat (of_nat ?n :: uint32) = ?n" by (simp only: unat_of_nat len_of_numeral_defs) simp
  then show ?thesis by (simp only: word_less_nat_alt unat_0 neq0_conv)
qed

text \<open>
  Claim C29. What the dump prints for a TCP segment inside UDP inside IPv4, behind a link header of
  any supported kind: the source address of the IP header, a colon and the segment's source port,
  then the destination address and port; on the next line the letters of the flags that are set,
  the checksum of the wire in hexadecimal and marked as correct, the sequence number, behind a colon
  the sequence number that follows the segment unless it occupies none, the acknowledgment number, the
  window and the length of the UDP payload; and then the bytes of that payload as a table. Nothing
  is written to standard error.
\<close>

theorem dump_shows_segment:
  assumes "link_offset dl data = Inr k" "length data < 2 ^ 32"
    and "drop k data = ip @ udp @ wire" "length ip = 4 * unat (ip ! 0 AND 0x0f)"
    and "ip ! 0 AND 0xf0 = 0x40" "20 \<le> length ip" "ip ! 9 = 0x11" "length udp = 8"
    and "TCPSegment_serialize seg 0 = Inr bl" "wire = BufferList_concatenate bl"
    and "5 \<le> unat (th_doff (seg_header seg))" "unat (th_doff (seg_header seg)) < 16"
    and "4 * unat (th_doff (seg_header seg)) + length (Buffer_str (seg_payload seg)) \<le> 65535"
  shows "dump_packet f dl data =
    (let h = seg_header seg;
         occupied = length (Buffer_str (seg_payload seg)) + (if th_syn h then 1 else 0) + (if th_fin h then 1 else 0)
     in Inr (
       digits (unat (ip ! 12)) @ ''.'' @ digits (unat (ip ! 13)) @ ''.'' @ digits (unat (ip ! 14)) @ ''.'' @
       digits (unat (ip ! 15)) @ '':'' @ digits (unat (th_sport h)) @ '' > '' @
       digits (unat (ip ! 16)) @ ''.'' @ digits (unat (ip ! 17)) @ ''.'' @ digits (unat (ip ! 18)) @ ''.'' @
       digits (unat (ip ! 19)) @ '':'' @ digits (unat (th_dport h)) @ newline @
       ''    Flags ['' @ (if th_urg h then ''U'' else '''') @ (if th_psh h then ''P'' else '''') @
       (if th_rst h then ''R'' else '''') @ (if th_syn h then ''S'' else '''') @
       (if th_fin h then ''F'' else '''') @ (if th_ack h then ''.'' else '''') @
       ''] cksum 0x'' @ setw 4 (hex_string (unat (be_value (take 2 (drop 16 wire)) :: uint16))) @ '' (correct)'' @
       '' seq '' @ digits (unat (th_seqno h)) @
       (if occupied = 0 then '''' else '':'' @ digits (unat (th_seqno h + of_nat occupied))) @
       '' ack '' @ digits (unat (th_ackno h)) @ '' win '' @ digits (unat (th_win h)) @
       '' length '' @ digits (length wire) @ newline @ hexdump wire 8, ''''))"
proof -
  let ?src = "dotted_quad (ip ! 12) (ip ! 13) (ip ! 14) (ip ! 15)"
  let ?dst = "dotted_quad (ip ! 16) (ip ! 17) (ip ! 18) (ip ! 19)"
  have len: "length data = k + length ip + 8 + length wire"
    using arg_cong [OF assms(3), of length] assms(6,8) by simp
  obtain b where b: "TCPSegment_parse TCPSegment_new (Buffer_new wire) 0 =
       (NoError, \<lparr>seg_header = (seg_header seg)\<lparr>th_cksum := be_value (take 2 (drop 16 wire))\<rparr>, seg_payload = b\<rparr>)"
    "Buffer_str b = Buffer_str (seg_payload seg)"
    by (rule serialized_segment [OF assms(11,12,13,9,10)])
  have "process_ipv4_ipv6 f (drop k data) = Inr ('''', Some (?src, ?dst, length ip + 8))"
    using assms(3-8) by (subst process_ipv4) (auto simp: nth_append Let_def)
  moreover have "drop (k + (length ip + 8)) data = wire"
    using assms(3,8) drop_drop [of "length ip + 8" k data] by (simp add: add.commute)
  moreover have "sub64 (length data) (k + (length ip + 8)) = length wire"
    using payload_len_cases(2) [OF assms(2), of "k + (length ip + 8)"] len by simp
  moreover have "length wire \<le> string_max_size"
    using len assms(2) by (simp add: string_max_size_def)
  ultimately have "dump_packet f dl data = Inr (segment_line ?src ?dst NoError
      (seg\<lparr>seg_header := (seg_header seg)\<lparr>th_cksum := be_value (take 2 (drop 16 wire))\<rparr>\<rparr>)
      (length wire) @ hexdump wire 8, '''')"
    using assms(1) b by (simp add: dump_packet_def dump_segment_def segment_line_payload)
  then show ?thesis
    using occupies_some [OF assms(13)]
    by (simp add: segment_line_def dotted_quad_def flags_string_def length_in_sequence_space_def Let_def)
qed

text \<open>In the witness, a SYN from port 80 to port 90.\<close>

definition demo_syn :: TCPSegment where
  "demo_syn = TCPSegment_new\<lparr>seg_header := TCPHeader_new
     \<lparr>th_sport := 80, th_dport := 90, th_seqno := 5, th_syn := True, th_win := 7\<rparr>\<rparr>"

lemma serialized_demo:
  obtains bl where "TCPSegment_serialize demo_syn 0 = Inr bl" "length (BufferList_concatenate bl) = 20"
proof -
  let ?h = "seg_header demo_syn" and ?pl = "Buffer_str (seg_payload demo_syn)"
  define c where "c = InternetChecksum_value (InternetChecksum_add (InternetChecksum_new 0)
    (header_front ?h @ [0, 0] @ (be_bytes (th_uptr ?h) @ header_pad ?h @ ?pl)))"
  have doff: "\<not> th_doff ?h < 5" by (simp add: demo_syn_def TCPHeader_new_def)
  show thesis
    using that TCPSegment_serialize_bytes [OF doff c_def]
    by (simp add: BufferList_concatenate_def length_be_bytes header_pad_def demo_syn_def TCPSegment_new_def
        TCPHeader_new_def Buffer_default_def Buffer_str_def Buffer_new_def)
qed

theorem dump_shows_segment_witness:
  "\<exists>wire. dump_packet (\<lambda>_. '''') DLT_EN10MB
      (replicate 12 0 @ [8, 0] @ [0x45, 0, 0, 0, 0, 0, 0, 0, 0, 0x11, 0, 0, 10, 0, 0, 1, 10, 0, 0, 2] @
       replicate 8 0 @ wire) =
    Inr (''10.0.0.1:80 > 10.0.0.2:90'' @ newline @ ''    Flags [S] cksum 0x'' @
         setw 4 (hex_string (unat (be_value (take 2 (drop 16 wire)) :: uint16))) @
         '' (correct) seq 5:6 ack 0 win 7 length 20'' @ newline @ hexdump wire 8, '''')"
proof -
  obtain bl where bl: "TCPSegment_serialize demo_syn 0 = Inr bl" "length (BufferList_concatenate bl) = 20"
    by (rule serialized_demo)
  show ?thesis
    by (rule exI [of _ "BufferList_concatenate bl"])
      (use dump_shows_segment [of DLT_EN10MB
        "replicate 12 0 @ [8, 0] @ [0x45, 0, 0, 0, 0, 0, 0, 0, 0, 0x11, 0, 0, 10, 0, 0, 1, 10, 0, 0, 2] @
         replicate 8 0 @ BufferList_concatenate bl" 14
        "[0x45, 0, 0, 0, 0, 0, 0, 0, 0, 0x11, 0, 0, 10, 0, 0, 1, 10, 0, 0, 2]" "replicate 8 0"
        "BufferList_concatenate bl" demo_syn bl "\<lambda>_. ''''"] bl
       in \<open>simp add: link_offset_def typed_link_def ether_type_def nth_append Let_def demo_syn_def TCPSegment_new_def
        TCPHeader_new_def Buffer_default_def Buffer_str_def digits.simps char_of_def bit_Suc_0_iff\<close>)
qed

text \<open>
  A segment with a wrong checksum is shown with the header of a new segment, whatever its own
  header says: \<open>TCPSegment::parse\<close> has returned before it looked at the header.
\<close>

lemma bad_checksum_hides_header:
  assumes "InternetChecksum_value (InternetChecksum_add (InternetChecksum_new 0) payload) \<noteq> 0"
  shows "dump_segment src dst payload = segment_line src dst BadChecksum TCPSegment_new (length payload)"
  using assms by (simp add: dump_segment_def TCPSegment_parse_def Buffer_str_def Buffer_new_def)

end
