(* ===== verification/Number_Text.thy ===== *)
theory Number_Text
  imports File_Descriptor
begin

text \<open>
  Numbers as text: the standard library's \<open>strtol\<close> and \<open>stoi\<close>, which the program uses on its command line
  and on what \<open>getnameinfo\<close> returns, and how they read back what \<open>to_string\<close> (\<open>digits\<close>) writes.
\<close>

section \<open>\<open>strtol\<close> with base 0\<close>

definition isspace :: "char \<Rightarrow> bool" where
  "isspace c \<longleftrightarrow> c = CHR '' '' \<or> 9 \<le> (of_char c :: nat) \<and> (of_char c :: nat) \<le> 13"

definition digit_value :: "char \<Rightarrow> nat" where
  "digit_value c =
     (let n = of_char c
      in if 48 \<le> n \<and> n \<le> 57 then n - 48
         else if 97 \<le> n \<and> n \<le> 122 then n - 87
         else if 65 \<le> n \<and> n \<le> 90 then n - 55
         else 36)"

definition digits_value :: "nat \<Rightarrow> string \<Rightarrow> nat" where
  "digits_value base s = foldl (\<lambda>v c. v * base + digit_value c) 0 (takeWhile (\<lambda>c. digit_value c < base) s)"

definition unsigned_value :: "string \<Rightarrow> nat" where
  "unsigned_value s =
     (case s of
        c # x # d # rest \<Rightarrow>
          if c = CHR ''0'' \<and> (x = CHR ''x'' \<or> x = CHR ''X'') \<and> digit_value d < 16
          then digits_value 16 (d # rest)
          else if c = CHR ''0'' then digits_value 8 s else digits_value 10 s
      | c # rest \<Rightarrow> if c = CHR ''0'' then digits_value 8 s else digits_value 10 s
      | [] \<Rightarrow> 0)"

definition strtol :: "string \<Rightarrow> int" where
  "strtol s =
     (let s = dropWhile isspace s;
          v = (case s of
                 c # rest \<Rightarrow>
                   if c = CHR ''-'' then - int (unsigned_value rest)
                   else if c = CHR ''+'' then int (unsigned_value rest)
                   else int (unsigned_value s)
               | [] \<Rightarrow> 0)
      in max (- (2 ^ 63)) (min (2 ^ 63 - 1) v))"

text \<open>\<open>stoi\<close>: \<open>strtol\<close> with base 10 that insists on a digit and on a value of type \<open>int\<close>.\<close>

definition sign_split :: "string \<Rightarrow> int \<times> string" where
  "sign_split s =
     (case s of
        c # rest \<Rightarrow> if c = CHR ''-'' then (- 1, rest) else if c = CHR ''+'' then (1, rest) else (1, s)
      | [] \<Rightarrow> (1, []))"

definition stoi :: "string \<Rightarrow> int result" where
  "stoi s =
     (let (sign, d) = sign_split (dropWhile isspace s); v = sign * int (digits_value 10 d)
      in if takeWhile (\<lambda>c. digit_value c < 10) d = [] then Inl (InvalidArgument ''stoi'')
         else if v < - (2 ^ 31) \<or> 2 ^ 31 \<le> v then Inl (OutOfRangeError ''stoi'')
         else Inr v)"

section \<open>What was written is read back\<close>

lemma digit_char:
  assumes "d < 10"
  shows "digit_value (char_of (48 + d)) = d" "\<not> isspace (char_of (48 + d))"
    "(char_of (48 + d) :: char) \<noteq> CHR ''-''" "(char_of (48 + d) :: char) \<noteq> CHR ''+''"
    "char_of (48 + d) = CHR ''0'' \<longleftrightarrow> d = 0"
proof -
  have n: "of_char (char_of (48 + d)) = 48 + d" using assms by simp
  then have "(char_of (48 + d) :: char) = c \<longleftrightarrow> 48 + d = of_char c" for c by (metis char_of_char)
  then show "digit_value (char_of (48 + d)) = d" "\<not> isspace (char_of (48 + d))"
    "(char_of (48 + d) :: char) \<noteq> CHR ''-''" "(char_of (48 + d) :: char) \<noteq> CHR ''+''"
    "char_of (48 + d) = CHR ''0'' \<longleftrightarrow> d = 0"
    using n assms by (simp_all add: digit_value_def isspace_def Let_def)
qed

lemma digits_chars: "c \<in> set (digits n) \<Longrightarrow> \<exists>d<10. c = char_of (48 + d :: nat)"
proof (induction n rule: digits.induct)
  case (1 n)
  show ?case
  proof (cases "n < 10")
    case True
    then show ?thesis using 1(2) by (auto simp: digits.simps [of n])
  next
    case False
    then have "c \<in> set (digits (n div 10)) \<or> c = char_of (48 + n mod 10)"
      using 1(2) by (auto simp: digits.simps [of n])
    then show ?thesis using 1(1) [OF False] by (auto intro: exI [of _ "n mod 10"])
  qed
qed

lemma digits_foldl: "foldl (\<lambda>v c. v * 10 + digit_value c) 0 (digits n) = n"
proof (induction n rule: digits.induct)
  case (1 n)
  then show ?case using digit_char(1) [of n] digit_char(1) [of "n mod 10"]
    by (cases "n < 10") (simp_all add: digits.simps [of n])
qed

lemma digits_value_digits: "digits_value 10 (digits n) = n"
proof -
  have "\<forall>c\<in>set (digits n). digit_value c < 10" using digits_chars digit_char(1) by fastforce
  then have "takeWhile (\<lambda>c. digit_value c < 10) (digits n) = digits n" by (rule takeWhile_eq_all_conv [THEN iffD2])
  then show ?thesis unfolding digits_value_def by (simp only: digits_foldl)
qed

lemma digits_not_Nil: "digits n \<noteq> []"
  by (subst digits.simps) simp

lemma digits_leading_zero: "hd (digits n) = CHR ''0'' \<longleftrightarrow> n = 0"
proof (induction n rule: digits.induct)
  case (1 n)
  then show ?case using digit_char(5) [of n] digits_not_Nil [of "n div 10"]
    by (cases "n < 10") (auto simp: digits.simps [of n])
qed

lemma unsigned_value_digits: "unsigned_value (digits n) = n"
proof (cases "n = 0")
  case True
  then show ?thesis by (simp add: digits.simps [of 0] unsigned_value_def digits_value_def digit_value_def)
next
  case False
  then have "hd (digits n) \<noteq> CHR ''0''" by (simp add: digits_leading_zero)
  then show ?thesis
    using digits_value_digits [of n] digits_not_Nil [of n]
    by (auto simp: unsigned_value_def split: list.splits)
qed

text \<open>A decimal number is read back, as long as it is a \<open>long\<close>.\<close>

lemma strtol_digits:
  assumes "n < 2 ^ 63"
  shows "strtol (digits n) = int n"
proof -
  obtain c rest where cr: "digits n = c # rest" using digits_not_Nil by (meson neq_Nil_conv)
  obtain d :: nat where "d < 10" "c = char_of (48 + d)" using digits_chars [of c n] cr by auto
  then have "\<not> isspace c" "c \<noteq> CHR ''-''" "c \<noteq> CHR ''+''" using digit_char by auto
  moreover have "unsigned_value (c # rest) = n" using unsigned_value_digits [of n] cr by simp
  ultimately show ?thesis using assms cr by (simp add: strtol_def)
qed

lemma stoi_digits:
  assumes "n < 2 ^ 31"
  shows "stoi (digits n) = Inr (int n)"
proof -
  obtain c rest where cr: "digits n = c # rest" using digits_not_Nil by (meson neq_Nil_conv)
  obtain d :: nat where "d < 10" "c = char_of (48 + d)" using digits_chars [of c n] cr by auto
  then have "\<not> isspace c" "c \<noteq> CHR ''-''" "c \<noteq> CHR ''+''" "digit_value c < 10" using digit_char by auto
  then show ?thesis using assms digits_value_digits [of n] cr by (simp add: stoi_def sign_split_def)
qed

end
