(* ===== verification/Command_Line.thy ===== *)
theory Command_Line
  imports Sponge_Socket Packet_Dump Number_Text
begin

text \<open>
  The command lines of the two programs that run the TCP implementation, over TUN
  (\<open>src/apps/tcp_ipv4.cc\<close>) and over UDP (\<open>src/apps/tcp_udp.cc\<close>), and their \<open>main\<close> up to the established
  connection.

  \<^item> Name resolution (\<open>Address\<close> from host and service) is a parameter, as is the random source port.
  \<^item> Floating-point arithmetic is not modelled: \<open>loss_rate\<close>, the map from the text of a rate to the
    16-bit number the configuration holds, is a parameter.
  \<^item> Reading an argument that is not there is a fault.

  The properties are that an options list in any order has its documented effect, and that the
  positional arguments are always the last two.
\<close>

section \<open>\<open>tcp_ipv4\<close>\<close>

text \<open>The line of defaults in the usage text names the payload size, not the default capacity.\<close>

definition ipv4_show_usage :: "string \<Rightarrow> string option \<Rightarrow> string" where
  "ipv4_show_usage argv0 msg =
     ''Usage: '' @ argv0 @ '' [options] <host> <port>'' @ newline @ newline @
     ''   Option                                                          Default'' @ newline @
     ''   --                                                              --'' @ newline @ newline @
     ''   -l              Server (listen) mode.                           (client mode)'' @ newline @
     ''                   In server mode, <host>:<port> is the address to bind.'' @ newline @ newline @
     ''   -a <addr>       Set source address (client mode only)           169.254.144.9'' @ newline @
     ''   -s <port>       Set source port (client mode only)              (random)'' @ newline @ newline @
     ''   -w <winsz>      Use a window of <winsz> bytes                   '' @ digits MAX_PAYLOAD_SIZE @ newline @ newline @
     ''   -t <tmout>      Set rt_timeout to tmout                         '' @ digits (unat TIMEOUT_DFLT) @ newline @ newline @
     ''   -d <tundev>     Connect to tun <tundev>                         tun144'' @ newline @ newline @
     ''   -Lu <loss>      Set uplink loss to <rate> (float in 0..1)       (no loss)'' @ newline @
     ''   -Ld <loss>      Set downlink loss to <rate> (float in 0..1)     (no loss)'' @ newline @ newline @
     ''   -h              Show this message.'' @ newline @ newline @
     (case msg of None \<Rightarrow> '''' | Some m \<Rightarrow> m) @ newline"

record ipv4_options =
  io_c_fsm :: TCPConfig
  io_c_filt :: FdAdapterConfig
  io_tundev :: "string option"
  io_listen :: bool
  io_source_address :: string
  io_source_port :: string

definition TUN_DFLT :: string where
  "TUN_DFLT = ''tun144''"

definition LOCAL_ADDRESS_DFLT :: string where
  "LOCAL_ADDRESS_DFLT = ''169.254.144.9''"

definition ipv4_options_new :: "uint32 \<Rightarrow> ipv4_options" where
  "ipv4_options_new random_device =
     \<lparr>io_c_fsm = TCPConfig_default, io_c_filt = FdAdapterConfig_default, io_tundev = None, io_listen = False,
      io_source_address = LOCAL_ADDRESS_DFLT, io_source_port = digits (unat (ucast random_device :: uint16))\<rparr>"

text \<open>The conversions of the result of \<open>strtol\<close> to the fields' types.\<close>

definition set_recv_capacity :: "int \<Rightarrow> TCPConfig \<Rightarrow> TCPConfig" where
  "set_recv_capacity v c = c\<lparr>cfg_recv_capacity := nat (v mod 2 ^ 64)\<rparr>"

definition set_rt_timeout :: "int \<Rightarrow> TCPConfig \<Rightarrow> TCPConfig" where
  "set_rt_timeout v c = c\<lparr>cfg_rt_timeout := of_int v\<rparr>"

text \<open>
  \<open>check_argc\<close> is the guard in front of every option with an argument: the argument itself and the
  two positional arguments have to follow.
\<close>

definition check_argc :: "(string \<Rightarrow> string option \<Rightarrow> string) \<Rightarrow> string list \<Rightarrow> nat \<Rightarrow> string \<Rightarrow> string option" where
  "check_argc usage argv cur err = (if cur + 3 \<ge> length argv then Some (usage (argv ! 0) (Some err)) else None)"

function ipv4_option_loop ::
  "(string \<Rightarrow> uint16) \<Rightarrow> string list \<Rightarrow> nat \<Rightarrow> ipv4_options \<Rightarrow> (nat \<times> ipv4_options) exiting" where
  "ipv4_option_loop loss_rate argv cur c =
     (if length argv - cur > 2 then
        let opt = argv ! cur; arg = argv ! (cur + 1); check = check_argc ipv4_show_usage argv cur
        in if strncmp_eq ''-l'' opt 3 then ipv4_option_loop loss_rate argv (cur + 1) (c\<lparr>io_listen := True\<rparr>)
           else if strncmp_eq ''-a'' opt 3 then
             case check ''ERROR: -a requires one argument.'' of
               Some text \<Rightarrow> Exit 1 text
             | None \<Rightarrow> ipv4_option_loop loss_rate argv (cur + 2) (c\<lparr>io_source_address := arg\<rparr>)
           else if strncmp_eq ''-s'' opt 3 then
             case check ''ERROR: -s requires one argument.'' of
               Some text \<Rightarrow> Exit 1 text
             | None \<Rightarrow> ipv4_option_loop loss_rate argv (cur + 2) (c\<lparr>io_source_port := arg\<rparr>)
           else if strncmp_eq ''-w'' opt 3 then
             case check ''ERROR: -w requires one argument.'' of
               Some text \<Rightarrow> Exit 1 text
             | None \<Rightarrow> ipv4_option_loop loss_rate argv (cur + 2) (c\<lparr>io_c_fsm := set_recv_capacity (strtol arg) (io_c_fsm c)\<rparr>)
           else if strncmp_eq ''-t'' opt 3 then
             case check ''ERROR: -t requires one argument.'' of
               Some text \<Rightarrow> Exit 1 text
             | None \<Rightarrow> ipv4_option_loop loss_rate argv (cur + 2) (c\<lparr>io_c_fsm := set_rt_timeout (strtol arg) (io_c_fsm c)\<rparr>)
           else if strncmp_eq ''-d'' opt 3 then
             case check ''ERROR: -t requires one argument.'' of
               Some text \<Rightarrow> Exit 1 text
             | None \<Rightarrow> ipv4_option_loop loss_rate argv (cur + 2) (c\<lparr>io_tundev := Some arg\<rparr>)
           else if strncmp_eq ''-Lu'' opt 3 then
             case check ''ERROR: -Lu requires one argument.'' of
               Some text \<Rightarrow> Exit 1 text
             | None \<Rightarrow> ipv4_option_loop loss_rate argv (cur + 2) (c\<lparr>io_c_filt := (io_c_filt c)\<lparr>fc_loss_rate_up := loss_rate arg\<rparr>\<rparr>)
           else if strncmp_eq ''-Ld'' opt 3 then
             case check ''ERROR: -Lu requires one argument.'' of
               Some text \<Rightarrow> Exit 1 text
             | None \<Rightarrow> ipv4_option_loop loss_rate argv (cur + 2) (c\<lparr>io_c_filt := (io_c_filt c)\<lparr>fc_loss_rate_dn := loss_rate arg\<rparr>\<rparr>)
           else if strncmp_eq ''-h'' opt 3 then Exit 0 (ipv4_show_usage (argv ! 0) None)
           else Exit 1 (ipv4_show_usage (argv ! 0) (Some (''ERROR: unrecognized option '' @ opt)))
      else Continue (cur, c))"
  by pat_completeness auto
termination by (relation "measure (\<lambda>(_, argv, cur, _). length argv - cur)") auto

declare ipv4_option_loop.simps [simp del]

text \<open>Name resolution, and an argument by position.\<close>

type_synonym resolver = "string \<Rightarrow> string \<Rightarrow> Address result"

definition arg_at :: "string list \<Rightarrow> nat \<Rightarrow> string result" where
  "arg_at argv i = (if i < length argv then Inr (argv ! i) else Inl PastEndAccess)"

definition ipv4_get_config ::
  "resolver \<Rightarrow> (string \<Rightarrow> uint16) \<Rightarrow> uint32 \<Rightarrow> string list \<Rightarrow>
   (TCPConfig \<times> FdAdapterConfig \<times> bool \<times> string option) exiting result" where
  "ipv4_get_config resolve loss_rate random_device argv =
     (case ipv4_option_loop loss_rate argv 1 (ipv4_options_new random_device) of
        Exit status text \<Rightarrow> Inr (Exit status text)
      | Continue (cur, c) \<Rightarrow>
          if io_listen c then
            bind_result (arg_at argv (cur + 1)) (\<lambda>service.
            bind_result (resolve ''0'' service) (\<lambda>source.
              if ad_port source = 0
              then Inr (Exit 1 (ipv4_show_usage (argv ! 0) (Some ''ERROR: listen port cannot be zero in server mode.'')))
              else Inr (Continue (io_c_fsm c, (io_c_filt c)\<lparr>fc_source := source\<rparr>, True, io_tundev c))))
          else
            bind_result (arg_at argv cur) (\<lambda>host.
            bind_result (arg_at argv (cur + 1)) (\<lambda>service.
            bind_result (resolve host service) (\<lambda>destination.
            bind_result (resolve (io_source_address c) (io_source_port c)) (\<lambda>source.
              Inr (Continue (io_c_fsm c, (io_c_filt c)\<lparr>fc_destination := destination, fc_source := source\<rparr>,
                             False, io_tundev c)))))))"

text \<open>
  \<open>main\<close> up to the established connection: the device is opened, the socket made, and the connection
  opened actively or passively. What follows, and the exit codes, are in \<open>Programs\<close>.
\<close>

definition ipv4_socket ::
  "'k kernel \<Rightarrow> 'g \<Rightarrow> string option \<Rightarrow> 'k io \<Rightarrow> ('k, ('g, FdAdapterBase) LossyFdAdapter) sponge_world result" where
  "ipv4_socket os g tun_dev_name io =
     bind_result (TunTapFD_new os h_datagram (case tun_dev_name of None \<Rightarrow> TUN_DFLT | Some d \<Rightarrow> d) True io)
       (TCPSpongeSocket_new os \<lparr>lo_rand = g, lo_adapter = FdAdapterBase_new\<rparr>)"

definition ipv4_open ::
  "nat \<Rightarrow> 'k kernel \<Rightarrow> ('g \<Rightarrow> uint32 \<times> 'g) \<Rightarrow> 'g \<Rightarrow> (nat \<Rightarrow> bool) \<Rightarrow> WrappingInt32 \<Rightarrow>
   TCPConfig \<times> FdAdapterConfig \<times> bool \<times> string option \<Rightarrow> 'k io \<Rightarrow>
   (bool \<times> ('k, ('g, FdAdapterBase) LossyFdAdapter) sponge_world Rule list \<times>
    ('k, ('g, FdAdapterBase) LossyFdAdapter) sponge_world) result" where
  "ipv4_open fuel os rand g abort isn cfg io =
     (let (c_fsm, c_filt, listen, tun_dev_name) = cfg;
          A = lossy_adapter rand tun_adapter
      in bind_result (ipv4_socket os g tun_dev_name io) (\<lambda>w.
           if listen then listen_and_accept fuel A os c_fsm isn c_filt abort [] w
           else sponge_connect fuel A os c_fsm isn c_filt abort [] w))"

definition ipv4_main ::
  "nat \<Rightarrow> 'k kernel \<Rightarrow> ('g \<Rightarrow> uint32 \<times> 'g) \<Rightarrow> 'g \<Rightarrow> (nat \<Rightarrow> bool) \<Rightarrow> WrappingInt32 \<Rightarrow>
   resolver \<Rightarrow> (string \<Rightarrow> uint16) \<Rightarrow> uint32 \<Rightarrow> string list \<Rightarrow> 'k io \<Rightarrow>
   (bool \<times> ('k, ('g, FdAdapterBase) LossyFdAdapter) sponge_world Rule list \<times>
    ('k, ('g, FdAdapterBase) LossyFdAdapter) sponge_world) exiting result" where
  "ipv4_main fuel os rand g abort isn resolve loss_rate random_device argv io =
     (if length argv < 3
      then Inr (Exit 1 (ipv4_show_usage (argv ! 0) (Some ''ERROR: required arguments are missing.'')))
      else bind_result (ipv4_get_config resolve loss_rate random_device argv) (\<lambda>r.
        case r of
          Exit status text \<Rightarrow> Inr (Exit status text)
        | Continue cfg \<Rightarrow> bind_result (ipv4_open fuel os rand g abort isn cfg io) (\<lambda>x. Inr (Continue x))))"

section \<open>\<open>tcp_udp\<close>\<close>

definition udp_show_usage :: "string \<Rightarrow> string option \<Rightarrow> string" where
  "udp_show_usage argv0 msg =
     ''Usage: '' @ argv0 @ '' [options] <host> <port>'' @ newline @ newline @
     ''   Option                                                          Default'' @ newline @
     ''   --                                                              --'' @ newline @ newline @
     ''   -l              Server (listen) mode.                           (client mode)'' @ newline @
     ''                   In server mode, <host>:<port> is the address to bind.'' @ newline @ newline @
     ''   -w <winsz>      Use a window of <winsz> bytes                   '' @ digits MAX_PAYLOAD_SIZE @ newline @ newline @
     ''   -t <tmout>      Set rt_timeout to tmout                         '' @ digits (unat TIMEOUT_DFLT) @ newline @ newline @
     ''   -Lu <loss>      Set uplink loss to <rate> (float in 0..1)       (no loss)'' @ newline @
     ''   -Ld <loss>      Set downlink loss to <rate> (float in 0..1)     (no loss)'' @ newline @ newline @
     ''   -h              Show this message and quit.'' @ newline @ newline @
     (case msg of None \<Rightarrow> '''' | Some m \<Rightarrow> m) @ newline"

record udp_options =
  uo_c_fsm :: TCPConfig
  uo_c_filt :: FdAdapterConfig
  uo_listen :: bool

definition udp_options_new :: udp_options where
  "udp_options_new = \<lparr>uo_c_fsm = TCPConfig_default, uo_c_filt = FdAdapterConfig_default, uo_listen = False\<rparr>"

function udp_option_loop ::
  "(string \<Rightarrow> uint16) \<Rightarrow> string list \<Rightarrow> nat \<Rightarrow> udp_options \<Rightarrow> (nat \<times> udp_options) exiting" where
  "udp_option_loop loss_rate argv cur c =
     (if length argv - cur > 2 then
        let opt = argv ! cur; arg = argv ! (cur + 1); check = check_argc udp_show_usage argv cur
        in if strncmp_eq ''-l'' opt 3 then udp_option_loop loss_rate argv (cur + 1) (c\<lparr>uo_listen := True\<rparr>)
           else if strncmp_eq ''-w'' opt 3 then
             case check ''ERROR: -w requires one argument.'' of
               Some text \<Rightarrow> Exit 1 text
             | None \<Rightarrow> udp_option_loop loss_rate argv (cur + 2) (c\<lparr>uo_c_fsm := set_recv_capacity (strtol arg) (uo_c_fsm c)\<rparr>)
           else if strncmp_eq ''-t'' opt 3 then
             case check ''ERROR: -t requires one argument.'' of
               Some text \<Rightarrow> Exit 1 text
             | None \<Rightarrow> udp_option_loop loss_rate argv (cur + 2) (c\<lparr>uo_c_fsm := set_rt_timeout (strtol arg) (uo_c_fsm c)\<rparr>)
           else if strncmp_eq ''-Lu'' opt 3 then
             case check ''ERROR: -Lu requires one argument.'' of
               Some text \<Rightarrow> Exit 1 text
             | None \<Rightarrow> udp_option_loop loss_rate argv (cur + 2) (c\<lparr>uo_c_filt := (uo_c_filt c)\<lparr>fc_loss_rate_up := loss_rate arg\<rparr>\<rparr>)
           else if strncmp_eq ''-Ld'' opt 3 then
             case check ''ERROR: -Lu requires one argument.'' of
               Some text \<Rightarrow> Exit 1 text
             | None \<Rightarrow> udp_option_loop loss_rate argv (cur + 2) (c\<lparr>uo_c_filt := (uo_c_filt c)\<lparr>fc_loss_rate_dn := loss_rate arg\<rparr>\<rparr>)
           else if strncmp_eq ''-h'' opt 3 then Exit 0 (udp_show_usage (argv ! 0) None)
           else Exit 1 (udp_show_usage (argv ! 0) (Some (''ERROR: unrecognized option '' @ opt)))
      else Continue (cur, c))"
  by pat_completeness auto
termination by (relation "measure (\<lambda>(_, argv, cur, _). length argv - cur)") auto

declare udp_option_loop.simps [simp del]

definition udp_get_config ::
  "resolver \<Rightarrow> (string \<Rightarrow> uint16) \<Rightarrow> string list \<Rightarrow> (TCPConfig \<times> FdAdapterConfig \<times> bool) exiting result" where
  "udp_get_config resolve loss_rate argv =
     (case udp_option_loop loss_rate argv 1 udp_options_new of
        Exit status text \<Rightarrow> Inr (Exit status text)
      | Continue (cur, c) \<Rightarrow>
          if uo_listen c then
            bind_result (arg_at argv (length argv - 1)) (\<lambda>service.
            bind_result (resolve ''0'' service) (\<lambda>source.
              Inr (Continue (uo_c_fsm c, (uo_c_filt c)\<lparr>fc_source := source\<rparr>, True))))
          else
            bind_result (arg_at argv (length argv - 2)) (\<lambda>host.
            bind_result (arg_at argv (length argv - 1)) (\<lambda>service.
            bind_result (resolve host service) (\<lambda>destination.
              Inr (Continue (uo_c_fsm c, (uo_c_filt c)\<lparr>fc_destination := destination\<rparr>, False))))))"

definition udp_socket ::
  "'k kernel \<Rightarrow> 'g \<Rightarrow> bool \<Rightarrow> Address \<Rightarrow> 'k io \<Rightarrow> ('k, ('g, FdAdapterBase) LossyFdAdapter) sponge_world result" where
  "udp_socket os g listen source io =
     bind_result (Socket_new os h_datagram AF_INET SOCK_DGRAM io) (\<lambda>io.
     bind_result (if listen then Socket_bind os h_datagram source io else Inr io)
       (TCPSpongeSocket_new os \<lparr>lo_rand = g, lo_adapter = FdAdapterBase_new\<rparr>))"

definition udp_open ::
  "nat \<Rightarrow> 'k kernel \<Rightarrow> ('g \<Rightarrow> uint32 \<times> 'g) \<Rightarrow> 'g \<Rightarrow> (nat \<Rightarrow> bool) \<Rightarrow> WrappingInt32 \<Rightarrow>
   TCPConfig \<times> FdAdapterConfig \<times> bool \<Rightarrow> 'k io \<Rightarrow>
   (bool \<times> ('k, ('g, FdAdapterBase) LossyFdAdapter) sponge_world Rule list \<times>
    ('k, ('g, FdAdapterBase) LossyFdAdapter) sponge_world) result" where
  "udp_open fuel os rand g abort isn cfg io =
     (let (c_fsm, c_filt, listen) = cfg;
          A = lossy_adapter rand udp_adapter
      in bind_result (udp_socket os g listen (fc_source c_filt) io) (\<lambda>w.
           if listen then listen_and_accept fuel A os c_fsm isn c_filt abort [] w
           else sponge_connect fuel A os c_fsm isn c_filt abort [] w))"

definition udp_main ::
  "nat \<Rightarrow> 'k kernel \<Rightarrow> ('g \<Rightarrow> uint32 \<times> 'g) \<Rightarrow> 'g \<Rightarrow> (nat \<Rightarrow> bool) \<Rightarrow> WrappingInt32 \<Rightarrow>
   resolver \<Rightarrow> (string \<Rightarrow> uint16) \<Rightarrow> string list \<Rightarrow> 'k io \<Rightarrow>
   (bool \<times> ('k, ('g, FdAdapterBase) LossyFdAdapter) sponge_world Rule list \<times>
    ('k, ('g, FdAdapterBase) LossyFdAdapter) sponge_world) exiting result" where
  "udp_main fuel os rand g abort isn resolve loss_rate argv io =
     (if length argv < 3
      then Inr (Exit 1 (udp_show_usage (argv ! 0) (Some ''ERROR: required arguments are missing.'')))
      else bind_result (udp_get_config resolve loss_rate argv) (\<lambda>r.
        case r of
          Exit status text \<Rightarrow> Inr (Exit status text)
        | Continue cfg \<Rightarrow> bind_result (udp_open fuel os rand g abort isn cfg io) (\<lambda>x. Inr (Continue x))))"

section \<open>Options in any order\<close>

text \<open>
  An option loop: it stops in front of the last two arguments, and an option in front of at least
  two more arguments takes its effect and is passed over.
\<close>

locale option_loop =
  fixes loop :: "string list \<Rightarrow> nat \<Rightarrow> 'c \<Rightarrow> (nat \<times> 'c) exiting"
    and render :: "'o \<Rightarrow> string list"
    and apply_option :: "'o \<Rightarrow> 'c \<Rightarrow> 'c"
    and option_ok :: "'o \<Rightarrow> bool"
  assumes loop_stop: "length argv - cur \<le> 2 \<Longrightarrow> loop argv cur c = Continue (cur, c)"
    and loop_option: "option_ok opt \<Longrightarrow> argv = pre @ render opt @ rest \<Longrightarrow> 2 \<le> length rest \<Longrightarrow>
      loop argv (length pre) c = loop argv (length (pre @ render opt)) (apply_option opt c)"
begin

lemma options_take_effect:
  assumes "\<forall>opt\<in>set opts. option_ok opt"
  shows "loop (pre @ concat (map render opts) @ [host, service]) (length pre) c =
    Continue (length (pre @ concat (map render opts)), fold apply_option opts c)"
  using assms
proof (induction opts arbitrary: pre c)
  case Nil
  show ?case by (simp add: loop_stop)
next
  case (Cons opt opts)
  let ?argv = "pre @ render opt @ (concat (map render opts) @ [host, service])"
  have "loop ?argv (length pre) c = loop ?argv (length (pre @ render opt)) (apply_option opt c)"
    by (rule loop_option [where rest = "concat (map render opts) @ [host, service]"]) (use Cons.prems in simp_all)
  then show ?case using Cons.IH [of "pre @ render opt" "apply_option opt c"] Cons.prems by simp
qed

end

datatype ipv4_option =
    Listen
  | SourceAddress string
  | SourcePort string
  | Window nat
  | RtTimeout nat
  | Device string
  | UplinkLoss string
  | DownlinkLoss string

fun render_option :: "ipv4_option \<Rightarrow> string list" where
  "render_option Listen = [''-l'']"
| "render_option (SourceAddress a) = [''-a'', a]"
| "render_option (SourcePort p) = [''-s'', p]"
| "render_option (Window n) = [''-w'', digits n]"
| "render_option (RtTimeout n) = [''-t'', digits n]"
| "render_option (Device d) = [''-d'', d]"
| "render_option (UplinkLoss r) = [''-Lu'', r]"
| "render_option (DownlinkLoss r) = [''-Ld'', r]"

fun ipv4_apply :: "(string \<Rightarrow> uint16) \<Rightarrow> ipv4_option \<Rightarrow> ipv4_options \<Rightarrow> ipv4_options" where
  "ipv4_apply loss_rate Listen c = c\<lparr>io_listen := True\<rparr>"
| "ipv4_apply loss_rate (SourceAddress a) c = c\<lparr>io_source_address := a\<rparr>"
| "ipv4_apply loss_rate (SourcePort p) c = c\<lparr>io_source_port := p\<rparr>"
| "ipv4_apply loss_rate (Window n) c = c\<lparr>io_c_fsm := (io_c_fsm c)\<lparr>cfg_recv_capacity := n\<rparr>\<rparr>"
| "ipv4_apply loss_rate (RtTimeout n) c = c\<lparr>io_c_fsm := (io_c_fsm c)\<lparr>cfg_rt_timeout := of_nat n\<rparr>\<rparr>"
| "ipv4_apply loss_rate (Device d) c = c\<lparr>io_tundev := Some d\<rparr>"
| "ipv4_apply loss_rate (UplinkLoss r) c = c\<lparr>io_c_filt := (io_c_filt c)\<lparr>fc_loss_rate_up := loss_rate r\<rparr>\<rparr>"
| "ipv4_apply loss_rate (DownlinkLoss r) c = c\<lparr>io_c_filt := (io_c_filt c)\<lparr>fc_loss_rate_dn := loss_rate r\<rparr>\<rparr>"

fun number_ok :: "ipv4_option \<Rightarrow> bool" where
  "number_ok (Window n) = (n < 2 ^ 63)"
| "number_ok (RtTimeout n) = (n < 2 ^ 63)"
| "number_ok _ = True"

lemma set_numbers:
  "n < 2 ^ 63 \<Longrightarrow> set_recv_capacity (strtol (digits n)) c = c\<lparr>cfg_recv_capacity := n\<rparr>"
  "n < 2 ^ 63 \<Longrightarrow> set_rt_timeout (strtol (digits n)) c = c\<lparr>cfg_rt_timeout := of_nat n\<rparr>"
  by (simp_all add: strtol_digits set_recv_capacity_def set_rt_timeout_def)

lemma option_args:
  assumes "argv = pre @ render_option opt @ rest" "2 \<le> length rest"
  shows "length pre + length (render_option opt) + 2 \<le> length argv"
    and "2 < length argv - length pre"
    and "argv ! length pre = render_option opt ! 0"
    and "length (render_option opt) = 2 \<Longrightarrow> argv ! Suc (length pre) = render_option opt ! 1"
proof -
  have len: "length argv = length pre + length (render_option opt) + length rest" by (simp add: assms(1))
  have pos: "0 < length (render_option opt)" by (cases opt) simp_all
  show "length pre + length (render_option opt) + 2 \<le> length argv" "2 < length argv - length pre"
    using len pos assms(2) by linarith+
  show "argv ! length pre = render_option opt ! 0"
    using pos by (simp add: assms(1) nth_append)
  show "argv ! Suc (length pre) = render_option opt ! 1" if "length (render_option opt) = 2"
    using that by (simp add: assms(1) nth_append)
qed

interpretation ipv4_cl: option_loop "ipv4_option_loop loss_rate" render_option "ipv4_apply loss_rate" number_ok
proof
  show "length argv - cur \<le> 2 \<Longrightarrow> ipv4_option_loop loss_rate argv cur c = Continue (cur, c)" for argv cur c
    by (subst ipv4_option_loop.simps) simp
next
  fix opt argv pre rest c
  assume ok: "number_ok opt" and argv: "argv = pre @ render_option opt @ rest" "2 \<le> length rest"
  show "ipv4_option_loop loss_rate argv (length pre) c =
      ipv4_option_loop loss_rate argv (length (pre @ render_option opt)) (ipv4_apply loss_rate opt c)"
    using ok option_args [OF argv]
    by (subst ipv4_option_loop.simps; cases opt) (simp_all add: strncmp_eq_def check_argc_def set_numbers)
qed

text \<open>The options of \<open>tcp_udp\<close> are a subset.\<close>

fun udp_apply :: "(string \<Rightarrow> uint16) \<Rightarrow> ipv4_option \<Rightarrow> udp_options \<Rightarrow> udp_options" where
  "udp_apply loss_rate Listen c = c\<lparr>uo_listen := True\<rparr>"
| "udp_apply loss_rate (Window n) c = c\<lparr>uo_c_fsm := (uo_c_fsm c)\<lparr>cfg_recv_capacity := n\<rparr>\<rparr>"
| "udp_apply loss_rate (RtTimeout n) c = c\<lparr>uo_c_fsm := (uo_c_fsm c)\<lparr>cfg_rt_timeout := of_nat n\<rparr>\<rparr>"
| "udp_apply loss_rate (UplinkLoss r) c = c\<lparr>uo_c_filt := (uo_c_filt c)\<lparr>fc_loss_rate_up := loss_rate r\<rparr>\<rparr>"
| "udp_apply loss_rate (DownlinkLoss r) c = c\<lparr>uo_c_filt := (uo_c_filt c)\<lparr>fc_loss_rate_dn := loss_rate r\<rparr>\<rparr>"
| "udp_apply loss_rate _ c = c"

fun udp_option_ok :: "ipv4_option \<Rightarrow> bool" where
  "udp_option_ok (SourceAddress a) = False"
| "udp_option_ok (SourcePort p) = False"
| "udp_option_ok (Device d) = False"
| "udp_option_ok opt = number_ok opt"

interpretation udp_cl: option_loop "udp_option_loop loss_rate" render_option "udp_apply loss_rate" udp_option_ok
proof
  show "length argv - cur \<le> 2 \<Longrightarrow> udp_option_loop loss_rate argv cur c = Continue (cur, c)" for argv cur c
    by (subst udp_option_loop.simps) simp
next
  fix opt argv pre rest c
  assume ok: "udp_option_ok opt" and argv: "argv = pre @ render_option opt @ rest" "2 \<le> length rest"
  show "udp_option_loop loss_rate argv (length pre) c =
      udp_option_loop loss_rate argv (length (pre @ render_option opt)) (udp_apply loss_rate opt c)"
    using ok option_args [OF argv]
    by (subst udp_option_loop.simps; cases opt) (simp_all add: strncmp_eq_def check_argc_def set_numbers)
qed

text \<open>However the options end, exactly two arguments are left for the host and the service.\<close>

lemma ipv4_positional:
  assumes "ipv4_option_loop loss_rate argv cur c = Continue (cur', c')" "cur + 2 \<le> length argv"
  shows "cur' + 2 = length argv"
  using assms
proof (induction loss_rate argv cur c rule: ipv4_option_loop.induct)
  case (1 loss_rate argv cur c)
  show ?case
  proof (cases "2 < length argv - cur")
    case True
    then show ?thesis
      using 1(9) 1(1-8) [OF True refl refl refl]
      by (subst (asm) ipv4_option_loop.simps)
        (auto simp: Let_def check_argc_def split: if_splits)
  next
    case False
    then show ?thesis using 1(9,10) by (subst (asm) ipv4_option_loop.simps) simp
  qed
qed

lemma ipv4_get_config_in_bounds:
  assumes "3 \<le> length argv" "ipv4_get_config resolve loss_rate random_device argv = Inl e"
  shows "\<exists>h s. resolve h s = Inl e"
proof (cases "ipv4_option_loop loss_rate argv 1 (ipv4_options_new random_device)")
  case (Continue p)
  obtain cur c where p: "p = (cur, c)" by fastforce
  then have "cur + 2 = length argv" using ipv4_positional Continue assms(1) by fastforce
  then show ?thesis
    using assms(2) Continue p
    by (auto simp: ipv4_get_config_def arg_at_def bind_result_def split: if_splits sum.splits)
qed (use assms(2) in \<open>simp add: ipv4_get_config_def\<close>)

section \<open>Properties\<close>

text \<open>
  Claim C27. The command line of \<open>tcp_ipv4\<close> is read back: any list of options, in any order and with
  repetitions, followed by a host and a service, configures the program as if the options were
  carried out one after the other (a timeout is cut to sixteen bits). Without \<open>-l\<close> the host and the
  service given are resolved as the peer, and the source address and port of the options as its own.
  With \<open>-l\<close> the name resolved for the address to listen on is \<open>0\<close>, whatever host is given, with the
  service given, and a port of zero ends the program with the usage.
\<close>

theorem ipv4_command_line:
  fixes opts :: "ipv4_option list" and loss_rate :: "string \<Rightarrow> uint16" and random_device :: uint32
  defines "c \<equiv> fold (ipv4_apply loss_rate) opts (ipv4_options_new random_device)"
  assumes "\<forall>opt\<in>set opts. number_ok opt"
  shows "ipv4_get_config resolve loss_rate random_device
      (prog # concat (map render_option opts) @ [host, service]) =
    (if io_listen c then
       bind_result (resolve ''0'' service) (\<lambda>source.
         if ad_port source = 0
         then Inr (Exit 1 (ipv4_show_usage prog (Some ''ERROR: listen port cannot be zero in server mode.'')))
         else Inr (Continue (io_c_fsm c, (io_c_filt c)\<lparr>fc_source := source\<rparr>, True, io_tundev c)))
     else
       bind_result (resolve host service) (\<lambda>destination.
       bind_result (resolve (io_source_address c) (io_source_port c)) (\<lambda>source.
         Inr (Continue (io_c_fsm c, (io_c_filt c)\<lparr>fc_destination := destination, fc_source := source\<rparr>,
                        False, io_tundev c)))))"
proof -
  have "ipv4_option_loop loss_rate (prog # concat (map render_option opts) @ [host, service]) 1
      (ipv4_options_new random_device) = Continue (1 + length (concat (map render_option opts)), c)"
    using ipv4_cl.options_take_effect [OF assms(2), of loss_rate "[prog]" host service] by (simp add: c_def)
  then show ?thesis
    by (simp add: ipv4_get_config_def arg_at_def nth_append cong: if_cong)
qed

theorem ipv4_command_line_witness:
  "ipv4_get_config (\<lambda>h s. Inr \<lparr>ad_ip = of_nat (length h), ad_port = 80\<rparr>) (\<lambda>_. 0) 7
     [''tcp_ipv4'', ''-w'', ''500'', ''-d'', ''tun1'', ''-t'', ''20'', ''10.0.0.1'', ''http''] =
   Inr (Continue (TCPConfig_default\<lparr>cfg_recv_capacity := 500, cfg_rt_timeout := 20\<rparr>,
     FdAdapterConfig_default\<lparr>fc_destination := \<lparr>ad_ip = 8, ad_port = 80\<rparr>, fc_source := \<lparr>ad_ip = 13, ad_port = 80\<rparr>\<rparr>,
     False, Some ''tun1''))"
  using ipv4_command_line [of "[Window 500, Device ''tun1'', RtTimeout 20]"
      "\<lambda>h s. Inr \<lparr>ad_ip = of_nat (length h), ad_port = 80\<rparr>" "\<lambda>_. 0" 7 "''tcp_ipv4''" "''10.0.0.1''" "''http''"]
  by (simp add: ipv4_options_new_def LOCAL_ADDRESS_DFLT_def digits.simps char_of_def bit_Suc_0_iff)

text \<open>The same for \<open>tcp_udp\<close>, which has fewer options and takes any port to listen on.\<close>

lemma udp_command_line:
  fixes opts :: "ipv4_option list" and loss_rate :: "string \<Rightarrow> uint16"
  defines "c \<equiv> fold (udp_apply loss_rate) opts udp_options_new"
  assumes "\<forall>opt\<in>set opts. udp_option_ok opt"
  shows "udp_get_config resolve loss_rate (prog # concat (map render_option opts) @ [host, service]) =
    (if uo_listen c then
       bind_result (resolve ''0'' service) (\<lambda>source.
         Inr (Continue (uo_c_fsm c, (uo_c_filt c)\<lparr>fc_source := source\<rparr>, True)))
     else
       bind_result (resolve host service) (\<lambda>destination.
         Inr (Continue (uo_c_fsm c, (uo_c_filt c)\<lparr>fc_destination := destination\<rparr>, False))))"
proof -
  have "udp_option_loop loss_rate (prog # concat (map render_option opts) @ [host, service]) 1
      udp_options_new = Continue (1 + length (concat (map render_option opts)), c)"
    using udp_cl.options_take_effect [OF assms(2), of loss_rate "[prog]" host service] by (simp add: c_def)
  then show ?thesis
    by (simp add: udp_get_config_def arg_at_def nth_append)
qed

end
