(* ===== verification/Stream_Copy.thy ===== *)
theory Stream_Copy
  imports Event_Loop Byte_Stream
begin

text \<open>
  \<open>bidirectional_stream_copy\<close> (\<open>src/apps/bidirectional_stream_copy.cc\<close>), the main loop of the
  applications: standard input is copied to a socket and the socket to standard output, each
  through a \<open>ByteStream\<close>, by four rules of an event loop.

  The program's world extends the descriptors by the two streams and the two shutdown flags. The
  invariant \<open>copy_inv\<close> relates them to the transfers the kernel has recorded; each rule keeps it, so
  the interpretation of \<open>event_program\<close> carries it to every number of rounds.
\<close>

section \<open>The program\<close>

record 'k copy_world = "'k io" +
  sc_outbound :: ByteStream
  sc_inbound :: ByteStream
  sc_outbound_shutdown :: bool
  sc_inbound_shutdown :: bool

definition h_input :: handle where "h_input = 0"
definition h_output :: handle where "h_output = 1"
definition h_socket :: handle where "h_socket = 2"

definition max_copy_length :: size_t where "max_copy_length = 65536"
definition copy_buffer_size :: size_t where "copy_buffer_size = 1048576"

text \<open>Rule 1: standard input into the outbound stream.\<close>

definition copy_rule_1 :: "'k kernel \<Rightarrow> 'k copy_world Rule" where
  "copy_rule_1 os =
     \<lparr>ru_fd = h_input, ru_direction = In,
      ru_callback = (\<lambda>w.
        bind_result (FileDescriptor_read os h_input (ByteStream_remaining_capacity (sc_outbound w)) w) (\<lambda>(data, w).
          let w = w\<lparr>sc_outbound := snd (ByteStream_write (sc_outbound w) data)\<rparr>
          in Inr (if fd_eof w h_input then w\<lparr>sc_outbound := ByteStream_end_input (sc_outbound w)\<rparr> else w))),
      ru_interest = (\<lambda>w. \<not> ByteStream_has_error (sc_outbound w) \<and>
        ByteStream_remaining_capacity (sc_outbound w) > 0 \<and> \<not> ByteStream_has_error (sc_inbound w)),
      ru_cancel = (\<lambda>w. Inr (w\<lparr>sc_outbound := ByteStream_end_input (sc_outbound w)\<rparr>))\<rparr>"

text \<open>Rule 2: the outbound stream into the socket.\<close>

definition copy_rule_2 :: "'k kernel \<Rightarrow> 'k copy_world Rule" where
  "copy_rule_2 os =
     \<lparr>ru_fd = h_socket, ru_direction = Out,
      ru_callback = (\<lambda>w.
        let bytes_to_write = min max_copy_length (ByteStream_buffer_size (sc_outbound w))
        in bind_result (FileDescriptor_write os h_socket
               (BufferViewList_of_string (ByteStream_peek_output (sc_outbound w) bytes_to_write)) False w) (\<lambda>(bytes_written, w).
           let w = w\<lparr>sc_outbound := ByteStream_pop_output (sc_outbound w) bytes_written\<rparr>
           in if ByteStream_eof (sc_outbound w)
              then bind_result (Socket_shutdown os h_socket SHUT_WR w) (\<lambda>w. Inr (w\<lparr>sc_outbound_shutdown := True\<rparr>))
              else Inr w)),
      ru_interest = (\<lambda>w. \<not> ByteStream_buffer_empty (sc_outbound w) \<or>
        (ByteStream_eof (sc_outbound w) \<and> \<not> sc_outbound_shutdown w)),
      ru_cancel = (\<lambda>w. Inr (w\<lparr>sc_outbound := ByteStream_end_input (sc_outbound w)\<rparr>))\<rparr>"

text \<open>Rule 3: the socket into the inbound stream.\<close>

definition copy_rule_3 :: "'k kernel \<Rightarrow> 'k copy_world Rule" where
  "copy_rule_3 os =
     \<lparr>ru_fd = h_socket, ru_direction = In,
      ru_callback = (\<lambda>w.
        bind_result (FileDescriptor_read os h_socket (ByteStream_remaining_capacity (sc_inbound w)) w) (\<lambda>(data, w).
          let w = w\<lparr>sc_inbound := snd (ByteStream_write (sc_inbound w) data)\<rparr>
          in Inr (if fd_eof w h_socket then w\<lparr>sc_inbound := ByteStream_end_input (sc_inbound w)\<rparr> else w))),
      ru_interest = (\<lambda>w. \<not> ByteStream_has_error (sc_inbound w) \<and>
        ByteStream_remaining_capacity (sc_inbound w) > 0 \<and> \<not> ByteStream_has_error (sc_outbound w)),
      ru_cancel = (\<lambda>w. Inr (w\<lparr>sc_inbound := ByteStream_end_input (sc_inbound w)\<rparr>))\<rparr>"

text \<open>Rule 4: the inbound stream into standard output.\<close>

definition copy_rule_4 :: "'k kernel \<Rightarrow> 'k copy_world Rule" where
  "copy_rule_4 os =
     \<lparr>ru_fd = h_output, ru_direction = Out,
      ru_callback = (\<lambda>w.
        let bytes_to_write = min max_copy_length (ByteStream_buffer_size (sc_inbound w))
        in bind_result (FileDescriptor_write os h_output
               (BufferViewList_of_string (ByteStream_peek_output (sc_inbound w) bytes_to_write)) False w) (\<lambda>(bytes_written, w).
           let w = w\<lparr>sc_inbound := ByteStream_pop_output (sc_inbound w) bytes_written\<rparr>
           in if ByteStream_eof (sc_inbound w)
              then bind_result (FileDescriptor_close os h_output w) (\<lambda>w. Inr (w\<lparr>sc_inbound_shutdown := True\<rparr>))
              else Inr w)),
      ru_interest = (\<lambda>w. \<not> ByteStream_buffer_empty (sc_inbound w) \<or>
        (ByteStream_eof (sc_inbound w) \<and> \<not> sc_inbound_shutdown w)),
      ru_cancel = (\<lambda>w. Inr (w\<lparr>sc_inbound := ByteStream_end_input (sc_inbound w)\<rparr>))\<rparr>"

definition copy_rules :: "'k kernel \<Rightarrow> 'k copy_world Rule list" where
  "copy_rules os = [copy_rule_1 os, copy_rule_2 os, copy_rule_3 os, copy_rule_4 os]"

text \<open>
  The function itself, from a world whose handle \<open>h_socket\<close> is the socket: the two standard
  descriptors are wrapped, all three made non-blocking, and rounds run with no timeout until the
  loop has nothing more to poll. The loop may wait for ever; \<open>fuel\<close> bounds the rounds, and the flag
  of the result says whether the function has returned.
\<close>

definition copy_start :: "'k kernel \<Rightarrow> 'k io \<Rightarrow> 'k copy_world result" where
  "copy_start os io =
     bind_result (FileDescriptor_new h_input 0 io) (\<lambda>io.
     bind_result (FileDescriptor_new h_output 1 io) (\<lambda>io.
       let w = \<lparr>io_kernel = io_kernel io, io_fds = io_fds io,
                sc_outbound = ByteStream_new copy_buffer_size, sc_inbound = ByteStream_new copy_buffer_size,
                sc_outbound_shutdown = False, sc_inbound_shutdown = False\<rparr>
       in bind_result (set_blocking os h_socket False w) (\<lambda>w.
          bind_result (set_blocking os h_input False w) (set_blocking os h_output False))))"

definition bidirectional_stream_copy ::
  "nat \<Rightarrow> 'k kernel \<Rightarrow> 'k io \<Rightarrow> (bool \<times> 'k copy_world Rule list \<times> 'k copy_world) result" where
  "bidirectional_stream_copy fuel os io =
     bind_result (copy_start os io) (rounds fuel os (- 1) (copy_rules os))"

text \<open>
  On return the wrappers of the standard descriptors go away, and with them the descriptors that are
  still open: first those no rule of the event loop holds any more, \<open>_output\<close> before \<open>_input\<close>, then
  the others with their rules. The socket is the caller's.
\<close>

definition copy_return :: "'k kernel \<Rightarrow> 'k copy_world Rule list \<Rightarrow> 'k copy_world \<Rightarrow> 'k copy_world" where
  "copy_return os rules w =
     (let held = map ru_fd rules
      in fold (FDWrapper_destroy os)
           (filter (\<lambda>d. d \<notin> set held) [h_output, h_input] @ filter (\<lambda>d. d = h_input \<or> d = h_output) held) w)"

section \<open>The invariant\<close>

text \<open>
  One direction: what has been read from the source is what has been written to the sink followed
  by what is buffered, as long as the input has not ended; after that nothing is added.
\<close>

definition flow :: "ByteStream \<Rightarrow> bytes \<Rightarrow> bytes \<Rightarrow> bool" where
  "flow s got put \<longleftrightarrow>
     ByteStream_inv s \<and> bs_capacity s = copy_buffer_size \<and>
     (\<exists>dropped. got = put @ bs_buf s @ dropped \<and> (\<not> bs_isInputEnd s \<longrightarrow> dropped = []))"

lemma flow_new: "flow (ByteStream_new copy_buffer_size) [] []"
  by (simp add: flow_def ByteStream_inv_new copy_buffer_size_def two64_def) (simp add: ByteStream_new_def)

lemma flow_end: "flow s got put \<Longrightarrow> flow (ByteStream_end_input s) got put"
  by (auto simp: flow_def) (auto simp: ByteStream_end_input_def)

lemma flow_in:
  assumes "flow s got put" "length data \<le> ByteStream_remaining_capacity s"
  shows "flow (snd (ByteStream_write s data)) (got @ data) put"
proof -
  have inv: "ByteStream_inv s" using assms(1) by (simp add: flow_def)
  have room: "length data \<le> bs_capacity s - bs_size s"
    using assms(2) inv by simp
  show ?thesis
  proof (cases "bs_isInputEnd s")
    case True
    then have "ByteStream_write s data = (0, s)" by (simp add: ByteStream_write_def)
    with assms(1) True show ?thesis by (auto simp: flow_def)
  next
    case False
    then have w: "bs_buf (snd (ByteStream_write s data)) = bs_buf s @ data" "\<not> bs_isInputEnd (snd (ByteStream_write s data))"
      "bs_capacity (snd (ByteStream_write s data)) = bs_capacity s"
      using room by (simp_all add: ByteStream_write_inv_eq [OF inv] write_room_def Let_def min_def)
    have "got = put @ bs_buf s" using assms(1) False by (auto simp: flow_def)
    with w assms(1) bs.invar_write [OF inv, of data] show ?thesis by (auto simp: flow_def)
  qed
qed

lemma flow_out:
  assumes "flow s got put" "n \<le> length (ByteStream_peek_output s m)"
  shows "flow (ByteStream_pop_output s n) got (put @ take n (ByteStream_peek_output s m))"
proof -
  have inv: "ByteStream_inv s" using assms(1) by (simp add: flow_def)
  have "ByteStream_peek_output s m = take m (bs_buf s)" using inv by (rule bs.peek_content)
  with assms(2) have n: "take n (ByteStream_peek_output s m) = take n (bs_buf s)" by (simp add: min_absorb1)
  have "bs_buf (ByteStream_pop_output s n) = drop n (bs_buf s)" "bs_isInputEnd (ByteStream_pop_output s n) = bs_isInputEnd s"
    "bs_capacity (ByteStream_pop_output s n) = bs_capacity s"
    using inv by (simp_all add: ByteStream_pop_inv_eq)
  moreover have td: "take n (bs_buf s) @ drop n (bs_buf s) @ xs = bs_buf s @ xs" for xs
    by (metis append_assoc append_take_drop_id)
  ultimately show ?thesis
    using assms(1) n bs.invar_pop [OF inv, of n] unfolding flow_def append_assoc
    by (auto simp: td)
qed

text \<open>
  The whole world: the descriptors have their numbers, both directions flow, and the socket is shut
  down, or standard output closed, only when that direction is at its end.
\<close>

definition copy_inv :: "'k kernel \<Rightarrow> int \<Rightarrow> 'k logging copy_world \<Rightarrow> bool" where
  "copy_inv os sock w \<longleftrightarrow>
     kernel_ok os \<and> sock \<noteq> 0 \<and> sock \<noteq> 1 \<and>
     fd_num w h_input = 0 \<and> fd_num w h_output = 1 \<and> fd_num w h_socket = sock \<and>
     flow (sc_outbound w) (received_on 0 (io_log w)) (sent_on sock (io_log w)) \<and>
     flow (sc_inbound w) (received_on sock (io_log w)) (sent_on 1 (io_log w)) \<and>
     ((Shut sock SHUT_WR \<in> set (io_log w) \<or> sc_outbound_shutdown w) \<longrightarrow> ByteStream_eof (sc_outbound w)) \<and>
     ((Closed 1 \<in> set (io_log w) \<or> sc_inbound_shutdown w) \<longrightarrow> ByteStream_eof (sc_inbound w))"

lemma eof_end_input [simp]: "ByteStream_eof s \<Longrightarrow> ByteStream_eof (ByteStream_end_input s)"
  by (simp add: ByteStream_eof_def ByteStream_end_input_def)

lemma eof_write [simp]: "ByteStream_eof s \<Longrightarrow> ByteStream_eof (snd (ByteStream_write s d))"
  by (simp add: ByteStream_eof_def ByteStream_write_def)

lemma eof_pop [simp]: "ByteStream_eof s \<Longrightarrow> ByteStream_eof (ByteStream_pop_output s n)"
  by (simp add: ByteStream_eof_def ByteStream_pop_output_def sub64_def)

lemma copy_inv_rule_1:
  assumes inv: "copy_inv os sock w" and run: "ru_callback (copy_rule_1 (logged os)) w = Inr w'"
  shows "copy_inv os sock w'"
proof -
  have ok: "kernel_ok os" using inv by (simp add: copy_inv_def)
  obtain data w1 where rd: "FileDescriptor_read (logged os) h_input (ByteStream_remaining_capacity (sc_outbound w)) w = Inr (data, w1)"
    and w': "w' = (let w = w1\<lparr>sc_outbound := snd (ByteStream_write (sc_outbound w1) data)\<rparr>
      in if fd_eof w h_input then w\<lparr>sc_outbound := ByteStream_end_input (sc_outbound w)\<rparr> else w)"
    using run by (auto simp: copy_rule_1_def bind_result_eq_Inr Let_def)
  obtain k where len: "length data \<le> ByteStream_remaining_capacity (sc_outbound w)"
    and w1: "w1 = w\<lparr>io_kernel := (k, io_log w @ [Received (fd_num w h_input) data]),
              io_fds := (io_fds w)(h_input := (io_fds w h_input)
                \<lparr>fw_eof := fd_eof w h_input \<or> (ByteStream_remaining_capacity (sc_outbound w) > 0 \<and> data = []),
                 fw_read_count := fd_read_count w h_input + 1\<rparr>)\<rparr>"
    by (rule FileDescriptor_read_logged [OF ok rd])
  have "flow (snd (ByteStream_write (sc_outbound w) data)) (received_on 0 (io_log w) @ data) (sent_on sock (io_log w))"
    using inv len by (intro flow_in) (simp_all add: copy_inv_def)
  then show ?thesis
    using inv unfolding w' w1
    by (auto simp: copy_inv_def Let_def io_log_def fd_num_def intro: flow_end)
qed

lemma copy_inv_rule_3:
  assumes inv: "copy_inv os sock w" and run: "ru_callback (copy_rule_3 (logged os)) w = Inr w'"
  shows "copy_inv os sock w'"
proof -
  have ok: "kernel_ok os" using inv by (simp add: copy_inv_def)
  obtain data w1 where rd: "FileDescriptor_read (logged os) h_socket (ByteStream_remaining_capacity (sc_inbound w)) w = Inr (data, w1)"
    and w': "w' = (let w = w1\<lparr>sc_inbound := snd (ByteStream_write (sc_inbound w1) data)\<rparr>
      in if fd_eof w h_socket then w\<lparr>sc_inbound := ByteStream_end_input (sc_inbound w)\<rparr> else w)"
    using run by (auto simp: copy_rule_3_def bind_result_eq_Inr Let_def)
  obtain k where len: "length data \<le> ByteStream_remaining_capacity (sc_inbound w)"
    and w1: "w1 = w\<lparr>io_kernel := (k, io_log w @ [Received (fd_num w h_socket) data]),
              io_fds := (io_fds w)(h_socket := (io_fds w h_socket)
                \<lparr>fw_eof := fd_eof w h_socket \<or> (ByteStream_remaining_capacity (sc_inbound w) > 0 \<and> data = []),
                 fw_read_count := fd_read_count w h_socket + 1\<rparr>)\<rparr>"
    by (rule FileDescriptor_read_logged [OF ok rd])
  have "flow (snd (ByteStream_write (sc_inbound w) data)) (received_on sock (io_log w) @ data) (sent_on 1 (io_log w))"
    using inv len by (intro flow_in) (simp_all add: copy_inv_def)
  then show ?thesis
    using inv unfolding w' w1
    by (auto simp: copy_inv_def Let_def io_log_def fd_num_def intro: flow_end)
qed

text \<open>Writing part of a stream to a descriptor, shared by rules 2 and 4.\<close>

lemma copy_write_logged:
  assumes "kernel_ok os" "flow s got put"
    and "FileDescriptor_write (logged os) d
      (BufferViewList_of_string (ByteStream_peek_output s (min max_copy_length m))) False w = Inr (n, w1)"
  obtains k bss c where "flow (ByteStream_pop_output s n) got (put @ concat bss)"
    "w1 = w\<lparr>io_kernel := (k, io_log w @ map (Sent (fd_num w d)) bss),
            io_fds := (io_fds w)(d := (io_fds w d)\<lparr>fw_write_count := fd_write_count w d + c\<rparr>)\<rparr>"
proof -
  let ?bs = "ByteStream_peek_output s (min max_copy_length m)"
  have view: "concat (BufferViewList_of_string ?bs) = ?bs" by (simp add: BufferViewList_of_string_def)
  have small: "length (concat (BufferViewList_of_string ?bs)) < 2 ^ 63"
    unfolding view by (simp add: ByteStream_peek_output_def max_copy_length_def)
  obtain k bss c where h: "n \<le> length (concat (BufferViewList_of_string ?bs))"
    "concat bss = take n (concat (BufferViewList_of_string ?bs))"
    "w1 = w\<lparr>io_kernel := (k, io_log w @ map (Sent (fd_num w d)) bss),
            io_fds := (io_fds w)(d := (io_fds w d)\<lparr>fw_write_count := fd_write_count w d + c\<rparr>)\<rparr>"
    by (rule FileDescriptor_write_logged [OF assms(1) small assms(3)])
  from flow_out [OF assms(2), of n] h view show thesis by (intro that [OF _ h(3)]) simp
qed

lemma copy_inv_rule_2:
  assumes inv: "copy_inv os sock w" and run: "ru_callback (copy_rule_2 (logged os)) w = Inr w'"
  shows "copy_inv os sock w'"
proof -
  have ok: "kernel_ok os" and out: "flow (sc_outbound w) (received_on 0 (io_log w)) (sent_on sock (io_log w))"
    and fds: "fd_num w h_socket = sock" "sock \<noteq> 1"
    using inv by (simp_all add: copy_inv_def)
  obtain n w1 where wr: "FileDescriptor_write (logged os) h_socket
      (BufferViewList_of_string (ByteStream_peek_output (sc_outbound w)
        (min max_copy_length (ByteStream_buffer_size (sc_outbound w))))) False w = Inr (n, w1)"
    and w': "(let w = w1\<lparr>sc_outbound := ByteStream_pop_output (sc_outbound w1) n\<rparr>
       in if ByteStream_eof (sc_outbound w)
          then bind_result (Socket_shutdown (logged os) h_socket SHUT_WR w) (\<lambda>w. Inr (w\<lparr>sc_outbound_shutdown := True\<rparr>))
          else Inr w) = Inr w'"
    using run by (auto simp: copy_rule_2_def bind_result_eq_Inr Let_def)
  obtain k bss c where pop: "flow (ByteStream_pop_output (sc_outbound w) n) (received_on 0 (io_log w)) (sent_on sock (io_log w) @ concat bss)"
    and w1: "w1 = w\<lparr>io_kernel := (k, io_log w @ map (Sent (fd_num w h_socket)) bss),
            io_fds := (io_fds w)(h_socket := (io_fds w h_socket)\<lparr>fw_write_count := fd_write_count w h_socket + c\<rparr>)\<rparr>"
    by (rule copy_write_logged [OF ok out wr])
  let ?w2 = "w1\<lparr>sc_outbound := ByteStream_pop_output (sc_outbound w1) n\<rparr>"
  have inv2: "copy_inv os sock ?w2"
    using inv pop fds unfolding w1 by (auto simp: copy_inv_def io_log_def fd_num_def)
  show ?thesis
  proof (cases "ByteStream_eof (sc_outbound ?w2)")
    case False
    then have "w' = ?w2" using w' by (simp add: Let_def)
    with inv2 show ?thesis by simp
  next
    case True
    then obtain w3 where sh: "Socket_shutdown (logged os) h_socket SHUT_WR ?w2 = Inr w3" and w3: "w' = w3\<lparr>sc_outbound_shutdown := True\<rparr>"
      using w' by (auto simp: Let_def bind_result_eq_Inr)
    obtain k' evs where evs: "evs = [] \<or> evs = [Shut (fd_num ?w2 h_socket) SHUT_WR]"
      and w3': "w3 = ?w2\<lparr>io_kernel := (k', io_log ?w2 @ evs),
              io_fds := (io_fds ?w2)(h_socket := (io_fds ?w2 h_socket)\<lparr>fw_write_count := fd_write_count ?w2 h_socket + 1\<rparr>)\<rparr>"
      by (rule Socket_shutdown_logged [OF sh])
    show ?thesis
      using inv2 True evs unfolding w3 w3' by (auto simp: copy_inv_def io_log_def fd_num_def)
  qed
qed

lemma copy_inv_rule_4:
  assumes inv: "copy_inv os sock w" and run: "ru_callback (copy_rule_4 (logged os)) w = Inr w'"
  shows "copy_inv os sock w'"
proof -
  have ok: "kernel_ok os" and out: "flow (sc_inbound w) (received_on sock (io_log w)) (sent_on 1 (io_log w))"
    and fds: "fd_num w h_output = 1" "sock \<noteq> 1"
    using inv by (simp_all add: copy_inv_def)
  obtain n w1 where wr: "FileDescriptor_write (logged os) h_output
      (BufferViewList_of_string (ByteStream_peek_output (sc_inbound w)
        (min max_copy_length (ByteStream_buffer_size (sc_inbound w))))) False w = Inr (n, w1)"
    and w': "(let w = w1\<lparr>sc_inbound := ByteStream_pop_output (sc_inbound w1) n\<rparr>
       in if ByteStream_eof (sc_inbound w)
          then bind_result (FileDescriptor_close (logged os) h_output w) (\<lambda>w. Inr (w\<lparr>sc_inbound_shutdown := True\<rparr>))
          else Inr w) = Inr w'"
    using run by (auto simp: copy_rule_4_def bind_result_eq_Inr Let_def)
  obtain k bss c where pop: "flow (ByteStream_pop_output (sc_inbound w) n) (received_on sock (io_log w)) (sent_on 1 (io_log w) @ concat bss)"
    and w1: "w1 = w\<lparr>io_kernel := (k, io_log w @ map (Sent (fd_num w h_output)) bss),
            io_fds := (io_fds w)(h_output := (io_fds w h_output)\<lparr>fw_write_count := fd_write_count w h_output + c\<rparr>)\<rparr>"
    by (rule copy_write_logged [OF ok out wr])
  let ?w2 = "w1\<lparr>sc_inbound := ByteStream_pop_output (sc_inbound w1) n\<rparr>"
  have inv2: "copy_inv os sock ?w2"
    using inv pop fds unfolding w1 by (auto simp: copy_inv_def io_log_def fd_num_def)
  show ?thesis
  proof (cases "ByteStream_eof (sc_inbound ?w2)")
    case False
    then have "w' = ?w2" using w' by (simp add: Let_def)
    with inv2 show ?thesis by simp
  next
    case True
    then obtain w3 where sh: "FileDescriptor_close (logged os) h_output ?w2 = Inr w3" and w3: "w' = w3\<lparr>sc_inbound_shutdown := True\<rparr>"
      using w' by (auto simp: Let_def bind_result_eq_Inr)
    obtain k' evs where evs: "evs = [] \<or> evs = [Closed (fd_num ?w2 h_output)]"
      and w3': "w3 = ?w2\<lparr>io_kernel := (k', io_log ?w2 @ evs),
              io_fds := (io_fds ?w2)(h_output := (io_fds ?w2 h_output)\<lparr>fw_eof := True, fw_closed := True\<rparr>)\<rparr>"
      by (rule FileDescriptor_close_logged [OF sh])
    show ?thesis
      using inv2 True evs unfolding w3 w3' by (auto simp: copy_inv_def io_log_def fd_num_def)
  qed
qed

lemma copy_inv_cancel:
  "copy_inv os sock w \<Longrightarrow> copy_inv os sock (w\<lparr>sc_outbound := ByteStream_end_input (sc_outbound w)\<rparr>)"
  "copy_inv os sock w \<Longrightarrow> copy_inv os sock (w\<lparr>sc_inbound := ByteStream_end_input (sc_inbound w)\<rparr>)"
  by (auto simp: copy_inv_def io_log_def fd_num_def intro: flow_end)

interpretation copy: event_program "logged os" "set (copy_rules (logged os))" "copy_inv os sock" for os sock
proof
  fix r w w'
  assume r: "r \<in> set (copy_rules (logged os))" and inv: "copy_inv os sock w"
  show "ru_callback r w = Inr w' \<Longrightarrow> copy_inv os sock w'"
    using r inv copy_inv_rule_1 copy_inv_rule_2 copy_inv_rule_3 copy_inv_rule_4 by (auto simp: copy_rules_def)
  show "ru_cancel r w = Inr w' \<Longrightarrow> copy_inv os sock w'"
    using r inv copy_inv_cancel
    by (auto simp: copy_rules_def copy_rule_1_def copy_rule_2_def copy_rule_3_def copy_rule_4_def)
next
  fix w pfds ms res k
  assume "copy_inv os sock w" "sys_poll (logged os) pfds ms (io_kernel w) = (res, k)"
  then show "copy_inv os sock (w\<lparr>io_kernel := k\<rparr>)"
    by (auto simp: copy_inv_def io_log_def fd_num_def logged_def silent_def with_log_def split_beta Let_def)
qed

lemma set_blocking_logged:
  assumes "set_blocking (logged os) d b io = Inr io'"
  obtains k where "io' = io\<lparr>io_kernel := (k, io_log io)\<rparr>"
  using assms by (auto simp: set_blocking_def logged_def silent_def with_log_def split_beta Let_def bind_result_eq_Inr io_log_def)

lemma copy_start_inv:
  assumes "kernel_ok os" "fd_num io h_socket = sock" "sock \<noteq> 0" "sock \<noteq> 1" "io_log io = []"
    and "copy_start (logged os) io = Inr w"
  shows "copy_inv os sock w"
proof -
  let ?wrap = "\<lambda>n. \<lparr>fw_fd = n, fw_eof = False, fw_closed = False, fw_read_count = 0, fw_write_count = 0\<rparr>"
  let ?w = "\<lparr>io_kernel = io_kernel io, io_fds = (io_fds io)(h_input := ?wrap 0, h_output := ?wrap 1),
                sc_outbound = ByteStream_new copy_buffer_size, sc_inbound = ByteStream_new copy_buffer_size,
                sc_outbound_shutdown = False, sc_inbound_shutdown = False\<rparr>"
  obtain w1 w2 where b: "set_blocking (logged os) h_socket False ?w = Inr w1"
    "set_blocking (logged os) h_input False w1 = Inr w2" "set_blocking (logged os) h_output False w2 = Inr w"
    using assms(6)
    by (auto simp: copy_start_def FileDescriptor_new_def FDWrapper_new_def on_fd_def Let_def bind_result_eq_Inr)
  obtain k where "w = ?w\<lparr>io_kernel := (k, io_log ?w)\<rparr>"
    using b by (elim set_blocking_logged) (auto simp: io_log_def)
  then show ?thesis
    using assms(1-5) flow_new
    by (auto simp: copy_inv_def io_log_def fd_num_def h_input_def h_output_def h_socket_def)
qed

section \<open>Properties\<close>

text \<open>
  Claim C9. The applications' copy loop neither corrupts, reorders nor duplicates: at any moment of
  a run (after any number of rounds), the bytes written to the socket are a prefix of the bytes
  read from standard input, and the bytes written to standard output a prefix of those read from
  the socket; while a direction's input has not ended, what is missing is exactly what its stream
  buffers; and the socket is shut down for writing, or standard output closed, only when that
  direction has ended and its buffer is empty.
\<close>

theorem stream_copy_faithful:
  assumes "kernel_ok os" "fd_num io h_socket = sock" "sock \<noteq> 0" "sock \<noteq> 1" "io_log io = []"
    and "bidirectional_stream_copy fuel (logged os) io = Inr (finished, rules, w)"
  shows "prefix (sent_on sock (io_log w)) (received_on 0 (io_log w)) \<and>
    prefix (sent_on 1 (io_log w)) (received_on sock (io_log w)) \<and>
    (\<not> ByteStream_input_ended (sc_outbound w) \<longrightarrow>
       received_on 0 (io_log w) = sent_on sock (io_log w) @ bs_buf (sc_outbound w)) \<and>
    (\<not> ByteStream_input_ended (sc_inbound w) \<longrightarrow>
       received_on sock (io_log w) = sent_on 1 (io_log w) @ bs_buf (sc_inbound w)) \<and>
    (Shut sock SHUT_WR \<in> set (io_log w) \<longrightarrow> ByteStream_eof (sc_outbound w)) \<and>
    (Closed 1 \<in> set (io_log w) \<longrightarrow> ByteStream_eof (sc_inbound w))"
proof -
  obtain w0 where start: "copy_start (logged os) io = Inr w0"
    and run: "rounds fuel (logged os) (- 1) (copy_rules (logged os)) w0 = Inr (finished, rules, w)"
    using assms(6) by (auto simp: bidirectional_stream_copy_def bind_result_eq_Inr)
  have "copy_inv os sock w"
    using copy.rounds_law [OF copy_start_inv [OF assms(1-5) start] subset_refl run] by simp
  then show ?thesis by (auto simp: copy_inv_def flow_def)
qed

lemma copy_rule_fields:
  "ru_fd (copy_rule_1 os) = h_input" "ru_direction (copy_rule_1 os) = In"
  "ru_callback (copy_rule_1 os) w = (bind_result (FileDescriptor_read os h_input (ByteStream_remaining_capacity (sc_outbound w)) w) (\<lambda>(data, w).
          let w = w\<lparr>sc_outbound := snd (ByteStream_write (sc_outbound w) data)\<rparr>
          in Inr (if fd_eof w h_input then w\<lparr>sc_outbound := ByteStream_end_input (sc_outbound w)\<rparr> else w)))"
  "ru_interest (copy_rule_1 os) w \<longleftrightarrow> \<not> ByteStream_has_error (sc_outbound w) \<and>
        ByteStream_remaining_capacity (sc_outbound w) > 0 \<and> \<not> ByteStream_has_error (sc_inbound w)"
  "ru_cancel (copy_rule_1 os) w = Inr (w\<lparr>sc_outbound := ByteStream_end_input (sc_outbound w)\<rparr>)"
  "ru_fd (copy_rule_2 os) = h_socket" "ru_direction (copy_rule_2 os) = Out"
  "ru_callback (copy_rule_2 os) w = (let bytes_to_write = min max_copy_length (ByteStream_buffer_size (sc_outbound w))
        in bind_result (FileDescriptor_write os h_socket
               (BufferViewList_of_string (ByteStream_peek_output (sc_outbound w) bytes_to_write)) False w) (\<lambda>(bytes_written, w).
           let w = w\<lparr>sc_outbound := ByteStream_pop_output (sc_outbound w) bytes_written\<rparr>
           in if ByteStream_eof (sc_outbound w)
              then bind_result (Socket_shutdown os h_socket SHUT_WR w) (\<lambda>w. Inr (w\<lparr>sc_outbound_shutdown := True\<rparr>))
              else Inr w))"
  "ru_interest (copy_rule_2 os) w \<longleftrightarrow> \<not> ByteStream_buffer_empty (sc_outbound w) \<or>
        (ByteStream_eof (sc_outbound w) \<and> \<not> sc_outbound_shutdown w)"
  "ru_cancel (copy_rule_2 os) w = Inr (w\<lparr>sc_outbound := ByteStream_end_input (sc_outbound w)\<rparr>)"
  "ru_fd (copy_rule_3 os) = h_socket" "ru_direction (copy_rule_3 os) = In"
  "ru_callback (copy_rule_3 os) w = (bind_result (FileDescriptor_read os h_socket (ByteStream_remaining_capacity (sc_inbound w)) w) (\<lambda>(data, w).
          let w = w\<lparr>sc_inbound := snd (ByteStream_write (sc_inbound w) data)\<rparr>
          in Inr (if fd_eof w h_socket then w\<lparr>sc_inbound := ByteStream_end_input (sc_inbound w)\<rparr> else w)))"
  "ru_interest (copy_rule_3 os) w \<longleftrightarrow> \<not> ByteStream_has_error (sc_inbound w) \<and>
        ByteStream_remaining_capacity (sc_inbound w) > 0 \<and> \<not> ByteStream_has_error (sc_outbound w)"
  "ru_cancel (copy_rule_3 os) w = Inr (w\<lparr>sc_inbound := ByteStream_end_input (sc_inbound w)\<rparr>)"
  "ru_fd (copy_rule_4 os) = h_output" "ru_direction (copy_rule_4 os) = Out"
  "ru_callback (copy_rule_4 os) w = (let bytes_to_write = min max_copy_length (ByteStream_buffer_size (sc_inbound w))
        in bind_result (FileDescriptor_write os h_output
               (BufferViewList_of_string (ByteStream_peek_output (sc_inbound w) bytes_to_write)) False w) (\<lambda>(bytes_written, w).
           let w = w\<lparr>sc_inbound := ByteStream_pop_output (sc_inbound w) bytes_written\<rparr>
           in if ByteStream_eof (sc_inbound w)
              then bind_result (FileDescriptor_close os h_output w) (\<lambda>w. Inr (w\<lparr>sc_inbound_shutdown := True\<rparr>))
              else Inr w))"
  "ru_interest (copy_rule_4 os) w \<longleftrightarrow> \<not> ByteStream_buffer_empty (sc_inbound w) \<or>
        (ByteStream_eof (sc_inbound w) \<and> \<not> sc_inbound_shutdown w)"
  "ru_cancel (copy_rule_4 os) w = Inr (w\<lparr>sc_inbound := ByteStream_end_input (sc_inbound w)\<rparr>)"
  by (simp_all add: copy_rule_1_def copy_rule_2_def copy_rule_3_def copy_rule_4_def)

lemmas eval_copy = bidirectional_stream_copy_def copy_start_def copy_rules_def copy_rule_fields
  wait_next_event_def dispatch.simps(2) polled_def poll_defs service_count_def
  FileDescriptor_new_def FDWrapper_new_def set_blocking_def O_NONBLOCK_def h_input_def h_output_def h_socket_def
  fd_eof_def fd_closed_def fd_read_count_def fd_write_count_def max_copy_length_def copy_buffer_size_def
  ByteStream_new_def ByteStream_remaining_capacity_def ByteStream_write_def ByteStream_end_input_def
  ByteStream_peek_output_def ByteStream_pop_output_def ByteStream_eof_def ByteStream_buffer_empty_def
  BufferViewList_of_string_def Socket_shutdown_def checked_call_def shut_defs FileDescriptor_close_def sub64_def

lemma rounds_numeral:
  "rounds (numeral n) os ms rules w =
     bind_result (wait_next_event os rules ms w) (\<lambda>(res, rules, w).
       if res = Exit then Inr (True, rules, w) else rounds (pred_numeral n) os ms rules w)"
  by (simp add: numeral_eq_Suc)

theorem stream_copy_faithful_witness:
  "\<exists>rules w. bidirectional_stream_copy 4 (logged small_os) (small_io (\<lambda>fd. if fd = 0 then [7, 8] else [9])) =
     Inr (True, rules, w) \<and> prefix (sent_on 1 (io_log w)) (received_on 2 (io_log w)) \<and>
     io_log w = [Received 0 [7, 8], Received 2 [9], Received 0 [], Sent 2 [7, 8], Shut 2 1, Received 2 [],
       Sent 1 [9], Closed 1]"
proof -
  let ?io = "small_io (\<lambda>fd. if fd = 0 then [7, 8] else [9])"
  obtain rules w where run: "bidirectional_stream_copy 4 (logged small_os) ?io = Inr (True, rules, w)"
    and log: "io_log w = [Received 0 [7, 8], Received 2 [9], Received 0 [], Sent 2 [7, 8], Shut 2 1, Received 2 [],
       Sent 1 [9], Closed 1]"
    by (simp add: eval_copy eval_read eval_write eval_syscalls small_io_def rounds_numeral cong: bind_result_lazy)
  have "prefix (sent_on 1 (io_log w)) (received_on 2 (io_log w))"
    using stream_copy_faithful [OF small_os_ok _ _ _ _ run, of 2]
    by (simp add: small_io_def fd_num_def h_socket_def io_log_def)
  with run log show ?thesis by blast
qed

end
