(* ===== verification/Native_Apps.thy ===== *)
theory Native_Apps
  imports Stream_Copy Packet_Dump
begin

text \<open>
  The programs that use the operating system's own sockets: \<open>webget\<close> (\<open>src/apps/webget.cc\<close>),
  \<open>tcp_native\<close> (\<open>src/apps/tcp_native.cc\<close>) and the TUN dump (\<open>src/apps/tun.cc\<close>). They are compositions
  of the descriptor and socket operations over a kernel, with name resolution as a parameter; the
  loops that wait for the network are bounded by fuel, and the result says whether they ended.

  The property is that \<open>webget\<close> sends one complete request and prints what the server sends, all of
  it and nothing else.
\<close>

section \<open>\<open>webget\<close>\<close>

type_synonym name_service = "string \<Rightarrow> string \<Rightarrow> Address result"

definition bytes_of :: "string \<Rightarrow> bytes" where
  "bytes_of s = map of_char s"

definition crlf :: string where
  "crlf = [CHR 0x0D, CHR 0x0A]"

definition h_web :: handle where "h_web = 3"

text \<open>The response is read byte by byte until the descriptor reports the end.\<close>

fun web_loop :: "nat \<Rightarrow> 'k kernel \<Rightarrow> bytes \<Rightarrow> 'k io \<Rightarrow> (bool \<times> bytes \<times> 'k io) result" where
  "web_loop 0 os out io = Inr (False, out, io)"
| "web_loop (Suc fuel) os out io =
     (if fd_eof io h_web then Inr (True, out, io)
      else bind_result (FileDescriptor_read os h_web 1 io) (\<lambda>(data, io). web_loop fuel os (out @ data) io))"

definition request_line :: "string \<Rightarrow> string" where
  "request_line path = ''GET '' @ path @ '' HTTP/1.1'' @ crlf"

definition host_line :: "string \<Rightarrow> string" where
  "host_line host = ''HOST: '' @ host @ crlf @ crlf"

definition write_string :: "'k kernel \<Rightarrow> handle \<Rightarrow> string \<Rightarrow> 'k io \<Rightarrow> 'k io result" where
  "write_string os d s io =
     bind_result (FileDescriptor_write os d (BufferViewList_of_string (bytes_of s)) True io) (\<lambda>(_, io). Inr io)"

definition get_URL ::
  "nat \<Rightarrow> name_service \<Rightarrow> 'k kernel \<Rightarrow> string \<Rightarrow> string \<Rightarrow> 'k io \<Rightarrow> (bool \<times> bytes \<times> 'k io) result" where
  "get_URL fuel resolve os host path io =
     bind_result (resolve host ''http'') (\<lambda>address.
     bind_result (Socket_new os h_web AF_INET SOCK_STREAM io) (\<lambda>io.
     bind_result (Socket_connect os h_web address io) (\<lambda>io.
     bind_result (write_string os h_web (request_line path) io) (\<lambda>io.
     bind_result (write_string os h_web (host_line host) io) (\<lambda>io.
     bind_result (Socket_shutdown os h_web SHUT_WR io) (\<lambda>io.
     bind_result (web_loop fuel os [] io) (\<lambda>(ended, out, io).
       if ended then bind_result (FileDescriptor_close os h_web io) (\<lambda>io. Inr (True, out, io))
       else Inr (False, out, io))))))))"

definition webget_main ::
  "nat \<Rightarrow> name_service \<Rightarrow> 'k kernel \<Rightarrow> string list \<Rightarrow> 'k io \<Rightarrow> (bool \<times> bytes \<times> 'k io) exiting result" where
  "webget_main fuel resolve os argv io =
     (if length argv \<noteq> 3
      then Inr (Exit 1 (''Usage: '' @ argv ! 0 @ '' HOST PATH'' @ newline @
                        [CHR 0x09] @ ''Example: '' @ argv ! 0 @ '' stanford.edu /class/cs144'' @ newline))
      else bind_result (get_URL fuel resolve os (argv ! 1) (argv ! 2) io) (\<lambda>r. Inr (Continue r)))"

section \<open>\<open>tcp_native\<close>\<close>

definition native_usage :: "string \<Rightarrow> string" where
  "native_usage argv0 =
     ''Usage: '' @ argv0 @ '' [-l] <host> <port>'' @ newline @ newline @
     ''  -l specifies listen mode; <host>:<port> is the listening address.'' @ newline"

definition h_listening :: handle where "h_listening = 3"

text \<open>The socket handed to the copy loop: the accepted one, or the connecting one.\<close>

definition native_socket ::
  "name_service \<Rightarrow> 'k kernel \<Rightarrow> bool \<Rightarrow> string list \<Rightarrow> 'k io \<Rightarrow> 'k io result" where
  "native_socket resolve os server_mode argv io =
     (if server_mode then
        bind_result (Socket_new os h_listening AF_INET SOCK_STREAM io) (\<lambda>io.
        bind_result (set_reuseaddr os h_listening io) (\<lambda>io.
        bind_result (resolve (argv ! 2) (argv ! 3)) (\<lambda>address.
        bind_result (Socket_bind os h_listening address io) (\<lambda>io.
        bind_result (TCPSocket_listen os h_listening 16 io) (\<lambda>io.
          TCPSocket_accept os h_listening h_socket io)))))
      else
        bind_result (Socket_new os h_socket AF_INET SOCK_STREAM io) (\<lambda>io.
        bind_result (resolve (argv ! 1) (argv ! 2)) (\<lambda>address.
          Socket_connect os h_socket address io)))"

definition native_main ::
  "nat \<Rightarrow> name_service \<Rightarrow> 'k kernel \<Rightarrow> string list \<Rightarrow> 'k io \<Rightarrow>
   (bool \<times> 'k copy_world Rule list \<times> 'k copy_world) exiting result" where
  "native_main fuel resolve os argv io =
     (let server_mode = (\<not> length argv < 3 \<and> strncmp_eq ''-l'' (argv ! 1) 3)
      in if length argv < 3 \<or> server_mode \<and> length argv < 4 then Inr (Exit 1 (native_usage (argv ! 0)))
         else bind_result (native_socket resolve os server_mode argv io) (\<lambda>io.
              bind_result (bidirectional_stream_copy fuel os io) (\<lambda>r. Inr (Continue r))))"

section \<open>The TUN dump\<close>

definition h_tun :: handle where "h_tun = 3"

definition tun_report :: "bytes \<Rightarrow> string result" where
  "tun_report buffer =
     (let intro = newline @ newline @ ''***'' @ newline @ ''*** Got packet:'' @ newline @ ''***'' @ newline @
                  hexdump buffer 0 @ ''attempting to parse as ipv4 datagram... '';
          (r, ip_dgram) = IPv4Datagram_parse IPv4Datagram_new (Buffer_new buffer);
          h = ip_header ip_dgram
      in if r \<noteq> NoError then Inr (intro @ ''failed.'' @ newline)
         else
           let ip = intro @ ''success! totlen='' @ digits (unat (ih_len h)) @ '', IPv4 header contents:'' @ newline @
                    IPv4Header_to_string h
           in if ih_proto h \<noteq> PROTO_TCP then Inr (ip @ newline @ ''Not TCP, skipping.'' @ newline)
              else bind_result (BufferList_to_Buffer (ip_payload ip_dgram)) (\<lambda>payload.
                let attempt = ip @ newline @ ''Attempting to parse as a TCP segment... '';
                    (r, tcp_seg) = TCPSegment_parse TCPSegment_new payload (pseudo_cksum h)
                in if r \<noteq> NoError then Inr (attempt @ ''failed.'' @ newline)
                   else Inr (attempt @ ''success! payload len='' @ digits (Buffer_size (seg_payload tcp_seg)) @
                             '', TCP header contents:'' @ newline @ TCPHeader_to_string (seg_header tcp_seg) @ newline)))"

fun tun_dump_loop :: "nat \<Rightarrow> 'k kernel \<Rightarrow> string \<Rightarrow> 'k io \<Rightarrow> (string \<times> 'k io) result" where
  "tun_dump_loop 0 os out io = Inr (out, io)"
| "tun_dump_loop (Suc fuel) os out io =
     bind_result (FileDescriptor_read os h_tun (2 ^ 64 - 1) io) (\<lambda>(buffer, io).
     bind_result (tun_report buffer) (\<lambda>text. tun_dump_loop fuel os (out @ text) io))"

definition tun_dump_main :: "nat \<Rightarrow> 'k kernel \<Rightarrow> 'k io \<Rightarrow> (string \<times> 'k io) result" where
  "tun_dump_main fuel os io =
     bind_result (TunTapFD_new os h_tun ''tun144'' True io) (tun_dump_loop fuel os '''')"

section \<open>What \<open>webget\<close> transfers\<close>

text \<open>
  One stage of a conversation on a descriptor: the bytes sent and received on it. The stages before
  the response is read leave the descriptor's end-of-file mark alone.
\<close>

definition talked :: "bytes \<Rightarrow> bytes \<Rightarrow> 'k logging io \<Rightarrow> 'k logging io \<Rightarrow> bool" where
  "talked s r io io' \<longleftrightarrow>
     (let fd = fd_num io' h_web
      in fd_num io h_web = fd \<and> sent_on fd (io_log io') = sent_on fd (io_log io) @ s \<and>
         received_on fd (io_log io') = received_on fd (io_log io) @ r)"

lemma talked_trans:
  "talked s r io io1 \<Longrightarrow> talked s' r' io1 io2 \<Longrightarrow> talked (s @ s') (r @ r') io io2"
  by (simp add: talked_def Let_def)

lemma write_string_talked:
  assumes "kernel_ok os" "length s < 2 ^ 62" "write_string (logged os) h_web s io = Inr io'"
  shows "talked (bytes_of s) [] io io' \<and> fd_eof io' h_web = fd_eof io h_web"
proof -
  obtain n where w: "FileDescriptor_write (logged os) h_web (BufferViewList_of_string (bytes_of s)) True io = Inr (n, io')"
    using assms(3) by (auto simp: write_string_def bind_result_eq_Inr)
  have c: "concat (BufferViewList_of_string (bytes_of s)) = bytes_of s" by (simp add: BufferViewList_of_string_def)
  then have "length (concat (BufferViewList_of_string (bytes_of s))) < 2 ^ 63"
    using assms(2) by (simp add: bytes_of_def)
  then obtain k bss m where h: "n \<le> length (bytes_of s)" "True \<longrightarrow> n = length (bytes_of s)"
    "concat bss = take n (bytes_of s)"
    "io' = io\<lparr>io_kernel := (k, io_log io @ map (Sent (fd_num io h_web)) bss),
      io_fds := (io_fds io)(h_web := (io_fds io h_web)\<lparr>fw_write_count := fd_write_count io h_web + m\<rparr>)\<rparr>"
    using FileDescriptor_write_logged [OF assms(1) _ w] unfolding c by metis
  then have "io_log io' = io_log io @ map (Sent (fd_num io h_web)) bss" "fd_num io' h_web = fd_num io h_web"
    "fd_eof io' h_web = fd_eof io h_web"
    by (simp_all add: io_log_def fd_num_def fd_eof_def)
  then show ?thesis using h(1-3) by (simp add: talked_def)
qed

lemma shutdown_talked:
  assumes "Socket_shutdown (logged os) h_web SHUT_WR io = Inr io'"
  shows "talked [] [] io io' \<and> fd_eof io' h_web = fd_eof io h_web"
  using assms
proof (rule Socket_shutdown_logged)
  fix k evs
  assume evs: "evs = [] \<or> evs = [Shut (fd_num io h_web) SHUT_WR]"
    and io': "io' = io\<lparr>io_kernel := (k, io_log io @ evs),
      io_fds := (io_fds io)(h_web := (io_fds io h_web)\<lparr>fw_write_count := fd_write_count io h_web + 1\<rparr>)\<rparr>"
  have "io_log io' = io_log io @ evs" "fd_num io' h_web = fd_num io h_web" "fd_eof io' h_web = fd_eof io h_web"
    by (simp_all add: io' io_log_def fd_num_def fd_eof_def)
  then show ?thesis using evs by (auto simp: talked_def)
qed

lemma close_talked:
  assumes "FileDescriptor_close (logged os) h_web io = Inr io'"
  shows "talked [] [] io io' \<and> (io_log io' = io_log io \<or> io_log io' = io_log io @ [Closed (fd_num io' h_web)])"
  using assms
proof (rule FileDescriptor_close_logged)
  fix k evs
  assume evs: "evs = [] \<or> evs = [Closed (fd_num io h_web)]"
    and io': "io' = io\<lparr>io_kernel := (k, io_log io @ evs),
      io_fds := (io_fds io)(h_web := (io_fds io h_web)\<lparr>fw_eof := True, fw_closed := True\<rparr>)\<rparr>"
  have "io_log io' = io_log io @ evs" "fd_num io' h_web = fd_num io h_web"
    by (simp_all add: io' io_log_def fd_num_def)
  then show ?thesis using evs by (auto simp: talked_def)
qed

lemma read_talked:
  assumes "kernel_ok os" "FileDescriptor_read (logged os) h_web 1 io = Inr (data, io')"
  shows "talked [] data io io' \<and> io_log io' = io_log io @ [Received (fd_num io' h_web) data] \<and>
    (fd_eof io' h_web \<longleftrightarrow> fd_eof io h_web \<or> data = [])"
  using assms
proof (rule FileDescriptor_read_logged)
  fix k
  assume io': "io' = io\<lparr>io_kernel := (k, io_log io @ [Received (fd_num io h_web) data]),
      io_fds := (io_fds io)(h_web := (io_fds io h_web)
        \<lparr>fw_eof := fd_eof io h_web \<or> ((1 :: nat) > 0 \<and> data = []), fw_read_count := fd_read_count io h_web + 1\<rparr>)\<rparr>"
  have "io_log io' = io_log io @ [Received (fd_num io h_web) data]" "fd_num io' h_web = fd_num io h_web"
    "fd_eof io' h_web \<longleftrightarrow> fd_eof io h_web \<or> data = []"
    by (simp_all add: io' io_log_def fd_num_def fd_eof_def)
  then show ?thesis by (simp add: talked_def)
qed

lemma connect_talked:
  assumes "Socket_connect (logged os) h_web address io = Inr io'"
  shows "talked [] [] io io' \<and> fd_eof io' h_web = fd_eof io h_web"
  using assms
  by (auto simp: Socket_connect_def checked_call_def logged_def silent_def with_log_def split_beta Let_def
      bind_result_eq_Inr talked_def io_log_def fd_num_def fd_eof_def)

lemma socket_log:
  assumes "Socket_new (logged os) d domain type io = Inr io'"
  shows "io_log io' = io_log io \<and> \<not> fd_eof io' d"
  using assms
  by (auto simp: Socket_new_def logged_def silent_def with_log_def split_beta Let_def bind_result_eq_Inr
      io_log_def FileDescriptor_new_def FDWrapper_new_def on_fd_def fd_eof_def split: if_splits)

text \<open>
  The loop that started before the end of the stream stops only after a read that returned
  nothing, and stops with it: this is the last thing that happens on the socket.
\<close>

lemma web_loop_talked:
  assumes "kernel_ok os" "web_loop fuel (logged os) out io = Inr (ended, out', io')"
  shows "\<exists>r. out' = out @ r \<and> talked [] r io io' \<and>
    (ended \<and> \<not> fd_eof io h_web \<longrightarrow> (\<exists>l. io_log io' = l @ [Received (fd_num io' h_web) []]))"
  using assms(2)
proof (induction fuel arbitrary: out io)
  case 0
  then show ?case by (simp add: talked_def)
next
  case (Suc fuel)
  show ?case
  proof (cases "fd_eof io h_web")
    case True
    then show ?thesis using Suc.prems by (auto simp: talked_def)
  next
    case False
    then obtain data io1 where rd: "FileDescriptor_read (logged os) h_web 1 io = Inr (data, io1)"
      and rest: "web_loop fuel (logged os) (out @ data) io1 = Inr (ended, out', io')"
      using Suc.prems by (auto simp: bind_result_eq_Inr)
    note read = read_talked [OF assms(1) rd]
    obtain r where r: "out' = (out @ data) @ r" "talked [] r io1 io'"
      "ended \<and> \<not> fd_eof io1 h_web \<longrightarrow> (\<exists>l. io_log io' = l @ [Received (fd_num io' h_web) []])"
      using Suc.IH [OF rest] by blast
    have "\<exists>l. io_log io' = l @ [Received (fd_num io' h_web) []]" if "ended"
    proof (cases "fd_eof io1 h_web")
      case True
      then have "io' = io1" using rest that by (cases fuel) auto
      then show ?thesis using read True False by auto
    qed (use r(3) that in blast)
    then show ?thesis
      using talked_trans [of "[]" data io io1 "[]" r io'] read r(1,2) by auto
  qed
qed

text \<open>
  Claim C26. \<open>webget\<close>, whenever it gets to the end or is still reading: on its socket it has sent the
  request for the path and the host, complete, once, and nothing else, and what it has printed is
  exactly what was received on the socket, in order. When \<open>get_URL\<close> has returned, it read up to the
  server's end of stream: the last thing it did on the socket before closing it was a read that
  returned no byte.
\<close>

theorem webget_prints_response:
  assumes "kernel_ok os" "io_log io = []" "length path < 2 ^ 61" "length host < 2 ^ 61"
    and "get_URL fuel resolve (logged os) host path io = Inr (ended, out, io')"
  shows "sent_on (fd_num io' h_web) (io_log io') = bytes_of (request_line path @ host_line host) \<and>
    received_on (fd_num io' h_web) (io_log io') = out \<and>
    (ended \<longrightarrow> (\<exists>l. io_log io' = l @ [Received (fd_num io' h_web) []] \<or>
       io_log io' = l @ [Received (fd_num io' h_web) [], Closed (fd_num io' h_web)]))"
proof -
  obtain address io1 io2 io3 io4 io5 io6 where
    steps: "Socket_new (logged os) h_web AF_INET SOCK_STREAM io = Inr io1"
      "Socket_connect (logged os) h_web address io1 = Inr io2"
      "write_string (logged os) h_web (request_line path) io2 = Inr io3"
      "write_string (logged os) h_web (host_line host) io3 = Inr io4"
      "Socket_shutdown (logged os) h_web SHUT_WR io4 = Inr io5"
      "web_loop fuel (logged os) [] io5 = Inr (ended, out, io6)"
    and last: "if ended then FileDescriptor_close (logged os) h_web io6 = Inr io' else io' = io6"
    using assms(5) by (auto simp: get_URL_def bind_result_eq_Inr split: if_splits)
  have short: "length (request_line path) < 2 ^ 62" "length (host_line host) < 2 ^ 62"
    using assms(3,4) by (simp_all add: request_line_def host_line_def crlf_def)
  note requests = write_string_talked [OF assms(1) short(1) steps(3)] write_string_talked [OF assms(1) short(2) steps(4)]
  note before = socket_log [OF steps(1)] connect_talked [OF steps(2)] requests shutdown_talked [OF steps(5)]
  have resp: "talked [] out io5 io6"
    "ended \<Longrightarrow> \<exists>l. io_log io6 = l @ [Received (fd_num io6 h_web) []]"
    using web_loop_talked [OF assms(1) steps(6)] before by auto
  have close: "talked [] [] io6 io'"
    "ended \<Longrightarrow> io_log io' = io_log io6 \<or> io_log io' = io_log io6 @ [Closed (fd_num io' h_web)]"
    using last close_talked [of os io6 io'] by (auto simp: talked_def Let_def split: if_splits)
  have "talked (bytes_of (request_line path) @ bytes_of (host_line host)) out io1 io'"
    using before resp(1) close(1) by (simp add: talked_def Let_def)
  moreover have "io_log io1 = []" using before assms(2) by simp
  moreover have "fd_num io6 h_web = fd_num io' h_web" using close(1) by (simp add: talked_def Let_def)
  ultimately show ?thesis
    using resp(2) close(2) by (fastforce simp: talked_def Let_def bytes_of_def)
qed

lemma logged_small_os_socket:
  "sys_socket (logged small_os) domain type (k, l) = ((0, 0), (k, l))"
  "sys_connect (logged small_os) fd a (k, l) = ((0, 0), (k, l))"
  by (simp_all add: logged_def small_os_def with_log_def silent_def Let_def)

theorem webget_prints_response_witness:
  "\<exists>io'. get_URL (Suc (Suc (Suc (Suc 0)))) (\<lambda>_ _. Inr \<lparr>ad_ip = 1, ad_port = 80\<rparr>) (logged small_os) ''h'' ''/'' (small_io (\<lambda>_. [65, 66])) =
      Inr (True, [65, 66], io') \<and>
    sent_on 0 (io_log io') = bytes_of (request_line ''/'' @ host_line ''h'') \<and>
    (\<exists>l. io_log io' = l @ [Received 0 []] \<or> io_log io' = l @ [Received 0 [], Closed 0])"
proof -
  let ?res = "\<lambda>_ _. Inr \<lparr>ad_ip = 1, ad_port = 80\<rparr>" and ?io = "small_io (\<lambda>_. [65, 66])"
  have "\<exists>io'. get_URL (Suc (Suc (Suc (Suc 0)))) ?res (logged small_os) ''h'' ''/'' ?io = Inr (True, [65, 66], io') \<and> fd_num io' h_web = 0"
    by (simp add: get_URL_def write_string_def eval_write eval_syscalls logged_small_os_socket small_io_def
        Socket_new_def Socket_connect_def Socket_shutdown_def checked_call_def FileDescriptor_new_def FDWrapper_new_def
        FileDescriptor_close_def FileDescriptor_read_def shut_defs BufferViewList_of_string_def request_line_def
        host_line_def crlf_def bytes_of_def BUFFER_SIZE_def fd_eof_def str_resize_def cong: bind_result_lazy)
  then obtain io' where run: "get_URL (Suc (Suc (Suc (Suc 0)))) ?res (logged small_os) ''h'' ''/'' ?io = Inr (True, [65, 66], io')"
    and fd: "fd_num io' h_web = 0" by blast
  have "sent_on 0 (io_log io') = bytes_of (request_line ''/'' @ host_line ''h'') \<and>
      (\<exists>l. io_log io' = l @ [Received 0 []] \<or> io_log io' = l @ [Received 0 [], Closed 0])"
    using webget_prints_response [OF small_os_ok _ _ _ run] fd by (simp add: small_io_def io_log_def)
  with run show ?thesis by blast
qed

end
