(* ===== verification/Programs.thy ===== *)
theory Programs
  imports Command_Line Native_Apps
begin

text \<open>
  The programs as a whole: how an exception becomes an exit status, and the two threads of
  \<open>tcp_ipv4\<close> and \<open>tcp_udp\<close> (\<open>src/apps/tcp_ipv4.cc\<close>, \<open>src/apps/tcp_udp.cc\<close>) from the command line to the
  exit.

  Once the connection is open, \<open>main\<close> copies between the standard descriptors and its end of a socket
  pair, while the thread of \<open>TCPSpongeSocket\<close> works on the other end. The threads share nothing but
  the kernel: each is run on its own kernel, whose state stands for whatever the rest of the system,
  the other thread included, does in between, and each has its own record of transfers. What ties
  the records together is the socket pair, which delivers to one end a prefix of what was written
  to the other. (They also share the counters of the owner's descriptor, which the thread
  increments when it shuts the descriptor down; the model leaves that out.)

  Debugging output is left out; the text of an ending is the message printed last.
\<close>

section \<open>What an exception says\<close>

text \<open>
  \<open>tagged_error\<close> puts the attempt in front of the category's message. The messages of \<open>errno\<close> values and
  of failed name lookups are the C library's, and the texts of exceptions of the standard library
  its own; the model has the name of the operation for the latter. Undefined behaviour is not an
  exception.
\<close>

definition tagged_error :: "(int \<Rightarrow> string) \<Rightarrow> string \<Rightarrow> int \<Rightarrow> string" where
  "tagged_error category attempt error_code = attempt @ '': '' @ category error_code"

definition unix_error :: "(int \<Rightarrow> string) \<Rightarrow> string \<Rightarrow> int \<Rightarrow> string" where
  "unix_error system_category attempt error = tagged_error system_category attempt error"

definition gai_error_category :: "(int \<Rightarrow> string) \<Rightarrow> int \<Rightarrow> string" where
  "gai_error_category gai_strerror return_value = gai_strerror return_value"

fun exception_what :: "(int \<Rightarrow> string) \<Rightarrow> (int \<Rightarrow> string) \<Rightarrow> cpp_fault \<Rightarrow> string option" where
  "exception_what strerror gai_strerror (RuntimeError s) = Some s"
| "exception_what strerror gai_strerror (OutOfRangeError s) = Some s"
| "exception_what strerror gai_strerror (LengthError s) = Some s"
| "exception_what strerror gai_strerror (InvalidArgument s) = Some s"
| "exception_what strerror gai_strerror (UnixError attempt e) = Some (unix_error strerror attempt e)"
| "exception_what strerror gai_strerror (GaiError attempt e) =
     Some (tagged_error (gai_error_category gai_strerror) attempt e)"
| "exception_what strerror gai_strerror _ = None"

type_synonym what = "cpp_fault \<Rightarrow> string option"

section \<open>How a program ends\<close>

text \<open>
  A program is still running (its fuel is used up), has exited with a status, has been aborted by
  an exception nobody catches, or has run into undefined behaviour.
\<close>

datatype ending = Running | Exited int string | Aborted string | Undefined cpp_fault

definition EXIT_SUCCESS :: int where "EXIT_SUCCESS = 0"
definition EXIT_FAILURE :: int where "EXIT_FAILURE = 1"

text \<open>The handler at the end of every \<open>main\<close>; \<open>intro\<close> is what it prints in front of \<open>e.what()\<close>.\<close>

definition catch_main :: "what \<Rightarrow> string \<Rightarrow> cpp_fault \<Rightarrow> ending" where
  "catch_main what intro e =
     (case what e of None \<Rightarrow> Undefined e | Some text \<Rightarrow> Exited EXIT_FAILURE (intro @ text @ newline))"

definition ended_main :: "what \<Rightarrow> string \<Rightarrow> (bool \<times> 'a) exiting result \<Rightarrow> ending" where
  "ended_main what intro r =
     (case r of
        Inl e \<Rightarrow> catch_main what intro e
      | Inr (Exit status text) \<Rightarrow> Exited status text
      | Inr (Continue (finished, _)) \<Rightarrow> if finished then Exited EXIT_SUCCESS '''' else Running)"

definition webget_program ::
  "what \<Rightarrow> nat \<Rightarrow> name_service \<Rightarrow> 'k kernel \<Rightarrow> string list \<Rightarrow> 'k io \<Rightarrow> ending" where
  "webget_program what fuel resolve os argv io = ended_main what '''' (webget_main fuel resolve os argv io)"

definition native_program ::
  "what \<Rightarrow> nat \<Rightarrow> name_service \<Rightarrow> 'k kernel \<Rightarrow> string list \<Rightarrow> 'k io \<Rightarrow> ending" where
  "native_program what fuel resolve os argv io = ended_main what ''Exception: '' (native_main fuel resolve os argv io)"

text \<open>The TUN dump has no way out of its loop but an exception.\<close>

definition tun_dump_program :: "what \<Rightarrow> nat \<Rightarrow> 'k kernel \<Rightarrow> 'k io \<Rightarrow> ending" where
  "tun_dump_program what fuel os io =
     (case tun_dump_main fuel os io of Inl e \<Rightarrow> catch_main what ''Exception: '' e | Inr _ \<Rightarrow> Running)"

section \<open>The main thread of a sponge program\<close>

text \<open>
  The socket as the copy loop sees it: the owner's end of the pair. The main thread's kernel starts
  in a state of its own, with nothing recorded.
\<close>

definition owner_io :: "'m \<Rightarrow> ('k, 'a) sponge_world \<Rightarrow> 'm io" where
  "owner_io m w = \<lparr>io_kernel = m, io_fds = (io_fds w)(h_socket := io_fds w h_owner)\<rparr>"

text \<open>\<open>wait_until_closed\<close> up to the join.\<close>

definition wait_until_closed :: "'k kernel \<Rightarrow> ('k, 'z) io_scheme \<Rightarrow> ('k, 'z) io_scheme result" where
  "wait_until_closed os w = Socket_shutdown os h_socket SHUT_RDWR w"

text \<open>The flag says whether the main thread has come to the join.\<close>

definition owner_main :: "nat \<Rightarrow> 'k kernel \<Rightarrow> 'k io \<Rightarrow> (bool \<times> 'k copy_world) result" where
  "owner_main fuel os io =
     bind_result (bidirectional_stream_copy fuel os io) (\<lambda>(finished, rules, w).
       if finished then bind_result (wait_until_closed os (copy_return os rules w)) (\<lambda>w. Inr (True, w))
       else Inr (False, w))"

text \<open>
  The threads together. An exception in the connection's thread is printed and thrown again, and
  since no handler is left in that thread the process is aborted. When the main thread throws, the
  destructor of the socket stores \<open>_abort\<close> and joins before the handler of \<open>main\<close> runs; when it does
  not, it joins in \<open>wait_until_closed\<close>.
\<close>

definition unclean_shutdown :: string where
  "unclean_shutdown = ''Warning: unclean shutdown of TCPSpongeSocket'' @ newline"

definition runner_thread :: string where
  "runner_thread = ''Exception in TCPConnection runner thread: ''"

definition TCPSpongeSocket_destroy :: "bool \<Rightarrow> bool \<Rightarrow> (string \<times> bool) option" where
  "TCPSpongeSocket_destroy joinable ended =
     (if joinable then if ended then Some (unclean_shutdown, True) else None else Some ('''', False))"

definition threads_end :: "what \<Rightarrow> (bool \<times> 'm) result \<Rightarrow> (bool \<times> 't) result \<Rightarrow> ending" where
  "threads_end what main thread =
     (case thread of
        Inl e \<Rightarrow> (case what e of None \<Rightarrow> Undefined e | Some text \<Rightarrow> Aborted (runner_thread @ text @ newline))
      | Inr (ended, _) \<Rightarrow>
          case main of
            Inr (at_join, _) \<Rightarrow> if at_join \<and> ended then Exited EXIT_SUCCESS '''' else Running
          | Inl e \<Rightarrow>
              case what e of
                None \<Rightarrow> Undefined e
              | Some _ \<Rightarrow>
                  case TCPSpongeSocket_destroy True ended of
                    None \<Rightarrow> Running
                  | Some (warning, _) \<Rightarrow> catch_main what (warning @ ''Exception: '') e)"

text \<open>
  From the open connection on. Only the destructor stores \<open>_abort\<close>: while the main thread has not
  thrown, every load of the other thread gives false; when the store becomes visible to it, is the
  parameter \<open>abort\<close>.
\<close>

definition sponge_rest ::
  "what \<Rightarrow> nat \<Rightarrow> 'm kernel \<Rightarrow> 'm \<Rightarrow> ('k, 'a) AdaptT \<Rightarrow> 'k kernel \<Rightarrow> (nat \<Rightarrow> bool) \<Rightarrow>
   (bool \<times> ('k, 'a) sponge_world Rule list \<times> ('k, 'a) sponge_world) exiting result \<Rightarrow> ending" where
  "sponge_rest what fuel os_main m A os_thread abort opened =
     (case opened of
        Inl e \<Rightarrow> catch_main what ''Exception: '' e
      | Inr (Exit status text) \<Rightarrow> Exited status text
      | Inr (Continue (connected, rules, w)) \<Rightarrow>
          if connected
          then let main = owner_main fuel os_main (owner_io m w);
                   thread = tcp_main fuel A os_thread (\<lambda>i. isl main \<and> abort i) rules w
               in threads_end what main thread
          else Running)"

definition ipv4_program ::
  "what \<Rightarrow> nat \<Rightarrow> 'm kernel \<Rightarrow> 'm \<Rightarrow> 'k kernel \<Rightarrow> (nat \<Rightarrow> bool) \<Rightarrow> ('g \<Rightarrow> uint32 \<times> 'g) \<Rightarrow> 'g \<Rightarrow> WrappingInt32 \<Rightarrow>
   resolver \<Rightarrow> (string \<Rightarrow> uint16) \<Rightarrow> uint32 \<Rightarrow> string list \<Rightarrow> 'k io \<Rightarrow> ending" where
  "ipv4_program what fuel os_main m os abort rand g isn resolve loss_rate random_device argv io =
     sponge_rest what fuel os_main m (lossy_adapter rand tun_adapter) os abort
       (ipv4_main fuel os rand g (\<lambda>_. False) isn resolve loss_rate random_device argv io)"

definition udp_program ::
  "what \<Rightarrow> nat \<Rightarrow> 'm kernel \<Rightarrow> 'm \<Rightarrow> 'k kernel \<Rightarrow> (nat \<Rightarrow> bool) \<Rightarrow> ('g \<Rightarrow> uint32 \<times> 'g) \<Rightarrow> 'g \<Rightarrow> WrappingInt32 \<Rightarrow>
   resolver \<Rightarrow> (string \<Rightarrow> uint16) \<Rightarrow> string list \<Rightarrow> 'k io \<Rightarrow> ending" where
  "udp_program what fuel os_main m os abort rand g isn resolve loss_rate argv io =
     sponge_rest what fuel os_main m (lossy_adapter rand udp_adapter) os abort
       (udp_main fuel os rand g (\<lambda>_. False) isn resolve loss_rate argv io)"

text \<open>The constructor of \<open>CS144TCPSocket\<close>.\<close>

definition CS144TCPSocket_new :: "'k kernel \<Rightarrow> 'k io \<Rightarrow> ('k, FdAdapterBase) sponge_world result" where
  "CS144TCPSocket_new os io =
     bind_result (TunTapFD_new os h_datagram ''tun144'' True io) (TCPSpongeSocket_new os FdAdapterBase_new)"

section \<open>The aborted thread leaves its loop\<close>

lemma aborted_iteration_stops:
  "tcp_iteration A os True t rules w = Inr (go_on, t', rules', w') \<Longrightarrow> \<not> go_on"
  by (auto simp: tcp_iteration_def bind_result_eq_Inr)

lemma aborted_loop_ends:
  assumes "i < fuel" "abort i" "tcp_loop_from fuel A os condition abort t rules w = Inr (ended, rules', w')"
  shows "ended"
  using assms
proof (induction fuel arbitrary: t rules w)
  case 0
  then show ?case by simp
next
  case (Suc fuel)
  show ?case
  proof (cases "tcp_is w condition")
    case False
    with Suc.prems(3) show ?thesis by simp
  next
    case True
    then obtain go_on t1 rules1 w1 where it: "tcp_iteration A os (abort fuel) t rules w = Inr (go_on, t1, rules1, w1)"
      and rest: "(if go_on then tcp_loop_from fuel A os condition abort t1 rules1 w1 else Inr (True, rules1, w1)) =
        Inr (ended, rules', w')"
      using Suc.prems(3) by (auto simp: bind_result_eq_Inr)
    show ?thesis
    proof (cases go_on)
      case False
      with rest show ?thesis by simp
    next
      case True
      with it Suc.prems(2) have "i \<noteq> fuel" by (auto dest: aborted_iteration_stops)
      with Suc.prems(1) True rest show ?thesis using Suc.IH [OF _ Suc.prems(2)] by simp
    qed
  qed
qed

lemma aborted_thread_ends:
  assumes "i < fuel" "abort i" "tcp_main fuel A os abort rules w = Inr (ended, rules', w')"
  shows "ended"
  using assms aborted_loop_ends [where i = i and fuel = fuel and abort = abort and A = A and os = os and condition = "\<lambda>_. True"]
  by (auto simp: tcp_main_def tcp_loop_def bind_result_eq_Inr split_beta Let_def split: if_splits)

lemma sponge_rest_failed:
  assumes "owner_main fuel os_main (owner_io m w) = Inl e" "what e = Some text" "i < fuel" "abort i"
  shows "sponge_rest what fuel os_main m A os abort (Inr (Continue (True, rules, w))) =
    (case tcp_main fuel A os abort rules w of
       Inl f \<Rightarrow> (case what f of None \<Rightarrow> Undefined f | Some t \<Rightarrow> Aborted (runner_thread @ t @ newline))
     | Inr _ \<Rightarrow> Exited EXIT_FAILURE (unclean_shutdown @ ''Exception: '' @ text @ newline))"
  using assms(1,2) aborted_thread_ends [where abort = abort and i = i and fuel = fuel, OF assms(3,4)]
  by (auto simp: sponge_rest_def threads_end_def TCPSpongeSocket_destroy_def catch_main_def Let_def
      split: sum.splits option.splits)

section \<open>The streams of a program\<close>

text \<open>Opening a device or a socket records no transfer.\<close>

lemma opening_logs_nothing:
  "Socket_new (logged os) d domain ty io = Inr io' \<Longrightarrow> io_log io' = io_log io"
  "Socket_bind (logged os) d a io = Inr io' \<Longrightarrow> io_log io' = io_log io"
  "TunTapFD_new (logged os) d name tun io = Inr io' \<Longrightarrow> io_log io' = io_log io"
  by (auto simp: Socket_new_def Socket_bind_def TunTapFD_new_def checked_call_def FileDescriptor_new_def on_fd_def
      logged_def silent_def with_log_def split_beta Let_def bind_result_eq_Inr io_log_def split: if_splits)

lemma check_sockopt_logs_nothing:
  "check_sockopt (logged os) d opt v m io = Inr io' \<Longrightarrow> io_log io' = io_log io"
  by (auto simp: check_sockopt_def logged_def silent_def with_log_def split_beta Let_def bind_result_eq_Inr io_log_def
      split: if_splits)

lemma socket_new_logs_nothing:
  assumes "TCPSpongeSocket_new (logged os) a io = Inr w"
  shows "io_log w = io_log io"
proof -
  obtain io1 io2 io3 io4 where s: "socket_pair_helper (logged os) SOCK_STREAM io = Inr io1"
    "Socket_of_fd (logged os) h_owner AF_UNIX SOCK_STREAM io1 = Inr io2"
    "Socket_of_fd (logged os) h_thread AF_UNIX SOCK_STREAM io2 = Inr io3"
    "set_blocking (logged os) h_thread False io3 = Inr io4" and w: "io_kernel w = io_kernel io4"
    using assms by (auto simp: TCPSpongeSocket_new_def TCPSpongeSocket_of_pair_def bind_result_eq_Inr)
  have "io_log io1 = io_log io"
    using s(1) by (auto simp: socket_pair_helper_def FileDescriptor_new_def on_fd_def logged_def silent_def with_log_def
        split_beta Let_def bind_result_eq_Inr io_log_def split: if_splits)
  moreover have "io_log io2 = io_log io1" "io_log io3 = io_log io2"
    using s(2,3) by (auto simp: Socket_of_fd_def bind_result_eq_Inr dest!: check_sockopt_logs_nothing)
  moreover have "io_log io4 = io_log io3"
    using s(4) by (elim set_blocking_logged) (simp add: io_log_def)
  ultimately show ?thesis using w by (simp add: io_log_def)
qed

text \<open>
  The opening of either program: the socket \<open>w\<close> it makes, over which adapter, and what opening it
  gives.
\<close>

definition program_opens ::
  "nat \<Rightarrow> ('g \<Rightarrow> uint32 \<times> 'g) \<Rightarrow> 'g \<Rightarrow> resolver \<Rightarrow> (string \<Rightarrow> uint16) \<Rightarrow> uint32 \<Rightarrow> string list \<Rightarrow>
   'k kernel \<Rightarrow> WrappingInt32 \<Rightarrow> 'k io \<Rightarrow> ('k, ('g, FdAdapterBase) LossyFdAdapter) AdaptT \<Rightarrow> TCPConfig \<Rightarrow> FdAdapterConfig \<Rightarrow> bool \<Rightarrow>
   ('k, ('g, FdAdapterBase) LossyFdAdapter) sponge_world \<Rightarrow>
   bool \<times> ('k, ('g, FdAdapterBase) LossyFdAdapter) sponge_world Rule list \<times>
     ('k, ('g, FdAdapterBase) LossyFdAdapter) sponge_world \<Rightarrow> bool" where
  "program_opens fuel rand g resolve loss_rate random_device argv os isn io A cfg c_filt listen w opened \<longleftrightarrow>
     (\<exists>dev. ipv4_get_config resolve loss_rate random_device argv = Inr (Continue (cfg, c_filt, listen, dev)) \<and>
        A = lossy_adapter rand tun_adapter \<and> ipv4_socket os g dev io = Inr w \<and>
        ipv4_main fuel os rand g (\<lambda>_. False) isn resolve loss_rate random_device argv io = Inr (Continue opened)) \<or>
     (udp_get_config resolve loss_rate argv = Inr (Continue (cfg, c_filt, listen)) \<and>
        A = lossy_adapter rand udp_adapter \<and> udp_socket os g listen (fc_source c_filt) io = Inr w \<and>
        udp_main fuel os rand g (\<lambda>_. False) isn resolve loss_rate argv io = Inr (Continue opened))"

lemma program_opens_socket:
  assumes "program_opens fuel rand g resolve loss_rate random_device argv (logged os) isn io A cfg c_filt listen w opened"
  shows "datagram_adapter A" "io_log w = io_log io"
    "(if listen then listen_and_accept else sponge_connect) fuel A (logged os) cfg isn c_filt (\<lambda>_. False) [] w = Inr opened"
proof -
  show "datagram_adapter A"
    using assms lossy_tun_port.datagram_adapter_axioms lossy_udp_port.datagram_adapter_axioms
    by (auto simp: program_opens_def)
  show "io_log w = io_log io"
    using assms
    by (auto simp: program_opens_def ipv4_socket_def udp_socket_def bind_result_eq_Inr
        dest!: opening_logs_nothing socket_new_logs_nothing split: if_splits)
  show "(if listen then listen_and_accept else sponge_connect) fuel A (logged os) cfg isn c_filt (\<lambda>_. False) [] w = Inr opened"
    using assms
    by (auto simp: program_opens_def ipv4_main_def udp_main_def ipv4_open_def udp_open_def bind_result_eq_Inr Let_def
        split: if_splits)
qed

section \<open>Properties\<close>

text \<open>The thread of a socket, its final shutdown included.\<close>

lemma Socket_shutdown_silent:
  "Socket_shutdown (logged os) d how io = Inr io' \<Longrightarrow>
     sent_on fd (io_log io') = sent_on fd (io_log io) \<and> received_on fd (io_log io') = received_on fd (io_log io)"
  by (auto simp: Socket_shutdown_def checked_call_def logged_def with_log_def split_beta Let_def
      bind_result_eq_Inr io_log_def shut_defs register_read_def register_write_def on_fd_def split: if_splits)

lemma tcp_main_streams:
  assumes "tcp_main fuel A (logged os) abort rules w = Inr (ended, rules', w')"
  obtains w1 ended' where "tcp_loop fuel A (logged os) (\<lambda>_. True) abort rules w = Inr (ended', rules', w1)"
    "ended \<or> w' = w1" "sent_on fd (io_log w') = sent_on fd (io_log w1)" "received_on fd (io_log w') = received_on fd (io_log w1)"
proof -
  obtain ended1 w1 where loop: "tcp_loop fuel A (logged os) (\<lambda>_. True) abort rules w = Inr (ended1, rules', w1)"
    and rest: "w' = w1 \<or> ended \<and> (\<exists>w2. Socket_shutdown (logged os) h_owner SHUT_RDWR w1 = Inr w2 \<and> w' = w2\<lparr>ss_tcp := None\<rparr>)"
    using assms by (auto simp: tcp_main_def bind_result_eq_Inr split: if_splits)
  from rest have "sent_on fd (io_log w') = sent_on fd (io_log w1)" "received_on fd (io_log w') = received_on fd (io_log w1)"
    by (auto dest!: Socket_shutdown_silent [where fd = fd] simp: io_log_def)
  with loop rest show thesis by (intro that [of ended1 w1]) auto
qed

lemma FDWrapper_destroy_silent:
  "sent_on fd (io_log (FDWrapper_destroy (logged os) d io)) = sent_on fd (io_log io)"
  "received_on fd (io_log (FDWrapper_destroy (logged os) d io)) = received_on fd (io_log io)"
  by (auto simp: FDWrapper_destroy_def FileDescriptor_close_def logged_def with_log_def split_beta Let_def
      bind_result_def io_log_def on_fd_def split: sum.splits)

lemma copy_return_silent:
  "sent_on fd (io_log (copy_return (logged os) rules w)) = sent_on fd (io_log w)"
  "received_on fd (io_log (copy_return (logged os) rules w)) = received_on fd (io_log w)"
proof -
  have "sent_on fd (io_log (fold (FDWrapper_destroy (logged os)) ds w)) = sent_on fd (io_log w) \<and>
      received_on fd (io_log (fold (FDWrapper_destroy (logged os)) ds w)) = received_on fd (io_log w)" for ds
    by (induction ds arbitrary: w) (simp_all add: FDWrapper_destroy_silent)
  then show "sent_on fd (io_log (copy_return (logged os) rules w)) = sent_on fd (io_log w)"
    "received_on fd (io_log (copy_return (logged os) rules w)) = received_on fd (io_log w)"
    unfolding copy_return_def Let_def by blast+
qed

lemma owner_main_streams:
  assumes "kernel_ok os" "fd_num io h_socket = sock" "sock \<noteq> 0" "sock \<noteq> 1" "io_log io = []"
    and "owner_main fuel (logged os) io = Inr (at_join, w)"
  shows "prefix (sent_on sock (io_log w)) (received_on 0 (io_log w)) \<and>
    prefix (sent_on 1 (io_log w)) (received_on sock (io_log w))"
proof -
  obtain finished rules w1 where copy: "bidirectional_stream_copy fuel (logged os) io = Inr (finished, rules, w1)"
    and rest: "w = w1 \<or> Socket_shutdown (logged os) h_socket SHUT_RDWR (copy_return (logged os) rules w1) = Inr w"
    using assms(6) by (auto simp: owner_main_def wait_until_closed_def bind_result_eq_Inr split: if_splits)
  obtain w0 where start: "copy_start (logged os) io = Inr w0"
    and run: "rounds fuel (logged os) (- 1) (copy_rules (logged os)) w0 = Inr (finished, rules, w1)"
    using copy by (auto simp: bidirectional_stream_copy_def bind_result_eq_Inr)
  have "copy_inv os sock w1"
    using copy.rounds_law [OF copy_start_inv [OF assms(1-5) start] subset_refl run] by simp
  then have "prefix (sent_on sock (io_log w1)) (received_on 0 (io_log w1)) \<and>
    prefix (sent_on 1 (io_log w1)) (received_on sock (io_log w1))"
    by (auto simp: copy_inv_def flow_def)
  with rest show ?thesis by (auto simp: Socket_shutdown_silent copy_return_silent)
qed

text \<open>
  Claim C6. The programs \<open>tcp_ipv4\<close> and \<open>tcp_udp\<close> carry two streams end to end. Take any command line
  that leads to an open connection, with any loss rates, and let the connection's thread and the
  main thread run for any time; let the peer's segments keep its contract for a stream \<open>S\<close> in every
  state the socket can get into while fewer than \<open>n\<close> bytes have been written to it (\<open>n\<close> at most
  \<open>2 ^ 62\<close>), and the socket pair deliver to each end a prefix of what was written to the other. Then the
  bytes the program has written to standard output are a prefix of \<open>S\<close>, the connection has been fed
  a prefix of the program's standard input, and every segment it has waiting to be sent is valid for
  that prefix.
\<close>

theorem program_carries_streams:
  assumes "kernel_ok os" "kernel_ok os_main" "io_log io = []"
    and "program_opens fuel rand g resolve loss_rate random_device argv (logged os) isn io A cfg c_filt listen w (True, rules, w1)"
    and "fd_num w h_thread = pipe" "fd_num w h_datagram \<noteq> pipe" "fd_num w h_owner = sock" "sock \<notin> {0, 1}"
    and "tcp_main fuel' A (logged os) abort rules w1 = Inr (ended, rules', w2)"
    and "owner_main fuel'' (logged os_main) (owner_io (m, []) w1) = Inr (at_join, wm)"
    and "prefix (received_on sock (io_log wm)) (sent_on pipe (io_log w2))"
    and "prefix (received_on pipe (io_log w2)) (sent_on sock (io_log wm))"
    and "\<forall>w'. socket_reach A (logged os) cfg isn c_filt listen w w' \<longrightarrow> delivers (peer_good S peer_isn n) A os pipe w'"
    and "length S + cfg_recv_capacity cfg < 2 ^ 62" "cfg_send_capacity cfg < two64"
    and "length (received_on pipe (io_log w2)) < n" "n \<le> 2 ^ 62"
  shows "prefix (sent_on 1 (io_log wm)) S \<and>
    prefix (received_on pipe (io_log w2)) (received_on 0 (io_log wm)) \<and>
    (\<not> ended \<longrightarrow>
       (\<exists>c. ss_tcp w2 = Some c \<and>
         (\<forall>seg \<in> set (cn_segments_out c).
            seg_valid (sn_isn (cn_sender c)) (received_on pipe (io_log w2))
              (ByteStream_input_ended (sn_stream (cn_sender c))) seg)))"
proof -
  note sock = program_opens_socket [OF assms(4)]
  have log: "io_log w = []" using sock(2) assms(3) by simp
  obtain w3 ended3 where loop: "tcp_loop fuel' A (logged os) (\<lambda>_. True) abort rules w1 = Inr (ended3, rules', w3)"
    and open3: "ended \<or> w2 = w3" and same: "sent_on pipe (io_log w2) = sent_on pipe (io_log w3)" "received_on pipe (io_log w2) = received_on pipe (io_log w3)"
    by (rule tcp_main_streams [OF assms(9), of pipe])
  obtain c where c: "ss_tcp w3 = Some c" and sim: "simulates (peer_good S peer_isn n) (opened_conn listen cfg isn)
      (received_on pipe (io_log w2)) (sent_on pipe (io_log w2)) c"
    using datagram_adapter.life_run [OF sock(1) assms(1,5,6) log sock(3) loop, of "peer_good S peer_isn n"] assms(13)
    unfolding same by blast
  have "thread_inv os (fd_num w) pipe (peer_good S peer_isn n) (opened_conn listen cfg isn) w1"
    using datagram_adapter.opened_run [OF sock(1) assms(1,5,6) log sock(3), of "peer_good S peer_isn n"] assms(13)
    by (auto simp: thread_run_def)
  then have own: "fd_num w1 h_owner = sock" using assms(7) by (simp add: thread_inv_def)
  have main: "prefix (sent_on sock (io_log wm)) (received_on 0 (io_log wm)) \<and>
      prefix (sent_on 1 (io_log wm)) (received_on sock (io_log wm))"
    by (rule owner_main_streams [OF assms(2) _ _ _ _ assms(10)])
      (use own assms(8) in \<open>simp_all add: owner_io_def fd_num_def io_log_def\<close>)
  have "prefix (sent_on pipe (io_log w2)) S" and inv: "conn_inv S peer_isn (received_on pipe (io_log w2)) c"
    using good_run_stream [OF sim assms(14-17)] by auto
  then have "prefix (sent_on 1 (io_log wm)) S" "prefix (received_on pipe (io_log w2)) (received_on 0 (io_log wm))"
    using main assms(11,12) by (meson prefix_order.trans)+
  then show ?thesis using open3 c inv by (auto simp: conn_inv_def)
qed

section \<open>A run\<close>

text \<open>
  A system for the witness of a failing program: the second descriptor polled (the thread's end of
  the socket pair) is ready and holds two bytes.
\<close>

definition program_os :: "(int \<Rightarrow> bytes) kernel" where
  "program_os = pipe_os\<lparr>sys_socket := \<lambda>_ _ k. ((5, 0), k),
     sys_getsockopt := \<lambda>_ opt k. ((0, 0, if opt = SO_DOMAIN then AF_UNIX else SOCK_STREAM, 4), k)\<rparr>"

lemma program_os_ok: "kernel_ok program_os"
  using pipe_os_ok by (simp add: kernel_ok_def program_os_def)

lemma logged_program_os:
  "sys_read (logged program_os) = sys_read (logged pipe_os)" "sys_poll (logged program_os) = sys_poll (logged pipe_os)"
  "sys_clock (logged program_os) = sys_clock (logged pipe_os)"
  "sys_socket (logged program_os) dm ty (k, l) = ((5, 0), (k, l))"
  "sys_bind (logged program_os) fd a (k, l) = ((0, 0), (k, l))"
  "sys_socketpair (logged program_os) dm ty (k, l) = ((0, 0, 3, 4), (k, l))"
  "sys_getsockopt (logged program_os) fd opt (k, l) =
     ((0, 0, if opt = SO_DOMAIN then AF_UNIX else SOCK_STREAM, 4), (k, l))"
  "sys_getfl (logged program_os) fd (k, l) = ((0, 0), (k, l))"
  "sys_setfl (logged program_os) fd fl (k, l) = ((0, 0), (k, l))"
  by (simp_all add: logged_def small_os_def pipe_os_def program_os_def with_log_def silent_def Let_def)

definition program_argv :: "string list" where
  "program_argv = [''tcp_udp'', ''-l'', ''0'', ''9090'']"

definition any_resolver :: resolver where
  "any_resolver h s = Inr \<lparr>ad_ip = 0, ad_port = 9090\<rparr>"

definition program_filt :: FdAdapterConfig where
  "program_filt = FdAdapterConfig_default\<lparr>fc_source := \<lparr>ad_ip = 0, ad_port = 9090\<rparr>\<rparr>"

lemma program_config: "udp_get_config any_resolver (\<lambda>_. 0) program_argv = Inr (Continue (TCPConfig_default, program_filt, True))"
  using udp_command_line [of "[Listen]" any_resolver "\<lambda>_. 0" "''tcp_udp''" "''0''" "''9090''"]
  by (simp add: any_resolver_def program_argv_def udp_options_new_def program_filt_def)

definition program_io :: "(int \<Rightarrow> bytes) logging io" where
  "program_io = small_io (\<lambda>fd. if fd = 4 then [7, 8] else [])"

definition program_world :: "((int \<Rightarrow> bytes) logging, (unit, FdAdapterBase) LossyFdAdapter) sponge_world" where
  "program_world = \<lparr>io_kernel = io_kernel program_io,
     io_fds = (io_fds program_io)(h_datagram := open_fd 5, h_owner := open_fd 3, h_thread := open_fd 4),
     ss_tcp = None, ss_adapter = \<lparr>lo_rand = (), lo_adapter = FdAdapterBase_new\<rparr>,
     ss_inbound_shutdown = False, ss_outbound_shutdown = False, ss_fully_acked = False\<rparr>"

lemmas eval_program_socket = udp_socket_def Socket_new_def Socket_bind_def checked_call_def TCPSpongeSocket_new_def
  TCPSpongeSocket_of_pair_def socket_pair_helper_def Socket_of_fd_def check_sockopt_def set_blocking_def FileDescriptor_new_def FDWrapper_new_def
  on_fd_def fd_num_def SystemCall_def c_int_def program_io_def small_io_def program_world_def open_fd_def handle_defs
  AF_UNIX_def SOCK_STREAM_def SO_DOMAIN_def SO_TYPE_def O_NONBLOCK_def Let_def

lemma program_socket:
  "udp_socket (logged program_os) () True a program_io = Inr program_world"
  by (simp add: eval_program_socket logged_program_os)

text \<open>The connection of a listening program at its start.\<close>

definition program_c0 :: TCPConnection where
  "program_c0 = TCPConnection_new TCPConfig_default 0"

lemma program_c0_facts:
  "TCPConnection_active program_c0" "remaining_outbound_capacity program_c0 = 64000" "cn_segments_out program_c0 = []"
  "ByteStream_buffer_empty (inbound_stream program_c0)" "\<not> ByteStream_eof (inbound_stream program_c0)"
  "\<not> bs_error (inbound_stream program_c0)" "accepting program_c0"
  by (simp_all add: program_c0_def eval_conn accepting_def)

text \<open>
  \<open>tcp_udp 10.0.0.1 9090\<close> against the peer of \<open>Sponge_Socket\<close>, through the lossy adapter with no loss:
  the handshake succeeds, two bytes of standard input go to the connection, and the peer's byte
  comes out on standard output.
\<close>

definition client_argv :: "string list" where
  "client_argv = [''tcp_udp'', ''10.0.0.1'', ''9090'']"

definition peer_resolver :: resolver where
  "peer_resolver h s = Inr answering_address"

lemma client_config: "udp_get_config peer_resolver (\<lambda>_. 0) client_argv = Inr (Continue (TCPConfig_default, peer_filt, False))"
  using udp_command_line [of "[]" peer_resolver "\<lambda>_. 0" "''tcp_udp''" "''10.0.0.1''" "''9090''"]
  by (simp add: peer_resolver_def client_argv_def udp_options_new_def peer_filt_def)

definition client_io :: "(int \<Rightarrow> bytes) logging io" where
  "client_io = \<lparr>io_kernel = (peer_input, []), io_fds = \<lambda>d. open_fd (int d)\<rparr>"

lemma logged_peer_calls:
  "sys_socket (logged peer_os) dm ty (k, l) = ((5, 0), (k, l))"
  "sys_socketpair (logged peer_os) dm ty (k, l) = ((0, 0, 3, 4), (k, l))"
  "sys_getsockopt (logged peer_os) fd opt (k, l) = ((0, 0, if opt = SO_DOMAIN then AF_UNIX else SOCK_STREAM, 4), (k, l))"
  "sys_getfl (logged peer_os) fd (k, l) = ((0, 0), (k, l))" "sys_setfl (logged peer_os) fd fl (k, l) = ((0, 0), (k, l))"
  by (simp_all add: logged_def small_os_def peer_os_def with_log_def silent_def Let_def)

lemma client_socket:
  "udp_socket (logged peer_os) g False src client_io = Inr (peer_socket \<lparr>lo_rand = g, lo_adapter = FdAdapterBase_new\<rparr>)"
  by (simp add: eval_program_socket logged_peer_calls client_io_def peer_socket_def)
    (auto simp: peer_fds_def open_fd_def handle_defs)

lemma no_loss: "should_drop rand fa_cfg up \<lparr>lo_rand = g, lo_adapter = peer_adapter\<rparr> = (False, \<lparr>lo_rand = g, lo_adapter = peer_adapter\<rparr>)"
  by (simp add: should_drop_def Let_def peer_adapter_def peer_filt_def FdAdapterConfig_default_def)

interpretation lossy_peer: peer_port "lossy_adapter rand udp_adapter" "\<lparr>lo_rand = g, lo_adapter = peer_adapter\<rparr>" syn_wire
  for rand g
  by unfold_locales
    (simp_all add: lossy_adapter_def lossy_read_def lossy_write_def udp_adapter_def udp_peer_read udp_syn_write no_loss adapter_tick_def)

lemma client_reads_peer_seg:
  "adapter_read_world (lossy_adapter rand udp_adapter) (logged peer_os) w = Inr (Some seg, w') \<Longrightarrow> seg = peer_seg"
  by (auto simp: adapter_read_world_def lossy_adapter_def lossy_read_def udp_adapter_def bind_result_eq_Inr Let_def split_beta
      dest: udp_reads_peer_seg split: if_splits)

lemma client_copy:
  assumes "io_fds w1 h_owner = open_fd 3"
  shows "\<exists>wm. owner_main 4 (logged small_os) (owner_io (\<lambda>fd. if fd = 0 then [7, 8] else if fd = 3 then [9] else [], []) w1) = Inr (True, wm) \<and>
    sent_on 3 (io_log wm) = [7, 8] \<and> received_on 3 (io_log wm) = [9] \<and> received_on 0 (io_log wm) = [7, 8] \<and> sent_on 1 (io_log wm) = [9]"
  by (simp add: owner_main_def wait_until_closed_def copy_return_def FDWrapper_destroy_def owner_io_def assms open_fd_def
      eval_copy eval_read eval_write eval_syscalls rounds_numeral cong: bind_result_lazy)

theorem program_carries_streams_witness:
  "\<exists>rules w1 w2 wm c.
     udp_main 3 (logged peer_os) (\<lambda>g. (0, g)) () (\<lambda>_. False) 5 peer_resolver (\<lambda>_. 0) client_argv client_io =
       Inr (Continue (True, rules, w1)) \<and>
     tcp_main 2 (lossy_adapter (\<lambda>g. (0, g)) udp_adapter) (logged peer_os) (\<lambda>_. False) rules w1 = Inr (False, rules, w2) \<and>
     owner_main 4 (logged small_os) (owner_io (\<lambda>fd. if fd = 0 then [7, 8] else if fd = 3 then [9] else [], []) w1) = Inr (True, wm) \<and>
     received_on 5 (io_log w2) = peer_wire \<and> sent_on 1 (io_log wm) = [9] \<and> prefix (sent_on 1 (io_log wm)) [9] \<and>
     received_on 4 (io_log w2) = [7, 8] \<and> prefix (received_on 4 (io_log w2)) (received_on 0 (io_log wm)) \<and>
     ss_tcp w2 = Some c \<and> cn_segments_out c \<noteq> [] \<and>
     (\<forall>seg \<in> set (cn_segments_out c).
        seg_valid (sn_isn (cn_sender c)) [7, 8] (ByteStream_input_ended (sn_stream (cn_sender c))) seg)"
proof -
  let ?rand = "\<lambda>g :: unit. (0 :: uint32, g)" and ?os = "logged peer_os"
  let ?A = "lossy_adapter ?rand udp_adapter" and ?w = "peer_socket \<lparr>lo_rand = (), lo_adapter = FdAdapterBase_new\<rparr>"
  obtain w1 fds where run: "sponge_connect 3 ?A ?os TCPConfig_default 5 peer_filt (\<lambda>_. False) [] ?w = Inr (True, thread_rules ?A ?os, w1)"
    and w1: "w1 = peer_world \<lparr>lo_rand = (), lo_adapter = peer_adapter\<rparr> (peer_input(- 1 := [1, 2])) [Sent 5 syn_wire, Received 5 peer_wire] fds peer_c2"
      "all_ready fds" "\<And>d. fw_fd (fds d) = fw_fd (peer_fds d)" "fds h_owner = open_fd 3"
    using lossy_peer.handshake [of ?rand "\<lparr>lo_rand = (), lo_adapter = FdAdapterBase_new\<rparr>" peer_filt "()"]
    by (auto simp: lossy_adapter_def udp_adapter_def base_set_config_def peer_adapter_def)
  have main: "udp_main 3 ?os ?rand () (\<lambda>_. False) 5 peer_resolver (\<lambda>_. 0) client_argv client_io =
      Inr (Continue (True, thread_rules ?A ?os, w1))"
    using run by (simp add: udp_main_def client_config udp_open_def client_socket) (simp add: client_argv_def)
  have opens: "program_opens 3 ?rand () peer_resolver (\<lambda>_. 0) 0 client_argv ?os 5 client_io ?A
      TCPConfig_default peer_filt False ?w (True, thread_rules ?A ?os, w1)"
    using main by (simp add: program_opens_def client_config client_socket)
  obtain w2 where loop: "tcp_loop 2 ?A ?os (\<lambda>_. True) (\<lambda>_. False) (thread_rules ?A ?os) w1 = Inr (False, thread_rules ?A ?os, w2)"
    and w2: "io_log w2 = [Sent 5 syn_wire, Received 5 peer_wire, Received 4 [7, 8], Sent 4 [9]]" "ss_tcp w2 = Some peer_c4"
    using lossy_peer.conversation [OF w1(2,3), of ?rand "()" "[Sent 5 syn_wire, Received 5 peer_wire]"] unfolding w1(1) by auto
  have thread: "tcp_main 2 ?A ?os (\<lambda>_. False) (thread_rules ?A ?os) w1 = Inr (False, thread_rules ?A ?os, w2)"
    by (simp add: tcp_main_def loop) (simp add: w1(1))
  have "io_fds w1 h_owner = open_fd 3" using w1(1,4) by (simp add: peer_world_def)
  then obtain wm where copy: "owner_main 4 (logged small_os)
      (owner_io (\<lambda>fd. if fd = 0 then [7, 8] else if fd = 3 then [9] else [], []) w1) = Inr (True, wm)"
    and wm: "sent_on 3 (io_log wm) = [7, 8]" "received_on 3 (io_log wm) = [9]" "sent_on 1 (io_log wm) = [9]"
    using client_copy by blast
  have good: "\<forall>w'. socket_reach ?A ?os TCPConfig_default 5 peer_filt False ?w w' \<longrightarrow>
      delivers (peer_good [9] 9 (2 ^ 30)) ?A peer_os 4 w'"
    by (rule lossy_udp_port.always_delivers [OF peer_os_ok peer_socket_facts(1-4)], rule peer_delivers, assumption)
      (auto dest: client_reads_peer_seg)
  have "prefix (sent_on 1 (io_log wm)) [9] \<and> prefix (received_on 4 (io_log w2)) (received_on 0 (io_log wm)) \<and>
    (\<not> False \<longrightarrow> (\<exists>c. ss_tcp w2 = Some c \<and> (\<forall>seg \<in> set (cn_segments_out c).
       seg_valid (sn_isn (cn_sender c)) (received_on 4 (io_log w2)) (ByteStream_input_ended (sn_stream (cn_sender c))) seg)))"
    by (rule program_carries_streams [OF peer_os_ok small_os_ok _ opens peer_socket_facts(1,2,5) _ thread copy _ _ good])
      (use w2 wm in \<open>simp_all add: client_io_def io_log_def TCPConfig_default_def DEFAULT_CAPACITY_def two64_def\<close>)
  with main thread copy w2 wm peer_c4_facts(1) show ?thesis by auto
qed

text \<open>
  Claim C28. A program whose copying fails does not hang. When \<open>bidirectional_stream_copy\<close> or
  \<open>wait_until_closed\<close> throws, the destructor of the socket stores \<open>_abort\<close> and joins the thread, and the
  thread leaves its loop in the first iteration that sees the store: the program ends, with the
  exception's message and the failure status, unless the thread itself threw or met undefined
  behaviour.
\<close>

theorem failed_copy_ends_program:
  assumes "udp_main fuel os rand g (\<lambda>_. False) isn resolve loss_rate argv io = Inr (Continue (True, rules, w))"
    and "owner_main fuel os_main (owner_io m w) = Inl e" "exception_what strerror gai_strerror e = Some text"
    and "i < fuel" "abort i"
  shows "udp_program (exception_what strerror gai_strerror) fuel os_main m os abort rand g isn resolve loss_rate argv io =
    (case tcp_main fuel (lossy_adapter rand udp_adapter) os abort rules w of
       Inl f \<Rightarrow> (case exception_what strerror gai_strerror f of
                  None \<Rightarrow> Undefined f
                | Some t \<Rightarrow> Aborted (runner_thread @ t @ newline))
     | Inr _ \<Rightarrow> Exited EXIT_FAILURE (unclean_shutdown @ ''Exception: '' @ text @ newline))"
  unfolding udp_program_def assms(1)
  by (rule sponge_rest_failed [where i = i and abort = abort and what = "exception_what strerror gai_strerror", OF assms(2-5)])

text \<open>The other program ends alike.\<close>

lemma ipv4_failed_copy_ends_program:
  assumes "ipv4_main fuel os rand g (\<lambda>_. False) isn resolve loss_rate random_device argv io = Inr (Continue (True, rules, w))"
    and "owner_main fuel os_main (owner_io m w) = Inl e" "what e = Some text" "i < fuel" "abort i"
  shows "ipv4_program what fuel os_main m os abort rand g isn resolve loss_rate random_device argv io \<noteq> Running"
  unfolding ipv4_program_def assms(1) sponge_rest_failed [where i = i and abort = abort and what = what, OF assms(2-5)]
  by (simp split: sum.splits option.splits)

text \<open>
  A run for the witness: \<open>poll\<close> is interrupted by a signal, which the event loop takes for the end, so
  that listening returns at once; and the main thread cannot make its descriptors non-blocking.
\<close>

definition interrupted_os :: "(int \<Rightarrow> bytes) kernel" where
  "interrupted_os = program_os\<lparr>sys_poll := \<lambda>_ _ k. ((- 1, EINTR, \<lambda>_. 0), k)\<rparr>"

definition refusing_os :: "(int \<Rightarrow> bytes) kernel" where
  "refusing_os = small_os\<lparr>sys_getfl := \<lambda>_ k. ((- 1, 9), k)\<rparr>"

lemma logged_interrupted_os:
  "sys_clock (logged interrupted_os) (k, l) = (0, (k, l))"
  "sys_poll (logged interrupted_os) pfds ms (k, l) = ((- 1, EINTR, \<lambda>_. 0), (k, l))"
  "sys_socket (logged interrupted_os) = sys_socket (logged program_os)"
  "sys_bind (logged interrupted_os) = sys_bind (logged program_os)"
  "sys_socketpair (logged interrupted_os) = sys_socketpair (logged program_os)"
  "sys_getsockopt (logged interrupted_os) = sys_getsockopt (logged program_os)"
  "sys_getfl (logged interrupted_os) = sys_getfl (logged program_os)"
  "sys_setfl (logged interrupted_os) = sys_setfl (logged program_os)"
  "sys_shutdown (logged interrupted_os) fd how (k, l) = ((0, 0), (k, l @ [Shut fd how]))"
  by (simp_all add: logged_def small_os_def pipe_os_def program_os_def interrupted_os_def with_log_def silent_def Let_def)

lemma interrupted_socket:
  "udp_socket (logged interrupted_os) () True a program_io = Inr program_world"
  by (simp add: eval_program_socket logged_interrupted_os logged_program_os)

lemma interrupted_run:
  "\<exists>rules w1. listen_and_accept 1 (lossy_adapter rand udp_adapter) (logged interrupted_os) TCPConfig_default 0 program_filt
       (\<lambda>_. False) [] program_world = Inr (True, rules, w1) \<and>
     (\<exists>r. tcp_main 1 (lossy_adapter rand udp_adapter) (logged interrupted_os) (\<lambda>_. True) rules w1 = Inr r)"
  by (simp add: eval_socket eval_syscalls program_c0_facts lossy_adapter_def program_world_def tcp_main_def
      program_io_def small_io_def open_fd_def logged_interrupted_os EINTR_def Socket_shutdown_def checked_call_def shut_defs
      flip: program_c0_def cong: bind_result_lazy) blast

theorem failed_copy_ends_program_witness:
  "udp_program (exception_what (\<lambda>_. ''Bad file descriptor'') (\<lambda>_. '''')) 1 refusing_os (\<lambda>_. []) (logged interrupted_os) (\<lambda>_. True)
     (\<lambda>g. (0, g)) () 0 any_resolver (\<lambda>_. 0) program_argv program_io =
   Exited 1 (unclean_shutdown @ ''Exception: fcntl: Bad file descriptor'' @ newline)"
proof -
  let ?rand = "\<lambda>g :: unit. (0 :: uint32, g)"
  obtain rules w1 r where run: "listen_and_accept 1 (lossy_adapter ?rand udp_adapter) (logged interrupted_os) TCPConfig_default 0
      program_filt (\<lambda>_. False) [] program_world = Inr (True, rules, w1)"
    and thread: "tcp_main 1 (lossy_adapter ?rand udp_adapter) (logged interrupted_os) (\<lambda>_. True) rules w1 = Inr r"
    using interrupted_run by blast
  have main: "udp_main 1 (logged interrupted_os) ?rand () (\<lambda>_. False) 0 any_resolver (\<lambda>_. 0) program_argv program_io =
      Inr (Continue (True, rules, w1))"
    using run by (simp add: udp_main_def program_config udp_open_def interrupted_socket) (simp add: program_argv_def)
  have copy: "owner_main 1 refusing_os (owner_io (\<lambda>_. []) w1) = Inl (UnixError ''fcntl'' 9)"
    by (simp add: owner_main_def bidirectional_stream_copy_def copy_start_def FileDescriptor_new_def FDWrapper_new_def
        set_blocking_def refusing_os_def small_os_def owner_io_def SystemCall_def c_int_def Let_def)
  show ?thesis
    using failed_copy_ends_program [OF main copy, of "\<lambda>_. ''Bad file descriptor''" "\<lambda>_. ''''" _ 0 "\<lambda>_. True"] thread
    by (simp add: unix_error_def tagged_error_def EXIT_FAILURE_def)
qed

end
