(* ===== verification/Socket_Address.thy ===== *)
theory Socket_Address
  imports Text_Output Number_Text
begin

text \<open>
  \<open>Address\<close> as it is stored (\<open>src/libsponge/util/address.hh\<close>, \<open>address.cc\<close>): a \<open>sockaddr_storage\<close> of 128 bytes and
  the part of it that is used. The other theories take an address as its number and port; here the
  operations on the bytes are shown to be the ones used there.

  \<^item> \<open>getaddrinfo\<close> and \<open>getnameinfo\<close> are parameters; the constants and the layout of a \<open>sockaddr_in\<close> are those of
    Linux on a little-endian machine (family in host order, port and address in network order).
  \<^item> The copy that a constructor makes from a pointer is a fault when the object pointed to is
    shorter. Freeing the list of results has no effect on the address.
\<close>

unbundle bit_operations_syntax

section \<open>The class\<close>

definition AI_NUMERICHOST :: int where "AI_NUMERICHOST = 0x4"
definition AI_ALL :: int where "AI_ALL = 0x10"
definition AI_NUMERICSERV :: int where "AI_NUMERICSERV = 0x400"
definition NI_NUMERICHOST :: int where "NI_NUMERICHOST = 1"
definition NI_NUMERICSERV :: int where "NI_NUMERICSERV = 2"

record RawAddress =
  ra_size :: uint32
  ra_storage :: bytes

definition Address_of_sockaddr :: "bytes \<Rightarrow> size_t \<Rightarrow> RawAddress result" where
  "Address_of_sockaddr addr len =
     (if len > 128 then Inl (RuntimeError ''invalid sockaddr size'')
      else if length addr < len then Inl PastEndAccess
      else Inr \<lparr>ra_size = word_of_nat len, ra_storage = take len addr @ replicate (128 - len) 0\<rparr>)"

text \<open>The fields of \<open>struct addrinfo\<close> that hints use.\<close>

record addrinfo =
  ai_flags :: int
  ai_family :: int
  ai_socktype :: int
  ai_protocol :: int

definition make_hints :: "int \<Rightarrow> int \<Rightarrow> addrinfo" where
  "make_hints flags family = \<lparr>ai_flags = flags, ai_family = family, ai_socktype = 0, ai_protocol = 0\<rparr>"

text \<open>
  \<open>getaddrinfo\<close> returns its status and the first result, if any, with its length; \<open>getnameinfo\<close> its status
  and the two strings, which end at the first null character.
\<close>

type_synonym getaddrinfo = "string \<Rightarrow> string \<Rightarrow> addrinfo \<Rightarrow> int \<times> (bytes \<times> size_t) option"
type_synonym getnameinfo = "bytes \<Rightarrow> uint32 \<Rightarrow> nat \<Rightarrow> nat \<Rightarrow> int \<Rightarrow> int \<times> string \<times> string"

definition c_str :: "string \<Rightarrow> string" where
  "c_str s = takeWhile (\<lambda>c. c \<noteq> CHR 0x00) s"

definition Address_resolve :: "getaddrinfo \<Rightarrow> string \<Rightarrow> string \<Rightarrow> addrinfo \<Rightarrow> RawAddress result" where
  "Address_resolve gai node service hints =
     (let (gai_ret, resolved_address) = gai (c_str node) (c_str service) hints
      in if gai_ret \<noteq> 0 then Inl (GaiError (''getaddrinfo('' @ node @ '', '' @ service @ '')'') gai_ret)
         else case resolved_address of
                None \<Rightarrow> Inl (RuntimeError ''getaddrinfo returned successfully but with no results'')
              | Some (ai_addr, ai_addrlen) \<Rightarrow> Address_of_sockaddr ai_addr ai_addrlen)"

definition Address_of_host :: "getaddrinfo \<Rightarrow> string \<Rightarrow> string \<Rightarrow> RawAddress result" where
  "Address_of_host gai hostname service = Address_resolve gai hostname service (make_hints AI_ALL AF_INET)"

definition Address_of_ip :: "getaddrinfo \<Rightarrow> string \<Rightarrow> uint16 \<Rightarrow> RawAddress result" where
  "Address_of_ip gai ip port =
     Address_resolve gai ip (digits (unat port)) (make_hints (AI_NUMERICHOST OR AI_NUMERICSERV) AF_INET)"

text \<open>\<open>NI_MAXHOST\<close> is 1025 and \<open>NI_MAXSERV\<close> is 32. The port is narrowed to 16 bits.\<close>

definition raw_ip_port :: "getnameinfo \<Rightarrow> RawAddress \<Rightarrow> (string \<times> uint16) result" where
  "raw_ip_port gni a =
     (let (gni_ret, ip, port) =
            gni (ra_storage a) (ra_size a) 1025 32 (NI_NUMERICHOST OR NI_NUMERICSERV)
      in if gni_ret \<noteq> 0 then Inl (GaiError ''getnameinfo'' gni_ret)
         else bind_result (stoi (c_str port)) (\<lambda>p. Inr (c_str ip, word_of_int p)))"

definition raw_ip :: "getnameinfo \<Rightarrow> RawAddress \<Rightarrow> string result" where
  "raw_ip gni a = bind_result (raw_ip_port gni a) (\<lambda>(ip, port). Inr ip)"

definition raw_port :: "getnameinfo \<Rightarrow> RawAddress \<Rightarrow> uint16 result" where
  "raw_port gni a = bind_result (raw_ip_port gni a) (\<lambda>(ip, port). Inr port)"

definition raw_to_string :: "getnameinfo \<Rightarrow> RawAddress \<Rightarrow> string result" where
  "raw_to_string gni a =
     bind_result (raw_ip_port gni a) (\<lambda>(ip, port). Inr (ip @ '':'' @ digits (unat port)))"

text \<open>A \<open>sockaddr_in\<close>, 16 bytes: family, port, address and eight unused bytes.\<close>

definition sockaddr_in :: "uint16 \<Rightarrow> uint32 \<Rightarrow> bytes" where
  "sockaddr_in port ip = rev (be_bytes (word_of_int AF_INET :: uint16)) @ be_bytes port @ be_bytes ip @ replicate 8 0"

definition ss_family :: "bytes \<Rightarrow> uint16" where
  "ss_family storage = be_value (rev (take 2 storage))"

definition sin_port :: "bytes \<Rightarrow> uint16" where
  "sin_port storage = be_value (take 2 (drop 2 storage))"

definition sin_addr :: "bytes \<Rightarrow> uint32" where
  "sin_addr storage = be_value (take 4 (drop 4 storage))"

definition raw_ipv4_numeric :: "RawAddress \<Rightarrow> uint32 result" where
  "raw_ipv4_numeric a =
     (if ss_family (ra_storage a) \<noteq> word_of_int AF_INET \<or> ra_size a \<noteq> 16
      then Inl (RuntimeError ''ipv4_numeric called on non-IPV4 address'')
      else Inr (sin_addr (take (unat (ra_size a)) (ra_storage a))))"

definition raw_from_ipv4_numeric :: "uint32 \<Rightarrow> RawAddress result" where
  "raw_from_ipv4_numeric ip_address = Address_of_sockaddr (sockaddr_in 0 ip_address) 16"

text \<open>\<open>operator==\<close> compares the bytes in use.\<close>

definition Address_eq :: "RawAddress \<Rightarrow> RawAddress \<Rightarrow> bool" where
  "Address_eq a b \<longleftrightarrow>
     ra_size a = ra_size b \<and> take (unat (ra_size a)) (ra_storage a) = take (unat (ra_size a)) (ra_storage b)"

definition Address_neq :: "RawAddress \<Rightarrow> RawAddress \<Rightarrow> bool" where
  "Address_neq a b \<longleftrightarrow> \<not> Address_eq a b"

section \<open>Well-formed addresses\<close>

text \<open>The bytes in use fit the storage, and the others are zero.\<close>

definition RawAddress_wf :: "RawAddress \<Rightarrow> bool" where
  "RawAddress_wf a \<longleftrightarrow> unat (ra_size a) \<le> 128 \<and>
     (\<exists>used. length used = unat (ra_size a) \<and> ra_storage a = used @ replicate (128 - unat (ra_size a)) 0)"

lemma Address_of_sockaddr_wf: "Address_of_sockaddr addr len = Inr a \<Longrightarrow> RawAddress_wf a"
proof -
  have "unat (word_of_nat len :: uint32) = len" if "len \<le> 128"
    using that by (simp add: unat_of_nat take_bit_nat_eq_self)
  then show "Address_of_sockaddr addr len = Inr a \<Longrightarrow> RawAddress_wf a"
    by (auto simp: Address_of_sockaddr_def RawAddress_wf_def split: if_splits)
qed

lemma Address_resolve_wf: "Address_resolve gai node service hints = Inr a \<Longrightarrow> RawAddress_wf a"
  by (auto simp: Address_resolve_def Let_def split_beta split: if_splits option.splits
      intro: Address_of_sockaddr_wf)

text \<open>On well-formed addresses \<open>operator==\<close> is equality, so an equivalence.\<close>

lemma Address_eq_iff:
  assumes "RawAddress_wf a" "RawAddress_wf b"
  shows "Address_eq a b \<longleftrightarrow> a = b"
  using assms by (auto simp: RawAddress_wf_def Address_eq_def intro!: RawAddress.equality)

section \<open>IPv4 addresses\<close>

definition is_inet :: "RawAddress \<Rightarrow> bool" where
  "is_inet a \<longleftrightarrow> RawAddress_wf a \<and> ss_family (ra_storage a) = word_of_int AF_INET \<and> ra_size a = 16"

text \<open>The number and port such an address stands for.\<close>

definition inet_value :: "RawAddress \<Rightarrow> Address" where
  "inet_value a = \<lparr>ad_ip = sin_addr (ra_storage a), ad_port = sin_port (ra_storage a)\<rparr>"

lemma length_sockaddr_in [simp]: "length (sockaddr_in port ip) = 16"
  by (simp add: sockaddr_in_def)

lemma sockaddr_in_fields:
  "ss_family (sockaddr_in port ip @ zs) = word_of_int AF_INET"
  "sin_port (sockaddr_in port ip @ zs) = port" "sin_addr (sockaddr_in port ip @ zs) = ip"
  using be_value_be_bytes [of 2 "word_of_int AF_INET :: uint16"] be_value_be_bytes [of 2 port] be_value_be_bytes [of 4 ip]
  by (simp_all add: ss_family_def sin_port_def sin_addr_def sockaddr_in_def)

lemma Address_of_sockaddr_in:
  "\<exists>a. Address_of_sockaddr (sockaddr_in port ip) 16 = Inr a \<and> is_inet a \<and> inet_value a = \<lparr>ad_ip = ip, ad_port = port\<rparr>"
proof -
  obtain a where a: "Address_of_sockaddr (sockaddr_in port ip) 16 = Inr a" by (simp add: Address_of_sockaddr_def)
  then have "a = \<lparr>ra_size = 16, ra_storage = sockaddr_in port ip @ replicate 112 0\<rparr>" by (simp add: Address_of_sockaddr_def)
  then show ?thesis using a Address_of_sockaddr_wf [OF a] by (simp add: is_inet_def inet_value_def sockaddr_in_fields)
qed

lemma raw_ipv4_numeric_inet: "is_inet a \<Longrightarrow> raw_ipv4_numeric a = Inr (ipv4_numeric (inet_value a))"
  by (auto simp: is_inet_def raw_ipv4_numeric_def ipv4_numeric_def inet_value_def sin_addr_def drop_take)

section \<open>Numeric names\<close>

text \<open>
  What is documented of name resolution with the flags for numeric hosts and services: it converts
  between the bytes of an address and its text.
\<close>

definition numeric_hosts :: "getaddrinfo \<Rightarrow> bool" where
  "numeric_hosts gai \<longleftrightarrow>
     (\<forall>ip port. gai (inet_ntoa ip) (digits (unat (port :: uint16))) (make_hints (AI_NUMERICHOST OR AI_NUMERICSERV) AF_INET) =
        (0, Some (sockaddr_in port ip, 16)))"

definition numeric_names :: "getnameinfo \<Rightarrow> bool" where
  "numeric_names gni \<longleftrightarrow>
     (\<forall>a. is_inet a \<longrightarrow> gni (ra_storage a) (ra_size a) 1025 32 (NI_NUMERICHOST OR NI_NUMERICSERV) =
        (0, inet_ntoa (ad_ip (inet_value a)), digits (unat (ad_port (inet_value a)))))"

lemma c_str_plain: "CHR 0x00 \<notin> set s \<Longrightarrow> c_str s = s"
  unfolding c_str_def takeWhile_eq_all_conv by blast

lemma digits_codes: "c \<in> set (digits n) \<Longrightarrow> 48 \<le> (of_char c :: nat)"
  using digits_chars [of c n] by auto

lemma digits_plain: "CHR 0x00 \<notin> set (digits n)" "CHR ''.'' \<notin> set (digits n)"
  using digits_codes [of "CHR 0x00" n] digits_codes [of "CHR ''.''" n] by auto

lemma c_str_digits [simp]: "c_str (digits n) = digits n"
  using digits_plain(1) by (rule c_str_plain)

lemma c_str_inet_ntoa [simp]: "c_str (inet_ntoa ip) = inet_ntoa ip"
  by (rule c_str_plain) (simp add: inet_ntoa_def dotted_quad_def digits_plain)

text \<open>The class used in the other theories is implemented by the bytes.\<close>

lemma raw_ip_port_inet:
  assumes "numeric_names gni" "is_inet a"
  shows "raw_ip_port gni a = Inr (ip_port (inet_value a))"
proof -
  have port: "stoi (digits (unat p)) = Inr (int (unat p))" for p :: uint16
    using stoi_digits [of "unat p"] unsigned_less [of p, where ?'a = nat] by simp
  have "gni (ra_storage a) (ra_size a) 1025 32 (NI_NUMERICHOST OR NI_NUMERICSERV) =
      (0, inet_ntoa (ad_ip (inet_value a)), digits (unat (ad_port (inet_value a))))"
    using assms by (simp add: numeric_names_def)
  then show ?thesis by (simp add: raw_ip_port_def port ip_port_def)
qed

lemma raw_to_string_inet:
  "numeric_names gni \<Longrightarrow> is_inet a \<Longrightarrow> raw_to_string gni a = Inr (Address_to_string (inet_value a))"
  by (simp add: raw_to_string_def raw_ip_port_inet Address_to_string_def ip_port_def)

lemma Address_of_ip_eq:
  "numeric_hosts gai \<Longrightarrow> Address_of_ip gai (inet_ntoa ip) port = Address_of_sockaddr (sockaddr_in port ip) 16"
  by (simp add: Address_of_ip_def Address_resolve_def numeric_hosts_def)

lemma Address_of_ip_inet:
  "numeric_hosts gai \<Longrightarrow>
   \<exists>a. Address_of_ip gai (inet_ntoa ip) port = Inr a \<and> is_inet a \<and> inet_value a = \<lparr>ad_ip = ip, ad_port = port\<rparr>"
  using Address_of_sockaddr_in by (simp add: Address_of_ip_eq)

text \<open>A name service of that kind: the text is split at the dots.\<close>

fun dot_fields :: "string \<Rightarrow> string list" where
  "dot_fields [] = [[]]"
| "dot_fields (c # cs) =
     (if c = CHR ''.'' then [] # dot_fields cs
      else case dot_fields cs of [] \<Rightarrow> [[c]] | f # fs \<Rightarrow> (c # f) # fs)"

lemma dot_fields_last: "CHR ''.'' \<notin> set s \<Longrightarrow> dot_fields s = [s]"
  by (induction s) auto

lemma dot_fields_Cons: "CHR ''.'' \<notin> set s \<Longrightarrow> dot_fields (s @ CHR ''.'' # rest) = s # dot_fields rest"
  by (induction s) auto

definition text_bytes :: "string \<Rightarrow> bytes" where
  "text_bytes s = map (\<lambda>f. word_of_nat (digits_value 10 f)) (dot_fields s)"

definition plain_gai :: getaddrinfo where
  "plain_gai node service hints =
     (0, Some (sockaddr_in (word_of_nat (digits_value 10 service)) (be_value (text_bytes node)), 16))"

definition plain_gni :: getnameinfo where
  "plain_gni storage len hostlen servlen flags = (0, inet_ntoa (sin_addr storage), digits (unat (sin_port storage)))"

lemma text_bytes_inet_ntoa: "text_bytes (inet_ntoa ip) = be_bytes ip"
  by (simp add: text_bytes_def inet_ntoa_def dotted_quad_def dot_fields_Cons dot_fields_last digits_plain
      digits_value_digits be_bytes_def upt_conv_Cons)

lemma plain_numeric: "numeric_hosts plain_gai" "numeric_names plain_gni"
  by (simp_all add: numeric_hosts_def plain_gai_def digits_value_digits text_bytes_inet_ntoa be_value_be_bytes [of 4]
      numeric_names_def plain_gni_def inet_value_def)

section \<open>Properties\<close>

text \<open>
  Claim C30. Whichever constructor an address comes from, and whatever name resolution has answered, it
  is well formed: the bytes in use fit the storage and the others are zero, so \<open>operator==\<close> on such
  addresses is equality. A numeric address is always constructed.
\<close>

theorem address_well_formed:
  assumes "Address_of_sockaddr addr len = Inr a \<or> Address_of_host gai node service = Inr a \<or>
    Address_of_ip gai ip port = Inr a \<or> raw_from_ipv4_numeric number = Inr a"
  shows "RawAddress_wf a \<and> (\<forall>b. RawAddress_wf b \<longrightarrow> (Address_eq a b \<longleftrightarrow> a = b) \<and> (Address_neq a b \<longleftrightarrow> a \<noteq> b)) \<and>
    (\<exists>c. raw_from_ipv4_numeric number = Inr c)"
proof -
  have "RawAddress_wf a"
    using assms Address_of_sockaddr_wf Address_resolve_wf
    by (auto simp: Address_of_host_def Address_of_ip_def raw_from_ipv4_numeric_def)
  moreover have "\<exists>c. raw_from_ipv4_numeric number = Inr c"
    using Address_of_sockaddr_in unfolding raw_from_ipv4_numeric_def by blast
  ultimately show ?thesis using Address_eq_iff by (auto simp: Address_neq_def)
qed

theorem address_well_formed_witness:
  "\<exists>a. raw_from_ipv4_numeric 0x01020304 = Inr a \<and> RawAddress_wf a \<and> Address_eq a a"
proof -
  obtain a where a: "raw_from_ipv4_numeric 0x01020304 = Inr a"
    using Address_of_sockaddr_in unfolding raw_from_ipv4_numeric_def by blast
  then have "Address_of_sockaddr [] 0 = Inr a \<or> Address_of_host plain_gai [] [] = Inr a \<or>
    Address_of_ip plain_gai [] 0 = Inr a \<or> raw_from_ipv4_numeric 0x01020304 = Inr a" by simp
  from address_well_formed [OF this] a show ?thesis by auto
qed

text \<open>
  Claim C31. Round trips of an IPv4 address: the number put into one by \<open>from_ipv4_numeric\<close> is the one
  \<open>ipv4_numeric\<close> gives back, and the dotted text and port it is constructed from are the ones \<open>ip_port\<close>
  returns, for every name service that converts numeric names; \<open>to_string\<close> joins the two with a colon.
\<close>

theorem address_roundtrip:
  assumes "numeric_hosts gai" "numeric_names gni"
  shows "\<exists>a b. raw_from_ipv4_numeric ip = Inr a \<and> raw_ipv4_numeric a = Inr ip \<and> raw_ip_port gni a = Inr (inet_ntoa ip, 0) \<and>
    Address_of_ip gai (inet_ntoa ip) port = Inr b \<and> raw_ipv4_numeric b = Inr ip \<and>
    raw_ip_port gni b = Inr (inet_ntoa ip, port) \<and>
    raw_to_string gni b = Inr (inet_ntoa ip @ '':'' @ digits (unat port)) \<and> (Address_eq a b \<longleftrightarrow> port = 0)"
proof -
  obtain a where a: "raw_from_ipv4_numeric ip = Inr a" "is_inet a" "inet_value a = \<lparr>ad_ip = ip, ad_port = 0\<rparr>"
    using Address_of_sockaddr_in unfolding raw_from_ipv4_numeric_def by blast
  obtain b where b: "Address_of_ip gai (inet_ntoa ip) port = Inr b" "is_inet b" "inet_value b = \<lparr>ad_ip = ip, ad_port = port\<rparr>"
    using Address_of_ip_inet [OF assms(1)] by blast
  have "b = a" if "port = 0"
    using a(1) b(1) that by (simp add: raw_from_ipv4_numeric_def Address_of_ip_eq [OF assms(1)])
  moreover have "port = 0" if "a = b" using a(3) b(3) that by simp
  ultimately have "Address_eq a b \<longleftrightarrow> port = 0" using Address_eq_iff [of a b] a(2) b(2) unfolding is_inet_def by blast
  then show ?thesis
    using a b raw_ipv4_numeric_inet [OF a(2)] raw_ipv4_numeric_inet [OF b(2)] raw_ip_port_inet [OF assms(2) a(2)]
      raw_ip_port_inet [OF assms(2) b(2)] raw_to_string_inet [OF assms(2) b(2)]
    by (simp add: ipv4_numeric_def ip_port_def Address_to_string_def)
qed

theorem address_roundtrip_witness:
  "\<exists>b. Address_of_ip plain_gai (inet_ntoa 0xA9FE9001) 9090 = Inr b \<and> raw_ipv4_numeric b = Inr 0xA9FE9001 \<and>
    raw_ip_port plain_gni b = Inr (inet_ntoa 0xA9FE9001, 9090)"
  using address_roundtrip [OF plain_numeric, of "0xA9FE9001" 9090] by blast

end
