(* ===== verification/Spec2Isabelle.thy ===== *)
theory Spec2Isabelle
  imports Connection_Behaviour Loop_Progress Benchmark Programs Socket_Address
begin

text \<open>
  \<^bold>\<open>Verification of the sponge TCP implementation (NetworkLabs).\<close>

  The repository is a user-space TCP: \<open>src/libsponge/\<close> holds a byte stream, a stream reassembler,
  32-bit wrapping sequence numbers, a receiver, a sender, and the connection that joins them;
  \<open>src/libsponge/tcp_helpers/\<close> the wire formats, the state summaries, the adapters to UDP and TUN
  descriptors and the threaded socket; \<open>src/libsponge/util/\<close> buffers, parsers, the checksum and
  wrappers around system calls; \<open>src/apps/\<close> programs built on the socket. Bytes written by the
  application go into the sender's \<open>ByteStream\<close>, leave in segments through \<open>fill_window\<close> and the
  connection's \<open>updateOutput\<close>, cross the network through an adapter (serialized with checksums into
  an IPv4 datagram), reach the peer's connection, whose receiver pushes payloads into the
  reassembler, which writes the contiguous prefix into the peer's inbound \<open>ByteStream\<close>.
  Acknowledgments and windows travel back the same way.

  \<^bold>\<open>Theories, in dependency order\<close>

  \<^item> \<open>Prelude\<close>: the machine types (\<open>size_t\<close> and \<open>uint64_t\<close> as \<open>nat\<close> with the wrap-around written out by
    \<open>add64\<close> and \<open>sub64\<close>; narrower integers are words), faults (exceptions and undefined behaviour) as
    the left side of a result, runs of a component (\<open>run\<close>, \<open>allowed\<close>), and the locale
    \<open>guarded_system\<close>: a component whose every allowed call succeeds and keeps an invariant.
  \<^item> \<open>Byte_Stream\<close> (\<open>byte_stream.hh/.cc\<close>): the bounded byte queue; the locale \<open>byte_channel\<close> is its
    contract, interpreted as \<open>bs\<close>. Shown: first-in-first-out for every sequence of writes, peeks, pops
    and reads; end of input then drain gives \<open>eof\<close>.
  \<^item> \<open>Stream_Reassembler\<close>, \<open>Reassembler_Correct\<close>, \<open>Reassembler_Stream\<close> (\<open>stream_reassembler.hh/.cc\<close>): the
    map of pending substrings as a sorted association list, \<open>cutData\<close> and \<open>push_substring\<close> line by line,
    including the reads through \<open>end()\<close> and the use of an erased node; the invariant (sorted,
    disjoint, beyond the expected index, agreeing with one stream); the theorems for any order
    and overlap of pushes inside the window.
  \<^item> \<open>Wrapping_Integers\<close> (\<open>wrapping_integers.hh/.cc\<close>): \<open>wrap\<close> and \<open>unwrap\<close>; closest representative and round
    trip for checkpoints below 2\<open>^\<close>63 - 2\<open>^\<close>31, and the failure beyond.
  \<^item> \<open>Buffers\<close>, \<open>Net_Parser\<close>, \<open>Internet_Checksum\<close> (\<open>util/buffer.hh/.cc\<close>, \<open>util/parser.hh/.cc\<close>,
    \<open>util/util.hh/.cc\<close>): the byte containers with the locale \<open>byte_view\<close>, integer codecs with the locale
    \<open>wire_codec\<close>, the ones' complement checksum.
  \<^item> \<open>Tcp_Segment\<close>, \<open>Ipv4\<close> (\<open>tcp_helpers/tcp_header\<close>, \<open>tcp_segment\<close>, \<open>ipv4_header\<close>, \<open>ipv4_datagram\<close>): wire
    formats; round trips, and exactly what a parse accepts.
  \<^item> \<open>Tcp_Receiver\<close> (\<open>tcp_receiver.hh/.cc\<close>): receiver state and the acknowledgment it gives
    (interpretation \<open>rc\<close>).
  \<^item> \<open>Tcp_Sender\<close>, \<open>Sender_Correct\<close>, \<open>Sender_Runs\<close> (\<open>tcp_sender.hh/.cc\<close>, \<open>tcp_helpers/tcp_config.hh\<close>): the
    unacknowledged queue, the timer, the segment makers, \<open>fill_window\<close>, \<open>ack_received\<close>, \<open>tick\<close>; the
    invariant; safety of every run (interpretation \<open>sn\<close>), maximality of \<open>fill_window\<close>, retransmission,
    and what happens when the peer breaks the contract.
  \<^item> \<open>Half_Connection\<close>, \<open>Closed_Loop\<close>: a sender and a receiver connected to each other. The stream is cut into
    segments at indices that only grow in number (\<open>cuts_ok\<close>), acknowledgments fall on them, and the
    window announced covers what is in flight; so the contracts of the two sides close, and the
    system (interpretation \<open>nt\<close>) needs no assumption on its environment.
  \<^item> \<open>Loop_Progress\<close>: the same system never gets stuck (interpretation \<open>lv\<close>): a retransmission always carries
    something, a receiver whose application reads has room for it, and its answer moves the sender
    forward; so every reachable state has a continuation that completes the transfer.
  \<^item> \<open>Tcp_Connection\<close>, \<open>Tcp_State\<close>, \<open>Connection_Handlers\<close>, \<open>Connection_Correct\<close>, \<open>Connection_Behaviour\<close>
    (\<open>tcp_connection.hh/.cc\<close>, \<open>tcp_helpers/tcp_state.hh/.cc\<close>): every member function of the endpoint and the
    state summaries. The locale \<open>endpoint_laws\<close> says what an invariant has to keep under the calls the
    connection makes to its sender and receiver, and carries it through whole handlers; it is
    interpreted for one endpoint with a contract-keeping peer (\<open>ci\<close>) and for two connected ones (\<open>lw\<close>).
    Shown: safety of every run (interpretation \<open>cn\<close>); the official state sequences of active, passive
    and simultaneous closing for all configurations; resets, retransmission limit, and departures.
  \<^item> \<open>Duplex\<close>, \<open>Two_Endpoints\<close>: two connections and the network between them. A direction (\<open>linked\<close>) joins the
    sender of one with the receiver of the other and with the acknowledgments that ride on the
    segments of the way back; the pair is a \<open>guarded_system\<close> (interpretation \<open>pr\<close>) whose guard is
    always true.
  \<^item> \<open>Benchmark\<close> (\<open>apps/tcp_benchmark.cc\<close>): the transfer between two connections in one process, an instance of
    the two endpoints; its own check of the bytes received never fails.
  \<^item> \<open>Fd_Adapter\<close> (\<open>tcp_helpers/fd_adapter\<close>, \<open>tcp_over_ip\<close>, \<open>tuntap_adapter\<close>, \<open>lossy_fd_adapter\<close>): the
    adapters; the locale \<open>fd_adapter\<close> is their contract, interpreted for TUN (\<open>tun\<close>) and UDP (\<open>udp\<close>);
    delivery across the wire, accepting, filtering, random loss.
  \<^item> \<open>File_Descriptor\<close> (\<open>util/file_descriptor\<close>, \<open>socket\<close>, \<open>tun\<close>, \<open>SystemCall\<close> of \<open>util\<close>): descriptors and sockets
    over a record \<open>kernel\<close> of system calls, a parameter about which the model assumes nothing; \<open>logged os\<close>
    is the kernel \<open>os\<close> that also records every transfer. Shown: what \<open>write\<close> has delivered when it
    returns, and that it returns.
  \<^item> \<open>Event_Loop\<close> (\<open>util/eventloop.hh/.cc\<close>): rules with closures over the world of a program, and one round
    of the loop; a round refines a sequence of actions of the rules, so the locale \<open>event_program\<close>
    carries an invariant of the rules to every run.
  \<^item> \<open>Stream_Copy\<close> (\<open>apps/bidirectional_stream_copy.cc\<close>): the copy loop of the applications as an
    \<open>event_program\<close> (interpretation \<open>copy\<close>); it neither corrupts, reorders nor duplicates.
  \<^item> \<open>Endpoint_Streams\<close>: the bytes the owner of a connection reads along a run, and the peer's contract
    without ghost positions (interpretation \<open>ep\<close>).
  \<^item> \<open>Sponge_Socket\<close> (\<open>tcp_helpers/tcp_sponge_socket.hh/.cc\<close>): the thread that runs a connection between
    its owner's pipe and an adapter. The locale \<open>datagram_adapter\<close> is what the thread relies on,
    interpreted for the four adapters of the source; the thread is an \<open>event_program\<close> (a \<open>sublocale\<close>) that
    refines the connection. \<open>socket_step\<close> is the thread as a step relation, for an active or a passive
    opening; the assumption on the network is that the adapter \<open>delivers\<close> contract-keeping segments in
    every state reached by it while fewer than a given number of bytes were written. The locale
    \<open>peer_port\<close> is what the witnesses need of an adapter: over a system whose every arriving datagram
    is the peer's SYN with its first byte, the handshake completes and the byte reaches the owner.
  \<^item> \<open>Text_Output\<close> (\<open>hexdump\<close>, \<open>to_string\<close>, \<open>summary\<close>): the text the program prints; the one pass of \<open>hexdump\<close>
    is equivalent to a table described row by row.
  \<^item> \<open>Number_Text\<close>, \<open>Socket_Address\<close> (\<open>util/address\<close>): numbers as text, and addresses as the bytes of a
    \<open>sockaddr_storage\<close>, with \<open>getaddrinfo\<close> and \<open>getnameinfo\<close> as parameters. The other theories use an address as its
    number and port; here the operations on the bytes are shown to implement that.
  \<^item> \<open>Packet_Dump\<close> (\<open>apps/udp_tcpdump.cc\<close>): the packet dump over \<open>libpcap\<close> as a parameter; which packets make
    it fail, and what it prints for a segment.
  \<^item> \<open>Command_Line\<close> (\<open>apps/tcp_ipv4.cc\<close>, \<open>tcp_udp.cc\<close>): option loops, with the locale \<open>option_loop\<close> interpreted
    for both programs (\<open>ipv4_cl\<close>, \<open>udp_cl\<close>), and \<open>main\<close> up to the established connection.
  \<^item> \<open>Native_Apps\<close> (\<open>apps/webget.cc\<close>, \<open>tcp_native.cc\<close>, \<open>tun.cc\<close>): the programs on the system's own sockets;
    \<open>webget\<close> prints exactly what it receives, up to the end of the response.
  \<^item> \<open>Programs\<close>: all programs up to their exit status, and the two threads of \<open>tcp_ipv4\<close> and \<open>tcp_udp\<close> put
    together: standard output is a prefix of the peer's stream, what is sent comes from standard
    input, and a failure of one thread ends the program.

  \<^bold>\<open>State and effects.\<close> Every class is a record with the fields of the source, prefixed; a member
  function takes the record and returns it updated, with its return value. References between
  members (the connection's \<open>_segQueueFromSender\<close>) are the field they refer to. \<open>shared_ptr\<close> storage is
  immutable after construction in this code, so a \<open>Buffer\<close> is a value. An operation that can throw
  or run into undefined behaviour returns a sum, with the fault named. Random numbers, the
  arriving bytes and the passing of time are arguments.

  \<^bold>\<open>Ghost data.\<close> Theorems about runs carry what the code does not store: the byte stream of the
  peer, the stream index of a payload and the absolute acknowledgment number. The hypotheses on
  the environment (\<open>recv_ok\<close>, \<open>send_ok\<close>, \<open>conn_ok\<close>) say that a peer sends parts of one stream inside the
  advertised window and acknowledges segment boundaries that were sent without shrinking the
  window below what is in flight; \<open>overrun_use_after_free\<close>, \<open>overrun_exceeds_capacity\<close>,
  \<open>partial_ack_leaves_stale_size\<close> and \<open>shrunk_window_floods\<close> show what the code does without them. The
  first read of the map's front goes through \<open>end()\<close>, which C++ leaves undefined; the reassembler's
  theorems hold for every value such a read may give.

  \<^bold>\<open>Bounds and loops.\<close> Streams are assumed shorter than 2\<open>^\<close>62 bytes (so that 64-bit counters do not
  wrap), in the theorems about connected sides shorter than 2\<open>^\<close>31 - 2 (so that every number on the
  network is unwrapped to the one meant), with receive capacities below 2\<open>^\<close>16 (the width of the window
  field); packets are at most 65535 bytes. \<open>cutBack\<close>, \<open>fillLoop\<close>, \<open>eraseLoop\<close>, \<open>value_loop\<close> and \<open>write_loop\<close> are
  total functions with termination proofs, so the loops they model always end. The loops that
  wait for events or packets (\<open>rounds\<close>, \<open>tcp_loop_from\<close>, \<open>bench_while\<close>, \<open>dump_loop\<close>, \<open>web_loop\<close>, \<open>tun_dump_loop\<close>) may run for
  ever; there fuel counts the rounds, the result says whether the loop has ended, and the theorems
  hold for every number of rounds.

  \<^bold>\<open>Not modelled.\<close> Debugging messages, name resolution and floating-point parsing (parameters), the
  interleaving of two threads inside one system call (each thread has its own kernel, whose state
  stands for what the others do), the clock and the throughput of the benchmark, tests and build
  files.
\<close>

end
